(* ===== verification/Moss_Prelude.thy ===== *)
theory Moss_Prelude
  imports Main "HOL-Library.Word" "HOL-Library.Multiset"
begin

text \<open>
  The vocabulary every component of the development shares.

  \<^item> Machine integers keep their width: \<open>byte\<close>, \<open>u16\<close>, \<open>u32\<close>, \<open>u64\<close>.  A \<open>size_t\<close> that
    counts the bytes of a buffer held in memory is the \<open>nat\<close> length of the list that models
    the buffer; a \<open>uint32_t\<close> offset whose wrap-around matters is a \<open>u32\<close>.
  \<^item> A buffer is the list of bytes that may be read through the pointer.  Reading or writing
    outside of it, which C++ leaves undefined, is the fault \<open>Out_Of_Bounds\<close>; the exceptions
    of \<open>exceptions.h\<close> are faults too, so every way an operation can end is a value of \<open>'a res\<close>.
  \<^item> \<open>rbind\<close> sequences operations that may fail; \<open>rguard\<close> is a check that throws.
\<close>

section \<open>Machine integers and faults\<close>

type_synonym byte = "8 word"
type_synonym u16 = "16 word"
type_synonym u32 = "32 word"
type_synonym u64 = "64 word"

datatype fault =
    Truncated_Message            \<comment> \<open>\<open>truncated_message\<close>\<close>
  | Parse_Error int              \<comment> \<open>\<open>parse_error\<close> with its \<open>m_line\<close>\<close>
  | Overlong_Message u32         \<comment> \<open>\<open>overlong_message\<close> with the claimed length\<close>
  | Logic_Error                  \<comment> \<open>\<open>std::logic_error\<close>\<close>
  | Out_Of_Bounds                \<comment> \<open>an access outside of an object: undefined behaviour\<close>
  | Uninitialized                \<comment> \<open>a value read before anything was stored\<close>
  | Use_After_Free               \<comment> \<open>an access through a pointer to a deleted object\<close>
  | Null_Pointer                 \<comment> \<open>an access through \<open>NULL\<close>\<close>

type_synonym 'a res = "fault + 'a"

definition rbind :: "'a res \<Rightarrow> ('a \<Rightarrow> 'b res) \<Rightarrow> 'b res" where
  "rbind m f = (case m of Inl e \<Rightarrow> Inl e | Inr x \<Rightarrow> f x)"

definition rguard :: "bool \<Rightarrow> fault \<Rightarrow> unit res" where
  "rguard b e = (if b then Inr () else Inl e)"

lemma rbind_Inl [simp]: "rbind (Inl e) f = Inl e"
  by (simp add: rbind_def)

lemma rbind_Inr [simp]: "rbind (Inr x) f = f x"
  by (simp add: rbind_def)

lemma rbind_eq_Inr: "rbind m f = Inr y \<longleftrightarrow> (\<exists>x. m = Inr x \<and> f x = Inr y)"
  by (cases m) auto

lemma rbind_eq_Inl: "rbind m f = Inl e \<longleftrightarrow> m = Inl e \<or> (\<exists>x. m = Inr x \<and> f x = Inl e)"
  by (cases m) auto

lemma rbind_assoc: "rbind (rbind m f) g = rbind m (\<lambda>x. rbind (f x) g)"
  by (cases m) auto

lemma rbind_cong [fundef_cong]:
  "m = m' \<Longrightarrow> (\<And>x. m' = Inr x \<Longrightarrow> f x = f' x) \<Longrightarrow> rbind m f = rbind m' f'"
  by (cases m') auto

lemma rguard_True [simp]: "rguard True e = Inr ()"
  by (simp add: rguard_def)

lemma rguard_False [simp]: "rguard False e = Inl e"
  by (simp add: rguard_def)

lemma rguard_eq_Inr [simp]: "rguard b e = Inr u \<longleftrightarrow> b"
  by (simp add: rguard_def)

lemma rguard_eq_Inl [simp]: "rguard b e = Inl e' \<longleftrightarrow> \<not> b \<and> e' = e"
  by (auto simp: rguard_def)

named_theorems res_simps "results of operations that may fail"
lemmas [res_simps] = rbind_eq_Inr rbind_eq_Inl

section \<open>Reading and writing a buffer\<close>

text \<open>
  \<open>slice off n buf\<close> is what \<open>memcpy(dst, buf + off, n)\<close> reads; \<open>put off bs buf\<close> is the buffer
  after \<open>memcpy(buf + off, bs, ...)\<close> wrote the bytes \<open>bs\<close>.
\<close>

definition slice :: "nat \<Rightarrow> nat \<Rightarrow> byte list \<Rightarrow> byte list res" where
  "slice off n buf =
     (if off + n \<le> length buf then Inr (take n (drop off buf)) else Inl Out_Of_Bounds)"

definition get8 :: "byte list \<Rightarrow> nat \<Rightarrow> byte res" where
  "get8 buf off = (if off < length buf then Inr (buf ! off) else Inl Out_Of_Bounds)"

definition put :: "nat \<Rightarrow> byte list \<Rightarrow> byte list \<Rightarrow> byte list res" where
  "put off bs buf =
     (if off + length bs \<le> length buf
      then Inr (take off buf @ bs @ drop (off + length bs) buf) else Inl Out_Of_Bounds)"

lemma slice_eq_Inr [simp]:
  "slice off n buf = Inr bs \<longleftrightarrow> off + n \<le> length buf \<and> bs = take n (drop off buf)"
  by (auto simp: slice_def)

lemma slice_eq_Inl [simp]:
  "slice off n buf = Inl e \<longleftrightarrow> length buf < off + n \<and> e = Out_Of_Bounds"
  by (auto simp: slice_def)

lemma slice_length: "slice off n buf = Inr bs \<Longrightarrow> length bs = n"
  by auto

lemma slice_ok: "off + n \<le> length buf \<Longrightarrow> \<exists>bs. slice off n buf = Inr bs \<and> length bs = n"
  by auto

lemma get8_ok: "off < length buf \<Longrightarrow> get8 buf off = Inr (buf ! off)"
  by (simp add: get8_def)

lemma slice_append1: "off + n \<le> length xs \<Longrightarrow> slice off n (xs @ ys) = slice off n xs"
  by (simp add: slice_def)

lemma slice_append2:
  "length xs \<le> off \<Longrightarrow> slice off n (xs @ ys) = slice (off - length xs) n ys"
  by (auto simp: slice_def)

lemma slice_skip [simp]: "slice (length xs + k) n (xs @ ys) = slice k n ys"
  by (simp add: slice_append2)

lemma slice_prefix [simp]: "slice 0 (length xs) (xs @ ys) = Inr xs"
  by (simp add: slice_def)

lemma get8_eq_Inr [simp]: "get8 buf off = Inr b \<longleftrightarrow> off < length buf \<and> b = buf ! off"
  by (auto simp: get8_def)

lemma get8_eq_Inl [simp]:
  "get8 buf off = Inl e \<longleftrightarrow> length buf \<le> off \<and> e = Out_Of_Bounds"
  by (auto simp: get8_def)

lemma get8_skip [simp]: "get8 (xs @ ys) (length xs + k) = get8 ys k"
  by (simp add: get8_def nth_append)

lemma get8_drop: "get8 (drop k buf) off = get8 buf (k + off)"
  by (auto simp: get8_def)

lemma slice_drop: "k \<le> length buf \<Longrightarrow> slice off n (drop k buf) = slice (k + off) n buf"
  by (auto simp: slice_def add.commute)

lemma put_length: "put off bs buf = Inr buf' \<Longrightarrow> length buf' = length buf"
  by (auto simp: put_def split: if_splits)

lemma put_put_end:
  "put (length a) b (a @ c) = (if length b \<le> length c then Inr (a @ b @ drop (length b) c)
     else Inl Out_Of_Bounds)"
  by (simp add: put_def)

section \<open>Lists\<close>

lemma take_drop_append: "take n (drop k xs) @ take m (drop (k + n) xs) = take (n + m) (drop k xs)"
  by (simp add: take_add add.commute [of k])

lemma swap_mset:
  assumes "i < length s" and "j < length s"
  shows "mset (s[i := s ! j, j := s ! i]) = mset s"
  using assms mset_swap [of j s i] by (cases "i = j") (simp_all add: list_update_swap)

lemma nth_swap:
  "i < length xs \<Longrightarrow> j < length xs \<Longrightarrow> k < length xs \<Longrightarrow>
   xs[i := xs ! j, j := xs ! i] ! k = (if k = j then xs ! i else if k = i then xs ! j else xs ! k)"
  by (simp add: nth_list_update)

lemma unat_of_nat_u32: "n < 2 ^ 32 \<Longrightarrow> unat (of_nat n :: u32) = n"
  by (simp add: unat_of_nat take_bit_nat_eq_self_iff)

lemma unat_add_u32:
  fixes a b :: u32
  shows "unat a + unat b < 2 ^ 32 \<Longrightarrow> unat (a + b) = unat a + unat b"
  by (simp add: unat_word_ariths)

lemma unat_u32_less: "unat (x :: u32) < 2 ^ 32"
  by (rule order.strict_trans2 [OF unsigned_less]) simp

lemma unat_u16_less: "unat (x :: u16) < 2 ^ 16"
  by (rule order.strict_trans2 [OF unsigned_less]) simp

lemma unat_byte_less: "unat (x :: byte) < 256"
  by (rule order.strict_trans2 [OF unsigned_less]) simp

text \<open>A model of \<open>new uint8_t[n]\<close>: some bytes, but so many.\<close>

definition alloc_ok :: "(nat \<Rightarrow> byte list) \<Rightarrow> bool" where
  "alloc_ok alloc \<longleftrightarrow> (\<forall>n. length (alloc n) = n)"

end
