(* ===== verification/Wire.thy ===== *)
theory Wire
  imports Moss_Prelude
begin

text \<open>
  \<open>machine_arch.h\<close>: reading and writing little-endian integers at any offset of a network
  buffer, as the strict-alignment routines do it byte by byte.
\<close>

unbundle bit_operations_syntax

section \<open>Little-endian integers\<close>

fun le16 :: "byte list \<Rightarrow> u16" where
  "le16 (b0 # b1 # _) = ucast b0 OR push_bit 8 (ucast b1)"
| "le16 _ = 0"

fun le32 :: "byte list \<Rightarrow> u32" where
  "le32 (b0 # b1 # b2 # b3 # _) =
     ucast b0 OR push_bit 8 (ucast b1) OR push_bit 16 (ucast b2) OR push_bit 24 (ucast b3)"
| "le32 _ = 0"

definition bytes16 :: "u16 \<Rightarrow> byte list" where
  "bytes16 v = [ucast (v AND 0xFF), ucast (drop_bit 8 v AND 0xFF)]"

definition bytes32 :: "u32 \<Rightarrow> byte list" where
  "bytes32 v = [ucast (v AND 0xFF), ucast (drop_bit 8 v AND 0xFF),
                ucast (drop_bit 16 v AND 0xFF), ucast (drop_bit 24 v AND 0xFF)]"

definition read16 :: "byte list \<Rightarrow> nat \<Rightarrow> u16 res" where
  "read16 buf off = rbind (slice off 2 buf) (\<lambda>bs. Inr (le16 bs))"

definition read32 :: "byte list \<Rightarrow> nat \<Rightarrow> u32 res" where
  "read32 buf off = rbind (slice off 4 buf) (\<lambda>bs. Inr (le32 bs))"

definition write16 :: "byte list \<Rightarrow> nat \<Rightarrow> u16 \<Rightarrow> byte list res" where
  "write16 buf off val = put off (bytes16 val) buf"

definition write32 :: "byte list \<Rightarrow> nat \<Rightarrow> u32 \<Rightarrow> byte list res" where
  "write32 buf off val = put off (bytes32 val) buf"

lemma length_bytes16 [simp]: "length (bytes16 v) = 2"
  by (simp add: bytes16_def)

lemma length_bytes32 [simp]: "length (bytes32 v) = 4"
  by (simp add: bytes32_def)

lemma byte_mask: "(0xFF :: 'a::len word) = mask 8"
  by (simp add: mask_eq_exp_minus_1)

lemma low_byte [simp]: "ucast (v AND 0xFF :: 'a::len word) = (ucast v :: byte)"
  unfolding byte_mask by (rule bit_word_eqI) (auto simp: bit_simps dest: bit_imp_le_length)

lemma le16_bytes16 [simp]: "le16 (bytes16 v @ xs) = v"
  unfolding bytes16_def
  by (simp, rule bit_word_eqI) (auto simp: bit_simps)

lemma le32_bytes32 [simp]: "le32 (bytes32 v @ xs) = v"
proof -
  have "bit (le32 (bytes32 v @ xs)) n = bit v n" if "n < 32" for n
  proof -
    consider "n < 8" | "8 \<le> n \<and> n < 16" | "16 \<le> n \<and> n < 24" | "24 \<le> n" by arith
    then show ?thesis
      using that by cases (auto simp: bytes32_def bit_simps)
  qed
  then show ?thesis by (intro bit_word_eqI) simp
qed

lemma bytes16_le16:
  assumes "length bs = 2"
  shows "bytes16 (le16 bs) = bs"
proof -
  obtain a b where bs: "bs = [a, b]"
    using assms by (auto simp: numeral_2_eq_2 length_Suc_conv)
  have "ucast (le16 bs) = a" and "ucast (drop_bit 8 (le16 bs)) = b"
    unfolding bs by (rule bit_word_eqI; auto simp: bit_simps dest: bit_imp_le_length)+
  then show ?thesis by (simp add: bytes16_def bs)
qed

lemma bytes32_le32:
  assumes "length bs = 4"
  shows "bytes32 (le32 bs) = bs"
proof -
  obtain a b c d where bs: "bs = [a, b, c, d]"
    using assms by (auto simp: numeral_eq_Suc length_Suc_conv)
  have "ucast (le32 bs) = a" and "ucast (drop_bit 8 (le32 bs)) = b"
    and "ucast (drop_bit 16 (le32 bs)) = c" and "ucast (drop_bit 24 (le32 bs)) = d"
    unfolding bs by (rule bit_word_eqI; auto simp: bit_simps dest: bit_imp_le_length)+
  then show ?thesis by (simp add: bytes32_def bs)
qed

section \<open>Reads in a buffer that was built up from pieces\<close>

lemma read16_Inr: "read16 buf off = Inr v \<longleftrightarrow> off + 2 \<le> length buf \<and> v = le16 (take 2 (drop off buf))"
  by (auto simp: read16_def res_simps)

lemma read32_Inr: "read32 buf off = Inr v \<longleftrightarrow> off + 4 \<le> length buf \<and> v = le32 (take 4 (drop off buf))"
  by (auto simp: read32_def res_simps)

lemma read16_Inl: "read16 buf off = Inl e \<longleftrightarrow> length buf < off + 2 \<and> e = Out_Of_Bounds"
  by (auto simp: read16_def res_simps)

lemma read32_Inl: "read32 buf off = Inl e \<longleftrightarrow> length buf < off + 4 \<and> e = Out_Of_Bounds"
  by (auto simp: read32_def res_simps)

lemma read16_skip [simp]: "read16 (xs @ ys) (length xs + k) = read16 ys k"
  by (simp add: read16_def)

lemma read32_skip [simp]: "read32 (xs @ ys) (length xs + k) = read32 ys k"
  by (simp add: read32_def)

lemma read16_at [simp]: "read16 (xs @ ys) (length xs) = read16 ys 0"
  using read16_skip [of xs ys 0] by simp

lemma read32_at [simp]: "read32 (xs @ ys) (length xs) = read32 ys 0"
  using read32_skip [of xs ys 0] by simp

lemma read16_bytes16 [simp]: "read16 (bytes16 v @ ys) 0 = Inr v"
  using le16_bytes16 [of v "[]"] by (simp add: read16_Inr)

lemma read32_bytes32 [simp]: "read32 (bytes32 v @ ys) 0 = Inr v"
  using le32_bytes32 [of v "[]"] by (simp add: read32_Inr)

text \<open>Reading what was just written, and everything the write did not touch.\<close>

lemma write32_Inr:
  "write32 buf off v = Inr buf' \<longleftrightarrow>
     off + 4 \<le> length buf \<and> buf' = take off buf @ bytes32 v @ drop (off + 4) buf"
  by (auto simp: write32_def put_def)

lemma write16_Inr:
  "write16 buf off v = Inr buf' \<longleftrightarrow>
     off + 2 \<le> length buf \<and> buf' = take off buf @ bytes16 v @ drop (off + 2) buf"
  by (auto simp: write16_def put_def)

lemma read32_write32:
  "write32 buf off v = Inr buf' \<Longrightarrow> read32 buf' off = Inr v"
  using read32_at [of "take off buf" "bytes32 v @ drop (off + 4) buf"]
  by (auto simp: write32_Inr)

lemma read32_write32_other:
  assumes "write32 buf off v = Inr buf'" and "off' + 4 \<le> off \<or> off + 4 \<le> off'"
  shows "read32 buf' off' = read32 buf off'"
proof -
  from assms(1) have b: "off + 4 \<le> length buf"
    and buf': "buf' = take off buf @ bytes32 v @ drop (off + 4) buf"
    by (auto simp: write32_Inr)
  from assms(2) show ?thesis
  proof
    assume l: "off' + 4 \<le> off"
    with b have "slice off' 4 buf' = slice off' 4 (take off buf)"
      unfolding buf' by (simp add: slice_append1)
    also have "\<dots> = slice off' 4 buf"
      using slice_append1 [of off' 4 "take off buf" "drop off buf"] l b by simp
    finally show ?thesis by (simp add: read32_def)
  next
    assume r: "off + 4 \<le> off'"
    then obtain k where k: "off' = off + 4 + k" by (auto simp: le_iff_add)
    have "read32 buf' off' = read32 (drop (off + 4) buf) k"
      using read32_skip [of "take off buf @ bytes32 v" "drop (off + 4) buf" k] b
      by (simp add: buf' k)
    also have "\<dots> = read32 buf off'"
      using b by (simp add: read32_def slice_drop k)
    finally show ?thesis .
  qed
qed

end
