(* ===== verification/Vault_Schema.thy ===== *)
theory Vault_Schema
  imports Wire
begin

text \<open>
  The static data of \<open>VaultNode.cc\<close>: the bits of a vault node (\<open>vault_bitfield_e\<close>), the data
  type each bit has on the wire (\<open>colspecs\<close>), and for every node type the columns it may
  carry (\<open>ColumnSpec\<close>), with the look-ups \<open>all_bits_for_type\<close>, \<open>get_spec\<close> and
  \<open>tablename_for_type\<close>.  The lemmas relate the tables to each other: the 32 rows of \<open>colspecs\<close>
  are the 32 bits in order, and every column a node type lists has the wire type that
  \<open>colspecs\<close> gives to its bit.
\<close>

section \<open>Node types, column data types and bits\<close>

datatype vault_nodetype =
    InvalidNode
  | CCRNode
  | PlayerNode
  | AgeNode
  | FolderNode
  | PlayerInfoNode
  | SystemNode
  | ImageNode
  | TextNoteNode
  | SDLNode
  | AgeLinkNode
  | ChronicleNode
  | PlayerInfoListNode
  | AgeInfoNode
  | AgeInfoListNode
  | MarkergameNode
  | UnlistedNode u32   \<comment> \<open>a value of the field that no enumerator names\<close>

definition vault_nodetype_of :: "u32 \<Rightarrow> vault_nodetype" where
  "vault_nodetype_of v =
     (if v = 0x0 then InvalidNode
      else if v = 0x1 then CCRNode
      else if v = 0x2 then PlayerNode
      else if v = 0x3 then AgeNode
      else if v = 0x16 then FolderNode
      else if v = 0x17 then PlayerInfoNode
      else if v = 0x18 then SystemNode
      else if v = 0x19 then ImageNode
      else if v = 0x1a then TextNoteNode
      else if v = 0x1b then SDLNode
      else if v = 0x1c then AgeLinkNode
      else if v = 0x1d then ChronicleNode
      else if v = 0x1e then PlayerInfoListNode
      else if v = 0x21 then AgeInfoNode
      else if v = 0x22 then AgeInfoListNode
      else if v = 0x23 then MarkergameNode
      else UnlistedNode v)"

datatype vault_datatype = Int_T | UInt_T | UUID_T | String_T | Blob_T

definition NodeID :: u32 where "NodeID = 0x00000001"
definition CreateTime :: u32 where "CreateTime = 0x00000002"
definition ModifyTime :: u32 where "ModifyTime = 0x00000004"
definition CreateAgeName :: u32 where "CreateAgeName = 0x00000008"
definition CreateAgeUUID :: u32 where "CreateAgeUUID = 0x00000010"
definition CreatorAcctID :: u32 where "CreatorAcctID = 0x00000020"
definition CreatorID :: u32 where "CreatorID = 0x00000040"
definition NodeType :: u32 where "NodeType = 0x00000080"
definition Int32_1 :: u32 where "Int32_1 = 0x00000100"
definition Int32_2 :: u32 where "Int32_2 = 0x00000200"
definition Int32_3 :: u32 where "Int32_3 = 0x00000400"
definition Int32_4 :: u32 where "Int32_4 = 0x00000800"
definition UInt32_1 :: u32 where "UInt32_1 = 0x00001000"
definition UInt32_2 :: u32 where "UInt32_2 = 0x00002000"
definition UInt32_3 :: u32 where "UInt32_3 = 0x00004000"
definition UInt32_4 :: u32 where "UInt32_4 = 0x00008000"
definition UUID_1 :: u32 where "UUID_1 = 0x00010000"
definition UUID_2 :: u32 where "UUID_2 = 0x00020000"
definition UUID_3 :: u32 where "UUID_3 = 0x00040000"
definition UUID_4 :: u32 where "UUID_4 = 0x00080000"
definition String64_1 :: u32 where "String64_1 = 0x00100000"
definition String64_2 :: u32 where "String64_2 = 0x00200000"
definition String64_3 :: u32 where "String64_3 = 0x00400000"
definition String64_4 :: u32 where "String64_4 = 0x00800000"
definition String64_5 :: u32 where "String64_5 = 0x01000000"
definition String64_6 :: u32 where "String64_6 = 0x02000000"
definition IString64_1 :: u32 where "IString64_1 = 0x04000000"
definition IString64_2 :: u32 where "IString64_2 = 0x08000000"
definition Text_1 :: u32 where "Text_1 = 0x10000000"
definition Text_2 :: u32 where "Text_2 = 0x20000000"
definition Blob_1 :: u32 where "Blob_1 = 0x40000000"
definition Blob_2 :: u32 where "Blob_2 = 0x80000000"

lemmas bitfield_defs =
  NodeID_def CreateTime_def ModifyTime_def CreateAgeName_def CreateAgeUUID_def CreatorAcctID_def CreatorID_def NodeType_def Int32_1_def Int32_2_def Int32_3_def Int32_4_def UInt32_1_def UInt32_2_def UInt32_3_def UInt32_4_def UUID_1_def UUID_2_def UUID_3_def UUID_4_def String64_1_def String64_2_def String64_3_def String64_4_def String64_5_def String64_6_def IString64_1_def IString64_2_def Text_1_def Text_2_def Blob_1_def Blob_2_def

definition colspecs :: "(u32 \<times> vault_datatype) list" where
  "colspecs =
     [(NodeID, UInt_T),
      (CreateTime, UInt_T),
      (ModifyTime, UInt_T),
      (CreateAgeName, String_T),
      (CreateAgeUUID, UUID_T),
      (CreatorAcctID, UUID_T),
      (CreatorID, UInt_T),
      (NodeType, Int_T),
      (Int32_1, Int_T),
      (Int32_2, Int_T),
      (Int32_3, Int_T),
      (Int32_4, Int_T),
      (UInt32_1, UInt_T),
      (UInt32_2, UInt_T),
      (UInt32_3, UInt_T),
      (UInt32_4, UInt_T),
      (UUID_1, UUID_T),
      (UUID_2, UUID_T),
      (UUID_3, UUID_T),
      (UUID_4, UUID_T),
      (String64_1, String_T),
      (String64_2, String_T),
      (String64_3, String_T),
      (String64_4, String_T),
      (String64_5, String_T),
      (String64_6, String_T),
      (IString64_1, String_T),
      (IString64_2, String_T),
      (Text_1, String_T),
      (Text_2, String_T),
      (Blob_1, Blob_T),
      (Blob_2, Blob_T)]"

section \<open>The columns of each node type\<close>

record ColumnSpec =
  spec_bit :: u32
  spec_datatype :: vault_datatype
  col_name :: string
  fetch_name :: string
  fetch_required :: bool

definition CommonBits :: u32 where
  "CommonBits = NodeID OR NodeType OR CreateTime OR ModifyTime OR CreatorAcctID OR CreatorID"

definition CommonSpec :: "ColumnSpec list" where
  "CommonSpec =
     [\<lparr>spec_bit = NodeID, spec_datatype = UInt_T, col_name = ''nodeid'', fetch_name = [], fetch_required = False\<rparr>,
      \<lparr>spec_bit = NodeType, spec_datatype = Int_T, col_name = ''nodetype'', fetch_name = ''v_nodetype'', fetch_required = True\<rparr>,
      \<lparr>spec_bit = CreateTime, spec_datatype = UInt_T, col_name = ''createtime'', fetch_name = ''v_createtime'', fetch_required = True\<rparr>,
      \<lparr>spec_bit = ModifyTime, spec_datatype = UInt_T, col_name = ''modifytime'', fetch_name = ''v_modifytime'', fetch_required = True\<rparr>,
      \<lparr>spec_bit = CreatorAcctID, spec_datatype = UUID_T, col_name = ''creatoracctid'', fetch_name = ''v_creatoracctid'', fetch_required = True\<rparr>,
      \<lparr>spec_bit = CreatorID, spec_datatype = UInt_T, col_name = ''creatorid'', fetch_name = ''v_creatorid'', fetch_required = True\<rparr>]"

definition CreateAgeBits :: u32 where
  "CreateAgeBits = CreateAgeName OR CreateAgeUUID"

definition CreateAgeSpec :: "ColumnSpec list" where
  "CreateAgeSpec =
     [\<lparr>spec_bit = CreateAgeName, spec_datatype = String_T, col_name = ''createagename'', fetch_name = ''v_createagename'', fetch_required = False\<rparr>,
      \<lparr>spec_bit = CreateAgeUUID, spec_datatype = UUID_T, col_name = ''createageuuid'', fetch_name = ''v_createageuuid'', fetch_required = False\<rparr>]"

definition AgeNodeBits :: u32 where
  "AgeNodeBits = UUID_1 OR UUID_2 OR String64_1"

definition AgeNodeSpec :: "ColumnSpec list" where
  "AgeNodeSpec =
     [\<lparr>spec_bit = UUID_1, spec_datatype = UUID_T, col_name = ''uuid_1'', fetch_name = ''v_uuid_1'', fetch_required = True\<rparr>,
      \<lparr>spec_bit = UUID_2, spec_datatype = UUID_T, col_name = ''uuid_2'', fetch_name = ''v_uuid_2'', fetch_required = False\<rparr>,
      \<lparr>spec_bit = String64_1, spec_datatype = String_T, col_name = ''filename'', fetch_name = ''v_filename'', fetch_required = True\<rparr>]"

definition AgeInfoNodeBits :: u32 where
  "AgeInfoNodeBits = Int32_1 OR Int32_2 OR Int32_3 OR UInt32_1 OR UInt32_2 OR UInt32_3 OR UUID_1 OR UUID_2 OR String64_2 OR String64_3 OR String64_4 OR Text_1"

definition AgeInfoNodeSpec :: "ColumnSpec list" where
  "AgeInfoNodeSpec =
     [\<lparr>spec_bit = Int32_1, spec_datatype = Int_T, col_name = ''int32_1'', fetch_name = ''v_int32_1'', fetch_required = True\<rparr>,
      \<lparr>spec_bit = Int32_2, spec_datatype = Int_T, col_name = ''int32_2'', fetch_name = ''v_int32_2'', fetch_required = False\<rparr>,
      \<lparr>spec_bit = Int32_3, spec_datatype = Int_T, col_name = ''int32_3'', fetch_name = ''v_int32_3'', fetch_required = True\<rparr>,
      \<lparr>spec_bit = UInt32_1, spec_datatype = UInt_T, col_name = ''uint32_1'', fetch_name = ''v_uint32_1'', fetch_required = True\<rparr>,
      \<lparr>spec_bit = UInt32_2, spec_datatype = UInt_T, col_name = ''uint32_2'', fetch_name = ''v_uint32_2'', fetch_required = True\<rparr>,
      \<lparr>spec_bit = UInt32_3, spec_datatype = UInt_T, col_name = ''uint32_3'', fetch_name = ''v_uint32_3'', fetch_required = True\<rparr>,
      \<lparr>spec_bit = UUID_1, spec_datatype = UUID_T, col_name = ''uuid_1'', fetch_name = ''v_uuid_1'', fetch_required = True\<rparr>,
      \<lparr>spec_bit = UUID_2, spec_datatype = UUID_T, col_name = ''uuid_2'', fetch_name = ''v_uuid_2'', fetch_required = False\<rparr>,
      \<lparr>spec_bit = String64_2, spec_datatype = String_T, col_name = ''string64_2'', fetch_name = ''v_string64_2'', fetch_required = True\<rparr>,
      \<lparr>spec_bit = String64_3, spec_datatype = String_T, col_name = ''string64_3'', fetch_name = ''v_string64_3'', fetch_required = True\<rparr>,
      \<lparr>spec_bit = String64_4, spec_datatype = String_T, col_name = ''string64_4'', fetch_name = ''v_string64_4'', fetch_required = False\<rparr>,
      \<lparr>spec_bit = Text_1, spec_datatype = String_T, col_name = ''text_1'', fetch_name = ''v_text_1'', fetch_required = False\<rparr>]"

definition AgeInfoListNodeBits :: u32 where
  "AgeInfoListNodeBits = Int32_1"

definition AgeInfoListNodeSpec :: "ColumnSpec list" where
  "AgeInfoListNodeSpec =
     [\<lparr>spec_bit = Int32_1, spec_datatype = Int_T, col_name = ''type'', fetch_name = ''v_type'', fetch_required = True\<rparr>]"

definition AgeLinkNodeBits :: u32 where
  "AgeLinkNodeBits = Int32_1 OR Int32_2 OR Blob_1"

definition AgeLinkNodeSpec :: "ColumnSpec list" where
  "AgeLinkNodeSpec =
     [\<lparr>spec_bit = Int32_1, spec_datatype = Int_T, col_name = ''shared'', fetch_name = ''v_int32_1'', fetch_required = False\<rparr>,
      \<lparr>spec_bit = Int32_2, spec_datatype = Int_T, col_name = ''volatile'', fetch_name = ''v_int32_2'', fetch_required = False\<rparr>,
      \<lparr>spec_bit = Blob_1, spec_datatype = Blob_T, col_name = ''linkpoints'', fetch_name = ''v_linkpoints'', fetch_required = False\<rparr>]"

definition ChronicleNodeBits :: u32 where
  "ChronicleNodeBits = Int32_1 OR String64_1 OR Text_1"

definition ChronicleNodeSpec :: "ColumnSpec list" where
  "ChronicleNodeSpec =
     [\<lparr>spec_bit = Int32_1, spec_datatype = Int_T, col_name = ''type'', fetch_name = ''v_type'', fetch_required = False\<rparr>,
      \<lparr>spec_bit = String64_1, spec_datatype = String_T, col_name = ''name'', fetch_name = ''v_name'', fetch_required = True\<rparr>,
      \<lparr>spec_bit = Text_1, spec_datatype = String_T, col_name = ''value'', fetch_name = ''v_value'', fetch_required = True\<rparr>]"

definition FolderNodeBits :: u32 where
  "FolderNodeBits = Int32_1 OR String64_1"

definition FolderNodeSpec :: "ColumnSpec list" where
  "FolderNodeSpec =
     [\<lparr>spec_bit = Int32_1, spec_datatype = Int_T, col_name = ''type'', fetch_name = ''v_type'', fetch_required = False\<rparr>,
      \<lparr>spec_bit = String64_1, spec_datatype = String_T, col_name = ''name'', fetch_name = ''v_name'', fetch_required = False\<rparr>]"

definition ImageNodeBits :: u32 where
  "ImageNodeBits = Int32_1 OR String64_1 OR Blob_1"

definition ImageNodeSpec :: "ColumnSpec list" where
  "ImageNodeSpec =
     [\<lparr>spec_bit = Int32_1, spec_datatype = Int_T, col_name = ''exists'', fetch_name = ''v_exists'', fetch_required = True\<rparr>,
      \<lparr>spec_bit = String64_1, spec_datatype = String_T, col_name = ''name'', fetch_name = ''v_name'', fetch_required = True\<rparr>,
      \<lparr>spec_bit = Blob_1, spec_datatype = Blob_T, col_name = ''image'', fetch_name = ''v_image'', fetch_required = False\<rparr>]"

definition MarkergameNodeBits :: u32 where
  "MarkergameNodeBits = Text_1 OR UUID_1"

definition MarkergameNodeSpec :: "ColumnSpec list" where
  "MarkergameNodeSpec =
     [\<lparr>spec_bit = Text_1, spec_datatype = String_T, col_name = ''name'', fetch_name = ''v_name'', fetch_required = True\<rparr>,
      \<lparr>spec_bit = UUID_1, spec_datatype = UUID_T, col_name = ''uuid_1'', fetch_name = ''v_uuid_1'', fetch_required = True\<rparr>]"

definition PlayerNodeBits :: u32 where
  "PlayerNodeBits = Int32_1 OR Int32_2 OR UInt32_1 OR UUID_1 OR UUID_2 OR String64_1 OR IString64_1"

definition PlayerNodeSpec :: "ColumnSpec list" where
  "PlayerNodeSpec =
     [\<lparr>spec_bit = Int32_1, spec_datatype = Int_T, col_name = ''int32_1'', fetch_name = ''v_int32_1'', fetch_required = True\<rparr>,
      \<lparr>spec_bit = Int32_2, spec_datatype = Int_T, col_name = ''int32_2'', fetch_name = ''v_int32_2'', fetch_required = True\<rparr>,
      \<lparr>spec_bit = UInt32_1, spec_datatype = UInt_T, col_name = ''uint32_1'', fetch_name = ''v_uint32_1'', fetch_required = True\<rparr>,
      \<lparr>spec_bit = UUID_1, spec_datatype = UUID_T, col_name = ''uuid_1'', fetch_name = ''v_uuid_1'', fetch_required = True\<rparr>,
      \<lparr>spec_bit = UUID_2, spec_datatype = UUID_T, col_name = ''uuid_2'', fetch_name = ''v_uuid_2'', fetch_required = False\<rparr>,
      \<lparr>spec_bit = String64_1, spec_datatype = String_T, col_name = ''gender'', fetch_name = ''v_gender'', fetch_required = True\<rparr>,
      \<lparr>spec_bit = IString64_1, spec_datatype = String_T, col_name = ''name'', fetch_name = ''v_name'', fetch_required = True\<rparr>]"

definition PlayerInfoNodeBits :: u32 where
  "PlayerInfoNodeBits = Int32_1 OR UInt32_1 OR UUID_1 OR String64_1 OR IString64_1"

definition PlayerInfoNodeSpec :: "ColumnSpec list" where
  "PlayerInfoNodeSpec =
     [\<lparr>spec_bit = Int32_1, spec_datatype = Int_T, col_name = ''online'', fetch_name = ''v_online'', fetch_required = False\<rparr>,
      \<lparr>spec_bit = UInt32_1, spec_datatype = UInt_T, col_name = ''ki'', fetch_name = ''v_ki'', fetch_required = True\<rparr>,
      \<lparr>spec_bit = UUID_1, spec_datatype = UUID_T, col_name = ''uuid_1'', fetch_name = ''v_uuid_1'', fetch_required = False\<rparr>,
      \<lparr>spec_bit = String64_1, spec_datatype = String_T, col_name = ''string64_1'', fetch_name = ''v_string64_1'', fetch_required = False\<rparr>,
      \<lparr>spec_bit = IString64_1, spec_datatype = String_T, col_name = ''name'', fetch_name = ''v_name'', fetch_required = True\<rparr>]"

definition PlayerInfoListNodeBits :: u32 where
  "PlayerInfoListNodeBits = Int32_1"

definition PlayerInfoListNodeSpec :: "ColumnSpec list" where
  "PlayerInfoListNodeSpec =
     [\<lparr>spec_bit = Int32_1, spec_datatype = Int_T, col_name = ''type'', fetch_name = ''v_type'', fetch_required = True\<rparr>]"

definition SDLNodeBits :: u32 where
  "SDLNodeBits = Int32_1 OR String64_1 OR Blob_1"

definition SDLNodeSpec :: "ColumnSpec list" where
  "SDLNodeSpec =
     [\<lparr>spec_bit = Int32_1, spec_datatype = Int_T, col_name = ''int32_1'', fetch_name = ''v_int32_1'', fetch_required = False\<rparr>,
      \<lparr>spec_bit = String64_1, spec_datatype = String_T, col_name = ''name'', fetch_name = ''v_name'', fetch_required = False\<rparr>,
      \<lparr>spec_bit = Blob_1, spec_datatype = Blob_T, col_name = ''blob'', fetch_name = ''v_blob'', fetch_required = False\<rparr>]"

definition SystemNodeBits :: u32 where
  "SystemNodeBits = 0"

definition SystemNodeSpec :: "ColumnSpec list" where
  "SystemNodeSpec =
     []"

definition TextNoteNodeBits :: u32 where
  "TextNoteNodeBits = Int32_1 OR Int32_2 OR String64_1 OR Text_1"

definition TextNoteNodeSpec :: "ColumnSpec list" where
  "TextNoteNodeSpec =
     [\<lparr>spec_bit = Int32_1, spec_datatype = Int_T, col_name = ''int32_1'', fetch_name = ''v_int32_1'', fetch_required = False\<rparr>,
      \<lparr>spec_bit = Int32_2, spec_datatype = Int_T, col_name = ''int32_2'', fetch_name = ''v_int32_2'', fetch_required = False\<rparr>,
      \<lparr>spec_bit = String64_1, spec_datatype = String_T, col_name = ''title'', fetch_name = ''v_title'', fetch_required = False\<rparr>,
      \<lparr>spec_bit = Text_1, spec_datatype = String_T, col_name = ''value'', fetch_name = ''v_value'', fetch_required = False\<rparr>]"

lemmas bits_defs =
  CommonBits_def CreateAgeBits_def AgeNodeBits_def AgeInfoNodeBits_def AgeInfoListNodeBits_def AgeLinkNodeBits_def ChronicleNodeBits_def FolderNodeBits_def ImageNodeBits_def MarkergameNodeBits_def PlayerNodeBits_def PlayerInfoNodeBits_def PlayerInfoListNodeBits_def SDLNodeBits_def SystemNodeBits_def TextNoteNodeBits_def

lemmas spec_defs =
  CommonSpec_def CreateAgeSpec_def AgeNodeSpec_def AgeInfoNodeSpec_def AgeInfoListNodeSpec_def AgeLinkNodeSpec_def ChronicleNodeSpec_def FolderNodeSpec_def ImageNodeSpec_def MarkergameNodeSpec_def PlayerNodeSpec_def PlayerInfoNodeSpec_def PlayerInfoListNodeSpec_def SDLNodeSpec_def SystemNodeSpec_def TextNoteNodeSpec_def

definition all_bits_for_type :: "vault_nodetype \<Rightarrow> u32" where
  "all_bits_for_type type =
     (case type of
        PlayerNode \<Rightarrow> CommonBits OR PlayerNodeBits
      | AgeNode \<Rightarrow> CommonBits OR AgeNodeBits
      | FolderNode \<Rightarrow> CommonBits OR FolderNodeBits
      | PlayerInfoNode \<Rightarrow> CommonBits OR PlayerInfoNodeBits
      | SystemNode \<Rightarrow> CommonBits OR SystemNodeBits
      | ImageNode \<Rightarrow> CommonBits OR ImageNodeBits
      | TextNoteNode \<Rightarrow> CommonBits OR TextNoteNodeBits
      | SDLNode \<Rightarrow> CommonBits OR SDLNodeBits
      | AgeLinkNode \<Rightarrow> CommonBits OR AgeLinkNodeBits
      | ChronicleNode \<Rightarrow> CommonBits OR ChronicleNodeBits
      | PlayerInfoListNode \<Rightarrow> CommonBits OR PlayerInfoListNodeBits
      | AgeInfoNode \<Rightarrow> CommonBits OR AgeInfoNodeBits
      | AgeInfoListNode \<Rightarrow> CommonBits OR AgeInfoListNodeBits
      | MarkergameNode \<Rightarrow> CommonBits OR MarkergameNodeBits
      | _ \<Rightarrow> 0)"

definition spec_table :: "vault_nodetype \<Rightarrow> u32 \<Rightarrow> ColumnSpec list option" where
  "spec_table type b =
     (case type of
        PlayerNode \<Rightarrow> (if PlayerNodeBits AND b \<noteq> 0 then Some PlayerNodeSpec
           else if CommonBits AND b \<noteq> 0 then Some CommonSpec
           else None)
      | AgeNode \<Rightarrow> (if AgeNodeBits AND b \<noteq> 0 then Some AgeNodeSpec
           else if CommonBits AND b \<noteq> 0 then Some CommonSpec
           else None)
      | FolderNode \<Rightarrow> (if FolderNodeBits AND b \<noteq> 0 then Some FolderNodeSpec
           else if CommonBits AND b \<noteq> 0 then Some CommonSpec
           else if CreateAgeBits AND b \<noteq> 0 then Some CreateAgeSpec
           else None)
      | PlayerInfoNode \<Rightarrow> (if PlayerInfoNodeBits AND b \<noteq> 0 then Some PlayerInfoNodeSpec
           else if CommonBits AND b \<noteq> 0 then Some CommonSpec
           else None)
      | SystemNode \<Rightarrow> (if SystemNodeBits AND b \<noteq> 0 then Some SystemNodeSpec
           else if CommonBits AND b \<noteq> 0 then Some CommonSpec
           else None)
      | ImageNode \<Rightarrow> (if ImageNodeBits AND b \<noteq> 0 then Some ImageNodeSpec
           else if CommonBits AND b \<noteq> 0 then Some CommonSpec
           else if CreateAgeBits AND b \<noteq> 0 then Some CreateAgeSpec
           else None)
      | TextNoteNode \<Rightarrow> (if TextNoteNodeBits AND b \<noteq> 0 then Some TextNoteNodeSpec
           else if CommonBits AND b \<noteq> 0 then Some CommonSpec
           else if CreateAgeBits AND b \<noteq> 0 then Some CreateAgeSpec
           else None)
      | SDLNode \<Rightarrow> (if SDLNodeBits AND b \<noteq> 0 then Some SDLNodeSpec
           else if CommonBits AND b \<noteq> 0 then Some CommonSpec
           else if CreateAgeBits AND b \<noteq> 0 then Some CreateAgeSpec
           else None)
      | AgeLinkNode \<Rightarrow> (if AgeLinkNodeBits AND b \<noteq> 0 then Some AgeLinkNodeSpec
           else if CommonBits AND b \<noteq> 0 then Some CommonSpec
           else if CreateAgeBits AND b \<noteq> 0 then Some CreateAgeSpec
           else None)
      | ChronicleNode \<Rightarrow> (if ChronicleNodeBits AND b \<noteq> 0 then Some ChronicleNodeSpec
           else if CommonBits AND b \<noteq> 0 then Some CommonSpec
           else if CreateAgeBits AND b \<noteq> 0 then Some CreateAgeSpec
           else None)
      | PlayerInfoListNode \<Rightarrow> (if PlayerInfoListNodeBits AND b \<noteq> 0 then Some PlayerInfoListNodeSpec
           else if CommonBits AND b \<noteq> 0 then Some CommonSpec
           else None)
      | AgeInfoNode \<Rightarrow> (if AgeInfoNodeBits AND b \<noteq> 0 then Some AgeInfoNodeSpec
           else if CommonBits AND b \<noteq> 0 then Some CommonSpec
           else None)
      | AgeInfoListNode \<Rightarrow> (if AgeInfoListNodeBits AND b \<noteq> 0 then Some AgeInfoListNodeSpec
           else if CommonBits AND b \<noteq> 0 then Some CommonSpec
           else None)
      | MarkergameNode \<Rightarrow> (if MarkergameNodeBits AND b \<noteq> 0 then Some MarkergameNodeSpec
           else if CommonBits AND b \<noteq> 0 then Some CommonSpec
           else if CreateAgeBits AND b \<noteq> 0 then Some CreateAgeSpec
           else None)
      | _ \<Rightarrow> None)"

definition get_spec :: "vault_nodetype \<Rightarrow> u32 \<Rightarrow> ColumnSpec option" where
  "get_spec type b =
     (case spec_table type b of
        None \<Rightarrow> None
      | Some spec \<Rightarrow> find (\<lambda>c. spec_bit c = b) spec)"

definition tablename_for_type :: "vault_nodetype \<Rightarrow> string" where
  "tablename_for_type type =
     (case type of
        CCRNode \<Rightarrow> ''ccr''
      | PlayerNode \<Rightarrow> ''player''
      | AgeNode \<Rightarrow> ''age''
      | FolderNode \<Rightarrow> ''folder''
      | PlayerInfoNode \<Rightarrow> ''playerinfo''
      | SystemNode \<Rightarrow> ''system''
      | ImageNode \<Rightarrow> ''image''
      | TextNoteNode \<Rightarrow> ''textnote''
      | SDLNode \<Rightarrow> ''sdl''
      | AgeLinkNode \<Rightarrow> ''agelink''
      | ChronicleNode \<Rightarrow> ''chronicle''
      | PlayerInfoListNode \<Rightarrow> ''playerinfolist''
      | AgeInfoNode \<Rightarrow> ''ageinfo''
      | AgeInfoListNode \<Rightarrow> ''ageinfolist''
      | MarkergameNode \<Rightarrow> ''markergame''
      | _ \<Rightarrow> ''unknown_table_name'')"

section \<open>The tables agree\<close>

lemma colspecs_bits: "map fst colspecs = map (\<lambda>i. 2 ^ i) [0..<32]"
  by code_simp

lemma length_colspecs [simp]: "length colspecs = 32"
  by (simp add: colspecs_def)

lemma distinct_colspecs: "distinct (map fst colspecs)"
  by (simp add: colspecs_def bitfield_defs)

definition columns_ok :: "vault_nodetype \<Rightarrow> bool" where
  "columns_ok type = list_all (\<lambda>(b, ty).
     (case get_spec type b of
        None \<Rightarrow> all_bits_for_type type AND b = 0
      | Some c \<Rightarrow> spec_bit c = b \<and> spec_datatype c = ty \<and>
          (all_bits_for_type type OR CreateAgeBits) AND b \<noteq> 0)) colspecs"

lemma columns_ok: "columns_ok type"
  by (cases type) (simp_all add: columns_ok_def colspecs_def get_spec_def spec_table_def
      bitfield_defs bits_defs spec_defs all_bits_for_type_def)



end
