(* ===== verification/Vault_Node.thy ===== *)
theory Vault_Node
  imports Vault_Schema
begin

text \<open>
  \<open>VaultNode.cc\<close>: a vault node, how it is read from a network buffer, how its columns are
  accessed, and how it is written out again in pieces.

  A field is a union of an integer and a pointer; the column's data type decides which one
  the code uses, so the model keeps both.  \<open>intval\<close> is the value whose little-endian bytes
  are in memory (the code never swaps it).  \<open>bufval\<close> is \<open>NULL\<close> or the bytes that may be read
  through the pointer: exactly the copied bytes when the node owns its buffers, the whole
  rest of the network buffer otherwise.  Offsets are \<open>uint32_t\<close> in the code and wrap.
\<close>

section \<open>The state of a node\<close>

record field_t =
  intval :: u32
  bufval :: "byte list option"

record vault_node =
  m_length :: u32
  m_bits1 :: u32
  m_bits2 :: u32
  m_fields1 :: "field_t list"
  m_owns_bufs :: bool

definition zero_field :: field_t where
  "zero_field = \<lparr>intval = 0, bufval = None\<rparr>"

definition VaultNode :: vault_node where
  "VaultNode = \<lparr>m_length = 8, m_bits1 = 0, m_bits2 = 0,
     m_fields1 = replicate 32 zero_field, m_owns_bufs = True\<rparr>"

definition message_len :: "vault_node \<Rightarrow> u32" where
  "message_len n = m_length n + 4"

definition node_type :: "vault_node \<Rightarrow> vault_nodetype" where
  "node_type n = vault_nodetype_of (intval (m_fields1 n ! 7))"

section \<open>Checking and reading a network buffer\<close>

text \<open>
  \<open>check_cols\<close> is the loop of \<open>check_len_by_bitfields\<close>: \<open>None\<close> is its early \<open>return false\<close>,
  otherwise it ends with the offset behind the last column.
\<close>

fun check_cols ::
  "byte list \<Rightarrow> nat \<Rightarrow> u32 \<Rightarrow> (u32 \<times> vault_datatype) list \<Rightarrow> u32 \<Rightarrow> u32 option res" where
  "check_cols buf len bits1 [] offset = Inr (Some offset)"
| "check_cols buf len bits1 ((b, ty) # cs) offset =
     (if bits1 AND b \<noteq> 0
      then (case ty of
          Int_T \<Rightarrow> check_cols buf len bits1 cs (offset + 4)
        | UInt_T \<Rightarrow> check_cols buf len bits1 cs (offset + 4)
        | UUID_T \<Rightarrow> check_cols buf len bits1 cs (offset + 16)
        | _ \<Rightarrow>
            (if unat (offset + 4) > len then Inr None
             else rbind (read32 buf (unat offset)) (\<lambda>n.
               check_cols buf len bits1 cs (offset + (4 + n)))))
      else check_cols buf len bits1 cs offset)"

definition check_len_by_bitfields :: "byte list \<Rightarrow> nat \<Rightarrow> bool res" where
  "check_len_by_bitfields buf len =
     rbind (read32 buf 4) (\<lambda>bits1.
     rbind (read32 buf 8) (\<lambda>bits2.
     rbind (check_cols buf len bits1 colspecs 12) (\<lambda>r.
     Inr (case r of None \<Rightarrow> False | Some offset \<Rightarrow> \<not> unat offset > len))))"

text \<open>
  The constructor that parses a buffer.  \<open>parse_cols\<close> is its loop; the fields it has not
  reached keep the zeros of the \<open>memset\<close>.
\<close>

definition read_buf :: "byte list \<Rightarrow> bool \<Rightarrow> u32 \<Rightarrow> u32 \<Rightarrow> byte list res" where
  "read_buf inbuf copy_data offset n =
     (if copy_data then slice (unat offset) (unat n) inbuf
      else if unat offset \<le> length inbuf then Inr (drop (unat offset) inbuf)
      else Inl Out_Of_Bounds)"

definition parse_col :: "byte list \<Rightarrow> bool \<Rightarrow> vault_datatype \<Rightarrow> u32 \<Rightarrow> (field_t \<times> u32) res" where
  "parse_col inbuf copy_data ty offset =
     (case ty of
        Int_T \<Rightarrow> rbind (read32 inbuf (unat offset)) (\<lambda>v.
          Inr (zero_field\<lparr>intval := v\<rparr>, offset + 4))
      | UInt_T \<Rightarrow> rbind (read32 inbuf (unat offset)) (\<lambda>v.
          Inr (zero_field\<lparr>intval := v\<rparr>, offset + 4))
      | UUID_T \<Rightarrow> rbind (read_buf inbuf copy_data offset 16) (\<lambda>bs.
          Inr (zero_field\<lparr>bufval := Some bs\<rparr>, offset + 16))
      | _ \<Rightarrow> rbind (read32 inbuf (unat offset)) (\<lambda>buflen.
          rbind (read_buf inbuf copy_data offset (buflen + 4)) (\<lambda>bs.
          Inr (zero_field\<lparr>bufval := Some bs\<rparr>, offset + (buflen + 4)))))"

fun parse_cols ::
  "byte list \<Rightarrow> bool \<Rightarrow> u32 \<Rightarrow> (u32 \<times> vault_datatype) list \<Rightarrow> u32 \<Rightarrow> (field_t list \<times> u32) res"
where
  "parse_cols inbuf copy_data bits1 [] offset = Inr ([], offset)"
| "parse_cols inbuf copy_data bits1 ((b, ty) # cs) offset =
     rbind (if bits1 AND b \<noteq> 0 then parse_col inbuf copy_data ty offset else Inr (zero_field, offset))
       (\<lambda>(f, offset'). rbind (parse_cols inbuf copy_data bits1 cs offset') (\<lambda>(fs, e).
          Inr (f # fs, e)))"

definition VaultNode_parse :: "byte list \<Rightarrow> bool \<Rightarrow> vault_node res" where
  "VaultNode_parse inbuf copy_data =
     rbind (read32 inbuf 4) (\<lambda>bits1.
     rbind (read32 inbuf 8) (\<lambda>bits2.
     rbind (parse_cols inbuf copy_data bits1 colspecs 12) (\<lambda>(fs, offset).
     Inr \<lparr>m_length = offset - 4, m_bits1 = bits1, m_bits2 = bits2, m_fields1 = fs,
          m_owns_bufs = copy_data\<rparr>)))"

section \<open>Accessors\<close>

text \<open>
  \<open>find_col\<close> is the loop every accessor starts with: the index of the first row of \<open>colspecs\<close>
  with the bit.  \<open>num_ref\<close> returns a reference, here the index of the field, for the caller
  to store through (\<open>set_num\<close>).  \<open>alloc\<close> stands for \<open>new uint8_t[n]\<close>: \<open>n\<close> bytes with any content.
\<close>

fun find_col :: "u32 \<Rightarrow> (u32 \<times> vault_datatype) list \<Rightarrow> nat \<Rightarrow> (nat \<times> vault_datatype) option" where
  "find_col b [] i = None"
| "find_col b ((b', ty) # cs) i = (if b' = b then Some (i, ty) else find_col b cs (Suc i))"

definition num_ref :: "vault_node \<Rightarrow> u32 \<Rightarrow> (vault_node \<times> nat) res" where
  "num_ref n b =
     (case find_col b colspecs 0 of
        None \<Rightarrow> Inl Logic_Error
      | Some (i, ty) \<Rightarrow>
          (if ty \<noteq> Int_T \<and> ty \<noteq> UInt_T then Inl Logic_Error
           else if m_bits1 n AND b = 0
           then Inr (n\<lparr>m_bits1 := m_bits1 n OR b, m_length := m_length n + 4\<rparr>, i)
           else Inr (n, i)))"

definition set_num :: "vault_node \<Rightarrow> u32 \<Rightarrow> u32 \<Rightarrow> vault_node res" where
  "set_num n b v = rbind (num_ref n b) (\<lambda>(n', i).
     Inr (n'\<lparr>m_fields1 := (m_fields1 n')[i := (m_fields1 n' ! i)\<lparr>intval := v\<rparr>]\<rparr>))"

definition uuid_ptr :: "(nat \<Rightarrow> byte list) \<Rightarrow> vault_node \<Rightarrow> u32 \<Rightarrow> vault_node \<times> nat option" where
  "uuid_ptr alloc n b =
     (case find_col b colspecs 0 of
        None \<Rightarrow> (n, None)
      | Some (i, ty) \<Rightarrow>
          (if ty \<noteq> UUID_T then (n, None)
           else let f = m_fields1 n ! i;
                    n1 = (case bufval f of
                            None \<Rightarrow> n\<lparr>m_fields1 := (m_fields1 n)[i := f\<lparr>bufval := Some (alloc 16)\<rparr>]\<rparr>
                          | Some _ \<Rightarrow> n);
                    n2 = (if m_bits1 n AND b = 0
                          then n1\<lparr>m_bits1 := m_bits1 n OR b, m_length := m_length n + 16\<rparr> else n1)
                in (n2, Some i)))"

definition data_ptr ::
  "(nat \<Rightarrow> byte list) \<Rightarrow> vault_node \<Rightarrow> u32 \<Rightarrow> u32 \<Rightarrow> (vault_node \<times> nat option) res" where
  "data_ptr alloc n b len =
     (case find_col b colspecs 0 of
        None \<Rightarrow> Inr (n, None)
      | Some (i, ty) \<Rightarrow>
          (if ty \<noteq> String_T \<and> ty \<noteq> Blob_T then Inr (n, None)
           else let f = m_fields1 n ! i in
             rbind (case bufval f of
                 None \<Rightarrow>
                   Inr (alloc (unat (len + 4)),
                     (if m_bits1 n AND b = 0
                      then n\<lparr>m_bits1 := m_bits1 n OR b, m_length := m_length n + (len + 4)\<rparr> else n))
               | Some old \<Rightarrow>
                   rbind (read32 old 0) (\<lambda>old_len.
                     let n1 = (if m_bits1 n AND b \<noteq> 0
                               then n\<lparr>m_length := m_length n - (old_len + 4)\<rparr>
                               else n\<lparr>m_bits1 := m_bits1 n OR b\<rparr>);
                         n2 = n1\<lparr>m_length := m_length n1 + (len + 4)\<rparr>
                     in Inr (if old_len < len then alloc (unat (len + 4)) else old, n2)))
             (\<lambda>(buf, n').
               rbind (write32 buf 0 len) (\<lambda>buf'.
               Inr (n'\<lparr>m_fields1 := (m_fields1 n')[i := f\<lparr>bufval := Some buf'\<rparr>]\<rparr>, Some i)))))"

definition num_val :: "vault_node \<Rightarrow> u32 \<Rightarrow> u32 res" where
  "num_val n b =
     (case find_col b colspecs 0 of
        None \<Rightarrow> Inl Logic_Error
      | Some (i, ty) \<Rightarrow>
          (if ty \<noteq> Int_T \<and> ty \<noteq> UInt_T then Inl Logic_Error
           else Inr (intval (m_fields1 n ! i))))"

definition const_uuid_ptr :: "vault_node \<Rightarrow> u32 \<Rightarrow> byte list option" where
  "const_uuid_ptr n b =
     (case find_col b colspecs 0 of
        None \<Rightarrow> None
      | Some (i, ty) \<Rightarrow> (if ty \<noteq> UUID_T then None else bufval (m_fields1 n ! i)))"

definition const_data_ptr :: "vault_node \<Rightarrow> u32 \<Rightarrow> byte list option" where
  "const_data_ptr n b =
     (case find_col b colspecs 0 of
        None \<Rightarrow> None
      | Some (i, ty) \<Rightarrow>
          (if ty \<noteq> String_T \<and> ty \<noteq> Blob_T then None else bufval (m_fields1 n ! i)))"

section \<open>Writing a node in pieces\<close>

text \<open>
  \<open>fill_buffer\<close> writes at most \<open>len\<close> bytes, starting \<open>start_at\<close> bytes into the message, and
  says whether the message is complete.  The model returns the bytes it wrote; \<open>done\<close> of the
  code is their number.  The pointer expression \<open>(&m_fields1[i].intval) + start_at\<close> counts
  32-bit integers, so it is \<open>4 * start_at\<close> bytes into the integer.
\<close>

definition clip :: "nat \<Rightarrow> nat \<Rightarrow> bool \<Rightarrow> nat \<times> bool" where
  "clip wrlen room md = (if wrlen > room then (room, False) else (wrlen, md))"

definition fill_word :: "u32 \<Rightarrow> nat \<Rightarrow> nat \<times> byte list \<times> bool \<Rightarrow> nat \<times> byte list \<times> bool" where
  "fill_word v len = (\<lambda>(start_at, out, md).
     if start_at < 4
     then let (wrlen, md') = clip (4 - start_at) (len - length out) md
          in (0, out @ (if wrlen = 4 then bytes32 v else take wrlen (drop start_at (bytes32 v))), md')
     else (start_at - 4, out, md))"

definition fill_col ::
  "vault_datatype \<Rightarrow> field_t \<Rightarrow> nat \<Rightarrow> nat \<times> byte list \<times> bool \<Rightarrow> (nat \<times> byte list \<times> bool) res"
where
  "fill_col ty f len = (\<lambda>(start_at, out, md).
     if ty = Int_T \<or> ty = UInt_T
     then (if start_at < 4
           then let (wrlen, md') = clip (4 - start_at) (len - length out) md
                in rbind (slice (4 * start_at) wrlen (bytes32 (intval f))) (\<lambda>bs.
                   Inr (0, out @ bs, md'))
           else Inr (start_at - 4, out, md))
     else (case bufval f of
         None \<Rightarrow> Inl Null_Pointer
       | Some buf \<Rightarrow>
           (if ty = UUID_T
            then (if start_at < 16
                  then let (wrlen, md') = clip (16 - start_at) (len - length out) md
                       in rbind (slice start_at wrlen buf) (\<lambda>bs. Inr (0, out @ bs, md'))
                  else Inr (start_at - 16, out, md))
            else rbind (read32 buf 0) (\<lambda>n.
                 let size = unat (n + 4)
                 in if start_at < size
                    then let (wrlen, md') = clip size (len - length out) md
                         in rbind (slice start_at wrlen buf) (\<lambda>bs. Inr (0, out @ bs, md'))
                    else Inr (start_at - size, out, md)))))"

fun fill_cols ::
  "u32 \<Rightarrow> nat \<Rightarrow> ((u32 \<times> vault_datatype) \<times> field_t) list \<Rightarrow> nat \<times> byte list \<times> bool \<Rightarrow>
   (byte list \<times> bool) res" where
  "fill_cols to_include len [] (start_at, out, md) = Inr (out, md)"
| "fill_cols to_include len (((b, ty), f) # cs) (start_at, out, md) =
     (if to_include AND b \<noteq> 0
      then rbind (fill_col ty f len (start_at, out, md)) (\<lambda>(start', out', md').
        if \<not> md' then Inr (out', md') else fill_cols to_include len cs (start', out', md'))
      else fill_cols to_include len cs (start_at, out, md))"

definition fill_buffer :: "vault_node \<Rightarrow> nat \<Rightarrow> nat \<Rightarrow> (byte list \<times> bool) res" where
  "fill_buffer n len start_at =
     (let to_include = all_bits_for_type (node_type n) AND m_bits1 n
      in fill_cols to_include len (zip colspecs (m_fields1 n))
           (fill_word 0 len (fill_word to_include len (fill_word (m_length n) len
             (start_at, [], True)))))"

text \<open>
  \<open>fill_iovecs\<close> fills at most \<open>iov_ct\<close> vectors; the model returns the bytes that each of them
  makes \<open>writev\<close> read.  The first vector is stored without a look at \<open>iov_ct\<close>.
\<close>

definition iov_col :: "vault_datatype \<Rightarrow> field_t \<Rightarrow> nat \<Rightarrow> (nat \<times> byte list list) res" where
  "iov_col ty f start_at =
     (if ty = Int_T \<or> ty = UInt_T
      then (if start_at < 4
            then rbind (slice (4 * start_at) (4 - start_at) (bytes32 (intval f))) (\<lambda>bs. Inr (0, [bs]))
            else Inr (start_at - 4, []))
      else (case bufval f of
          None \<Rightarrow> Inl Null_Pointer
        | Some buf \<Rightarrow>
            (if ty = UUID_T
             then (if start_at < 16
                   then rbind (slice start_at (16 - start_at) buf) (\<lambda>bs. Inr (0, [bs]))
                   else Inr (start_at - 16, []))
             else rbind (read32 buf 0) (\<lambda>n.
                  let wrlen = unat (n + 4)
                  in if start_at < wrlen
                     then rbind (slice start_at (wrlen - start_at) buf) (\<lambda>bs. Inr (0, [bs]))
                     else Inr (start_at - wrlen, [])))))"

fun iov_cols ::
  "u32 \<Rightarrow> nat \<Rightarrow> ((u32 \<times> vault_datatype) \<times> field_t) list \<Rightarrow> nat \<Rightarrow> byte list list \<Rightarrow> byte list list res"
where
  "iov_cols to_include iov_ct [] start_at iov = Inr iov"
| "iov_cols to_include iov_ct (((b, ty), f) # cs) start_at iov =
     (if length iov \<ge> iov_ct then Inr iov
      else if to_include AND b \<noteq> 0
      then rbind (iov_col ty f start_at) (\<lambda>(start', vs).
        iov_cols to_include iov_ct cs start' (iov @ vs))
      else iov_cols to_include iov_ct cs start_at iov)"

definition fill_iovecs :: "vault_node \<Rightarrow> nat \<Rightarrow> nat \<Rightarrow> byte list list res" where
  "fill_iovecs n iov_ct start_at =
     (let to_include = all_bits_for_type (node_type n) AND m_bits1 n;
          header = bytes32 (m_length n) @ bytes32 to_include @ bytes32 0;
          cols = zip colspecs (m_fields1 n)
      in if start_at < 12
         then (if iov_ct = 0 then Inl Out_Of_Bounds
               else iov_cols to_include iov_ct cols 0 [drop start_at header])
         else iov_cols to_include iov_ct cols (start_at - 12) [])"

definition iovecs_written_bytes :: "vault_node \<Rightarrow> u32 \<Rightarrow> u32 \<Rightarrow> u32 \<times> bool" where
  "iovecs_written_bytes n byte_ct start_at =
     (if byte_ct + start_at < m_length n + 4 then (0, False)
      else ((byte_ct + start_at) - (m_length n + 4), True))"

section \<open>What a node looks like on the wire\<close>

definition col_size :: "vault_datatype \<Rightarrow> field_t \<Rightarrow> nat" where
  "col_size ty f =
     (if ty = Int_T \<or> ty = UInt_T then 4
      else if ty = UUID_T then 16
      else unat (le32 (take 4 (the (bufval f))) + 4))"

definition col_bytes :: "vault_datatype \<Rightarrow> field_t \<Rightarrow> byte list" where
  "col_bytes ty f =
     (if ty = Int_T \<or> ty = UInt_T then bytes32 (intval f)
      else take (col_size ty f) (the (bufval f)))"

definition field_ok :: "vault_datatype \<Rightarrow> field_t \<Rightarrow> bool" where
  "field_ok ty f =
     (if ty = Int_T \<or> ty = UInt_T then True
      else (case bufval f of
          None \<Rightarrow> False
        | Some buf \<Rightarrow>
            (if ty = UUID_T then 16 \<le> length buf
             else 4 \<le> col_size ty f \<and> col_size ty f \<le> length buf)))"

definition cols_ok :: "u32 \<Rightarrow> ((u32 \<times> vault_datatype) \<times> field_t) list \<Rightarrow> bool" where
  "cols_ok bits cs = list_all (\<lambda>((b, ty), f). bits AND b \<noteq> 0 \<longrightarrow> field_ok ty f) cs"

definition cols_bytes :: "u32 \<Rightarrow> ((u32 \<times> vault_datatype) \<times> field_t) list \<Rightarrow> byte list" where
  "cols_bytes bits cs = concat (map (\<lambda>((b, ty), f). if bits AND b \<noteq> 0 then col_bytes ty f else []) cs)"

definition node_cols :: "vault_node \<Rightarrow> ((u32 \<times> vault_datatype) \<times> field_t) list" where
  "node_cols n = zip colspecs (m_fields1 n)"

definition node_ok :: "vault_node \<Rightarrow> bool" where
  "node_ok n \<longleftrightarrow> length (m_fields1 n) = 32 \<and> cols_ok (m_bits1 n) (node_cols n)"

definition sent_bits :: "vault_node \<Rightarrow> u32" where
  "sent_bits n = all_bits_for_type (node_type n) AND m_bits1 n"

definition node_header :: "vault_node \<Rightarrow> byte list" where
  "node_header n = bytes32 (m_length n) @ bytes32 (sent_bits n) @ bytes32 0"

definition node_message :: "vault_node \<Rightarrow> byte list" where
  "node_message n = node_header n @ cols_bytes (sent_bits n) (node_cols n)"

lemma cols_bytes_simps [simp]:
  "cols_bytes bits [] = []"
  "cols_bytes bits (((b, ty), f) # cs) =
     (if bits AND b \<noteq> 0 then col_bytes ty f else []) @ cols_bytes bits cs"
  "cols_bytes bits (xs @ ys) = cols_bytes bits xs @ cols_bytes bits ys"
  by (simp_all add: cols_bytes_def)

lemma cols_ok_simps [simp]:
  "cols_ok bits []"
  "cols_ok bits (((b, ty), f) # cs) \<longleftrightarrow> (bits AND b \<noteq> 0 \<longrightarrow> field_ok ty f) \<and> cols_ok bits cs"
  "cols_ok bits (xs @ ys) \<longleftrightarrow> cols_ok bits xs \<and> cols_ok bits ys"
  by (simp_all add: cols_ok_def)

lemma cols_ok_mono: "cols_ok bits cs \<Longrightarrow> cols_ok (a AND bits) cs"
  by (induction cs rule: list.induct) (auto simp: and.assoc)

lemma length_col_bytes: "field_ok ty f \<Longrightarrow> length (col_bytes ty f) = col_size ty f"
  by (auto simp: field_ok_def col_bytes_def col_size_def split: if_splits option.splits)

lemma col_size_pos: "field_ok ty f \<Longrightarrow> 4 \<le> col_size ty f"
  by (auto simp: field_ok_def col_size_def split: if_splits option.splits)

lemma length_node_header [simp]: "length (node_header n) = 12"
  by (simp add: node_header_def)

subsection \<open>One column\<close>

lemma fill_col_fresh:
  assumes "field_ok ty f" and "length out \<le> len"
  shows "fill_col ty f len (0, out, md) =
    Inr (0, out @ take (len - length out) (col_bytes ty f),
         md \<and> col_size ty f \<le> len - length out)"
proof (cases "ty = Int_T \<or> ty = UInt_T")
  case True
  then show ?thesis
    by (auto simp: fill_col_def clip_def col_bytes_def col_size_def slice_def)
next
  case False
  with assms(1) obtain buf where buf: "bufval f = Some buf"
    by (auto simp: field_ok_def split: option.splits)
  show ?thesis
  proof (cases "ty = UUID_T")
    case True
    with assms buf show ?thesis
      by (auto simp: fill_col_def clip_def col_bytes_def col_size_def slice_def field_ok_def)
  next
    case str: False
    have size: "col_size ty f = unat (le32 (take 4 buf) + 4)"
      using False str buf by (simp add: col_size_def)
    have bounds: "4 \<le> col_size ty f" "col_size ty f \<le> length buf"
      using assms(1) False str buf by (auto simp: field_ok_def)
    then have "read32 buf 0 = Inr (le32 (take 4 buf))"
      by (simp add: read32_Inr)
    with False str buf bounds show ?thesis
      by (auto simp: fill_col_def clip_def col_bytes_def size [symmetric] slice_def Let_def)
  qed
qed

lemma fill_col_skip:
  assumes "field_ok ty f" and "col_size ty f \<le> start_at"
  shows "fill_col ty f len (start_at, out, md) = Inr (start_at - col_size ty f, out, md)"
proof (cases "ty = Int_T \<or> ty = UInt_T \<or> ty = UUID_T")
  case True
  with assms show ?thesis
    by (auto simp: fill_col_def col_size_def field_ok_def split: option.splits)
next
  case False
  with assms(1) obtain buf where buf: "bufval f = Some buf"
    by (auto simp: field_ok_def split: option.splits)
  have size: "col_size ty f = unat (le32 (take 4 buf) + 4)"
    using False buf by (simp add: col_size_def)
  have "4 \<le> col_size ty f" "col_size ty f \<le> length buf"
    using assms(1) False buf by (auto simp: field_ok_def)
  then have "read32 buf 0 = Inr (le32 (take 4 buf))"
    by (simp add: read32_Inr)
  with False buf assms(2) show ?thesis
    by (simp add: fill_col_def size [symmetric] Let_def)
qed

subsection \<open>All columns\<close>

lemma fill_cols_stopped:
  "cols_ok bits cs \<Longrightarrow> length out = len \<Longrightarrow>
   fill_cols bits len cs (0, out, False) = Inr (out, False)"
proof (induction cs)
  case (Cons c cs)
  obtain b ty f where c: "c = ((b, ty), f)" by (metis prod.exhaust)
  show ?case
    using Cons by (auto simp: c fill_col_fresh)
qed simp

lemma fill_cols_fresh:
  "cols_ok bits cs \<Longrightarrow> length out \<le> len \<Longrightarrow>
   fill_cols bits len cs (0, out, True) =
     Inr (out @ take (len - length out) (cols_bytes bits cs),
          length out + length (cols_bytes bits cs) \<le> len)"
proof (induction cs arbitrary: out)
  case (Cons c cs)
  obtain b ty f where c: "c = ((b, ty), f)" by (metis prod.exhaust)
  show ?case
  proof (cases "bits AND b = 0")
    case True
    with Cons show ?thesis by (simp add: c)
  next
    case inc: False
    with Cons.prems have ok: "field_ok ty f" and oks: "cols_ok bits cs" by (auto simp: c)
    note len = length_col_bytes [OF ok]
    show ?thesis
    proof (cases "col_size ty f \<le> len - length out")
      case True
      then have "length (out @ col_bytes ty f) \<le> len" using Cons.prems(2) by (simp add: len)
      from Cons.IH [OF oks this] True inc Cons.prems(2) show ?thesis
        by (simp add: c fill_col_fresh [OF ok Cons.prems(2)] len diff_diff_add add.assoc)
    next
      case False
      then show ?thesis
        using inc Cons.prems(2)
        by (simp add: c fill_col_fresh [OF ok Cons.prems(2)] len)
    qed
  qed
qed simp

lemma fill_cols_skip:
  "cols_ok bits xs \<Longrightarrow>
   fill_cols bits len (xs @ ys) (length (cols_bytes bits xs), out, True) =
   fill_cols bits len ys (0, out, True)"
proof (induction xs)
  case (Cons c cs)
  obtain b ty f where c: "c = ((b, ty), f)" by (metis prod.exhaust)
  show ?case
    using Cons by (auto simp: c fill_col_skip length_col_bytes)
qed simp

lemma fill_word_fresh:
  "length out \<le> len \<Longrightarrow> fill_word v len (0, out, md) =
     (0, out @ take (len - length out) (bytes32 v), md \<and> 4 \<le> len - length out)"
  by (auto simp: fill_word_def clip_def)

lemma fill_word_skip: "4 \<le> start_at \<Longrightarrow> fill_word v len (start_at, out, md) = (start_at - 4, out, md)"
  by (simp add: fill_word_def)


lemma node_type_ok_sent: "node_ok n \<Longrightarrow> cols_ok (sent_bits n) (node_cols n)"
  by (simp add: node_ok_def sent_bits_def cols_ok_mono)

lemma fill_word_take:
  "fill_word v len (0, take len x, md) = (0, take len (x @ bytes32 v), md \<and> length x + 4 \<le> len)"
  by (cases "len \<le> length x") (auto simp: fill_word_fresh min_def)

lemma fill_buffer_fresh_lem:
  assumes "node_ok n"
  shows "fill_buffer n len 0 = Inr (take len (node_message n), length (node_message n) \<le> len)"
proof -
  note ok = node_type_ok_sent [OF assms]
  let ?words = "fill_word 0 len (fill_word (sent_bits n) len (fill_word (m_length n) len (0, [], True)))"
  have w: "?words = (0, take len (node_header n), 12 \<le> len)"
    using fill_word_take [of _ len "[]" True]
    by (auto simp: fill_word_take node_header_def simp del: take_append)
  show ?thesis
  proof (cases "12 \<le> len")
    case True
    then have h: "take len (node_header n) = node_header n" by simp
    from True w have "fill_buffer n len 0 = fill_cols (sent_bits n) len (node_cols n) (0, node_header n, True)"
      by (simp add: fill_buffer_def sent_bits_def node_cols_def Let_def)
    also have "\<dots> = Inr (take len (node_message n), length (node_message n) \<le> len)"
      using fill_cols_fresh [OF ok, of "node_header n" len] True
      by (simp add: node_message_def)
    finally show ?thesis .
  next
    case False
    then have "fill_buffer n len 0 =
        fill_cols (sent_bits n) len (node_cols n) (0, take len (node_header n), False)"
      using w by (simp add: fill_buffer_def sent_bits_def node_cols_def Let_def)
    also have "\<dots> = Inr (take len (node_header n), False)"
      using fill_cols_stopped [OF ok, of "take len (node_header n)" len] False by simp
    finally show ?thesis using False by (simp add: node_message_def)
  qed
qed

text \<open>
  C18: fill_buffer from the start of a well-formed node writes the prefix of the node's message
  that fits in the buffer and reports that it is done exactly when all of it fits.
\<close>

theorem fill_buffer_fresh:
  assumes "node_ok n"
  shows "fill_buffer n len 0 = Inr (take len (node_message n), length (node_message n) \<le> len)"
  using assms by (rule fill_buffer_fresh_lem)

theorem fill_buffer_resume:
  assumes "node_ok n" and "node_cols n = done_cols @ rest"
  shows "fill_buffer n len (12 + length (cols_bytes (sent_bits n) done_cols)) =
    Inr (take len (cols_bytes (sent_bits n) rest), length (cols_bytes (sent_bits n) rest) \<le> len)"
proof -
  have ok: "cols_ok (sent_bits n) done_cols" "cols_ok (sent_bits n) rest"
    using node_type_ok_sent [OF assms(1)] assms(2) by simp_all
  let ?k = "length (cols_bytes (sent_bits n) done_cols)"
  have "fill_buffer n len (12 + ?k) = fill_cols (sent_bits n) len (done_cols @ rest) (?k, [], True)"
    using assms(2) by (simp add: fill_buffer_def sent_bits_def node_cols_def Let_def fill_word_skip)
  also have "\<dots> = fill_cols (sent_bits n) len rest (0, [], True)"
    by (rule fill_cols_skip [OF ok(1)])
  finally show ?thesis
    using fill_cols_fresh [OF ok(2), of "[]" len] by simp
qed

text \<open>Where the writer stops inside a column, the next call does not continue there.\<close>

theorem fill_col_resume_inside:
  assumes "field_ok ty f" and "0 < start_at" and "start_at < col_size ty f"
    and "col_size ty f \<le> len" and "ty \<noteq> UUID_T"
    and "\<And>buf. bufval f = Some buf \<Longrightarrow> length buf = col_size ty f"
  shows "fill_col ty f len (start_at, [], True) = Inl Out_Of_Bounds"
proof (cases "ty = Int_T \<or> ty = UInt_T")
  case True
  with assms show ?thesis by (auto simp: fill_col_def clip_def slice_def col_size_def)
next
  case False
  with assms(1) obtain buf where buf: "bufval f = Some buf"
    by (auto simp: field_ok_def split: option.splits)
  have size: "col_size ty f = unat (le32 (take 4 buf) + 4)"
    using False assms(5) buf by (simp add: col_size_def)
  have "4 \<le> col_size ty f" "length buf = col_size ty f"
    using assms False buf by (auto simp: field_ok_def)
  then have "read32 buf 0 = Inr (le32 (take 4 buf))"
    by (simp add: read32_Inr)
  with False assms buf \<open>length buf = _\<close> show ?thesis
    by (simp add: fill_col_def clip_def size [symmetric] slice_def Let_def)
qed

theorem fill_col_resume_uuid:
  assumes "field_ok UUID_T f" and "start_at < 16"
  shows "fill_col UUID_T f len (start_at, [], True) =
    Inr (0, take len (drop start_at (col_bytes UUID_T f)), 16 - start_at \<le> len)"
  using assms
  by (auto simp: fill_col_def clip_def slice_def col_size_def col_bytes_def field_ok_def drop_take
      min_def split: option.splits)

section \<open>iovecs\<close>

lemma iov_col_fresh:
  assumes "field_ok ty f"
  shows "iov_col ty f 0 = Inr (0, [col_bytes ty f])"
proof (cases "ty = Int_T \<or> ty = UInt_T \<or> ty = UUID_T")
  case True
  with assms show ?thesis
    by (auto simp: iov_col_def slice_def col_bytes_def col_size_def field_ok_def split: option.splits)
next
  case False
  with assms obtain buf where buf: "bufval f = Some buf"
    by (auto simp: field_ok_def split: option.splits)
  have size: "col_size ty f = unat (le32 (take 4 buf) + 4)"
    using False buf by (simp add: col_size_def)
  have bounds: "4 \<le> col_size ty f" "col_size ty f \<le> length buf"
    using assms False buf by (auto simp: field_ok_def)
  then have "read32 buf 0 = Inr (le32 (take 4 buf))"
    by (simp add: read32_Inr)
  with False buf bounds show ?thesis
    by (simp add: iov_col_def size [symmetric] slice_def Let_def col_bytes_def)
qed

lemma iov_col_skip:
  assumes "field_ok ty f" and "col_size ty f \<le> start_at"
  shows "iov_col ty f start_at = Inr (start_at - col_size ty f, [])"
proof (cases "ty = Int_T \<or> ty = UInt_T \<or> ty = UUID_T")
  case True
  with assms show ?thesis
    by (auto simp: iov_col_def col_size_def field_ok_def split: option.splits)
next
  case False
  with assms(1) obtain buf where buf: "bufval f = Some buf"
    by (auto simp: field_ok_def split: option.splits)
  have size: "col_size ty f = unat (le32 (take 4 buf) + 4)"
    using False buf by (simp add: col_size_def)
  have "4 \<le> col_size ty f" "col_size ty f \<le> length buf"
    using assms(1) False buf by (auto simp: field_ok_def)
  then have "read32 buf 0 = Inr (le32 (take 4 buf))"
    by (simp add: read32_Inr)
  with False buf assms(2) show ?thesis
    by (simp add: iov_col_def size [symmetric] Let_def)
qed

text \<open>Strings and UUIDs are resumed correctly here.\<close>

lemma iov_col_resume_inside:
  assumes "field_ok ty f" and "start_at < col_size ty f" and "ty \<noteq> Int_T" and "ty \<noteq> UInt_T"
  shows "iov_col ty f start_at = Inr (0, [drop start_at (col_bytes ty f)])"
proof -
  obtain buf where buf: "bufval f = Some buf"
    using assms by (auto simp: field_ok_def split: option.splits)
  show ?thesis
  proof (cases "ty = UUID_T")
    case True
    with assms buf show ?thesis
      by (auto simp: iov_col_def col_size_def field_ok_def slice_def col_bytes_def drop_take)
  next
    case False
    have size: "col_size ty f = unat (le32 (take 4 buf) + 4)"
      using False assms buf by (simp add: col_size_def)
    have bounds: "4 \<le> col_size ty f" "col_size ty f \<le> length buf"
      using assms False buf by (auto simp: field_ok_def)
    then have "read32 buf 0 = Inr (le32 (take 4 buf))"
      by (simp add: read32_Inr)
    with False buf assms bounds show ?thesis
      by (simp add: iov_col_def size [symmetric] slice_def Let_def col_bytes_def drop_take)
  qed
qed

lemma iov_cols_fresh:
  "cols_ok bits cs \<Longrightarrow> length iov \<le> iov_ct \<Longrightarrow>
   \<exists>vs. iov_cols bits iov_ct cs 0 iov = Inr (iov @ vs) \<and> length (iov @ vs) \<le> iov_ct \<and>
     (\<exists>rest. cols_bytes bits cs = concat vs @ rest \<and> (length (iov @ vs) < iov_ct \<longrightarrow> rest = []))"
proof (induction cs arbitrary: iov)
  case (Cons c cs)
  obtain b ty f where c: "c = ((b, ty), f)" by (metis prod.exhaust)
  show ?case
  proof (cases "length iov \<ge> iov_ct \<or> bits AND b = 0")
    case True
    then show ?thesis
    proof
      assume "length iov \<ge> iov_ct"
      with Cons.prems(2) show ?thesis by (auto simp: c)
    next
      assume "bits AND b = 0"
      with Cons.IH [of iov] Cons.prems show ?thesis
        by (cases "length iov \<ge> iov_ct") (auto simp: c)
    qed
  next
    case False
    then have ok: "field_ok ty f" and oks: "cols_ok bits cs" and
      l: "length (iov @ [col_bytes ty f]) \<le> iov_ct"
      using Cons.prems by (auto simp: c)
    from Cons.IH [OF oks l] obtain vs rest where
      "iov_cols bits iov_ct cs 0 (iov @ [col_bytes ty f]) = Inr ((iov @ [col_bytes ty f]) @ vs)"
      "length ((iov @ [col_bytes ty f]) @ vs) \<le> iov_ct"
      "cols_bytes bits cs = concat vs @ rest"
      "length ((iov @ [col_bytes ty f]) @ vs) < iov_ct \<longrightarrow> rest = []"
      by blast
    with False show ?thesis
      by (intro exI [of _ "col_bytes ty f # vs"]) (auto simp: c iov_col_fresh [OF ok])
  qed
qed simp


section \<open>The length check and the parser\<close>

text \<open>
  \<open>extents\<close> is the offset behind the last column, computed without wrap-around.  A length word
  that is not in the buffer counts as zero: its own four bytes already end behind the buffer.
\<close>

definition extent :: "byte list \<Rightarrow> vault_datatype \<Rightarrow> nat \<Rightarrow> nat" where
  "extent buf ty offset =
     (if ty = Int_T \<or> ty = UInt_T then 4
      else if ty = UUID_T then 16
      else (case read32 buf offset of Inl _ \<Rightarrow> 4 | Inr n \<Rightarrow> 4 + unat n))"

fun extents :: "byte list \<Rightarrow> u32 \<Rightarrow> (u32 \<times> vault_datatype) list \<Rightarrow> nat \<Rightarrow> nat" where
  "extents buf bits1 [] offset = offset"
| "extents buf bits1 ((b, ty) # cs) offset =
     extents buf bits1 cs (if bits1 AND b \<noteq> 0 then offset + extent buf ty offset else offset)"

lemma extents_ge: "offset \<le> extents buf bits1 cs offset"
proof (induction cs arbitrary: offset)
  case (Cons c cs)
  obtain b ty where c: "c = (b, ty)" by (cases c)
  show ?case
    using Cons.IH [of "offset + extent buf ty offset"] Cons.IH [of offset] by (auto simp: c)
qed simp

lemma extents_step: "offset + extent buf ty offset \<le> extents buf bits1 cs (offset + extent buf ty offset)"
  by (rule extents_ge)

lemma check_cols_exact:
  "extents buf bits1 cs (unat offset) < 2 ^ 32 \<Longrightarrow>
   \<exists>r. check_cols buf (length buf) bits1 cs offset = Inr r \<and>
     (case r of None \<Rightarrow> length buf < extents buf bits1 cs (unat offset)
      | Some e \<Rightarrow> unat e = extents buf bits1 cs (unat offset))"
proof (induction cs arbitrary: offset)
  case (Cons c cs)
  obtain b ty where c: "c = (b, ty)" by (cases c)
  show ?case
  proof (cases "bits1 AND b = 0")
    case True
    then have e: "extents buf bits1 (c # cs) (unat offset) = extents buf bits1 cs (unat offset)"
      and ck: "check_cols buf (length buf) bits1 (c # cs) offset = check_cols buf (length buf) bits1 cs offset"
      by (simp_all add: c)
    from Cons.IH [OF Cons.prems [unfolded e]] show ?thesis unfolding e ck .
  next
    case inc: False
    let ?k = "extent buf ty (unat offset)"
    have le: "unat offset + ?k \<le> extents buf bits1 cs (unat offset + ?k)" by (rule extents_ge)
    have bound: "unat offset + ?k < 2 ^ 32" using le Cons.prems inc by (simp add: c)
    have k4: "4 \<le> ?k" by (auto simp: extent_def split: sum.splits)
    have step: ?thesis if "unat offset' = unat offset + ?k"
      "check_cols buf (length buf) bits1 ((b, ty) # cs) offset = check_cols buf (length buf) bits1 cs offset'"
      for offset'
    proof -
      have e: "extents buf bits1 (c # cs) (unat offset) = extents buf bits1 cs (unat offset')"
        using inc that(1) by (simp add: c)
      from Cons.IH [of offset'] Cons.prems show ?thesis
        unfolding e that(2) [folded c] by blast
    qed
    have four: "unat (offset + 4) = unat offset + 4"
      using bound k4 by (simp add: unat_add_u32)
    consider "ty = Int_T \<or> ty = UInt_T" | "ty = UUID_T" | "ty = String_T \<or> ty = Blob_T"
      by (cases ty) auto
    then show ?thesis
    proof cases
      case 1
      with inc four show ?thesis by (intro step [of "offset + 4"]) (auto simp: extent_def)
    next
      case 2
      with inc bound show ?thesis
        by (intro step [of "offset + 16"]) (auto simp: extent_def unat_add_u32)
    next
      case 3
      show ?thesis
      proof (cases "unat offset + 4 \<le> length buf")
        case True
        then obtain n where n: "read32 buf (unat offset) = Inr n" by (simp add: read32_Inr)
        have "?k = 4 + unat n" using 3 n by (auto simp: extent_def)
        moreover from this have "unat (4 + n) = 4 + unat n" using bound by (simp add: unat_add_u32)
        ultimately have "unat (offset + (4 + n)) = unat offset + ?k"
          using bound by (simp add: unat_add_u32)
        with 3 n True inc four show ?thesis by (intro step [of "offset + (4 + n)"]) auto
      next
        case False
        then have "check_cols buf (length buf) bits1 (c # cs) offset = Inr None"
          using 3 inc four by (auto simp: c)
        moreover have "length buf < extents buf bits1 (c # cs) (unat offset)"
          using le k4 False inc by (simp add: c)
        ultimately show ?thesis by auto
      qed
    qed
  qed
qed simp

lemma check_len_exact_lem:
  assumes "12 \<le> length buf" and "read32 buf 4 = Inr bits1"
    and "extents buf bits1 colspecs 12 < 2 ^ 32"
  shows "check_len_by_bitfields buf (length buf) =
    Inr (extents buf bits1 colspecs 12 \<le> length buf)"
proof -
  have t: "unat (12 :: u32) = 12" by simp
  obtain bits2 where b2: "read32 buf 8 = Inr bits2"
    using assms(1) by (simp add: read32_Inr)
  from check_cols_exact [of buf bits1 colspecs 12, unfolded t, OF assms(3)] obtain r where
    r: "check_cols buf (length buf) bits1 colspecs 12 = Inr r"
    "case r of None \<Rightarrow> length buf < extents buf bits1 colspecs 12
      | Some e \<Rightarrow> unat e = extents buf bits1 colspecs 12" by blast
  with assms(2) b2 show ?thesis
    by (cases r) (auto simp: check_len_by_bitfields_def simp del: check_cols.simps)
qed

text \<open>
  C21: As long as the lengths in the message add up to less than 2^32, check_len_by_bitfields
  accepts a buffer exactly when it holds every column the bit vector announces.
\<close>

theorem check_len_exact:
  assumes "12 \<le> length buf" and "read32 buf 4 = Inr bits1"
    and "extents buf bits1 colspecs 12 < 2 ^ 32"
  shows "check_len_by_bitfields buf (length buf) =
    Inr (extents buf bits1 colspecs 12 \<le> length buf)"
  using assms by (rule check_len_exact_lem)

lemma parse_col_ok:
  assumes "extent buf ty (unat offset) = k" and "unat offset + k \<le> length buf"
    and "length buf < 2 ^ 32"
  shows "\<exists>f. parse_col buf copy ty offset = Inr (f, offset + of_nat k) \<and> field_ok ty f \<and>
    col_bytes ty f = take k (drop (unat offset) buf)"
proof -
  consider "ty = Int_T \<or> ty = UInt_T" | "ty = UUID_T" | "ty = String_T \<or> ty = Blob_T"
    by (cases ty) auto
  then show ?thesis
  proof cases
    case 1
    with assms have "read32 buf (unat offset) = Inr (le32 (take 4 (drop (unat offset) buf)))"
      and "bytes32 (le32 (take 4 (drop (unat offset) buf))) = take 4 (drop (unat offset) buf)"
      by (auto simp: extent_def read32_Inr intro!: bytes32_le32)
    with 1 assms show ?thesis
      by (auto simp: parse_col_def field_ok_def col_bytes_def extent_def zero_field_def)
  next
    case 2
    with assms show ?thesis
      by (cases copy) (auto simp: parse_col_def read_buf_def slice_def field_ok_def col_bytes_def
          col_size_def extent_def zero_field_def)
  next
    case 3
    with assms have "unat offset + 4 \<le> length buf" by (auto simp: extent_def split: sum.splits)
    then obtain n where n: "read32 buf (unat offset) = Inr n" by (simp add: read32_Inr)
    with 3 assms(1) have k: "k = 4 + unat n" by (auto simp: extent_def)
    with assms have size: "unat (n + 4) = k" by (simp add: unat_add_u32)
    then have off: "offset + (n + 4) = offset + of_nat k" by (simp flip: size)
    obtain bs where r: "read_buf buf copy offset (n + 4) = Inr bs"
      and t: "take k bs = take k (drop (unat offset) buf)" and l: "k \<le> length bs"
      using assms by (cases copy) (auto simp: read_buf_def slice_def size)
    have "take 4 bs = take 4 (take k bs)" by (simp add: k)
    also have "\<dots> = take 4 (take k (drop (unat offset) buf))" by (simp only: t)
    also have "\<dots> = take 4 (drop (unat offset) buf)" by (simp add: k)
    finally have h: "le32 (take 4 bs) = n" using n by (simp add: read32_Inr)
    have "parse_col buf copy ty offset = Inr (zero_field\<lparr>bufval := Some bs\<rparr>, offset + of_nat k)"
      using 3 n r by (auto simp: parse_col_def simp flip: off)
    moreover have "field_ok ty (zero_field\<lparr>bufval := Some bs\<rparr>)"
      using 3 h l size k by (auto simp: field_ok_def col_size_def)
    moreover have "col_bytes ty (zero_field\<lparr>bufval := Some bs\<rparr>) = take k (drop (unat offset) buf)"
      using 3 h t size by (auto simp: col_bytes_def col_size_def)
    ultimately show ?thesis by blast
  qed
qed

lemma extents_parse:
  assumes len: "length buf < 2 ^ 32"
  shows "extents buf bits1 cs (unat offset) = e \<Longrightarrow> e \<le> length buf \<Longrightarrow>
    \<exists>fs. parse_cols buf copy bits1 cs offset = Inr (fs, of_nat e) \<and> length fs = length cs \<and>
      cols_ok bits1 (zip cs fs) \<and>
      cols_bytes bits1 (zip cs fs) = take (e - unat offset) (drop (unat offset) buf)"
proof (induction cs arbitrary: offset)
  case Nil
  then show ?case by auto
next
  case (Cons c cs)
  obtain b ty where c: "c = (b, ty)" by (cases c)
  show ?case
  proof (cases "bits1 AND b = 0")
    case True
    with Cons.IH [of offset] Cons.prems show ?thesis by (fastforce simp: c)
  next
    case inc: False
    define k where "k = extent buf ty (unat offset)"
    have fit: "extents buf bits1 cs (unat offset + k) = e"
      using Cons.prems inc by (auto simp: c k_def)
    from extents_ge [of "unat offset + k" buf bits1 cs] fit Cons.prems
    have le: "unat offset + k \<le> e" "e \<le> length buf" by auto
    then have off: "unat (offset + of_nat k) = unat offset + k"
      using len by (simp add: unat_add_u32 unat_of_nat_u32)
    obtain f where f: "parse_col buf copy ty offset = Inr (f, offset + of_nat k)" "field_ok ty f"
      "col_bytes ty f = take k (drop (unat offset) buf)"
      using parse_col_ok [OF k_def [symmetric] _ len] le by (meson order_trans)
    obtain fs where fs: "parse_cols buf copy bits1 cs (offset + of_nat k) = Inr (fs, of_nat e)"
      "length fs = length cs" "cols_ok bits1 (zip cs fs)"
      "cols_bytes bits1 (zip cs fs) = take (e - (unat offset + k)) (drop (unat offset + k) buf)"
      using Cons.IH [of "offset + of_nat k"] fit Cons.prems by (auto simp: off)
    have "col_bytes ty f @ cols_bytes bits1 (zip cs fs) = take (e - unat offset) (drop (unat offset) buf)"
      using take_drop_append [of k "unat offset" buf "e - (unat offset + k)"] le
      by (simp add: f(3) fs(4))
    with f fs inc show ?thesis by (simp add: c)
  qed
qed

lemma VaultNode_parse_ok_lem:
  assumes "12 \<le> length buf" and len: "length buf < 2 ^ 32" and "read32 buf 4 = Inr bits1"
    and fits: "extents buf bits1 colspecs 12 \<le> length buf"
  shows "\<exists>n. VaultNode_parse buf copy = Inr n \<and> node_ok n \<and> m_bits1 n = bits1 \<and>
    unat (message_len n) = extents buf bits1 colspecs 12 \<and>
    cols_bytes bits1 (node_cols n) = take (extents buf bits1 colspecs 12 - 12) (drop 12 buf)"
proof -
  have t: "unat (12 :: u32) = 12" by simp
  obtain bits2 where b2: "read32 buf 8 = Inr bits2"
    using assms(1) by (simp add: read32_Inr)
  from extents_parse [OF len, of bits1 colspecs 12, unfolded t, OF refl fits] obtain fs where
    fs: "parse_cols buf copy bits1 colspecs 12 = Inr (fs, of_nat (extents buf bits1 colspecs 12))"
    "length fs = length colspecs" "cols_ok bits1 (zip colspecs fs)"
    "cols_bytes bits1 (zip colspecs fs) = take (extents buf bits1 colspecs 12 - 12) (drop 12 buf)"
    by blast
  have "unat (of_nat (extents buf bits1 colspecs 12) :: u32) = extents buf bits1 colspecs 12"
    using fits len by (intro unat_of_nat_u32) simp
  with fs assms(3) b2 show ?thesis
    by (simp add: VaultNode_parse_def node_ok_def node_cols_def message_len_def length_colspecs
        del: parse_cols.simps)
qed

text \<open>
  C20: A buffer that holds all the columns its bit vector announces is parsed without leaving
  it; the node is well-formed, its length is the one the columns need and its columns carry the
  bytes of the message.
\<close>

theorem VaultNode_parse_ok:
  assumes "12 \<le> length buf" and len: "length buf < 2 ^ 32" and "read32 buf 4 = Inr bits1"
    and fits: "extents buf bits1 colspecs 12 \<le> length buf"
  shows "\<exists>n. VaultNode_parse buf copy = Inr n \<and> node_ok n \<and> m_bits1 n = bits1 \<and>
    unat (message_len n) = extents buf bits1 colspecs 12 \<and>
    cols_bytes bits1 (node_cols n) = take (extents buf bits1 colspecs 12 - 12) (drop 12 buf)"
  using assms by (rule VaultNode_parse_ok_lem)

text \<open>
  C6: Parsing a complete vault node message and writing the node back gives the same bytes, for
  any mixture of present columns, when the message's length and bit vector are the ones the
  columns need.
\<close>

theorem VaultNode_roundtrip:
  assumes "length buf < 2 ^ 32" and "read32 buf 0 = Inr len0" and "read32 buf 4 = Inr bits1"
    and "read32 buf 8 = Inr 0" and "extents buf bits1 colspecs 12 = length buf"
    and "unat len0 + 4 = length buf" and "VaultNode_parse buf copy = Inr n"
    and "sent_bits n = bits1"
  shows "fill_buffer n len 0 = Inr (take len buf, length buf \<le> len)"
proof -
  from assms(4) have l12: "12 \<le> length buf" by (auto simp: read32_Inr )
  from VaultNode_parse_ok_lem [OF l12 assms(1,3), of copy] assms(5,7) have
    n: "node_ok n" "unat (message_len n) = length buf" "m_bits1 n = bits1"
    "cols_bytes bits1 (node_cols n) = drop 12 buf" by auto
  have len0: "m_length n = len0"
  proof -
    have "message_len n = len0 + 4"
      using n(2) assms(1,6) by (intro word_unat_eq_iff [THEN iffD2]) (simp add: unat_add_u32)
    then show ?thesis by (simp add: message_len_def)
  qed
  have "buf = take 4 buf @ take 4 (drop 4 buf) @ take 4 (drop 8 buf) @ drop 12 buf"
    using take_drop_append [of 4 4 buf 4] take_drop_append [of 4 0 buf 8]
    by simp (metis append_assoc append_take_drop_id)
  moreover have "bytes32 len0 = take 4 buf" "bytes32 bits1 = take 4 (drop 4 buf)"
    "bytes32 0 = take 4 (drop 8 buf)"
    using assms(2-4) bytes32_le32 [of "take 4 (drop 8 buf)"]
    by (auto simp: read32_Inr bytes32_le32)
  ultimately have "node_message n = buf"
    using n(4) assms(8) by (simp add: node_message_def node_header_def len0)
  then show ?thesis using fill_buffer_fresh_lem [OF n(1), of len] by simp
qed

lemma unat_plus4:
  fixes m :: u32
  assumes "4 \<le> unat (m + 4)"
  shows "unat (m + 4) = unat m + 4"
proof (cases "unat m + 4 < 2 ^ 32")
  case False
  have "unat (m + 4) = (unat m + 4) mod 2 ^ 32" by (simp add: unat_word_ariths)
  also have "\<dots> = (unat m + 4 - 2 ^ 32) mod 2 ^ 32" using False by (intro le_mod_geq) simp
  also have "\<dots> \<le> unat m + 4 - 2 ^ 32" by (rule mod_less_eq_dividend)
  also have "\<dots> < 4" using unat_u32_less [of m] by simp
  finally show ?thesis using assms by simp
qed (simp add: unat_add_u32)

lemma extent_col_bytes:
  assumes "field_ok ty f"
  shows "extent (pre @ col_bytes ty f @ post) ty (length pre) = length (col_bytes ty f)"
proof (cases "ty = Int_T \<or> ty = UInt_T \<or> ty = UUID_T")
  case True
  with assms show ?thesis by (auto simp: extent_def length_col_bytes col_size_def)
next
  case False
  with assms obtain buf where buf: "bufval f = Some buf"
    by (auto simp: field_ok_def split: option.splits)
  have size: "col_size ty f = unat (le32 (take 4 buf) + 4)"
    using False buf by (simp add: col_size_def)
  have bounds: "4 \<le> col_size ty f" "col_size ty f \<le> length buf"
    using assms False buf by (auto simp: field_ok_def)
  then have "col_size ty f = unat (le32 (take 4 buf)) + 4"
    unfolding size by (intro unat_plus4)
  moreover have "read32 (col_bytes ty f @ post) 0 = Inr (le32 (take 4 buf))"
    using False buf bounds by (simp add: read32_Inr col_bytes_def min_def)
  ultimately show ?thesis
    using False assms by (simp add: extent_def length_col_bytes)
qed

lemma extents_message:
  "length fs = length cs \<Longrightarrow> cols_ok bits (zip cs fs) \<Longrightarrow>
   extents (pre @ cols_bytes bits (zip cs fs) @ post) bits cs (length pre) =
     length pre + length (cols_bytes bits (zip cs fs))"
proof (induction cs arbitrary: fs pre)
  case (Cons c cs)
  obtain b ty where c: "c = (b, ty)" by (cases c)
  from Cons.prems(1) obtain f fs' where fs: "fs = f # fs'" "length fs' = length cs"
    by (cases fs) auto
  show ?case
  proof (cases "bits AND b = 0")
    case True
    with Cons.IH [OF fs(2), of pre] Cons.prems show ?thesis by (simp add: c fs)
  next
    case False
    with Cons.prems have ok: "field_ok ty f" "cols_ok bits (zip cs fs')" by (auto simp: c fs)
    have "extent (pre @ col_bytes ty f @ cols_bytes bits (zip cs fs') @ post) ty (length pre)
      = length (col_bytes ty f)" by (rule extent_col_bytes [OF ok(1)])
    with Cons.IH [OF fs(2) ok(2), of "pre @ col_bytes ty f"] False show ?thesis
      by (simp add: c fs)
  qed
qed simp

definition wrap_message :: "byte list" where
  "wrap_message = bytes32 12 @ bytes32 String64_1 @ bytes32 0 @ bytes32 0xFFFFFFF0"


text \<open>
  C7: A vault node the server can send is received again: the length check accepts the message
  whatever follows it, the parser succeeds, and the columns of the parsed node carry the bytes
  of the columns that were sent.
\<close>

theorem VaultNode_receive_sent:
  assumes "node_ok n" and "length (node_message n) < 2 ^ 32"
    and "buf = node_message n @ rest" and "length buf < 2 ^ 32"
  shows "\<exists>n'. check_len_by_bitfields buf (length buf) = Inr True \<and>
    VaultNode_parse buf copy = Inr n' \<and> node_ok n' \<and> m_bits1 n' = sent_bits n \<and>
    unat (message_len n') = length (node_message n) \<and>
    cols_bytes (sent_bits n) (node_cols n') = cols_bytes (sent_bits n) (node_cols n)"
proof -
  let ?e = "extents buf (sent_bits n) colspecs 12"
  have l: "length (m_fields1 n) = length colspecs" using assms(1) by (simp add: node_ok_def)
  from node_type_ok_sent [OF assms(1)] have ok: "cols_ok (sent_bits n) (zip colspecs (m_fields1 n))"
    by (simp add: node_cols_def)
  have e: "?e = length (node_message n)"
    using extents_message [OF l ok, of "node_header n" rest] assms(3)
    by (simp add: node_message_def node_cols_def)
  have "read32 (node_header n @ x) 4 = Inr (sent_bits n)" for x
    using read32_at [of "bytes32 (m_length n)" "bytes32 (sent_bits n) @ bytes32 0 @ x"]
    by (simp add: node_header_def)
  then have bits: "read32 buf 4 = Inr (sent_bits n)"
    using assms(3) by (simp add: node_message_def)
  have l12: "12 \<le> length buf" using assms(3) by (simp add: node_message_def)
  have le: "?e \<le> length buf" using e assms(3) by simp
  from VaultNode_parse_ok_lem [OF l12 assms(4) bits le, of copy] check_len_exact_lem [OF l12 bits] e le assms(2,3)
  show ?thesis by (auto simp: node_message_def)
qed

section \<open>The accessors keep the node well-formed\<close>

text \<open>\<open>m_length\<close> counts the bytes of the columns and of the two bitfields.\<close>

definition consistent :: "vault_node \<Rightarrow> bool" where
  "consistent n \<longleftrightarrow> node_ok n \<and>
     m_length n = 8 + of_nat (length (cols_bytes (m_bits1 n) (node_cols n)))"

lemma find_col_Some:
  "find_col b cs i = Some (j, ty) \<Longrightarrow> i \<le> j \<and> j < i + length cs \<and> cs ! (j - i) = (b, ty)"
proof (induction cs arbitrary: i)
  case (Cons c cs)
  obtain b' ty' where c: "c = (b', ty')" by (cases c)
  show ?case
    using Cons.IH [of "Suc i"] Cons.prems
    by (cases "b' = b") (auto simp: c nth_Cons' Suc_diff_le)
qed simp

lemma colspecs_nth: "find_col b colspecs 0 = Some (i, ty) \<Longrightarrow> i < 32 \<and> colspecs ! i = (b, ty)"
  using find_col_Some [of b colspecs 0 i ty] by simp

lemma colspecs_bit: "i < 32 \<Longrightarrow> fst (colspecs ! i) = 2 ^ i"
  using arg_cong [OF colspecs_bits, of "\<lambda>xs. xs ! i"] by simp

lemma colspecs_disjoint:
  assumes "i < 32" "j < 32" "i \<noteq> j"
  shows "fst (colspecs ! i) AND fst (colspecs ! j) = 0"
  unfolding colspecs_bit [OF assms(1)] colspecs_bit [OF assms(2)]
  using assms(3) by (auto intro!: bit_word_eqI simp: bit_simps bit_exp_iff)

text \<open>Storing \<open>f\<close> in row \<open>i\<close> and setting its bit changes this row only.\<close>

lemma cols_cong_bits:
  assumes "\<And>b ty f. ((b, ty), f) \<in> set cs \<Longrightarrow> bits' AND b = bits AND b"
  shows "cols_bytes bits' cs = cols_bytes bits cs" "cols_ok bits' cs = cols_ok bits cs"
proof -
  show "cols_bytes bits' cs = cols_bytes bits cs"
    unfolding cols_bytes_def using assms by (intro arg_cong [where f = concat] map_cong) auto
  show "cols_ok bits' cs = cols_ok bits cs"
    unfolding cols_ok_def using assms by (intro list_all_cong) auto
qed

lemma node_cols_split:
  assumes "length (m_fields1 n) = 32" and "find_col b colspecs 0 = Some (i, ty)"
  shows "node_cols (n\<lparr>m_fields1 := (m_fields1 n)[i := f]\<rparr>) =
    take i (node_cols n) @ ((b, ty), f) # drop (Suc i) (node_cols n)"
proof -
  from colspecs_nth [OF assms(2)] have i: "i < 32" "colspecs ! i = (b, ty)" by auto
  have "node_cols (n\<lparr>m_fields1 := (m_fields1 n)[i := f]\<rparr>) = (node_cols n)[i := ((b, ty), f)]"
    using zip_update [of colspecs i "(b, ty)" "m_fields1 n" f] i list_update_id [of colspecs i]
    by (simp add: node_cols_def)
  then show ?thesis
    using assms(1) i by (simp add: upd_conv_take_nth_drop node_cols_def)
qed

lemma other_rows:
  assumes "length (m_fields1 n) = 32" and "find_col b colspecs 0 = Some (i, ty)"
    and "((b', ty'), f') \<in> set (take i (node_cols n)) \<union> set (drop (Suc i) (node_cols n))"
  shows "b AND b' = 0"
proof -
  from colspecs_nth [OF assms(2)] have i: "i < 32" "fst (colspecs ! i) = b" by auto
  have l: "length (node_cols n) = 32" using assms(1) by (simp add: node_cols_def)
  have "\<exists>j<32. j \<noteq> i \<and> node_cols n ! j = ((b', ty'), f')"
    using assms(3)
  proof (elim UnE)
    assume "((b', ty'), f') \<in> set (take i (node_cols n))"
    then obtain j where "j < i" "take i (node_cols n) ! j = ((b', ty'), f')"
      by (auto simp: in_set_conv_nth)
    then show ?thesis using i(1) by (intro exI [of _ j]) auto
  next
    assume "((b', ty'), f') \<in> set (drop (Suc i) (node_cols n))"
    then obtain j where "j < 32 - Suc i" "drop (Suc i) (node_cols n) ! j = ((b', ty'), f')"
      using l by (auto simp: in_set_conv_nth)
    then show ?thesis using l i(1) by (intro exI [of _ "Suc i + j"]) auto
  qed
  then obtain j where j: "j < 32" "j \<noteq> i" "node_cols n ! j = ((b', ty'), f')" by auto
  then have "fst (colspecs ! j) = b'"
    using assms(1) by (simp add: node_cols_def)
  with colspecs_disjoint [of i j] i j show ?thesis by auto
qed

lemma cols_bytes_split:
  "cs = xs @ ((b, ty), f) # ys \<Longrightarrow> cols_bytes bits cs =
    cols_bytes bits xs @ (if bits AND b = 0 then [] else col_bytes ty f) @ cols_bytes bits ys"
  by simp

lemma store_column:
  assumes "node_ok n" and "find_col b colspecs 0 = Some (i, ty)" and "field_ok ty f"
    and n': "n' = n\<lparr>m_fields1 := (m_fields1 n)[i := f], m_bits1 := m_bits1 n OR b, m_length := l\<rparr>"
  shows "node_ok n'"
    and "cols_bytes (m_bits1 n') (node_cols n') =
      cols_bytes (m_bits1 n) (take i (node_cols n)) @ col_bytes ty f @
      cols_bytes (m_bits1 n) (drop (Suc i) (node_cols n))"
    and "cols_bytes (m_bits1 n) (node_cols n) =
      cols_bytes (m_bits1 n) (take i (node_cols n)) @
      (if m_bits1 n AND b = 0 then [] else col_bytes ty (m_fields1 n ! i)) @
      cols_bytes (m_bits1 n) (drop (Suc i) (node_cols n))"
proof -
  have l: "length (m_fields1 n) = 32" and ok: "cols_ok (m_bits1 n) (node_cols n)"
    using assms(1) by (auto simp: node_ok_def)
  from colspecs_nth [OF assms(2)] have i: "i < 32" "b = 2 ^ i"
    using colspecs_bit [of i] by auto
  have split: "node_cols n' = take i (node_cols n) @ ((b, ty), f) # drop (Suc i) (node_cols n)"
    using node_cols_split [OF l assms(2), of f] by (simp add: n' node_cols_def)
  have same: "(m_bits1 n OR b) AND b' = m_bits1 n AND b'"
    if "((b', ty'), f') \<in> set (take i (node_cols n)) \<union> set (drop (Suc i) (node_cols n))" for b' ty' f'
    using other_rows [OF l assms(2) that] by (simp add: bit.conj_disj_distrib2)
  have keep: "cols_bytes (m_bits1 n OR b) cs = cols_bytes (m_bits1 n) cs"
    "cols_ok (m_bits1 n OR b) cs = cols_ok (m_bits1 n) cs"
    if "set cs \<subseteq> set (take i (node_cols n)) \<union> set (drop (Suc i) (node_cols n))" for cs
    by (rule cols_cong_bits, rule same, use that in blast)+
  have on: "(m_bits1 n OR b) AND b = b" by (auto intro!: bit_word_eqI simp: bit_simps)
  have nz: "b \<noteq> 0" using i by simp
  have "node_cols n = take i (node_cols n) @ ((b, ty), m_fields1 n ! i) # drop (Suc i) (node_cols n)"
    using node_cols_split [OF l assms(2), of "m_fields1 n ! i"] by simp
  then show "cols_bytes (m_bits1 n) (node_cols n) =
      cols_bytes (m_bits1 n) (take i (node_cols n)) @
      (if m_bits1 n AND b = 0 then [] else col_bytes ty (m_fields1 n ! i)) @
      cols_bytes (m_bits1 n) (drop (Suc i) (node_cols n))"
    by (rule cols_bytes_split)
  show "cols_bytes (m_bits1 n') (node_cols n') =
      cols_bytes (m_bits1 n) (take i (node_cols n)) @ col_bytes ty f @
      cols_bytes (m_bits1 n) (drop (Suc i) (node_cols n))"
    unfolding split using on nz by (simp add: n' keep)
  have "cols_ok (m_bits1 n) (take i (node_cols n))" "cols_ok (m_bits1 n) (drop (Suc i) (node_cols n))"
    using ok by (auto simp: cols_ok_def list_all_iff dest: in_set_takeD in_set_dropD)
  then show "node_ok n'"
    unfolding node_ok_def split using assms(3) l by (simp add: n' keep)
qed

lemma set_num_spec_lem:
  assumes "consistent n" and "set_num n b v = Inr n'"
  shows "consistent n' \<and> num_val n' b = Inr v \<and> m_bits1 n' = m_bits1 n OR b"
proof -
  from assms(2) obtain i ty where c: "find_col b colspecs 0 = Some (i, ty)" "ty = Int_T \<or> ty = UInt_T"
    by (auto simp: set_num_def num_ref_def res_simps split: option.splits if_splits)
  let ?f = "(m_fields1 n ! i)\<lparr>intval := v\<rparr>"
  let ?l = "if m_bits1 n AND b = 0 then m_length n + 4 else m_length n"
  from colspecs_nth [OF c(1)] have i: "i < 32" "b = 2 ^ i"
    using colspecs_bit [of i] by auto
  have l: "length (m_fields1 n) = 32" and ok: "node_ok n"
    using assms(1) by (auto simp: consistent_def node_ok_def)
  have on: "m_bits1 n OR b = m_bits1 n" if "m_bits1 n AND b \<noteq> 0"
    using that i by (auto intro!: bit_word_eqI simp: bit_simps and_exp_eq_0_iff_not_bit)
  have n': "n' = n\<lparr>m_fields1 := (m_fields1 n)[i := ?f], m_bits1 := m_bits1 n OR b, m_length := ?l\<rparr>"
    using assms(2) c on by (auto simp: set_num_def num_ref_def)
  have f: "field_ok ty ?f" "length (col_bytes ty ?f) = 4" "length (col_bytes ty (m_fields1 n ! i)) = 4"
    using c(2) by (auto simp: field_ok_def col_bytes_def)
  have "num_val n' b = Inr v" using c i l by (simp add: num_val_def n')
  moreover have "consistent n'"
    unfolding consistent_def store_column(2) [OF ok c(1) f(1) n']
    using assms(1) store_column(1) [OF ok c(1) f(1) n'] store_column(3) [OF ok c(1) f(1) n'] f(2,3)
    by (auto simp: consistent_def n')
  ultimately show ?thesis by (simp add: n')
qed

theorem set_num_spec:
  assumes "consistent n" and "set_num n b v = Inr n'"
  shows "consistent n' \<and> num_val n' b = Inr v \<and> m_bits1 n' = m_bits1 n OR b"
  using assms by (rule set_num_spec_lem)

section \<open>A small node\<close>

text \<open>A text note with its type and one string, for the witnesses.\<close>

definition sample_node :: vault_node where
  "sample_node = \<lparr>m_length = 20, m_bits1 = NodeType OR String64_1, m_bits2 = 0, m_fields1 =
     [zero_field, zero_field, zero_field, zero_field, zero_field, zero_field, zero_field,
      zero_field\<lparr>intval := 0x1a\<rparr>,
      zero_field, zero_field, zero_field, zero_field, zero_field, zero_field,
      zero_field, zero_field, zero_field, zero_field, zero_field, zero_field,
      zero_field\<lparr>bufval := Some (bytes32 4 @ [104, 0, 105, 0])\<rparr>,
      zero_field, zero_field, zero_field, zero_field, zero_field, zero_field,
      zero_field, zero_field, zero_field, zero_field, zero_field],
     m_owns_bufs = True\<rparr>"

lemma le32_bytes32' [simp]: "le32 (bytes32 v) = v"
  using le32_bytes32 [of v "[]"] by simp

lemma sample_sent: "sent_bits sample_node = NodeType OR String64_1"
  by (simp add: sample_node_def sent_bits_def node_type_def vault_nodetype_of_def
      all_bits_for_type_def bits_defs bitfield_defs)

lemma sample_bytes:
  "cols_bytes (NodeType OR String64_1) (node_cols sample_node) =
     bytes32 0x1a @ bytes32 4 @ [104, 0, 105, 0]"
  by (simp add: sample_node_def node_cols_def colspecs_def bitfield_defs cols_bytes_def col_bytes_def
      col_size_def zero_field_def)

lemma sample_ok: "node_ok sample_node"
  by (simp add: sample_node_def node_ok_def node_cols_def colspecs_def bitfield_defs cols_ok_def
      field_ok_def col_size_def zero_field_def)

lemma sample_message:
  "node_message sample_node =
     bytes32 20 @ bytes32 (NodeType OR String64_1) @ bytes32 0 @
     bytes32 0x1a @ bytes32 4 @ [104, 0, 105, 0]"
  unfolding node_message_def node_header_def sample_sent sample_bytes by (simp add: sample_node_def)

lemma sample_consistent: "consistent sample_node"
  unfolding consistent_def using sample_ok sample_bytes by (simp add: sample_node_def)


theorem node_message_length:
  assumes "consistent n" and "sent_bits n = m_bits1 n" and "length (node_message n) < 2 ^ 32"
  shows "unat (message_len n) = length (node_message n)"
proof -
  let ?k = "length (cols_bytes (m_bits1 n) (node_cols n))"
  have l: "length (node_message n) = 12 + ?k"
    using assms(2) by (simp add: node_message_def)
  have "message_len n = of_nat (length (node_message n))"
    using assms(1) by (simp add: message_len_def consistent_def l)
  then show ?thesis using assms(3) by (simp add: unat_of_nat_u32)
qed

theorem node_message_length_witness:
  "unat (message_len sample_node) = length (node_message sample_node)"
  by (rule node_message_length [OF sample_consistent])
    (simp_all add: sample_message sample_sent, simp add: sample_node_def)

text \<open>
  A column that the type does not have is counted but not sent: the message is shorter than
  \<open>message_len\<close> says.
\<close>

lemma cols_none: "cols_bytes 0 cs = []" "cols_ok 0 cs"
  by (simp_all add: cols_bytes_def cols_ok_def list_all_iff split_beta)

lemma consistent_VaultNode: "consistent VaultNode"
  using cols_none by (simp add: consistent_def node_ok_def VaultNode_def)

theorem node_message_short:
  "\<exists>n. consistent n \<and> length (node_message n) < unat (message_len n)"
proof -
  have col: "find_col Int32_1 colspecs 0 = Some (8, Int_T)"
    by (simp add: colspecs_def bitfield_defs)
  define n where "n = VaultNode\<lparr>m_length := 12, m_bits1 := Int32_1,
    m_fields1 := (m_fields1 VaultNode)[8 := zero_field\<lparr>intval := 5\<rparr>]\<rparr>"
  have n: "set_num VaultNode Int32_1 5 = Inr n"
    by (simp add: set_num_def num_ref_def col VaultNode_def n_def)
  from set_num_spec_lem [OF consistent_VaultNode n] have c: "consistent n" by blast
  have "sent_bits n = 0" "message_len n = 16"
    by (simp_all add: n_def sent_bits_def node_type_def VaultNode_def zero_field_def vault_nodetype_of_def
        all_bits_for_type_def message_len_def)
  then have "length (node_message n) = 12" "unat (message_len n) = 16"
    by (simp_all add: node_message_def cols_none)
  with c show ?thesis by force
qed

theorem VaultNode_receive_sent_witness:
  "\<exists>n'. check_len_by_bitfields (node_message sample_node @ [7])
      (length (node_message sample_node @ [7])) = Inr True \<and>
    VaultNode_parse (node_message sample_node @ [7]) False = Inr n' \<and>
    cols_bytes (sent_bits sample_node) (node_cols n') =
      cols_bytes (sent_bits sample_node) (node_cols sample_node)"
proof -
  have "length (node_message sample_node) < 2 ^ 32"
    "length (node_message sample_node @ [7]) < 2 ^ 32" by (simp_all add: sample_message)
  from VaultNode_receive_sent [OF sample_ok this(1) refl this(2), of False]
  show ?thesis by blast
qed

theorem VaultNode_parse_ok_witness:
  "\<exists>n. VaultNode_parse (node_message sample_node) True = Inr n \<and> node_ok n \<and>
     unat (message_len n) = 24"
proof -
  have e: "extents (node_message sample_node) (NodeType OR String64_1) colspecs 12 = 24"
    using extents_message [of "m_fields1 sample_node" colspecs "NodeType OR String64_1"
        "node_header sample_node" "[]"] sample_ok sample_bytes sample_sent
    by (simp add: node_ok_def node_message_def node_cols_def) (simp add: sample_node_def)
  have bits: "read32 (node_message sample_node) 4 = Inr (NodeType OR String64_1)"
    using read32_at [of "bytes32 20"] by (simp add: sample_message)
  have len: "length (node_message sample_node) = 24" by (simp add: sample_message)
  from VaultNode_parse_ok [OF _ _ bits, of True] e len show ?thesis by fastforce
qed


lemma sample_size:
  "length (node_message sample_node) = 24"
  "read32 (node_message sample_node) 0 = Inr 20"
  "read32 (node_message sample_node) 4 = Inr (NodeType OR String64_1)"
  "read32 (node_message sample_node) 8 = Inr 0"
  using read32_at [of "bytes32 20"] read32_at [of "bytes32 20 @ bytes32 (NodeType OR String64_1)"]
  by (simp_all add: sample_message)

lemma sample_extents: "extents (node_message sample_node) (NodeType OR String64_1) colspecs 12 = 24"
  using extents_message [of "m_fields1 sample_node" colspecs "NodeType OR String64_1"
      "node_header sample_node" "[]"] sample_ok sample_bytes sample_sent
  by (simp add: node_ok_def node_message_def node_cols_def) (simp add: sample_node_def)

theorem check_len_exact_witness:
  "check_len_by_bitfields (node_message sample_node) 24 = Inr True"
  using check_len_exact [OF _ sample_size(3)] sample_extents by (simp add: sample_size)

lemma cols_absent:
  "\<forall>c \<in> set cs. bits AND fst c = 0 \<Longrightarrow> cols_bytes bits (zip cs fs) = []"
proof (induction cs arbitrary: fs)
  case (Cons c cs)
  then show ?case by (cases fs; cases c) auto
qed simp

text \<open>A note read back from its message has the type of the message.\<close>

lemma sample_type:
  assumes "node_ok n" and "m_bits1 n = NodeType OR String64_1"
    and "cols_bytes (m_bits1 n) (node_cols n) = bytes32 0x1a @ bs"
  shows "intval (m_fields1 n ! 7) = 0x1a"
proof -
  have c: "find_col NodeType colspecs 0 = Some (7, Int_T)"
    by (simp add: colspecs_def bitfield_defs)
  have "take 7 (node_cols n) = zip (take 7 colspecs) (take 7 (m_fields1 n))"
    by (simp add: node_cols_def take_zip)
  moreover have "\<forall>c \<in> set (take 7 colspecs). (NodeType OR String64_1) AND fst c = 0"
    by (simp add: colspecs_def bitfield_defs)
  ultimately have pre: "cols_bytes (m_bits1 n) (take 7 (node_cols n)) = []"
    using assms(2) by (simp add: cols_absent)
  have on: "m_bits1 n AND NodeType \<noteq> 0" using assms(2) by (simp add: bitfield_defs)
  have same: "n = n\<lparr>m_fields1 := (m_fields1 n)[7 := m_fields1 n ! 7],
      m_bits1 := m_bits1 n OR NodeType, m_length := m_length n\<rparr>"
    using assms(2) by (simp add: bitfield_defs)
  have "field_ok Int_T (m_fields1 n ! 7)" by (simp add: field_ok_def)
  from store_column(3) [OF assms(1) c this same] pre on assms(3)
  have "bytes32 (intval (m_fields1 n ! 7)) @
      cols_bytes (m_bits1 n) (drop (Suc 7) (node_cols n)) = bytes32 0x1a @ bs"
    by (simp add: col_bytes_def)
  then have "le32 (bytes32 (intval (m_fields1 n ! 7))) = le32 (bytes32 0x1a)"
    by (metis append_eq_append_conv length_bytes32)
  then show ?thesis by simp
qed

theorem VaultNode_roundtrip_witness:
  "\<exists>n. VaultNode_parse (node_message sample_node) True = Inr n \<and>
     fill_buffer n 10 0 = Inr (take 10 (node_message sample_node), False)"
proof -
  from VaultNode_parse_ok_lem [OF _ _ sample_size(3), of True] obtain n where
    n: "VaultNode_parse (node_message sample_node) True = Inr n" "m_bits1 n = NodeType OR String64_1"
      "node_ok n"
    and b: "cols_bytes (m_bits1 n) (node_cols n) = drop 12 (node_message sample_node)"
    using sample_extents by (auto simp: sample_size)
  have "intval (m_fields1 n ! 7) = 0x1a"
    by (rule sample_type [OF n(3,2)]) (simp add: b sample_message)
  then have "sent_bits n = NodeType OR String64_1"
    using n(2) by (simp add: sent_bits_def node_type_def vault_nodetype_of_def
      all_bits_for_type_def bits_defs bitfield_defs)
  from VaultNode_roundtrip [OF _ sample_size(2) sample_size(3) sample_size(4) _ _ n(1) this, of 10] n(1)
  show ?thesis using sample_extents by (simp add: sample_size)
qed

theorem fill_buffer_fresh_witness:
  "fill_buffer sample_node 10 0 = Inr (take 10 (node_message sample_node), False)"
  using fill_buffer_fresh [OF sample_ok, of 10] by (simp add: sample_size)

theorem fill_buffer_resume_witness:
  "fill_buffer sample_node 100 16 = Inr (bytes32 4 @ [104, 0, 105, 0], True)"
proof -
  let ?a = "take 8 (node_cols sample_node)" and ?b = "drop 8 (node_cols sample_node)"
  have "cols_bytes (sent_bits sample_node) ?a = bytes32 0x1a"
    "cols_bytes (sent_bits sample_node) ?b = bytes32 4 @ [104, 0, 105, 0]"
    by (simp_all add: sample_sent) (simp_all add: sample_node_def node_cols_def colspecs_def bitfield_defs
        cols_bytes_def col_bytes_def col_size_def zero_field_def)
  with fill_buffer_resume [OF sample_ok, of ?a ?b 100] show ?thesis by simp
qed


theorem set_num_spec_witness:
  "\<exists>n. set_num VaultNode Int32_1 5 = Inr n \<and> consistent n \<and> num_val n Int32_1 = Inr 5"
proof -
  have "find_col Int32_1 colspecs 0 = Some (8, Int_T)"
    by (simp add: colspecs_def bitfield_defs)
  then obtain n where n: "set_num VaultNode Int32_1 5 = Inr n"
    by (simp add: set_num_def num_ref_def VaultNode_def)
  with set_num_spec [OF consistent_VaultNode n] show ?thesis by blast
qed

theorem fill_col_resume_inside_witness:
  "fill_col String_T (zero_field\<lparr>bufval := Some (bytes32 4 @ [104, 0, 105, 0])\<rparr>) 100 (6, [], True) =
     Inl Out_Of_Bounds"
  by (rule fill_col_resume_inside) (simp_all add: field_ok_def col_size_def)

theorem fill_col_resume_uuid_witness:
  "fill_col UUID_T (zero_field\<lparr>bufval := Some (replicate 16 9)\<rparr>) 4 (13, [], True) =
     Inr (0, [9, 9, 9], True)"
  using fill_col_resume_uuid [of "zero_field\<lparr>bufval := Some (replicate 16 9)\<rparr>" 13 4]
  by (simp add: field_ok_def col_bytes_def col_size_def numeral_eq_Suc)

end
