(* ===== verification/Net_Message.thy ===== *)
theory Net_Message
  imports Wire
begin

text \<open>
  \<open>NetworkMessage.cc\<close> and the message classes of \<open>AuthMessage.cc\<close>, \<open>GameMessage.cc\<close> and
  \<open>GatekeeperMessage.cc\<close> that the servers write to a socket.  A message can be written in pieces:
  \<open>fill_buffer\<close> copies at most \<open>len\<close> bytes from position \<open>start_at\<close> on, \<open>fill_iovecs\<close> sets up at
  most \<open>iov_ct\<close> vectors, and \<open>iovecs_written_bytes\<close> is told how much of them \<open>writev\<close> took.

  The locale \<open>message_class\<close> is what \<open>MessageQueue\<close> relies on, for any message class: each of the
  three speaks about one byte string, the message's content.  It is interpreted on the model of
  the classes below.

  The bytes a call wrote are part of its result, so the count that the code returns is their
  number.  \<open>uint32_t\<close> sums wrap (\<open>add32\<close>); so do \<open>size_t\<close> differences (\<open>sub64\<close>).
\<close>

section \<open>Sums and differences at their width\<close>

definition add32 :: "nat \<Rightarrow> nat \<Rightarrow> nat" where
  "add32 a b = (a + b) mod 2 ^ 32"

definition sub64 :: "nat \<Rightarrow> nat \<Rightarrow> nat" where
  "sub64 a b = (a + 2 ^ 64 - b) mod 2 ^ 64"

lemma add32_eq [simp]: "a + b < 2 ^ 32 \<Longrightarrow> add32 a b = a + b"
  by (simp add: add32_def)

lemma sub64_eq [simp]: "b \<le> a \<Longrightarrow> a < 2 ^ 64 \<Longrightarrow> sub64 a b = a - b"
  by (simp add: sub64_def mod_if)

section \<open>The message classes\<close>

text \<open>
  One constructor per class, with the members the three operations look at: \<open>m_buf\<close> (whose
  length is \<open>m_buflen\<close>), the message type where it is written by itself, the buffer on top of an
  age reply, the two numbers of a join reply.
\<close>

datatype net_message =
    NonceResponse "byte list"
  | AuthPingMessage "byte list"
  | GamePingMessage "byte list"
  | GatekeeperPingMessage "byte list"
  | GatekeeperServerMessage "byte list"
  | SharedGameMessage "byte list option"
  | GameJoinReply u16 u32 u32
  | AuthServerMessage u16 "byte list"
  | AuthServerAgeReplyMessage "byte list" "byte list"

subsection \<open>Messages held in one buffer\<close>

definition flat_fill_iovecs :: "byte list \<Rightarrow> nat \<Rightarrow> nat \<Rightarrow> byte list list res" where
  "flat_fill_iovecs m_buf iov_ct start_at =
     (if iov_ct > 0
      then rbind (slice start_at (sub64 (length m_buf) start_at) m_buf) (\<lambda>bs. Inr [bs])
      else Inr [])"

definition flat_written :: "byte list \<Rightarrow> nat \<Rightarrow> nat \<Rightarrow> nat \<times> bool" where
  "flat_written m_buf byte_ct start_at =
     (if add32 byte_ct start_at \<ge> length m_buf
      then (add32 byte_ct start_at - length m_buf, True) else (0, False))"

definition flat_fill_buffer :: "byte list \<Rightarrow> nat \<Rightarrow> nat \<Rightarrow> (byte list \<times> bool) res" where
  "flat_fill_buffer m_buf len start_at =
     (if sub64 (length m_buf) start_at \<le> len
      then rbind (slice start_at (sub64 (length m_buf) start_at) m_buf) (\<lambda>bs. Inr (bs, True))
      else rbind (slice start_at len m_buf) (\<lambda>bs. Inr (bs, False)))"

text \<open>\<open>NonceResponse\<close> has its own checks, and keeps the size subtraction unsigned.\<close>

definition nonce_new :: "byte list \<Rightarrow> net_message" where
  "nonce_new msg = NonceResponse ([0x01, of_nat (length msg + 2)] @ msg)"

definition nonce_fill_iovecs :: "byte list \<Rightarrow> nat \<Rightarrow> nat \<Rightarrow> byte list list res" where
  "nonce_fill_iovecs m_buf iov_ct start_at =
     (if iov_ct < 1 \<or> start_at \<ge> length m_buf then Inr []
      else rbind (slice start_at (length m_buf - start_at) m_buf) (\<lambda>bs. Inr [bs]))"

definition nonce_written :: "byte list \<Rightarrow> nat \<Rightarrow> nat \<Rightarrow> nat \<times> bool" where
  "nonce_written m_buf byte_ct start_at =
     (if byte_ct \<ge> sub64 (length m_buf) start_at
      then (byte_ct - sub64 (length m_buf) start_at, True) else (0, False))"

definition nonce_fill_buffer :: "byte list \<Rightarrow> nat \<Rightarrow> nat \<Rightarrow> (byte list \<times> bool) res" where
  "nonce_fill_buffer m_buf len start_at =
     (if len \<le> 0 \<or> start_at \<ge> length m_buf then Inr ([], True)
      else let len_to_write = length m_buf - start_at
           in if len < len_to_write
              then rbind (slice start_at len m_buf) (\<lambda>bs. Inr (bs, False))
              else rbind (slice start_at len_to_write m_buf) (\<lambda>bs. Inr (bs, True)))"

subsection \<open>\<open>GameJoinReply\<close>\<close>

definition join_fill_buffer :: "u16 \<Rightarrow> u32 \<Rightarrow> u32 \<Rightarrow> nat \<Rightarrow> nat \<Rightarrow> (byte list \<times> bool) res" where
  "join_fill_buffer m_type m_reqid m_result len start_at =
     (let rest = (\<lambda>out start_at.
            let wlen = 8 - start_at
            in if len - length out < wlen
               then rbind (slice start_at (len - length out) (bytes32 m_reqid @ bytes32 m_result))
                      (\<lambda>bs. Inr (out @ bs, False))
               else rbind (slice start_at wlen (bytes32 m_reqid @ bytes32 m_result))
                      (\<lambda>bs. Inr (out @ bs, True)))
      in if start_at < 2
         then (if start_at = 0
               then (if len < 2 then Inr ([ucast (m_type AND 0xFF)], False)
                     else rest (bytes16 m_type) 0)
               else rest [ucast (drop_bit 8 (m_type AND 0xFF00))] 0)
         else rest [] (start_at - 2))"

definition join_fill_iovecs :: "u16 \<Rightarrow> u32 \<Rightarrow> u32 \<Rightarrow> nat \<Rightarrow> nat \<Rightarrow> byte list list res" where
  "join_fill_iovecs m_type m_reqid m_result iov_ct start_at =
     rbind (join_fill_buffer m_type m_reqid m_result 10 0) (\<lambda>(m_buf, msg_done).
     rbind (slice start_at (sub64 10 start_at) m_buf) (\<lambda>bs. Inr [bs]))"

definition join_written :: "nat \<Rightarrow> nat \<Rightarrow> nat \<times> bool" where
  "join_written byte_ct start_at =
     (if add32 byte_ct start_at \<ge> 10 then (add32 byte_ct start_at - 10, True) else (0, False))"

subsection \<open>\<open>AuthServerMessage\<close>\<close>

definition auth_fill_iovecs :: "u16 \<Rightarrow> byte list \<Rightarrow> nat \<Rightarrow> nat \<Rightarrow> byte list list res" where
  "auth_fill_iovecs m_type m_buf iov_ct start_at =
     (let (iov1, start1) = (if 0 < iov_ct \<and> start_at = 0
                            then ([[ucast (m_type AND 0xFF)]], start_at + 1) else ([], start_at));
          (iov2, start2) = (if length iov1 < iov_ct \<and> start1 < 2
                            then (iov1 @ [[0]], start1 + 1) else (iov1, start1))
      in if length iov2 < iov_ct
         then rbind (slice (start2 - 2) (sub64 (length m_buf) (start2 - 2)) m_buf) (\<lambda>bs.
              Inr (iov2 @ [bs]))
         else Inr iov2)"

definition auth_written :: "nat \<Rightarrow> nat \<Rightarrow> nat \<Rightarrow> nat \<times> bool" where
  "auth_written message_len byte_ct start_at =
     (if add32 byte_ct start_at < message_len then (0, False)
      else (add32 byte_ct start_at - message_len, True))"

definition auth_fill_buffer :: "u16 \<Rightarrow> byte list \<Rightarrow> nat \<Rightarrow> nat \<Rightarrow> (byte list \<times> bool) res" where
  "auth_fill_buffer m_type m_buf len start_at =
     (let (out1, start1) = (if start_at = 0 \<and> len > 0
                            then ([ucast (m_type AND 0xFF)], start_at + 1) else ([], start_at));
          (out2, start2) = (if start1 < 2 \<and> len > length out1
                            then (out1 @ [0], start1 + 1) else (out1, start1))
      in if len > length out2
         then let to_copy = length m_buf - (start2 - 2)
              in if len - length out2 < to_copy
                 then rbind (slice (start2 - 2) (len - length out2) m_buf) (\<lambda>bs. Inr (out2 @ bs, False))
                 else rbind (slice (start2 - 2) to_copy m_buf) (\<lambda>bs. Inr (out2 @ bs, True))
         else Inr (out2, False))"

subsection \<open>\<open>AuthServerAgeReplyMessage\<close>\<close>

text \<open>Its \<open>message_len\<close> is the constant 38, and \<open>iovecs_written_bytes\<close> is inherited.\<close>

definition age_reply_new :: "u16 \<Rightarrow> u32 \<Rightarrow> u32 \<Rightarrow> byte list \<Rightarrow> net_message" where
  "age_reply_new m_type reqid result contents =
     AuthServerAgeReplyMessage (bytes16 m_type @ bytes32 reqid @ bytes32 result) contents"

definition age_fill_iovecs :: "byte list \<Rightarrow> byte list \<Rightarrow> nat \<Rightarrow> nat \<Rightarrow> byte list list res" where
  "age_fill_iovecs m_topbuf m_buf iov_ct start_at =
     (let (r, start1) = (if 0 < iov_ct
            then (if start_at < 10
                  then (rbind (slice start_at (10 - start_at) m_topbuf) (\<lambda>bs. Inr [bs]), 0)
                  else (Inr [], start_at - 10))
            else (Inr [], start_at))
      in rbind r (\<lambda>iov.
           if length iov < iov_ct
           then rbind (slice start1 (sub64 (length m_buf) start1) m_buf) (\<lambda>bs. Inr (iov @ [bs]))
           else Inr iov))"

definition age_fill_buffer :: "byte list \<Rightarrow> byte list \<Rightarrow> nat \<Rightarrow> nat \<Rightarrow> (byte list \<times> bool) res" where
  "age_fill_buffer m_topbuf m_buf len start_at =
     (let i = (if start_at < 10 then (if len < 10 - start_at then len else 10 - start_at) else 0);
          start1 = (if start_at < 10 then start_at + i else start_at)
      in rbind (if start_at < 10 then slice start_at i m_topbuf else Inr []) (\<lambda>out.
           if len > i
           then let to_copy = length m_buf - (start1 - 10)
                in if len - i < to_copy
                   then rbind (slice (start1 - 10) (len - i) m_buf) (\<lambda>bs. Inr (out @ bs, False))
                   else rbind (slice (start1 - 10) to_copy m_buf) (\<lambda>bs. Inr (out @ bs, True))
           else Inr (out, False)))"

subsection \<open>The virtual methods\<close>

definition msg_fill_iovecs :: "net_message \<Rightarrow> nat \<Rightarrow> nat \<Rightarrow> byte list list res" where
  "msg_fill_iovecs m iov_ct start_at =
     (case m of
        NonceResponse b \<Rightarrow> nonce_fill_iovecs b iov_ct start_at
      | AuthPingMessage b \<Rightarrow> flat_fill_iovecs b iov_ct start_at
      | GamePingMessage b \<Rightarrow> flat_fill_iovecs b iov_ct start_at
      | GatekeeperPingMessage b \<Rightarrow> flat_fill_iovecs b iov_ct start_at
      | GatekeeperServerMessage b \<Rightarrow> flat_fill_iovecs b iov_ct start_at
      | SharedGameMessage None \<Rightarrow> Inr []
      | SharedGameMessage (Some b) \<Rightarrow> flat_fill_iovecs b iov_ct start_at
      | GameJoinReply t q r \<Rightarrow> join_fill_iovecs t q r iov_ct start_at
      | AuthServerMessage t b \<Rightarrow> auth_fill_iovecs t b iov_ct start_at
      | AuthServerAgeReplyMessage tb b \<Rightarrow> age_fill_iovecs tb b iov_ct start_at)"

definition msg_written :: "net_message \<Rightarrow> nat \<Rightarrow> nat \<Rightarrow> nat \<times> bool" where
  "msg_written m byte_ct start_at =
     (case m of
        NonceResponse b \<Rightarrow> nonce_written b byte_ct start_at
      | AuthPingMessage b \<Rightarrow> flat_written b byte_ct start_at
      | GamePingMessage b \<Rightarrow> flat_written b byte_ct start_at
      | GatekeeperPingMessage b \<Rightarrow> flat_written b byte_ct start_at
      | GatekeeperServerMessage b \<Rightarrow> flat_written b byte_ct start_at
      | SharedGameMessage None \<Rightarrow> (0, True)
      | SharedGameMessage (Some b) \<Rightarrow> flat_written b byte_ct start_at
      | GameJoinReply t q r \<Rightarrow> join_written byte_ct start_at
      | AuthServerMessage t b \<Rightarrow> auth_written (length b + 2) byte_ct start_at
      | AuthServerAgeReplyMessage tb b \<Rightarrow> auth_written 38 byte_ct start_at)"

definition msg_fill_buffer :: "net_message \<Rightarrow> nat \<Rightarrow> nat \<Rightarrow> (byte list \<times> bool) res" where
  "msg_fill_buffer m len start_at =
     (case m of
        NonceResponse b \<Rightarrow> nonce_fill_buffer b len start_at
      | AuthPingMessage b \<Rightarrow> flat_fill_buffer b len start_at
      | GamePingMessage b \<Rightarrow> flat_fill_buffer b len start_at
      | GatekeeperPingMessage b \<Rightarrow> flat_fill_buffer b len start_at
      | GatekeeperServerMessage b \<Rightarrow> flat_fill_buffer b len start_at
      | SharedGameMessage None \<Rightarrow> Inr ([], True)
      | SharedGameMessage (Some b) \<Rightarrow> flat_fill_buffer b len start_at
      | GameJoinReply t q r \<Rightarrow> join_fill_buffer t q r len start_at
      | AuthServerMessage t b \<Rightarrow> auth_fill_buffer t b len start_at
      | AuthServerAgeReplyMessage tb b \<Rightarrow> age_fill_buffer tb b len start_at)"

section \<open>What a message is on the wire\<close>

definition msg_content :: "net_message \<Rightarrow> byte list" where
  "msg_content m =
     (case m of
        NonceResponse b \<Rightarrow> b
      | AuthPingMessage b \<Rightarrow> b
      | GamePingMessage b \<Rightarrow> b
      | GatekeeperPingMessage b \<Rightarrow> b
      | GatekeeperServerMessage b \<Rightarrow> b
      | SharedGameMessage None \<Rightarrow> []
      | SharedGameMessage (Some b) \<Rightarrow> b
      | GameJoinReply t q r \<Rightarrow> bytes16 t @ bytes32 q @ bytes32 r
      | AuthServerMessage t b \<Rightarrow> ucast (t AND 0xFF) # 0 # b
      | AuthServerAgeReplyMessage tb b \<Rightarrow> tb @ b)"

text \<open>
  \<open>msg_ok\<close>: the message has a content that fits a \<open>uint32_t\<close> with room to spare.  The payload of an
  \<open>AuthServerMessage\<close> must not be empty (see \<open>auth_empty_payload\<close>), and the fixed length of an
  age reply must be its real one.
\<close>

definition msg_ok :: "net_message \<Rightarrow> bool" where
  "msg_ok m \<longleftrightarrow> msg_content m \<noteq> [] \<and> length (msg_content m) < 2 ^ 31 \<and>
     (case m of
        AuthServerMessage t b \<Rightarrow> b \<noteq> []
      | AuthServerAgeReplyMessage tb b \<Rightarrow> length tb = 10 \<and> length b = 28
      | _ \<Rightarrow> True)"

section \<open>The interface of a message\<close>

text \<open>What a queue needs that is written through vectors, and then what one needs that is copied to a buffer.\<close>

locale vector_class =
  fixes content :: "'m \<Rightarrow> byte list"
    and fill_iovecs :: "'m \<Rightarrow> nat \<Rightarrow> nat \<Rightarrow> byte list list res"
    and written :: "'m \<Rightarrow> nat \<Rightarrow> nat \<Rightarrow> nat \<times> bool"
    and ok :: "'m \<Rightarrow> bool"
  assumes content_size: "ok m \<Longrightarrow> 0 < length (content m) \<and> length (content m) < 2 ^ 31"
    and fill_iovecs_law: "ok m \<Longrightarrow> s < length (content m) \<Longrightarrow> 0 < ct \<Longrightarrow>
      \<exists>iov rest. fill_iovecs m ct s = Inr iov \<and> length iov \<le> ct \<and>
        drop s (content m) = concat iov @ rest \<and> (length iov < ct \<longrightarrow> rest = [])"
    and written_law: "ok m \<Longrightarrow> s < length (content m) \<Longrightarrow> byte_ct < 2 ^ 31 \<Longrightarrow>
      written m byte_ct s =
        (if byte_ct + s < length (content m) then (0, False)
         else (byte_ct + s - length (content m), True))"

locale message_class = vector_class +
  fixes fill_buffer :: "'a \<Rightarrow> nat \<Rightarrow> nat \<Rightarrow> (byte list \<times> bool) res"
  assumes fill_buffer_law: "ok m \<Longrightarrow> s < length (content m) \<Longrightarrow> 0 < len \<Longrightarrow>
      fill_buffer m len s = Inr (take len (drop s (content m)), length (content m) - s \<le> len)"

section \<open>The classes provide it\<close>

lemma flat_fill_buffer_ok:
  "s < length b \<Longrightarrow> length b < 2 ^ 31 \<Longrightarrow>
   flat_fill_buffer b len s = Inr (take len (drop s b), length b - s \<le> len)"
  by (auto simp: flat_fill_buffer_def slice_def)

lemma flat_fill_iovecs_ok:
  "s < length b \<Longrightarrow> length b < 2 ^ 31 \<Longrightarrow> 0 < ct \<Longrightarrow> flat_fill_iovecs b ct s = Inr [drop s b]"
  by (auto simp: flat_fill_iovecs_def slice_def)

lemma nonce_fill_buffer_ok:
  "s < length b \<Longrightarrow> 0 < len \<Longrightarrow>
   nonce_fill_buffer b len s = Inr (take len (drop s b), length b - s \<le> len)"
  by (auto simp: nonce_fill_buffer_def slice_def Let_def)

lemma nonce_fill_iovecs_ok: "s < length b \<Longrightarrow> 0 < ct \<Longrightarrow> nonce_fill_iovecs b ct s = Inr [drop s b]"
  by (auto simp: nonce_fill_iovecs_def slice_def)

lemma flat_written_ok:
  "s < length b \<Longrightarrow> length b < 2 ^ 31 \<Longrightarrow> n < 2 ^ 31 \<Longrightarrow>
   flat_written b n s = (if n + s < length b then (0, False) else (n + s - length b, True))"
  by (auto simp: flat_written_def)

lemma nonce_written_ok:
  "s < length b \<Longrightarrow> length b < 2 ^ 31 \<Longrightarrow>
   nonce_written b n s = (if n + s < length b then (0, False) else (n + s - length b, True))"
  by (auto simp: nonce_written_def)

lemma nat_cases3: "s = 0 \<or> s = 1 \<or> (\<exists>k. s = k + (2 :: nat))"
  by presburger

lemma high_byte: "ucast (drop_bit 8 ((t :: u16) AND 0xFF00)) = (ucast (drop_bit 8 t AND 0xFF) :: byte)"
  by (intro bit_word_eqI) (auto simp: bit_simps)

lemma join_fill_buffer_ok:
  assumes "s < 10" and "0 < len"
  shows "join_fill_buffer t q r len s =
    Inr (take len (drop s (bytes16 t @ bytes32 q @ bytes32 r)), 10 - s \<le> len)"
proof -
  let ?x = "bytes32 q @ bytes32 r"
  have lx: "length ?x = 8" by simp
  consider "s = 0" | "s = 1" | k where "s = k + 2" "k < 8"
    using nat_cases3 [of s] assms(1) by fastforce
  then show ?thesis
  proof cases
    case 1
    with assms(2) lx show ?thesis
      by (cases "len = 1") (auto simp: join_fill_buffer_def slice_def bytes16_def Let_def take_Cons')
  next
    case 2
    with assms(2) lx show ?thesis
      by (auto simp: join_fill_buffer_def slice_def bytes16_def Let_def take_Cons' high_byte)
  next
    case 3
    with assms(2) lx show ?thesis
      by (auto simp: join_fill_buffer_def slice_def Let_def simp del: take_append)
  qed
qed

lemma join_fill_iovecs_ok:
  assumes "s < 10"
  shows "join_fill_iovecs t q r ct s = Inr [drop s (bytes16 t @ bytes32 q @ bytes32 r)]"
  using assms join_fill_buffer_ok [of 0 10 t q r] by (simp add: join_fill_iovecs_def slice_def)

lemma auth_fill_buffer_ok:
  assumes "s < length b + 2" and "0 < len" and "b \<noteq> []"
  shows "auth_fill_buffer t b len s =
    Inr (take len (drop s (ucast (t AND 0xFF) # 0 # b)), length b + 2 - s \<le> len)"
proof -
  consider "s = 0" "len = 1" | "s = 0" "2 \<le> len" | "s = 1" | k where "s = k + 2"
    using nat_cases3 [of s] assms(2) by fastforce
  then show ?thesis
    using assms by cases (auto simp: auth_fill_buffer_def slice_def Let_def take_Cons')
qed

lemma auth_fill_iovecs_ok:
  assumes "s < length b + 2" and "0 < ct" and "length b < 2 ^ 31"
  shows "\<exists>iov rest. auth_fill_iovecs t b ct s = Inr iov \<and> length iov \<le> ct \<and>
    drop s (ucast (t AND 0xFF) # 0 # b) = concat iov @ rest \<and> (length iov < ct \<longrightarrow> rest = [])"
proof -
  consider "s = 0" | "s = 1" | k where "s = k + 2"
    using nat_cases3 [of s] by fastforce
  then show ?thesis
    using assms by cases (auto simp: auth_fill_iovecs_def slice_def Let_def)
qed

lemma age_fill_buffer_ok:
  assumes "length tb = 10" and "length b = 28" and "s < 38" and "0 < len"
  shows "age_fill_buffer tb b len s = Inr (take len (drop s (tb @ b)), 38 - s \<le> len)"
  using assms by (auto simp: age_fill_buffer_def slice_def Let_def min_def)

lemma age_fill_iovecs_ok:
  assumes "length tb = 10" and "length b = 28" and "s < 38" and "0 < ct"
  shows "\<exists>iov rest. age_fill_iovecs tb b ct s = Inr iov \<and> length iov \<le> ct \<and>
    drop s (tb @ b) = concat iov @ rest \<and> (length iov < ct \<longrightarrow> rest = [])"
  using assms by (cases "ct = 1") (auto simp: age_fill_iovecs_def slice_def Let_def)

interpretation nm: message_class msg_content msg_fill_iovecs msg_written msg_ok msg_fill_buffer
proof unfold_locales
  fix m
  assume "msg_ok m"
  then show "0 < length (msg_content m) \<and> length (msg_content m) < 2 ^ 31"
    by (simp add: msg_ok_def)
next
  fix m s ct
  assume a: "msg_ok m" "s < length (msg_content m)" "0 < (ct :: nat)"
  show "\<exists>iov rest. msg_fill_iovecs m ct s = Inr iov \<and> length iov \<le> ct \<and>
      drop s (msg_content m) = concat iov @ rest \<and> (length iov < ct \<longrightarrow> rest = [])"
  proof (cases m)
    case (AuthServerMessage t b)
    with a show ?thesis
      using auth_fill_iovecs_ok [of s b ct t] by (simp add: msg_ok_def msg_content_def msg_fill_iovecs_def)
  next
    case (AuthServerAgeReplyMessage tb b)
    with a show ?thesis
      using age_fill_iovecs_ok [of tb b s ct]
      by (simp add: msg_ok_def msg_content_def msg_fill_iovecs_def del: drop_append)
  qed (use a in \<open>auto simp: msg_ok_def msg_content_def msg_fill_iovecs_def flat_fill_iovecs_ok
        nonce_fill_iovecs_ok join_fill_iovecs_ok simp del: drop_append split: option.splits\<close>)
next
  fix m s byte_ct
  assume "msg_ok m" "s < length (msg_content m)" "byte_ct < (2 :: nat) ^ 31"
  then show "msg_written m byte_ct s =
      (if byte_ct + s < length (msg_content m) then (0, False)
       else (byte_ct + s - length (msg_content m), True))"
    by (cases m) (auto simp: msg_ok_def msg_content_def msg_written_def flat_written_ok nonce_written_ok
        join_written_def auth_written_def split: option.splits)
next
  fix m s len
  assume "msg_ok m" "s < length (msg_content m)" "0 < (len :: nat)"
  then show "msg_fill_buffer m len s =
      Inr (take len (drop s (msg_content m)), length (msg_content m) - s \<le> len)"
    by (cases m) (auto simp: msg_ok_def msg_content_def msg_fill_buffer_def flat_fill_buffer_ok
        nonce_fill_buffer_ok join_fill_buffer_ok auth_fill_buffer_ok age_fill_buffer_ok
        simp del: drop_append take_append split: option.splits)
qed

text \<open>
  An \<open>AuthServerMessage\<close> with an empty payload reports itself unfinished when its two bytes just
  fit the buffer; the call after that writes nothing.
\<close>

lemma auth_empty_payload:
  "msg_fill_buffer (AuthServerMessage t []) 2 0 = Inr ([ucast (t AND 0xFF), 0], False)"
  "msg_fill_buffer (AuthServerMessage t []) 2 2 = Inr ([], True)"
  by (simp_all add: msg_fill_buffer_def auth_fill_buffer_def Let_def slice_def)

end
