(* ===== verification/Message_Queue.thy ===== *)
theory Message_Queue
  imports Net_Message "HOL-Library.Multiset"
begin

text \<open>
  \<open>MessageQueue.cc\<close>: the queue of messages in front of a socket, and the queue several threads
  put messages on.  The methods of the messages are arguments of the queue's operations, as the
  code calls them through the virtual table.  Each operation also returns the messages it
  released (\<open>del_ref\<close>, then \<open>delete\<close>), in order.

  The lemmas of the locale show that whatever the sizes of the writes, what goes out is the
  content of the messages in the order of the queue, and that every message is released
  exactly when its last byte is out.  \<open>mwq_run\<close> are the runs of a queue under its mutex.
\<close>

datatype priority_t = NORMAL | AVATAR | VOICE | FRONT

record 'm entry =
  msg :: 'm
  so_far :: nat

definition Entry :: "'m \<Rightarrow> 'm entry" where
  "Entry m = \<lparr>msg = m, so_far = 0\<rparr>"

section \<open>\<open>MessageQueue\<close>\<close>

definition enqueue :: "'m entry list \<Rightarrow> 'm \<Rightarrow> priority_t \<Rightarrow> 'm entry list" where
  "enqueue q m p = (if p = FRONT then Entry m # q else q @ [Entry m])"

text \<open>\<open>clear_queue\<close> first releases all but the head, then the head if none of it was written.\<close>

definition clear_queue :: "'m entry list \<Rightarrow> 'm entry list \<times> 'm list" where
  "clear_queue q =
     (case q of
        [] \<Rightarrow> ([], [])
      | e # es \<Rightarrow> (if so_far e \<noteq> 0 then ([e], map msg es) else ([], map msg es @ [msg e])))"

definition reset_head :: "'m entry list \<Rightarrow> 'm entry list" where
  "reset_head q = (case q of [] \<Rightarrow> [] | e # es \<Rightarrow> e\<lparr>so_far := 0\<rparr> # es)"

fun q_fill_iovecs ::
  "('m \<Rightarrow> nat \<Rightarrow> nat \<Rightarrow> byte list list res) \<Rightarrow> nat \<Rightarrow> 'm entry list \<Rightarrow> byte list list \<Rightarrow>
   byte list list res" where
  "q_fill_iovecs fi iov_ct [] iov = Inr iov"
| "q_fill_iovecs fi iov_ct (e # q) iov =
     (if length iov < iov_ct
      then rbind (fi (msg e) (iov_ct - length iov) (so_far e)) (\<lambda>vs.
        q_fill_iovecs fi iov_ct q (iov @ vs))
      else Inr iov)"

fun q_iovecs_written_bytes ::
  "('m \<Rightarrow> nat \<Rightarrow> nat \<Rightarrow> nat \<times> bool) \<Rightarrow> 'm entry list \<Rightarrow> nat \<Rightarrow> 'm entry list \<times> 'm list" where
  "q_iovecs_written_bytes wr [] byte_ct = ([], [])"
| "q_iovecs_written_bytes wr (e # q) byte_ct =
     (if byte_ct > 0
      then (case wr (msg e) byte_ct (so_far e) of
          (bytes, msg_done) \<Rightarrow>
            (if msg_done
             then (case q_iovecs_written_bytes wr q bytes of (q', rel) \<Rightarrow> (q', msg e # rel))
             else (e\<lparr>so_far := so_far e + byte_ct\<rparr> # q, [])))
      else (e # q, []))"

fun q_fill_buffer ::
  "('m \<Rightarrow> nat \<Rightarrow> nat \<Rightarrow> (byte list \<times> bool) res) \<Rightarrow> nat \<Rightarrow> 'm entry list \<Rightarrow> byte list \<Rightarrow>
   (byte list \<times> 'm entry list \<times> 'm list) res" where
  "q_fill_buffer fb buflen [] out = Inr (out, [], [])"
| "q_fill_buffer fb buflen (e # q) out =
     (if length out < buflen
      then rbind (fb (msg e) (buflen - length out) (so_far e)) (\<lambda>(filled, msg_done).
        if msg_done
        then rbind (q_fill_buffer fb buflen q (out @ filled)) (\<lambda>(out', q', rel).
          Inr (out', q', msg e # rel))
        else Inr (out @ filled, e\<lparr>so_far := so_far e + length filled\<rparr> # q, []))
      else Inr (out, e # q, []))"

section \<open>What is still to be written\<close>

definition pending :: "('m \<Rightarrow> byte list) \<Rightarrow> 'm entry list \<Rightarrow> byte list" where
  "pending content q = concat (map (\<lambda>e. drop (so_far e) (content (msg e))) q)"

definition queue_ok :: "('m \<Rightarrow> byte list) \<Rightarrow> ('m \<Rightarrow> bool) \<Rightarrow> 'm entry list \<Rightarrow> bool" where
  "queue_ok content ok q = list_all (\<lambda>e. ok (msg e) \<and> so_far e < length (content (msg e))) q"

lemma pending_simps [simp]:
  "pending content [] = []"
  "pending content (e # q) = drop (so_far e) (content (msg e)) @ pending content q"
  "pending content (q @ q') = pending content q @ pending content q'"
  by (simp_all add: pending_def)

lemma queue_ok_simps [simp]:
  "queue_ok content ok []"
  "queue_ok content ok (e # q) \<longleftrightarrow>
     ok (msg e) \<and> so_far e < length (content (msg e)) \<and> queue_ok content ok q"
  "queue_ok content ok (q @ q') \<longleftrightarrow> queue_ok content ok q \<and> queue_ok content ok q'"
  by (simp_all add: queue_ok_def)

lemma pending_Entry [simp]: "pending content [Entry m] = content m"
  by (simp add: Entry_def)

context vector_class
begin

lemma queue_ok_Entry: "ok m \<Longrightarrow> queue_ok content ok [Entry m]"
  using content_size [of m] by (simp add: Entry_def)

lemma fill_iovecs_spec:
  "queue_ok content ok q \<Longrightarrow> length iov \<le> ct \<Longrightarrow>
   \<exists>vs rest. q_fill_iovecs fill_iovecs ct q iov = Inr (iov @ vs) \<and> length (iov @ vs) \<le> ct \<and>
     pending content q = concat vs @ rest \<and> (length (iov @ vs) < ct \<longrightarrow> rest = [])"
proof (induction q arbitrary: iov)
  case (Cons e q)
  show ?case
  proof (cases "length iov < ct")
    case False
    with Cons.prems show ?thesis by auto
  next
    case True
    from Cons.prems have e: "ok (msg e)" "so_far e < length (content (msg e))"
      and q: "queue_ok content ok q" by auto
    from True have "0 < ct - length iov" by simp
    from fill_iovecs_law [OF e this] obtain us rest where
      us: "fill_iovecs (msg e) (ct - length iov) (so_far e) = Inr us" "length us \<le> ct - length iov"
        "drop (so_far e) (content (msg e)) = concat us @ rest"
        "length us < ct - length iov \<longrightarrow> rest = []"
      by blast
    then have "length (iov @ us) \<le> ct" using True by simp
    from Cons.IH [OF q this] obtain vs rest' where
      vs: "q_fill_iovecs fill_iovecs ct q (iov @ us) = Inr ((iov @ us) @ vs)"
        "length ((iov @ us) @ vs) \<le> ct" "pending content q = concat vs @ rest'"
        "length ((iov @ us) @ vs) < ct \<longrightarrow> rest' = []" by blast
    show ?thesis
    proof (cases "length us < ct - length iov")
      case True
      with us vs show ?thesis
        by (intro exI [of _ "us @ vs"] exI [of _ rest']) auto
    next
      case False
      with us(2) vs(2) True have "vs = []" by auto
      with us vs show ?thesis
        by (intro exI [of _ us] exI [of _ "rest @ pending content q"]) auto
    qed
  qed
qed simp

lemma written_spec:
  "queue_ok content ok q \<Longrightarrow> n \<le> length (pending content q) \<Longrightarrow> n < 2 ^ 31 \<Longrightarrow>
   \<exists>q' rel. q_iovecs_written_bytes written q n = (q', rel) \<and> queue_ok content ok q' \<and>
     pending content q' = drop n (pending content q) \<and> map msg q = rel @ map msg q'"
proof (induction q arbitrary: n)
  case (Cons e q)
  let ?left = "length (content (msg e)) - so_far e"
  from Cons.prems have e: "ok (msg e)" "so_far e < length (content (msg e))"
    and q: "queue_ok content ok q" by auto
  note law = written_law [OF e Cons.prems(3)]
  show ?case
  proof (cases "n = 0")
    case True
    with Cons.prems show ?thesis by auto
  next
    case n: False
    show ?thesis
    proof (cases "n + so_far e < length (content (msg e))")
      case True
      then have "written (msg e) n (so_far e) = (0, False)" by (simp add: law)
      moreover have "drop n (drop (so_far e) (content (msg e)) @ pending content q) =
          drop (so_far e + n) (content (msg e)) @ pending content q"
        using True by (simp add: add.commute)
      ultimately show ?thesis using True n e q by simp
    next
      case False
      then have "n - ?left \<le> length (pending content q)" "n - ?left < 2 ^ 31"
        using Cons.prems(2,3) by auto
      from Cons.IH [OF q this] obtain q' rel where
        "q_iovecs_written_bytes written q (n - ?left) = (q', rel)" "queue_ok content ok q'"
        "pending content q' = drop (n - ?left) (pending content q)"
        "map msg q = rel @ map msg q'" by blast
      moreover have "written (msg e) n (so_far e) = (n - ?left, True)"
        using False e(2) by (simp add: law)
      moreover have "drop n (drop (so_far e) (content (msg e)) @ pending content q) =
          drop (n - ?left) (pending content q)"
        using False by simp
      ultimately show ?thesis
        using n by (intro exI [of _ q'] exI [of _ "msg e # rel"]) (simp del: drop_append)
    qed
  qed
qed simp

end

context message_class
begin

lemma fill_buffer_spec:
  "queue_ok content ok q \<Longrightarrow> length out \<le> len \<Longrightarrow>
   \<exists>q' rel. q_fill_buffer fill_buffer len q out =
       Inr (out @ take (len - length out) (pending content q), q', rel) \<and>
     queue_ok content ok q' \<and> pending content q' = drop (len - length out) (pending content q) \<and>
     map msg q = rel @ map msg q'"
proof (induction q arbitrary: out)
  case (Cons e q)
  let ?c = "content (msg e)" and ?room = "len - length out"
  show ?case
  proof (cases "length out < len")
    case False
    with Cons.prems show ?thesis by auto
  next
    case True
    from Cons.prems have e: "ok (msg e)" "so_far e < length ?c" and q: "queue_ok content ok q"
      by auto
    from True have room: "0 < ?room" by simp
    note law = fill_buffer_law [OF e room]
    show ?thesis
    proof (cases "length ?c - so_far e \<le> ?room")
      case True
      let ?out = "out @ drop (so_far e) ?c"
      have "length ?out \<le> len" using True Cons.prems(2) by simp
      from Cons.IH [OF q this] obtain q' rel where
        "q_fill_buffer fill_buffer len q ?out =
           Inr (?out @ take (len - length ?out) (pending content q), q', rel)"
        "queue_ok content ok q'" "pending content q' = drop (len - length ?out) (pending content q)"
        "map msg q = rel @ map msg q'" by blast
      with True room law show ?thesis
        by (intro exI [of _ q'] exI [of _ "msg e # rel"]) simp
    next
      case False
      from True obtain d where d: "len = length out + d" using less_imp_add_positive by blast
      from False law q e True show ?thesis by (simp add: d add.commute)
    qed
  qed
qed simp

text \<open>Writing through vectors and writing through a buffer leave the same queue.\<close>

lemma written_eq_fill_buffer:
  assumes "queue_ok content ok q" and "n \<le> length (pending content q)" and "n < 2 ^ 31"
  shows "\<exists>q1 q2 rel1 rel2. q_iovecs_written_bytes written q n = (q1, rel1) \<and>
    q_fill_buffer fill_buffer n q [] = Inr (take n (pending content q), q2, rel2) \<and>
    pending content q1 = pending content q2 \<and> rel1 @ map msg q1 = rel2 @ map msg q2"
proof -
  from written_spec [OF assms] obtain q1 rel1 where
    "q_iovecs_written_bytes written q n = (q1, rel1)" "pending content q1 = drop n (pending content q)"
    "map msg q = rel1 @ map msg q1" by blast
  moreover from fill_buffer_spec [OF assms(1), of "[]" n] obtain q2 rel2 where
    "q_fill_buffer fill_buffer n q [] = Inr (take n (pending content q), q2, rel2)"
    "pending content q2 = drop n (pending content q)" "map msg q = rel2 @ map msg q2" by auto
  ultimately show ?thesis by auto
qed

end

section \<open>\<open>MultiWriterMessageQueue\<close>\<close>

text \<open>
  Every operation takes the mutex for all of its body, so a run of the threads is a sequence of
  whole operations.  Only \<open>enqueue\<close> looks at the calling thread: once \<open>clear_queue\<close> has set
  \<open>m_draining\<close>, the messages of other threads are not accepted.
\<close>

record 'm mwq =
  m_queue :: "'m entry list"
  m_draining :: bool
  m_owner_tid :: nat

definition mwq_new :: "nat \<Rightarrow> 'm mwq" where
  "mwq_new self = \<lparr>m_queue = [], m_draining = False, m_owner_tid = self\<rparr>"

definition mwq_enqueue :: "nat \<Rightarrow> 'm mwq \<Rightarrow> 'm \<Rightarrow> priority_t \<Rightarrow> 'm mwq" where
  "mwq_enqueue self w m p =
     (if \<not> m_draining w \<or> self = m_owner_tid w
      then w\<lparr>m_queue := enqueue (m_queue w) m p\<rparr> else w)"

definition mwq_size :: "'m mwq \<Rightarrow> nat" where
  "mwq_size w = length (m_queue w)"

definition mwq_clear_queue :: "'m mwq \<Rightarrow> 'm mwq \<times> 'm list" where
  "mwq_clear_queue w =
     (case clear_queue (m_queue w) of (q, rel) \<Rightarrow> (w\<lparr>m_draining := True, m_queue := q\<rparr>, rel))"

definition mwq_reset_head :: "'m mwq \<Rightarrow> 'm mwq" where
  "mwq_reset_head w = w\<lparr>m_queue := reset_head (m_queue w)\<rparr>"

definition mwq_fill_iovecs :: "net_message mwq \<Rightarrow> nat \<Rightarrow> byte list list res" where
  "mwq_fill_iovecs w iov_ct = q_fill_iovecs msg_fill_iovecs iov_ct (m_queue w) []"

definition mwq_iovecs_written_bytes ::
  "net_message mwq \<Rightarrow> nat \<Rightarrow> net_message mwq \<times> net_message list" where
  "mwq_iovecs_written_bytes w n =
     (case q_iovecs_written_bytes msg_written (m_queue w) n of
        (q, rel) \<Rightarrow> (w\<lparr>m_queue := q\<rparr>, rel))"

definition mwq_fill_buffer ::
  "net_message mwq \<Rightarrow> nat \<Rightarrow> (byte list \<times> net_message mwq \<times> net_message list) res" where
  "mwq_fill_buffer w buflen =
     rbind (q_fill_buffer msg_fill_buffer buflen (m_queue w) []) (\<lambda>(out, q, rel).
       Inr (out, w\<lparr>m_queue := q\<rparr>, rel))"

section \<open>Runs of the queue\<close>

definition fresh_tail :: "'m entry list \<Rightarrow> bool" where
  "fresh_tail q = list_all (\<lambda>e. so_far e = 0) (tl q)"

definition begun :: "('m \<Rightarrow> byte list) \<Rightarrow> 'm entry list \<Rightarrow> byte list" where
  "begun content q = (case q of [] \<Rightarrow> [] | e # _ \<Rightarrow> take (so_far e) (content (msg e)))"

lemma pending_fresh:
  "list_all (\<lambda>e. so_far e = 0) q \<Longrightarrow> pending content q = concat (map content (map msg q))"
  by (induction q) auto

lemma begun_pending:
  "fresh_tail q \<Longrightarrow> begun content q @ pending content q = concat (map content (map msg q))"
  by (cases q) (auto simp: fresh_tail_def begun_def pending_fresh)

lemma fresh_tail_intro: "list_all (\<lambda>e. so_far e = 0) q \<Longrightarrow> fresh_tail q"
  by (cases q) (auto simp: fresh_tail_def)

lemma fresh_tail_fill_buffer:
  "q_fill_buffer fb len q out = Inr (out', q', rel) \<Longrightarrow> fresh_tail q \<Longrightarrow> fresh_tail q'"
proof (induction q arbitrary: out out' q' rel)
  case (Cons e q)
  then have "fresh_tail q" by (intro fresh_tail_intro) (simp add: fresh_tail_def)
  with Cons show ?case
    by (auto simp: res_simps fresh_tail_def split: if_splits prod.splits)
qed simp

lemma fresh_tail_written:
  "q_iovecs_written_bytes wr q n = (q', rel) \<Longrightarrow> fresh_tail q \<Longrightarrow> fresh_tail q'"
proof (induction q arbitrary: n q' rel)
  case (Cons e q)
  then have "fresh_tail q" by (intro fresh_tail_intro) (simp add: fresh_tail_def)
  with Cons show ?case
    by (auto simp: fresh_tail_def split: if_splits prod.splits)
qed simp

text \<open>
  \<open>mwq_run owner w sent released\<close>: a queue of thread \<open>owner\<close> can be in state \<open>w\<close> after the bytes
  \<open>sent\<close> went out and the messages \<open>released\<close> were written and released.  A message goes to the
  front only while no message is half written, as \<open>conn_completed\<close> of \<open>dispatcher.cc\<close> uses it.
\<close>

inductive mwq_run :: "nat \<Rightarrow> net_message mwq \<Rightarrow> byte list \<Rightarrow> net_message list \<Rightarrow> bool"
  for owner where
  new: "mwq_run owner (mwq_new owner) [] []"
| enqueue: "mwq_run owner w sent released \<Longrightarrow> msg_ok m \<Longrightarrow>
    p \<noteq> FRONT \<or> begun msg_content (m_queue w) = [] \<Longrightarrow>
    mwq_run owner (mwq_enqueue self w m p) sent released"
| clear: "mwq_run owner w sent released \<Longrightarrow> mwq_clear_queue w = (w', dropped) \<Longrightarrow>
    mwq_run owner w' sent released"
| fill: "mwq_run owner w sent released \<Longrightarrow> mwq_fill_buffer w len = Inr (out, w', rel) \<Longrightarrow>
    mwq_run owner w' (sent @ out) (released @ rel)"
| writev: "mwq_run owner w sent released \<Longrightarrow> mwq_fill_iovecs w iov_ct = Inr iov \<Longrightarrow>
    n \<le> length (concat iov) \<Longrightarrow> n < 2 ^ 31 \<Longrightarrow> mwq_iovecs_written_bytes w n = (w', rel) \<Longrightarrow>
    mwq_run owner w' (sent @ take n (concat iov)) (released @ rel)"

inductive_cases mwq_runE: "mwq_run owner w sent released"

abbreviation stream_ok :: "net_message mwq \<Rightarrow> byte list \<Rightarrow> net_message list \<Rightarrow> bool" where
  "stream_ok w sent released \<equiv>
     queue_ok msg_content msg_ok (m_queue w) \<and> fresh_tail (m_queue w) \<and>
     sent = concat (map msg_content released) @ begun msg_content (m_queue w)"

lemma stream_ok_step:
  assumes "stream_ok w sent released"
    and "queue_ok msg_content msg_ok (m_queue w')" and "fresh_tail (m_queue w')"
    and "pending msg_content (m_queue w) = out @ pending msg_content (m_queue w')"
    and "map msg (m_queue w) = rel @ map msg (m_queue w')"
  shows "stream_ok w' (sent @ out) (released @ rel)"
proof -
  let ?all = "concat (map msg_content released) @ concat (map msg_content (map msg (m_queue w)))"
  have "?all = sent @ pending msg_content (m_queue w)"
    using assms(1) begun_pending [of "m_queue w" msg_content] by (metis append_assoc)
  moreover have "?all = (concat (map msg_content (released @ rel)) @ begun msg_content (m_queue w'))
      @ pending msg_content (m_queue w')"
    unfolding assms(5) using begun_pending [OF assms(3), of msg_content] by simp
  ultimately have "(sent @ out) @ pending msg_content (m_queue w') =
      (concat (map msg_content (released @ rel)) @ begun msg_content (m_queue w'))
      @ pending msg_content (m_queue w')"
    using assms(4) by simp
  then show ?thesis using assms(2,3) by (simp only: append_same_eq)
qed

lemma stream_ok_enqueue:
  assumes s: "stream_ok w sent released" and m: "msg_ok m"
    and p: "p \<noteq> FRONT \<or> begun msg_content (m_queue w) = []"
  shows "stream_ok (mwq_enqueue self w m p) sent released"
proof (cases "p = FRONT")
  case True
  with s p have q0: "list_all (\<lambda>e. so_far e = 0) (m_queue w)"
    by (cases "m_queue w") (auto simp: fresh_tail_def begun_def)
  then show ?thesis
    using s True p nm.queue_ok_Entry [OF m]
    by (auto simp: mwq_enqueue_def enqueue_def fresh_tail_def begun_def Entry_def split: list.splits)
next
  case False
  then show ?thesis
    using s nm.queue_ok_Entry [OF m]
    by (cases "m_queue w")
      (auto simp: mwq_enqueue_def enqueue_def fresh_tail_def begun_def Entry_def)
qed

lemma stream_ok_clear:
  "stream_ok w sent released \<Longrightarrow> mwq_clear_queue w = (w', dropped) \<Longrightarrow> stream_ok w' sent released"
  by (cases "m_queue w")
    (auto simp: mwq_clear_queue_def clear_queue_def fresh_tail_def begun_def split: if_splits)


section \<open>Writes of any size\<close>

fun mwq_writes :: "net_message mwq \<Rightarrow> nat list \<Rightarrow> (byte list \<times> net_message mwq) res" where
  "mwq_writes w [] = Inr ([], w)"
| "mwq_writes w (n # ns) =
     rbind (mwq_fill_buffer w n) (\<lambda>(out, w', rel).
     rbind (mwq_writes w' ns) (\<lambda>(out', w''). Inr (out @ out', w'')))"

theorem mwq_writes_spec:
  assumes "queue_ok msg_content msg_ok (m_queue w)"
  shows "\<exists>w'. mwq_writes w ns = Inr (take (sum_list ns) (pending msg_content (m_queue w)), w') \<and>
    pending msg_content (m_queue w') = drop (sum_list ns) (pending msg_content (m_queue w)) \<and>
    (length (pending msg_content (m_queue w)) \<le> sum_list ns \<longrightarrow> m_queue w' = [])"
  using assms
proof (induction ns arbitrary: w)
  case Nil
  then show ?case by (cases "m_queue w") auto
next
  case (Cons n ns)
  from nm.fill_buffer_spec [OF Cons.prems, of "[]" n] obtain q rel where
    q: "q_fill_buffer msg_fill_buffer n (m_queue w) [] =
        Inr (take n (pending msg_content (m_queue w)), q, rel)"
      "queue_ok msg_content msg_ok q"
      "pending msg_content q = drop n (pending msg_content (m_queue w))" by auto
  from Cons.IH [of "w\<lparr>m_queue := q\<rparr>"] q obtain w' where
    "mwq_writes (w\<lparr>m_queue := q\<rparr>) ns =
       Inr (take (sum_list ns) (drop n (pending msg_content (m_queue w))), w')"
    "pending msg_content (m_queue w') = drop (sum_list ns) (drop n (pending msg_content (m_queue w)))"
    "length (pending msg_content (m_queue w)) - n \<le> sum_list ns \<longrightarrow> m_queue w' = []"
    by auto
  with q(1) show ?case
    by (intro exI [of _ w']) (auto simp: mwq_fill_buffer_def take_add add.commute)
qed

section \<open>Draining\<close>


text \<open>A message put in front of a half-written one goes out in the middle of it.\<close>

definition front_example :: "(byte list \<times> net_message mwq) res" where
  "front_example =
     (let w = mwq_enqueue 0 (mwq_new 0) (AuthPingMessage [1, 2, 3]) NORMAL
      in rbind (mwq_fill_buffer w 1) (\<lambda>(out, w', rel).
         rbind (mwq_writes (mwq_enqueue 0 w' (AuthPingMessage [9]) FRONT) [10]) (\<lambda>(out', w'').
         Inr (out @ out', w''))))"

theorem front_splits_message:
  "front_example = Inr ([1, 9, 2, 3], mwq_new 0)"
  by (simp add: front_example_def mwq_enqueue_def mwq_new_def enqueue_def Entry_def mwq_fill_buffer_def
      msg_fill_buffer_def flat_fill_buffer_def slice_def Let_def)

section \<open>Both ways of writing agree\<close>


section \<open>Small queues\<close>

definition two_messages :: "net_message mwq" where
  "two_messages = mwq_enqueue 5 (mwq_enqueue 4 (mwq_new 3) (AuthPingMessage [1, 2, 3]) NORMAL)
     (AuthServerMessage 7 [9]) NORMAL"

lemma two_messages_queue:
  "m_queue two_messages = [Entry (AuthPingMessage [1, 2, 3]), Entry (AuthServerMessage 7 [9])]"
  "m_owner_tid two_messages = 3" "\<not> m_draining two_messages"
  by (simp_all add: two_messages_def mwq_enqueue_def mwq_new_def enqueue_def)

lemma two_messages_ok: "queue_ok msg_content msg_ok (m_queue two_messages)"
  by (simp add: two_messages_queue Entry_def msg_ok_def msg_content_def)

lemma two_messages_pending: "pending msg_content (m_queue two_messages) = [1, 2, 3, 7, 0, 9]"
  by (simp add: two_messages_queue Entry_def msg_content_def)


theorem mwq_writes_spec_witness:
  "\<exists>w. mwq_writes two_messages [1, 4, 1] = Inr ([1, 2, 3, 7, 0, 9], w) \<and> m_queue w = []"
  using mwq_writes_spec [OF two_messages_ok, of "[1, 4, 1]"] by (auto simp: two_messages_pending)

text \<open>A run with a write that ends inside the first message.\<close>

lemma two_messages_run:
  "\<exists>w. mwq_run 3 w [1, 2] [] \<and> begun msg_content (m_queue w) = [1, 2]"
proof -
  have ok: "msg_ok (AuthPingMessage [1, 2, 3])" "msg_ok (AuthServerMessage 7 [9])"
    by (simp_all add: msg_ok_def msg_content_def)
  have "mwq_run 3 two_messages [] []"
    unfolding two_messages_def
    by (intro mwq_run.enqueue mwq_run.new ok) simp_all
  moreover obtain w where w: "mwq_fill_buffer two_messages 2 = Inr ([1, 2], w, [])"
    "begun msg_content (m_queue w) = [1, 2]"
    by (simp add: mwq_fill_buffer_def two_messages_queue Entry_def msg_fill_buffer_def
        flat_fill_buffer_def slice_def begun_def msg_content_def)
  ultimately show ?thesis using mwq_run.fill [of 3 two_messages "[]" "[]" 2 "[1, 2]" w "[]"] by auto
qed



end
