(* ===== verification/Client_Framing.thy ===== *)
theory Client_Framing
  imports Wire
begin

text \<open>
  The \<open>make_if_enough\<close> functions of \<open>NetworkMessage.cc\<close>, \<open>GatekeeperMessage.cc\<close>,
  \<open>FileMessage.cc\<close>, \<open>AuthMessage.cc\<close> and \<open>GameMessage.cc\<close>: whether the bytes received so far hold
  a whole message, and how long it is.  The buffer is the list of the received bytes, so a read
  behind them is \<open>Out_Of_Bounds\<close>.

  \<open>Incomplete w\<close> is a \<open>NULL\<close> result with \<open>*want_len = w\<close> (\<open>-1\<close> when it is unknown, or for the
  functions that have no such parameter); \<open>Framed k n\<close> is a new message of class \<open>k\<close> with the
  length \<open>n\<close>.  Lengths that the code keeps in an \<open>int32_t\<close> are integers computed with \<open>s32\<close>.

  The locale \<open>framer\<close> is what the receive loop needs: a verdict does not change when more
  bytes arrive.  Its theorem says that the message found does not depend on how the stream was
  cut into reads.
\<close>

datatype msg_kind =
    Unknown
  | Negotiation nat
  | Ping
  | Generic nat
  | LoginReq nat nat             \<comment> \<open>where the hash and the OS name start\<close>
  | PasswordChange nat           \<comment> \<open>where the hash starts\<close>
  | File nat
  | PlayerCreate
  | Vault nat
  | AgeReq nat
  | Log nat
  | JoinRequest
  | PropagateBuffer u16
  | GameMgr
  | Backend                      \<comment> \<open>any message between the servers\<close>

datatype framed = Incomplete int | Framed msg_kind int

definition s32 :: "u32 \<Rightarrow> int" where
  "s32 v = sint v"

abbreviation (input) len_of_buf :: "byte list \<Rightarrow> int" where
  "len_of_buf buf \<equiv> int (length buf)"

definition str16 :: "byte list \<Rightarrow> int \<Rightarrow> int res" where
  "str16 buf off = rbind (read16 buf (nat off)) (\<lambda>n. Inr (2 * int (unat n)))"

definition overlong :: "int \<Rightarrow> framed res" where
  "overlong n = Inl (Overlong_Message (word_of_int n))"

section \<open>Negotiation\<close>

definition NegotiationMessage_make :: "byte list \<Rightarrow> nat \<Rightarrow> framed res" where
  "NegotiationMessage_make buf type =
     (if length buf < 1 then Inr (Incomplete (-1))
      else rbind (get8 buf 0) (\<lambda>b0.
        let msg_len = (ucast b0 - 1 :: u32)
        in if msg_len > 65 then Inl (Overlong_Message msg_len)
           else if type = 0x00
           then (if length buf < unat msg_len then Inr (Incomplete (-1))
                 else Inr (Framed (Negotiation type) (int (unat msg_len))))
           else if type = 0x10 \<or> type = 0x0a \<or> type = 0x0b \<or> type = 0x16
           then (if length buf < unat (msg_len + 4) then Inr (Incomplete (-1))
                 else rbind (read32 buf (unat msg_len)) (\<lambda>more.
                   let tot = msg_len + more
                   in if length buf < unat tot then Inr (Incomplete (-1))
                      else Inr (Framed (Negotiation type) (int (unat tot)))))
           else Inr (Framed Unknown (int (unat msg_len)))))"

definition NegotiationMessage_check_useable :: "nat \<Rightarrow> nat \<Rightarrow> bool" where
  "NegotiationMessage_check_useable m_type m_buflen \<longleftrightarrow>
     (m_type = 0x10 \<and> m_buflen \<ge> 38) \<or>
     ((m_type = 0x0a \<or> m_type = 0x0b \<or> m_type = 0x16) \<and> m_buflen \<ge> 30) \<or>
     (m_type = 0x00 \<and> m_buflen \<ge> 2)"

definition NegotiationMessage_message_len :: "nat \<Rightarrow> nat \<Rightarrow> nat" where
  "NegotiationMessage_message_len m_type m_buflen = (if m_type = 0x00 then m_buflen + 1 else m_buflen)"

section \<open>Gatekeeper and file server\<close>

definition GatekeeperClientMessage_make :: "byte list \<Rightarrow> framed res" where
  "GatekeeperClientMessage_make buf =
     (if length buf < 7 then Inr (Incomplete (-1))
      else rbind (read16 buf 0) (\<lambda>ty.
        let type = unat ty
        in if type = 0 then (if length buf < 14 then Inr (Incomplete (-1)) else Inr (Framed Ping 14))
           else if type = 1 \<or> type = 2 then Inr (Framed (Generic type) 7)
           else Inr (Framed Unknown (len_of_buf buf))))"

definition FileClientMessage_make :: "byte list \<Rightarrow> framed res" where
  "FileClientMessage_make buf =
     (if length buf < 4 then Inr (Incomplete (-1))
      else rbind (read32 buf 0) (\<lambda>v.
        let msg_len = unat v
        in if msg_len > 536 then Inl (Overlong_Message v)
           else if length buf < msg_len then Inr (Incomplete (-1))
           else if msg_len < 8 then Inr (Framed Unknown (int msg_len))
           else rbind (read32 buf 4) (\<lambda>ty.
             let type = unat ty
             in if type \<in> set [0, 10, 20, 21, 22, 23] then Inr (Framed (File type) (int msg_len))
                else Inr (Framed Unknown (int msg_len)))))"

definition FileClientMessage_check_useable :: "nat \<Rightarrow> nat \<Rightarrow> bool" where
  "FileClientMessage_check_useable m_type m_buflen \<longleftrightarrow>
     (m_type \<in> set [0, 23, 22, 10] \<and> m_buflen \<ge> 12) \<or> (m_type \<in> set [20, 21] \<and> m_buflen \<ge> 14)"

section \<open>Auth server\<close>

definition AuthClientLoginMessage_make :: "byte list \<Rightarrow> framed res" where
  "AuthClientLoginMessage_make buf =
     (if len_of_buf buf < 12 then Inr (Incomplete (-1))
      else rbind (str16 buf 10) (\<lambda>n1.
        let hash_loc = 12 + n1
        in if hash_loc > 142 then overlong hash_loc
           else let t1 = hash_loc + 20
           in if len_of_buf buf < t1 + 2 then Inr (Incomplete (-1))
           else rbind (str16 buf t1) (\<lambda>n2.
             let os_loc = t1 + (2 + n2)
             in if len_of_buf buf < os_loc + 2 then Inr (Incomplete (-1))
                else rbind (str16 buf os_loc) (\<lambda>n3.
                  let tot = os_loc + (2 + n3)
                  in if tot > 442 then overlong tot
                     else if len_of_buf buf < tot then Inr (Incomplete tot)
                     else Inr (Framed (LoginReq (nat hash_loc) (nat os_loc)) tot)))))"

definition AuthClientChangePassMessage_make :: "byte list \<Rightarrow> framed res" where
  "AuthClientChangePassMessage_make buf =
     (if len_of_buf buf < 28 then Inr (Incomplete (-1))
      else rbind (str16 buf 6) (\<lambda>n.
        let hash_loc = 8 + n
        in if hash_loc > 156 then overlong hash_loc
           else if len_of_buf buf < hash_loc + 20 then Inr (Incomplete (hash_loc + 20))
           else Inr (Framed (PasswordChange (nat hash_loc)) (hash_loc + 20))))"

definition enough :: "byte list \<Rightarrow> msg_kind \<Rightarrow> int \<Rightarrow> framed res" where
  "enough buf k tot =
     (if tot = -1 \<or> len_of_buf buf < tot then Inr (Incomplete tot) else Inr (Framed k tot))"

definition AuthClientFileMessage_make :: "byte list \<Rightarrow> framed res" where
  "AuthClientFileMessage_make buf =
     rbind (read16 buf 0) (\<lambda>ty.
       let type = unat ty
       in if type = 39 then enough buf (File type) 6
          else if type = 37
          then (if len_of_buf buf < 10 then enough buf (File type) (-1)
                else rbind (str16 buf 6) (\<lambda>n1.
                  if len_of_buf buf < 8 + n1 + 2 then enough buf (File type) (-1)
                  else rbind (str16 buf (8 + n1)) (\<lambda>n2.
                    let tot = 8 + n1 + (2 + n2)
                    in if tot > 28 then overlong tot else enough buf (File type) tot)))
          else if type = 38
          then rbind (if len_of_buf buf \<ge> 8 then rbind (str16 buf 6) (\<lambda>n. Inr (8 + n)) else Inr (-1))
                 (\<lambda>tot. if tot > 2058 then overlong tot else enough buf (File type) tot)
          else Inl Logic_Error)"

definition AuthClientPlayerCreateMessage_make :: "byte list \<Rightarrow> framed res" where
  "AuthClientPlayerCreateMessage_make buf =
     (if len_of_buf buf < 8 then Inr (Incomplete (-1))
      else rbind (str16 buf 6) (\<lambda>n1.
        let t1 = 8 + n1
        in if t1 > 132 then overlong t1
           else if len_of_buf buf < t1 + 2 then Inr (Incomplete (-1))
           else rbind (str16 buf t1) (\<lambda>n2.
             let t2 = t1 + (2 + n2)
             in rbind (str16 buf t2) (\<lambda>n3.
                let tot = t2 + (2 + n3)
                in if tot > 284 then overlong tot
                   else if len_of_buf buf < tot then Inr (Incomplete tot)
                   else Inr (Framed PlayerCreate tot)))))"

text \<open>
  The vault messages.  \<open>init_age_total\<close> is the loop over the four strings of
  \<open>VaultInitAgeRequest\<close>; a tot that comes from a 32-bit length word wraps.
\<close>

fun init_age_total :: "byte list \<Rightarrow> nat \<Rightarrow> int \<Rightarrow> int res" where
  "init_age_total buf 0 tot = Inr tot"
| "init_age_total buf (Suc i) tot =
     (if len_of_buf buf < tot + 2 then Inr (-9)
      else rbind (str16 buf tot) (\<lambda>n. init_age_total buf i (tot + (2 + n))))"

definition vault_total :: "byte list \<Rightarrow> nat \<Rightarrow> int res" where
  "vault_total buf type =
     (if type \<in> set [25, 33]
      then (if len_of_buf buf \<ge> 10 then rbind (read32 buf 6) (\<lambda>n. Inr (s32 (10 + n))) else Inr (-1))
      else if type \<in> set [26, 31, 35] then Inr 10
      else if type = 27
      then (if len_of_buf buf \<ge> 30 then rbind (read32 buf 26) (\<lambda>n. Inr (s32 (30 + n))) else Inr (-1))
      else if type \<in> set [29, 50] then Inr 18
      else if type \<in> set [30, 49] then Inr 14
      else if type = 32 then rbind (init_age_total buf 4 38) (\<lambda>t. Inr (t + 8))
      else if type = 41
      then (if len_of_buf buf \<ge> 8 then rbind (str16 buf 6) (\<lambda>n. Inr (8 + n)) else Inr (-1))
      else if type = 46
      then (if len_of_buf buf \<ge> 12 then rbind (str16 buf 10) (\<lambda>n. Inr (20 + n)) else Inr (-1))
      else if type = 48
      then (if len_of_buf buf \<ge> 12 then rbind (str16 buf 10) (\<lambda>n. Inr (12 + n)) else Inr (-1))
      else if type = 42 then Inr 7
      else Inl Logic_Error)"

definition AuthClientVaultMessage_make :: "byte list \<Rightarrow> framed res" where
  "AuthClientVaultMessage_make buf =
     rbind (read16 buf 0) (\<lambda>ty.
     rbind (vault_total buf (unat ty)) (\<lambda>tot.
       if tot > 600 * 1024 then overlong tot else enough buf (Vault (unat ty)) tot))"

definition AuthClientAgeRequestMessage_make :: "byte list \<Rightarrow> framed res" where
  "AuthClientAgeRequestMessage_make buf =
     (if len_of_buf buf < 8 then Inr (Incomplete (-1))
      else rbind (str16 buf 6) (\<lambda>n.
        let want_len = 8 + n + 16
        in if want_len > 280 then overlong want_len
           else if len_of_buf buf < want_len then Inr (Incomplete want_len)
           else rbind (get8 buf 0) (\<lambda>b. Inr (Framed (AgeReq (unat b)) want_len))))"

definition AuthClientLogMessage_make :: "byte list \<Rightarrow> framed res" where
  "AuthClientLogMessage_make buf =
     (if len_of_buf buf < 4 then Inr (Incomplete (-1))
      else rbind (str16 buf 2) (\<lambda>n.
        let want_len = 4 + n
        in if want_len > 6 + 32 * 1024 then overlong want_len
           else if len_of_buf buf < want_len then Inr (Incomplete want_len)
           else rbind (get8 buf 0) (\<lambda>b. Inr (Framed (Log (unat b)) want_len))))"

text \<open>\<open>Cli2Auth_SendFriendInviteRequest\<close> is handled in the dispatcher itself.\<close>

definition friend_invite_make :: "byte list \<Rightarrow> framed res" where
  "friend_invite_make buf =
     (if len_of_buf buf < 24 then Inr (Incomplete (-1))
      else rbind (str16 buf 22) (\<lambda>n1.
        let t1 = 24 + n1
        in if t1 > 536 then overlong t1
           else if len_of_buf buf < t1 + 2 then Inr (Incomplete (-1))
           else rbind (str16 buf t1) (\<lambda>n2.
             let tot = t1 + (2 + n2)
             in if tot > 550 then overlong tot
                else if len_of_buf buf < tot then Inr (Incomplete tot)
                else Inr (Framed (Generic 24) tot))))"

definition fixed_make :: "byte list \<Rightarrow> msg_kind \<Rightarrow> int \<Rightarrow> framed res" where
  "fixed_make buf k n = (if len_of_buf buf < n then Inr (Incomplete n) else Inr (Framed k n))"

definition vault_types :: "nat list" where
  "vault_types = [25, 26, 27, 29, 30, 31, 32, 33, 35, 41, 42, 46, 48, 49, 50]"

definition AuthClientMessage_make :: "byte list \<Rightarrow> framed res" where
  "AuthClientMessage_make buf =
     (if length buf < 2 then Inr (Incomplete (-1))
      else rbind (read16 buf 0) (\<lambda>ty.
        let type = unat ty
        in if type = 0 then fixed_make buf Ping 14
           else if type = 3 then AuthClientLoginMessage_make buf
           else if type = 8 then AuthClientChangePassMessage_make buf
           else if type \<in> set [37, 38, 39] then AuthClientFileMessage_make buf
           else if type \<in> set vault_types then AuthClientVaultMessage_make buf
           else if type \<in> set [43, 44] then AuthClientLogMessage_make buf
           else if type \<in> set [45, 1] then fixed_make buf (Generic type) 6
           else if type \<in> set [6, 20, 13] then fixed_make buf (Generic type) 10
           else if type = 17 then AuthClientPlayerCreateMessage_make buf
           else if type = 36 then AuthClientAgeRequestMessage_make buf
           else if type = 24 then friend_invite_make buf
           else Inr (Framed Unknown (len_of_buf buf))))"

definition AuthClientMessage_check_useable :: "nat \<Rightarrow> bool" where
  "AuthClientMessage_check_useable m_type \<longleftrightarrow>
     m_type \<in> set [0, 3, 1, 37, 38, 39, 6, 20, 17, 13, 36, 24, 8, 43, 44, 45]"

section \<open>Game server\<close>

definition GameJoinRequest_make :: "byte list \<Rightarrow> framed res" where
  "GameJoinRequest_make buf = fixed_make buf JoinRequest 30"

definition PropagateBufferMessage_make :: "byte list \<Rightarrow> framed res" where
  "PropagateBufferMessage_make buf =
     (if len_of_buf buf < 10 then Inr (Incomplete (-1))
      else rbind (read32 buf 6) (\<lambda>n.
        let want_len = s32 (n + 10)
        in if want_len > 4500 then overlong want_len
           else if want_len > len_of_buf buf then Inr (Incomplete want_len)
           else rbind (read16 buf 2) (\<lambda>ty. Inr (Framed (PropagateBuffer ty) want_len))))"

definition GameMgrMessage_make :: "byte list \<Rightarrow> framed res" where
  "GameMgrMessage_make buf =
     (if len_of_buf buf < 6 then Inr (Incomplete (-1))
      else rbind (read32 buf 2) (\<lambda>n.
        let want_len = s32 (n + 6)
        in if want_len > 723 then overlong want_len
           else if want_len > len_of_buf buf then Inr (Incomplete want_len)
           else Inr (Framed GameMgr want_len)))"

definition GameMessage_make :: "byte list \<Rightarrow> framed res" where
  "GameMessage_make buf =
     (if length buf < 2 then Inr (Incomplete (-1))
      else rbind (read16 buf 0) (\<lambda>ty.
        let type = unat ty
        in if type = 0 then fixed_make buf Ping 6
           else if type = 1 then GameJoinRequest_make buf
           else if type = 2 then PropagateBufferMessage_make buf
           else if type = 3 then GameMgrMessage_make buf
           else Inr (Framed Unknown (len_of_buf buf))))"

section \<open>The contract of the receive loop\<close>

text \<open>
  \<open>feed\<close> appends the chunks that \<open>read\<close> delivers to the buffer and tries after each one.
\<close>

definition definite :: "framed res \<Rightarrow> bool" where
  "definite r = (case r of Inr (Incomplete _) \<Rightarrow> False | _ \<Rightarrow> True)"

fun feed :: "(byte list \<Rightarrow> framed res) \<Rightarrow> byte list \<Rightarrow> byte list list \<Rightarrow> framed res" where
  "feed make buf [] = make buf"
| "feed make buf (c # cs) = (if definite (make buf) then make buf else feed make (buf @ c) cs)"

locale framer =
  fixes make :: "byte list \<Rightarrow> framed res"
    and handled :: "byte list \<Rightarrow> bool"
  assumes stable: "handled (buf @ more) \<Longrightarrow> definite (make buf) \<Longrightarrow> make (buf @ more) = make buf"
    and in_bounds: "handled buf \<Longrightarrow> make buf \<noteq> Inl Out_Of_Bounds"
    and short: "handled buf \<Longrightarrow> make buf = Inr (Framed k n) \<Longrightarrow> n \<le> int (length buf)"
begin

lemma feed_make:
  "handled (buf @ concat cs) \<Longrightarrow> feed make buf cs = make (buf @ concat cs)"
proof (induction cs arbitrary: buf)
  case (Cons c cs)
  then show ?case using stable [of buf "concat (c # cs)"] by auto
qed simp

lemma feed_chunks:
  "handled (concat cs) \<Longrightarrow> concat cs = concat ds \<Longrightarrow> feed make [] cs = feed make [] ds"
  using feed_make [of "[]"] by simp

end

section \<open>Every handled type provides it\<close>

lemma read16_append: "off + 2 \<le> length buf \<Longrightarrow> read16 (buf @ more) off = read16 buf off"
  by (simp add: read16_def slice_append1)

lemma read32_append: "off + 4 \<le> length buf \<Longrightarrow> read32 (buf @ more) off = read32 buf off"
  by (simp add: read32_def slice_append1)

lemma get8_append: "off < length buf \<Longrightarrow> get8 (buf @ more) off = get8 buf off"
  by (simp add: get8_def nth_append)

lemma str16_append: "0 \<le> off \<Longrightarrow> off + 2 \<le> len_of_buf buf \<Longrightarrow> str16 (buf @ more) off = str16 buf off"
  by (simp add: str16_def read16_append nat_le_iff flip: of_nat_add)

lemma str16_ok: "0 \<le> off \<Longrightarrow> off + 2 \<le> len_of_buf buf \<Longrightarrow> \<exists>n. str16 buf off = Inr n \<and> 0 \<le> n"
  by (auto simp: str16_def res_simps read16_Inr nat_le_iff)

lemma str16_nonneg: "str16 buf off = Inr n \<Longrightarrow> 0 \<le> n"
  by (auto simp: str16_def res_simps)

lemma str16_Inl: "str16 buf off = Inl e \<Longrightarrow> 0 \<le> off \<Longrightarrow> len_of_buf buf < off + 2 \<and> e = Out_Of_Bounds"
  by (auto simp: str16_def res_simps read16_Inl)


lemma definite_simps [simp]:
  "\<not> definite (Inr (Incomplete w))" "definite (Inr (Framed k n))" "definite (Inl e)"
  by (simp_all add: definite_def)

text \<open>
  \<open>verdict buf more r r'\<close>: the result \<open>r\<close> for \<open>buf\<close> and the result \<open>r'\<close> for \<open>buf @ more\<close> are what
  the contract wants.  The rules follow the structure of the functions.
\<close>

definition verdict :: "byte list \<Rightarrow> byte list \<Rightarrow> framed res \<Rightarrow> framed res \<Rightarrow> bool" where
  "verdict buf more r r' \<longleftrightarrow> (definite r \<longrightarrow> r' = r) \<and> r \<noteq> Inl Out_Of_Bounds \<and>
     (\<forall>k n. r = Inr (Framed k n) \<longrightarrow> n \<le> len_of_buf buf)"

named_theorems verdict_intros "one rule for each construct of a make_if_enough function"

lemma verdict_incomplete [verdict_intros]: "verdict buf more (Inr (Incomplete w)) r'"
  by (simp add: verdict_def)

lemma verdict_framed [verdict_intros]:
  "n \<le> len_of_buf buf \<Longrightarrow> verdict buf more (Inr (Framed k n)) (Inr (Framed k n))"
  by (simp add: verdict_def)

lemma verdict_Inl [verdict_intros]: "e \<noteq> Out_Of_Bounds \<Longrightarrow> verdict buf more (Inl e) (Inl e)"
  by (simp add: verdict_def)

lemma verdict_overlong [verdict_intros]: "verdict buf more (overlong n) (overlong n)"
  by (simp add: verdict_def overlong_def)

lemma verdict_if [verdict_intros]:
  "(c \<Longrightarrow> verdict buf more x x') \<Longrightarrow> (\<not> c \<Longrightarrow> verdict buf more y y') \<Longrightarrow>
   verdict buf more (if c then x else y) (if c then x' else y')"
  by simp

lemma verdict_short [verdict_intros]:
  "(e \<le> len_of_buf buf \<Longrightarrow> verdict buf more x x') \<Longrightarrow>
   verdict buf more (if len_of_buf buf < e then Inr (Incomplete w) else x)
     (if len_of_buf (buf @ more) < e then Inr (Incomplete w') else x')"
  by (auto simp: verdict_def)

lemma verdict_short_gt [verdict_intros]:
  "(e \<le> len_of_buf buf \<Longrightarrow> verdict buf more x x') \<Longrightarrow>
   verdict buf more (if e > len_of_buf buf then Inr (Incomplete w) else x)
     (if e > len_of_buf (buf @ more) then Inr (Incomplete w') else x')"
  by (auto simp: verdict_def)

lemma verdict_short_nat [verdict_intros]:
  "(e \<le> length buf \<Longrightarrow> verdict buf more x x') \<Longrightarrow>
   verdict buf more (if length buf < e then Inr (Incomplete w) else x)
     (if length (buf @ more) < e then Inr (Incomplete w') else x')"
  by (auto simp: verdict_def)

lemma verdict_str16 [verdict_intros]:
  "0 \<le> off \<Longrightarrow> off + 2 \<le> len_of_buf buf \<Longrightarrow> (\<And>n. 0 \<le> n \<Longrightarrow> verdict buf more (g n) (g' n)) \<Longrightarrow>
   verdict buf more (rbind (str16 buf off) g) (rbind (str16 (buf @ more) off) g')"
  using str16_ok [of off buf] by (auto simp: str16_append)

lemma verdict_read16 [verdict_intros]:
  "off + 2 \<le> length buf \<Longrightarrow> (\<And>n. verdict buf more (g n) (g' n)) \<Longrightarrow>
   verdict buf more (rbind (read16 buf off) g) (rbind (read16 (buf @ more) off) g')"
  by (cases "read16 buf off") (auto simp: read16_append read16_Inl)

lemma verdict_read32 [verdict_intros]:
  "off + 4 \<le> length buf \<Longrightarrow> (\<And>n. verdict buf more (g n) (g' n)) \<Longrightarrow>
   verdict buf more (rbind (read32 buf off) g) (rbind (read32 (buf @ more) off) g')"
  by (cases "read32 buf off") (auto simp: read32_append read32_Inl)

lemma verdict_get8 [verdict_intros]:
  "off < length buf \<Longrightarrow> (\<And>n. verdict buf more (g n) (g' n)) \<Longrightarrow>
   verdict buf more (rbind (get8 buf off) g) (rbind (get8 (buf @ more) off) g')"
  by (simp add: get8_append) (simp add: get8_def)

lemma verdict_fixed [verdict_intros]: "verdict buf more (fixed_make buf k n) (fixed_make (buf @ more) k n)"
  by (auto simp: verdict_def fixed_make_def)

lemma verdict_enough [verdict_intros]: "verdict buf more (enough buf k n) (enough (buf @ more) k n)"
  by (auto simp: verdict_def enough_def)

lemma verdict_enough_unknown [verdict_intros]: "verdict buf more (enough buf k (-1)) r'"
  by (simp add: verdict_def enough_def)

lemma verdict_login:
  "verdict buf more (AuthClientLoginMessage_make buf) (AuthClientLoginMessage_make (buf @ more))"
  unfolding AuthClientLoginMessage_make_def Let_def
  by (intro verdict_intros) simp_all

lemma verdict_change_pass:
  "verdict buf more (AuthClientChangePassMessage_make buf) (AuthClientChangePassMessage_make (buf @ more))"
  unfolding AuthClientChangePassMessage_make_def Let_def
  by (intro verdict_intros) simp_all

lemma verdict_age:
  "verdict buf more (AuthClientAgeRequestMessage_make buf) (AuthClientAgeRequestMessage_make (buf @ more))"
  unfolding AuthClientAgeRequestMessage_make_def Let_def
  by (intro verdict_intros) auto

lemma verdict_log:
  "verdict buf more (AuthClientLogMessage_make buf) (AuthClientLogMessage_make (buf @ more))"
  unfolding AuthClientLogMessage_make_def Let_def
  by (intro verdict_intros) auto

lemma verdict_friend:
  "verdict buf more (friend_invite_make buf) (friend_invite_make (buf @ more))"
  unfolding friend_invite_make_def Let_def
  by (intro verdict_intros) simp_all

lemma verdict_gamemgr:
  "verdict buf more (GameMgrMessage_make buf) (GameMgrMessage_make (buf @ more))"
  unfolding GameMgrMessage_make_def Let_def
  by (intro verdict_intros) simp_all

lemma verdict_propagate:
  "verdict buf more (PropagateBufferMessage_make buf) (PropagateBufferMessage_make (buf @ more))"
  unfolding PropagateBufferMessage_make_def Let_def
  by (intro verdict_intros) simp_all


lemma verdict_short_enough [verdict_intros]:
  "(e \<le> len_of_buf buf \<Longrightarrow> verdict buf more x x') \<Longrightarrow>
   verdict buf more (if len_of_buf buf < e then enough buf k (-1) else x)
     (if len_of_buf (buf @ more) < e then enough (buf @ more) k (-1) else x')"
  by (auto simp: verdict_def enough_def)

text \<open>A length that was found stays; one that was not found may be found later.\<close>

definition length_kept :: "int res \<Rightarrow> int res \<Rightarrow> int \<Rightarrow> bool" where
  "length_kept m m' unknown \<longleftrightarrow> m \<noteq> Inl Out_Of_Bounds \<and> (m = Inr unknown \<or> m' = m)"

lemma verdict_total:
  assumes "length_kept m m' (-1)" and "-1 \<le> c"
  shows "verdict buf more (rbind m (\<lambda>t. if t > c then overlong t else enough buf k t))
    (rbind m' (\<lambda>t. if t > c then overlong t else enough (buf @ more) k t))"
  using assms by (cases m) (auto simp: length_kept_def verdict_def enough_def overlong_def)

lemma length_kept_str16:
  "0 \<le> off \<Longrightarrow> off + 2 \<le> e \<Longrightarrow>
   length_kept (if len_of_buf buf \<ge> e then rbind (str16 buf off) (\<lambda>n. Inr (k + n)) else Inr (-1))
     (if len_of_buf (buf @ more) \<ge> e then rbind (str16 (buf @ more) off) (\<lambda>n. Inr (k + n))
      else Inr (-1)) (-1)"
  using str16_ok [of off buf] by (auto simp: length_kept_def str16_append)

lemma length_kept_read32:
  "off + 4 \<le> e \<Longrightarrow>
   length_kept (if len_of_buf buf \<ge> int e then rbind (read32 buf off) (\<lambda>n. Inr (s32 (k + n))) else Inr (-1))
     (if len_of_buf (buf @ more) \<ge> int e then rbind (read32 (buf @ more) off) (\<lambda>n. Inr (s32 (k + n)))
      else Inr (-1)) (-1)"
  by (cases "read32 buf off") (auto simp: length_kept_def read32_append read32_Inl res_simps)

lemma length_kept_init_age:
  "0 \<le> t \<Longrightarrow> length_kept (init_age_total buf i t) (init_age_total (buf @ more) i t) (-9)"
proof (induction i arbitrary: t)
  case (Suc i)
  show ?case
  proof (cases "len_of_buf buf < t + 2")
    case False
    with str16_ok [of t buf] Suc.prems obtain n where "str16 buf t = Inr n" "0 \<le> n" by auto
    with False Suc show ?thesis by (simp add: str16_append)
  qed (simp add: length_kept_def)
qed (simp add: length_kept_def)

lemma length_kept_vault: "length_kept (vault_total buf type) (vault_total (buf @ more) type) (-1)"
proof -
  consider "type \<in> set [25, 33]" | "type = 27" | "type = 32" | "type \<in> {41, 46, 48}"
    | "type \<notin> set [25, 33, 27, 32, 41, 46, 48]" by auto
  then show ?thesis
  proof cases
    case 1
    then show ?thesis using length_kept_read32 [of 6 10 buf 10 more] by (simp add: vault_total_def)
  next
    case 2
    then show ?thesis using length_kept_read32 [of 26 30 buf 30 more] by (simp add: vault_total_def)
  next
    case 3
    then show ?thesis
      using length_kept_init_age [of 38 buf 4 more]
      by (auto simp: vault_total_def length_kept_def res_simps)
  next
    case 4
    then show ?thesis
      using length_kept_str16 [of 6 8 buf 8 more] length_kept_str16 [of 10 12 buf 20 more]
        length_kept_str16 [of 10 12 buf 12 more]
      by (auto simp: vault_total_def)
  next
    case 5
    then show ?thesis by (auto simp: vault_total_def length_kept_def)
  qed
qed

lemma verdict_vault:
  assumes "2 \<le> length buf"
  shows "verdict buf more (AuthClientVaultMessage_make buf) (AuthClientVaultMessage_make (buf @ more))"
  unfolding AuthClientVaultMessage_make_def
  using assms by (intro verdict_read16 verdict_total length_kept_vault) simp_all

lemma verdict_file:
  assumes "2 \<le> length buf"
  shows "verdict buf more (AuthClientFileMessage_make buf) (AuthClientFileMessage_make (buf @ more))"
  unfolding AuthClientFileMessage_make_def Let_def
  using assms by (intro verdict_intros verdict_total length_kept_str16) simp_all

text \<open>The types an auth client may send; \<open>PlayerCreateRequest\<close> is the exception below.\<close>

definition auth_handled :: "byte list \<Rightarrow> bool" where
  "auth_handled buf \<longleftrightarrow>
     (case read16 buf 0 of Inl _ \<Rightarrow> True
      | Inr ty \<Rightarrow> unat ty \<in> set ([0, 1, 3, 6, 8, 13, 20, 24, 36, 37, 38, 39, 43, 44, 45] @ vault_types))"

lemma verdict_auth:
  assumes "auth_handled (buf @ more)"
  shows "verdict buf more (AuthClientMessage_make buf) (AuthClientMessage_make (buf @ more))"
proof (cases "length buf < 2")
  case True
  then show ?thesis by (simp add: AuthClientMessage_make_def verdict_incomplete)
next
  case False
  then obtain ty where ty: "read16 buf 0 = Inr ty" by (cases "read16 buf 0") (auto simp: read16_Inl)
  with False have ty': "read16 (buf @ more) 0 = Inr ty" by (simp add: read16_append)
  with assms have "unat ty \<in> set ([0, 1, 3, 6, 8, 13, 20, 24, 36, 37, 38, 39, 43, 44, 45] @ vault_types)"
    by (simp add: auth_handled_def)
  then show ?thesis
    using False verdict_vault [of buf more] verdict_file [of buf more]
    by (auto simp: AuthClientMessage_make_def ty ty' vault_types_def verdict_fixed verdict_login
        verdict_change_pass verdict_age verdict_log verdict_friend)
qed

definition game_handled :: "byte list \<Rightarrow> bool" where
  "game_handled buf \<longleftrightarrow>
     (case read16 buf 0 of Inl _ \<Rightarrow> True | Inr ty \<Rightarrow> unat ty \<in> set [0, 1, 2, 3])"

lemma verdict_game:
  assumes "game_handled (buf @ more)"
  shows "verdict buf more (GameMessage_make buf) (GameMessage_make (buf @ more))"
proof (cases "length buf < 2")
  case True
  then show ?thesis by (simp add: GameMessage_make_def verdict_incomplete)
next
  case False
  then obtain ty where ty: "read16 buf 0 = Inr ty" by (cases "read16 buf 0") (auto simp: read16_Inl)
  with False have ty': "read16 (buf @ more) 0 = Inr ty" by (simp add: read16_append)
  with assms have "unat ty \<in> set [0, 1, 2, 3]" by (simp add: game_handled_def)
  then show ?thesis
    using False
    by (auto simp: GameMessage_make_def ty ty' GameJoinRequest_make_def verdict_fixed verdict_gamemgr
        verdict_propagate)
qed

definition gatekeeper_handled :: "byte list \<Rightarrow> bool" where
  "gatekeeper_handled buf \<longleftrightarrow>
     (case read16 buf 0 of Inl _ \<Rightarrow> True | Inr ty \<Rightarrow> unat ty \<in> set [0, 1, 2])"

lemma verdict_gatekeeper:
  assumes "gatekeeper_handled (buf @ more)"
  shows "verdict buf more (GatekeeperClientMessage_make buf) (GatekeeperClientMessage_make (buf @ more))"
proof (cases "length buf < 7")
  case True
  then show ?thesis by (simp add: GatekeeperClientMessage_make_def verdict_incomplete)
next
  case False
  then obtain ty where ty: "read16 buf 0 = Inr ty" by (cases "read16 buf 0") (auto simp: read16_Inl)
  with False have ty': "read16 (buf @ more) 0 = Inr ty" by (simp add: read16_append)
  with assms have "unat ty \<in> set [0, 1, 2]" by (simp add: gatekeeper_handled_def)
  then show ?thesis
    using False
    by (auto simp: GatekeeperClientMessage_make_def ty ty' verdict_def definite_def)
qed

lemma verdict_framed_nat:
  "n \<le> length buf \<Longrightarrow> verdict buf more (Inr (Framed k (int n))) (Inr (Framed k (int n)))"
  by (simp add: verdict_def)

lemma verdict_file_client:
  "verdict buf more (FileClientMessage_make buf) (FileClientMessage_make (buf @ more))"
  unfolding FileClientMessage_make_def Let_def
  by (intro verdict_short_nat verdict_read32 verdict_if verdict_Inl verdict_framed_nat) simp_all

definition negotiation_types :: "nat list" where
  "negotiation_types = [0x00, 0x10, 0x0a, 0x0b, 0x16]"

lemma verdict_negotiation_body:
  assumes "\<not> m > (65 :: u32)"
  shows "verdict buf more
    (if length buf < unat (m + 4) then Inr (Incomplete w) else rbind (read32 buf (unat m)) (\<lambda>v.
       if length buf < unat (m + v) then Inr (Incomplete w)
       else Inr (Framed k (int (unat (m + v))))))
    (if length (buf @ more) < unat (m + 4) then Inr (Incomplete w)
     else rbind (read32 (buf @ more) (unat m)) (\<lambda>v.
       if length (buf @ more) < unat (m + v) then Inr (Incomplete w)
       else Inr (Framed k (int (unat (m + v))))))"
proof -
  have "unat m \<le> 65" using assms by (simp add: word_less_nat_alt)
  then have "unat (m + 4) = unat m + 4" by (simp add: unat_add_u32)
  then show ?thesis
    by (intro verdict_short_nat verdict_read32 verdict_framed_nat) simp_all
qed

lemma verdict_negotiation:
  assumes "type \<in> set negotiation_types"
  shows "verdict buf more (NegotiationMessage_make buf type) (NegotiationMessage_make (buf @ more) type)"
  unfolding NegotiationMessage_make_def Let_def
  by (rule verdict_short_nat, rule verdict_get8, linarith, rule verdict_if, rule verdict_Inl, simp,
      rule verdict_if, rule verdict_short_nat, rule verdict_framed_nat, simp, rule verdict_if,
      rule verdict_negotiation_body, simp, use assms in \<open>simp add: negotiation_types_def\<close>)

lemma framer_intro:
  assumes v: "\<And>buf more. handled (buf @ more) \<Longrightarrow> verdict buf more (make buf) (make (buf @ more))"
  shows "framer make handled"
proof
  fix buf more
  assume "handled (buf @ more)" "definite (make buf)"
  with v show "make (buf @ more) = make buf" by (simp add: verdict_def)
next
  fix buf k n
  assume h: "handled buf"
  with v [of buf "[]"] show "make buf \<noteq> Inl Out_Of_Bounds" by (simp add: verdict_def)
  assume "make buf = Inr (Framed k n)"
  with v [of buf "[]"] h show "n \<le> int (length buf)" by (simp add: verdict_def)
qed

interpretation auth_framer: framer AuthClientMessage_make auth_handled
  by (rule framer_intro) (rule verdict_auth)

interpretation game_framer: framer GameMessage_make game_handled
  by (rule framer_intro) (rule verdict_game)

interpretation gatekeeper_framer: framer GatekeeperClientMessage_make gatekeeper_handled
  by (rule framer_intro) (rule verdict_gatekeeper)

interpretation file_framer: framer FileClientMessage_make "\<lambda>_. True"
  by (rule framer_intro) (rule verdict_file_client)

interpretation negotiation_framer:
  framer "\<lambda>buf. NegotiationMessage_make buf type" "\<lambda>_. type \<in> set negotiation_types" for type
  by (rule framer_intro) (rule verdict_negotiation)

section \<open>Where the length computation goes wrong\<close>

text \<open>The third string of a player creation is read without a look at the received length.\<close>

theorem player_create_overread:
  "AuthClientMessage_make (bytes16 17 @ bytes32 0 @ bytes16 0 @ bytes16 0) = Inl Out_Of_Bounds"
  by (simp add: AuthClientMessage_make_def AuthClientPlayerCreateMessage_make_def vault_types_def
      str16_def read16_def slice_def bytes16_def bytes32_def Let_def)

text \<open>
  A length word of the vault messages and of the game messages is added to in 32 bits and then
  compared as a signed number, so a message can be framed with a negative length; the
  constructors take it as a \<open>size_t\<close>.
\<close>

theorem vault_negative_length:
  "AuthClientMessage_make (bytes16 25 @ bytes32 0 @ bytes32 0xFFFFFF00) =
     Inr (Framed (Vault 25) (- 246))"
  by (simp add: AuthClientMessage_make_def AuthClientVaultMessage_make_def vault_types_def
      vault_total_def enough_def s32_def read32_def read16_def slice_def bytes16_def bytes32_def Let_def)

theorem propagate_negative_length:
  "GameMessage_make (bytes16 2 @ bytes32 0 @ bytes32 0xFFFFFF00) =
     Inr (Framed (PropagateBuffer 0) (- 246))"
  by (simp add: GameMessage_make_def PropagateBufferMessage_make_def
      s32_def read32_def read16_def slice_def bytes16_def bytes32_def Let_def)

section \<open>What the receive loops get\<close>

theorem auth_feed_chunks:
  assumes "auth_handled (concat cs)" and "concat cs = concat ds"
  shows "feed AuthClientMessage_make [] cs = feed AuthClientMessage_make [] ds"
  using assms by (rule auth_framer.feed_chunks)

theorem game_feed_chunks:
  assumes "game_handled (concat cs)" and "concat cs = concat ds"
  shows "feed GameMessage_make [] cs = feed GameMessage_make [] ds"
  using assms by (rule game_framer.feed_chunks)

theorem negotiation_feed_chunks:
  assumes "type \<in> set negotiation_types" and "concat cs = concat ds"
  shows "feed (\<lambda>buf. NegotiationMessage_make buf type) [] cs =
    feed (\<lambda>buf. NegotiationMessage_make buf type) [] ds"
  using assms by (rule negotiation_framer.feed_chunks)

theorem file_feed_chunks:
  assumes "concat cs = concat ds"
  shows "feed FileClientMessage_make [] cs = feed FileClientMessage_make [] ds"
  using TrueI assms by (rule file_framer.feed_chunks)


definition sample_ping :: "byte list" where
  "sample_ping = [0, 0, 1, 2, 3, 4, 5, 6, 7, 8, 9, 10, 11, 12]"

lemma sample_ping_type: "read16 sample_ping 0 = Inr 0"
  by (simp add: sample_ping_def read16_def slice_def)

lemma sample_handled: "auth_handled sample_ping" "game_handled sample_ping"
  by (simp_all add: auth_handled_def game_handled_def sample_ping_type)

lemma sample_chunks: "concat [take 1 sample_ping, drop 1 sample_ping] = concat [sample_ping]"
  by simp

theorem auth_feed_chunks_witness:
  "feed AuthClientMessage_make [] [[0], drop 1 sample_ping] = Inr (Framed Ping 14)"
proof -
  have "feed AuthClientMessage_make [] [sample_ping] = Inr (Framed Ping 14)"
    by (simp add: AuthClientMessage_make_def sample_ping_type fixed_make_def) (simp add: sample_ping_def)
  then show ?thesis
    using auth_feed_chunks [OF _ sample_chunks] sample_handled by (simp add: sample_ping_def)
qed

theorem game_feed_chunks_witness:
  "feed GameMessage_make [] [[0], drop 1 sample_ping] = feed GameMessage_make [] [sample_ping]"
  using game_feed_chunks [OF _ sample_chunks] sample_handled by (simp add: sample_ping_def)

theorem negotiation_feed_chunks_witness:
  "feed (\<lambda>buf. NegotiationMessage_make buf 0) [] [[3], [1], [2, 9]] =
   feed (\<lambda>buf. NegotiationMessage_make buf 0) [] [[3, 1, 2], [9]]"
  using negotiation_feed_chunks [of 0 "[[3], [1], [2, 9]]" "[[3, 1, 2], [9]]"]
  by (simp add: negotiation_types_def)

theorem file_feed_chunks_witness:
  "feed FileClientMessage_make [] [[12, 0, 0], [0, 0, 0, 0, 0, 1, 2, 3, 4]] =
   feed FileClientMessage_make [] [[12, 0, 0, 0], [0, 0, 0, 0, 1, 2, 3, 4]]"
  by (rule file_feed_chunks) simp


end
