(* ===== verification/Game_Mgr.thy ===== *)
theory Game_Mgr
  imports Wire
begin

text \<open>
  The base class \<open>GameMgr\<close> (\<open>GameHandler.h\<close>, end of \<open>GameState.cc\<close>), the messages a game
  manager gets (\<open>GameMgrMessage\<close> of \<open>GameMessage.cc\<close>) and sends, and the interface the game
  server uses.

  A manager is a record; a subclass extends it.  What a method sends is part of its result, in
  order: \<open>Send ki m\<close> is \<open>server->send_to_ki(ki, m)\<close>.  A manager of a player list \<open>ps\<close> and owner
  \<open>o\<close> satisfies \<open>roster_ok\<close> when the list has no duplicates and a game with players has an owner.

  The locale \<open>game_manager\<close> states what every subclass owes: an invariant kept by all its entry
  points, and no fault except the exception for a message that is too short.
\<close>

type_synonym kinum = u32

section \<open>Messages\<close>

text \<open>\<open>srv_msg\<close> are the messages a manager builds; the first number is always \<open>m_gameid\<close>.\<close>

datatype srv_type =
    Srv2Cli_Game_PlayerJoined
  | Srv2Cli_Game_OwnerChange
  | Srv2Cli_VarSync_AllVarsSent
  | Srv2Cli_BlueSpiral_SuccessfulHit
  | Srv2Cli_BlueSpiral_GameWon
  | Srv2Cli_BlueSpiral_GameOver
  | Srv2Cli_BlueSpiral_GameStarted
  | Srv2Cli_Heek_Goodbye
  | Srv2Cli_Heek_Drop
  | Srv2Cli_Heek_InterfaceState
  | Srv2Cli_Heek_CountdownState
  | Srv2Cli_Heek_GameWin

datatype srv_msg =
    GameMgr_Setup_Reply u32 u32 kinum "byte list"
  | GameMgr_Simple_Message u32 srv_type
  | GameMgr_OneByte_Message u32 srv_type byte
  | GameMgr_FourByte_Message u32 srv_type u32
  | GameMgr_BlueSpiral_ClothOrder_Message u32 "nat list"
  | GameMgr_VarSync_VarCreated_Message u32 nat "byte list" "byte list"
  | GameMgr_Heek_PlayGame_Message u32 bool bool bool
  | GameMgr_Heek_Welcome_Message u32 u32 u32 "byte list"
  | GameMgr_Heek_PointUpdate_Message u32 bool u32 u32
  | GameMgr_Heek_WinLose_Message u32 bool byte
  | GameMgr_Heek_Lights_Message u32 byte byte
  | Redistributed "byte list"

datatype out = Send kinum srv_msg

text \<open>A received \<open>GameMgrMessage\<close>; a game message has no request ID, a setup message has one.\<close>

record gm_msg =
  gm_msgtype :: u32
  gm_reqid :: u32
  gm_gameid :: u32
  gm_buf :: "byte list"

definition header_len :: nat where
  "header_len = 22"

definition GameMgrMessage :: "byte list \<Rightarrow> gm_msg res" where
  "GameMgrMessage buf =
     (if length buf \<ge> 18
      then rbind (read32 buf 6) (\<lambda>t. rbind (read32 buf 10) (\<lambda>r. rbind (read32 buf 14) (\<lambda>g.
           Inr \<lparr>gm_msgtype = t, gm_reqid = r, gm_gameid = g, gm_buf = buf\<rparr>)))
      else Inr \<lparr>gm_msgtype = 0, gm_reqid = 0, gm_gameid = 0, gm_buf = buf\<rparr>)"

definition is_setup :: "gm_msg \<Rightarrow> bool" where
  "is_setup msg \<longleftrightarrow> gm_reqid msg \<noteq> 0"

definition gm_check_useable :: "gm_msg \<Rightarrow> bool" where
  "gm_check_useable msg \<longleftrightarrow>
     (if length (gm_buf msg) < 18 then False
      else if is_setup msg
      then \<not> length (gm_buf msg) < (if gm_msgtype msg = 0 then header_len else header_len + 8) + 16 + 4
      else True)"

definition setup_uuid :: "gm_msg \<Rightarrow> byte list res" where
  "setup_uuid msg =
     slice (if gm_msgtype msg = 0 then header_len else header_len + 8) 16 (gm_buf msg)"

definition setup_data :: "gm_msg \<Rightarrow> nat" where
  "setup_data msg = (if gm_msgtype msg = 0 then header_len + 16 + 4 else header_len + 16 + 4 + 8)"

definition clobber_msgtype :: "gm_msg \<Rightarrow> u32 \<Rightarrow> gm_msg res" where
  "clobber_msgtype msg newtype =
     rbind (write32 (gm_buf msg) 6 newtype) (\<lambda>buf. Inr (msg\<lparr>gm_msgtype := newtype, gm_buf := buf\<rparr>))"

lemma setup_uuid_ok:
  "gm_check_useable msg \<Longrightarrow> is_setup msg \<Longrightarrow> \<exists>uuid. setup_uuid msg = Inr uuid \<and> length uuid = 16"
  by (auto simp: gm_check_useable_def setup_uuid_def header_len_def slice_def split: if_splits)

section \<open>Sending while computing\<close>

text \<open>
  \<open>chain\<close> runs one part of a method after another and collects what they send.  \<open>fine m Q\<close>: \<open>m\<close>
  returns without a fault, in a state with \<open>Q\<close>.
\<close>

definition chain :: "('s \<times> out list) res \<Rightarrow> ('s \<Rightarrow> ('t \<times> out list) res) \<Rightarrow> ('t \<times> out list) res" where
  "chain m k = rbind m (\<lambda>(s, o1). rbind (k s) (\<lambda>(t, o2). Inr (t, o1 @ o2)))"

definition fine :: "('s \<times> out list) res \<Rightarrow> ('s \<Rightarrow> bool) \<Rightarrow> bool" where
  "fine m Q \<longleftrightarrow> (\<exists>s os. m = Inr (s, os) \<and> Q s)"

named_theorems fine_intros "rules for computations that do not fail"

lemma fine_Inr [simp]: "fine (Inr (s, os)) Q \<longleftrightarrow> Q s"
  by (simp add: fine_def)

lemma fine_chain [fine_intros]:
  "fine m R \<Longrightarrow> (\<And>s. R s \<Longrightarrow> fine (k s) Q) \<Longrightarrow> fine (chain m k) Q"
  by (fastforce simp: fine_def chain_def)

lemma fine_mono: "fine m Q \<Longrightarrow> (\<And>s. Q s \<Longrightarrow> R s) \<Longrightarrow> fine m R"
  by (auto simp: fine_def)

lemma fineE:
  assumes "fine m Q"
  obtains s os where "m = Inr (s, os)" "Q s"
  using assms by (auto simp: fine_def)

section \<open>\<open>GameMgr\<close>\<close>

record game_mgr =
  m_gameid :: u32
  m_owner :: kinum
  m_players :: "kinum list"
  m_setups :: "(gm_msg \<times> kinum) list"

definition add_player :: "kinum \<Rightarrow> 'a game_mgr_scheme \<Rightarrow> 'a game_mgr_scheme" where
  "add_player player g =
     (if player \<in> set (m_players g) then g else g\<lparr>m_players := m_players g @ [player]\<rparr>)"

definition remove_player :: "kinum \<Rightarrow> 'a game_mgr_scheme \<Rightarrow> 'a game_mgr_scheme" where
  "remove_player player g = g\<lparr>m_players := remove1 player (m_players g)\<rparr>"

definition send_to_all :: "srv_msg \<Rightarrow> 'a game_mgr_scheme \<Rightarrow> out list" where
  "send_to_all msg g = map (\<lambda>p. Send p msg) (m_players g)"

definition find_new_owner :: "'a game_mgr_scheme \<Rightarrow> 'a game_mgr_scheme \<times> out list" where
  "find_new_owner g =
     (case m_players g of
        [] \<Rightarrow> (g\<lparr>m_owner := 0\<rparr>, [])
      | p # _ \<Rightarrow> (g\<lparr>m_owner := p\<rparr>,
          send_to_all (GameMgr_FourByte_Message (m_gameid g) Srv2Cli_Game_OwnerChange p) g))"

definition GameMgr_player_left :: "kinum \<Rightarrow> 'a game_mgr_scheme \<Rightarrow> 'a game_mgr_scheme \<times> out list" where
  "GameMgr_player_left player g =
     (let g' = remove_player player g
      in if player = m_owner g' then find_new_owner g' else (g', []))"

definition send_setup_reply :: "gm_msg \<Rightarrow> kinum \<Rightarrow> 'a game_mgr_scheme \<Rightarrow> out list res" where
  "send_setup_reply msg player g =
     rbind (setup_uuid msg) (\<lambda>uuid.
       Inr [Send player (GameMgr_Setup_Reply (m_gameid g) (gm_reqid msg) (m_owner g) uuid)])"

definition send_join :: "kinum \<Rightarrow> 'a game_mgr_scheme \<Rightarrow> out list" where
  "send_join player g =
     send_to_all (GameMgr_FourByte_Message (m_gameid g) Srv2Cli_Game_PlayerJoined player) g @
     [Send player (GameMgr_FourByte_Message (m_gameid g) Srv2Cli_Game_OwnerChange (m_owner g))]"

definition save_setup_msg :: "gm_msg \<Rightarrow> kinum \<Rightarrow> 'a game_mgr_scheme \<Rightarrow> 'a game_mgr_scheme" where
  "save_setup_msg msg player g = g\<lparr>m_setups := m_setups g @ [(msg, player)]\<rparr>"

text \<open>
  \<open>assign_id\<close> runs \<open>initialize_game\<close>, a virtual method, for every saved setup message; its return
  value is not looked at.
\<close>

fun run_setups ::
  "(gm_msg \<Rightarrow> kinum \<Rightarrow> 'a game_mgr_scheme \<Rightarrow> (bool \<times> 'a game_mgr_scheme \<times> out list) res) \<Rightarrow>
   (gm_msg \<times> kinum) list \<Rightarrow> 'a game_mgr_scheme \<Rightarrow> ('a game_mgr_scheme \<times> out list) res" where
  "run_setups initialize_game [] g = Inr (g, [])"
| "run_setups initialize_game ((msg, player) # ms) g =
     rbind (initialize_game msg player g) (\<lambda>(ok, g', o1).
     rbind (run_setups initialize_game ms g') (\<lambda>(g'', o2). Inr (g'', o1 @ o2)))"

definition assign_id ::
  "(gm_msg \<Rightarrow> kinum \<Rightarrow> 'a game_mgr_scheme \<Rightarrow> (bool \<times> 'a game_mgr_scheme \<times> out list) res) \<Rightarrow>
   u32 \<Rightarrow> 'a game_mgr_scheme \<Rightarrow> ('a game_mgr_scheme \<times> out list) res" where
  "assign_id initialize_game new_id g =
     rbind (run_setups initialize_game (m_setups g) (g\<lparr>m_gameid := new_id\<rparr>)) (\<lambda>(g', os).
       Inr (g'\<lparr>m_setups := []\<rparr>, os))"

section \<open>The roster\<close>

definition roster_ok :: "'a game_mgr_scheme \<Rightarrow> bool" where
  "roster_ok g \<longleftrightarrow> distinct (m_players g) \<and> 0 \<notin> set (m_players g) \<and>
     (m_owner g = 0 \<longrightarrow> m_players g = [])"

named_theorems mgr_defs "the operations of the base class"
lemmas [mgr_defs] = add_player_def remove_player_def find_new_owner_def GameMgr_player_left_def
  Let_def send_to_all_def

lemma roster_add:
  "roster_ok g \<Longrightarrow> player \<noteq> 0 \<Longrightarrow> m_owner g \<noteq> 0 \<Longrightarrow> roster_ok (add_player player g)"
  by (auto simp: roster_ok_def mgr_defs)

lemma left_cases:
  assumes "GameMgr_player_left player g = (g', os)"
  obtains "player \<noteq> m_owner g" "g' = remove_player player g" "os = []"
  | "player = m_owner g" "m_players (remove_player player g) = []"
    "g' = (remove_player player g)\<lparr>m_owner := 0\<rparr>" "os = []"
  | p ps where "player = m_owner g" "m_players (remove_player player g) = p # ps"
    "g' = (remove_player player g)\<lparr>m_owner := p\<rparr>"
    "os = send_to_all (GameMgr_FourByte_Message (m_gameid g) Srv2Cli_Game_OwnerChange p)
       (remove_player player g)"
  using assms
  by (auto simp: GameMgr_player_left_def find_new_owner_def remove_player_def Let_def
      split: if_splits list.splits)

lemma roster_left:
  assumes ok: "roster_ok g" and left: "GameMgr_player_left player g = (g', os)"
  shows "roster_ok g' \<and> m_players g' = remove1 player (m_players g) \<and> player \<notin> set (m_players g')"
proof -
  from ok have d: "distinct (remove1 player (m_players g))" "0 \<notin> set (remove1 player (m_players g))"
    "player \<notin> set (remove1 player (m_players g))" "m_owner g = 0 \<longrightarrow> m_players g = []"
    using set_remove1_subset [of player "m_players g"] by (auto simp: roster_ok_def)
  from left show ?thesis
    by (cases rule: left_cases) (use d in \<open>auto simp: roster_ok_def remove_player_def\<close>)
qed

lemma left_frame:
  "GameMgr_player_left player g = (g', os) \<Longrightarrow>
   m_gameid g' = m_gameid g \<and> m_setups g' = m_setups g \<and> game_mgr.more g' = game_mgr.more g"
  by (erule left_cases) (auto simp: remove_player_def)

section \<open>Timers\<close>

text \<open>
  What a manager sees of the server's timer queue: a timer that was set is pending under its number
  until it fires or is cancelled.  \<open>TimerQueue\<close> deletes a timer when it fires, so cancelling one that
  is not pending would use freed memory.
\<close>

record 'a timer_queue =
  tq_next :: nat
  tq_pending :: "(nat \<times> 'a) list"

definition set_timer :: "'a \<Rightarrow> 'a timer_queue \<Rightarrow> nat \<times> 'a timer_queue" where
  "set_timer a q = (tq_next q, \<lparr>tq_next = Suc (tq_next q), tq_pending = tq_pending q @ [(tq_next q, a)]\<rparr>)"

definition expire :: "nat \<Rightarrow> 'a timer_queue \<Rightarrow> 'a timer_queue" where
  "expire i q = q\<lparr>tq_pending := filter (\<lambda>p. fst p \<noteq> i) (tq_pending q)\<rparr>"

definition cancel_timer :: "nat option \<Rightarrow> 'a timer_queue \<Rightarrow> 'a timer_queue res" where
  "cancel_timer t q =
     (case t of
        None \<Rightarrow> Inr q
      | Some i \<Rightarrow> (if i \<in> fst ` set (tq_pending q) then Inr (expire i q) else Inl Use_After_Free))"

definition queue_wf :: "'a timer_queue \<Rightarrow> bool" where
  "queue_wf q \<longleftrightarrow> distinct (map fst (tq_pending q)) \<and> (\<forall>p \<in> set (tq_pending q). fst p < tq_next q)"

definition timer_pending :: "nat option \<Rightarrow> 'a timer_queue \<Rightarrow> bool" where
  "timer_pending t q = (case t of None \<Rightarrow> True | Some i \<Rightarrow> i \<in> fst ` set (tq_pending q))"

lemma timer_pending_None [simp]: "timer_pending None q"
  by (simp add: timer_pending_def)

lemma set_timer_wf:
  "set_timer a q = (t, q') \<Longrightarrow> queue_wf q \<Longrightarrow> queue_wf q' \<and> timer_pending (Some t) q'"
  by (fastforce simp: set_timer_def queue_wf_def timer_pending_def less_Suc_eq)

lemma expire_wf: "queue_wf q \<Longrightarrow> queue_wf (expire i q)"
  by (auto simp: queue_wf_def expire_def distinct_map_filter)

lemma cancel_timer_wf:
  assumes "timer_pending t q" and "queue_wf q"
  shows "\<exists>q'. cancel_timer t q = Inr q' \<and> queue_wf q'"
  using assms by (auto simp: cancel_timer_def timer_pending_def expire_wf split: option.splits)

section \<open>The interface of a game manager\<close>

text \<open>
  \<open>'i\<close> is what a handler takes from outside besides the message (random bytes); \<open>'e\<close> are the
  events of the subclass's own, such as the expiry of a timer.
\<close>

datatype ('i, 'e) mgr_event =
    Setup_Msg gm_msg kinum
  | Game_Msg 'i gm_msg kinum
  | Player_Left kinum
  | Own_Event 'e

definition event_ok :: "('i, 'e) mgr_event \<Rightarrow> bool" where
  "event_ok ev =
     (case ev of
        Setup_Msg msg player \<Rightarrow> gm_check_useable msg \<and> is_setup msg \<and> player \<noteq> 0
      | Game_Msg i msg player \<Rightarrow> gm_check_useable msg \<and> player \<noteq> 0
      | Player_Left player \<Rightarrow> player \<noteq> 0
      | Own_Event e \<Rightarrow> True)"

fun run_events ::
  "(('i, 'e) mgr_event \<Rightarrow> 's \<Rightarrow> ('s \<times> out list) res) \<Rightarrow> ('i, 'e) mgr_event list \<Rightarrow> 's \<Rightarrow>
   ('s \<times> out list) res" where
  "run_events step [] s = Inr (s, [])"
| "run_events step (ev # evs) s =
     (case step ev s of
        Inr (s', o1) \<Rightarrow> rbind (run_events step evs s') (\<lambda>(s'', o2). Inr (s'', o1 @ o2))
      | Inl Truncated_Message \<Rightarrow> run_events step evs s
      | Inl e \<Rightarrow> Inl e)"

text \<open>
  \<open>ok_run ok\<close>: each event of the run is one the clients may cause in the state it finds.
\<close>

fun ok_run ::
  "(('i, 'e) mgr_event \<Rightarrow> 's \<Rightarrow> ('s \<times> out list) res) \<Rightarrow> (('i, 'e) mgr_event \<Rightarrow> 's \<Rightarrow> bool) \<Rightarrow>
   ('i, 'e) mgr_event list \<Rightarrow> 's \<Rightarrow> bool" where
  "ok_run step ok [] s = True"
| "ok_run step ok (ev # evs) s \<longleftrightarrow> ok ev s \<and>
     (case step ev s of
        Inr (s', _) \<Rightarrow> ok_run step ok evs s'
      | Inl Truncated_Message \<Rightarrow> ok_run step ok evs s
      | Inl _ \<Rightarrow> True)"

lemma ok_run_all: "list_all P evs \<Longrightarrow> ok_run step (\<lambda>ev _. P ev) evs s"
  by (induction evs arbitrary: s) (auto split: sum.splits fault.splits)

text \<open>
  An exception for a short message leaves the state as it was: the checks come before the changes.
  \<open>game_invariant\<close> is the part of the contract that speaks of runs without a fault.
\<close>

locale game_invariant =
  fixes step :: "('i, 'e) mgr_event \<Rightarrow> 's \<Rightarrow> ('s \<times> out list) res"
    and inv :: "'s \<Rightarrow> bool"
    and ok :: "('i, 'e) mgr_event \<Rightarrow> 's \<Rightarrow> bool"
  assumes step_inv: "inv s \<Longrightarrow> ok ev s \<Longrightarrow> step ev s = Inr (s', os) \<Longrightarrow> inv s'"
begin

lemma run_inv:
  "inv s \<Longrightarrow> ok_run step ok evs s \<Longrightarrow> run_events step evs s = Inr (s', os) \<Longrightarrow> inv s'"
proof (induction evs arbitrary: s os)
  case (Cons ev evs)
  show ?case
  proof (cases "step ev s")
    case (Inl e)
    with Cons show ?thesis by (cases e) auto
  next
    case (Inr r)
    then obtain s1 o1 where step: "step ev s = Inr (s1, o1)" by (cases r) auto
    with Cons.prems obtain o2 where "run_events step evs s1 = Inr (s', o2)"
      by (auto simp: rbind_eq_Inr)
    with Cons.IH [of s1 o2] Cons.prems step_inv [OF _ _ step] step show ?thesis by simp
  qed
qed simp

end

locale game_manager = game_invariant step inv ok
  for step :: "('i, 'e) mgr_event \<Rightarrow> 's \<Rightarrow> ('s \<times> out list) res"
    and inv :: "'s \<Rightarrow> bool"
    and ok :: "('i, 'e) mgr_event \<Rightarrow> 's \<Rightarrow> bool" +
  assumes step_safe: "inv s \<Longrightarrow> ok ev s \<Longrightarrow> step ev s = Inl e \<Longrightarrow> e = Truncated_Message"
begin

lemma run_safe:
  "inv s \<Longrightarrow> ok_run step ok evs s \<Longrightarrow> \<exists>s' os. run_events step evs s = Inr (s', os) \<and> inv s'"
proof (induction evs arbitrary: s)
  case (Cons ev evs)
  show ?case
  proof (cases "step ev s")
    case (Inl e)
    with Cons step_safe [of s ev e] show ?thesis by auto
  next
    case (Inr r)
    then obtain s' os where "step ev s = Inr (s', os)" by (cases r) auto
    with Cons step_inv [of s ev s' os] show ?thesis by fastforce
  qed
qed simp

end

lemma fine_manager:
  assumes "\<And>ev s. I s \<Longrightarrow> ok ev s \<Longrightarrow> step ev s = Inl Truncated_Message \<or> fine (step ev s) I"
  shows "game_manager step I ok"
proof
  fix s ev s' os e
  assume p: "I s" "ok ev s"
  show "step ev s = Inr (s', os) \<Longrightarrow> I s'" using assms [OF p] by (auto simp: fine_def)
  show "step ev s = Inl e \<Longrightarrow> e = Truncated_Message" using assms [OF p] by (auto simp: fine_def)
qed

end
