(* ===== verification/Blue_Spiral.thy ===== *)
theory Blue_Spiral
  imports Game_Mgr "HOL-Library.Multiset" "HOL-Library.Sublist"
begin

text \<open>
  \<open>BlueSpiralGameMgr\<close> of \<open>GameState.cc\<close>: the door game.  \<open>StartGame\<close> draws a random order of the
  seven cloths, starts the door timer and tells the players; each \<open>HitCloth\<close> must name the next
  cloth of the order; the seventh right one wins, a wrong one or the timer ends the game.

  The server's timer queue belongs to the state; \<open>m_timer\<close> is the number of the timer the manager
  points to.
\<close>

datatype action_t = TurnDoor | GameDone

record blue_spiral = game_mgr +
  m_order :: "nat list"
  m_next :: nat
  m_started :: bool
  m_timer :: "nat option"

type_synonym spiral_state = "blue_spiral \<times> action_t timer_queue"

definition BlueSpiralGameMgr :: "u32 \<Rightarrow> blue_spiral" where
  "BlueSpiralGameMgr gid =
     \<lparr>m_gameid = gid, m_owner = 0, m_players = [], m_setups = [],
      m_order = [], m_next = 0, m_started = False, m_timer = None\<rparr>"

definition bs_initialize_game ::
  "gm_msg \<Rightarrow> kinum \<Rightarrow> blue_spiral \<Rightarrow> (bool \<times> blue_spiral \<times> out list) res" where
  "bs_initialize_game msg player g =
     (let g1 = (if m_owner g = 0 then g\<lparr>m_owner := player\<rparr> else g)
      in if setup_data msg + 1 < length (gm_buf msg) then Inr (False, g1, [])
         else let g2 = add_player player g1
              in rbind (send_setup_reply msg player g2) (\<lambda>o1. Inr (True, g2, o1 @ send_join player g2)))"

text \<open>
  \<open>start_game\<close>; \<open>r\<close> is the array of random 16-bit numbers of which the first seven are used.
  \<open>m_order[i]\<close> is the number of elements that come after \<open>r[i]\<close>.
\<close>

definition later :: "u16 list \<Rightarrow> nat \<Rightarrow> nat \<Rightarrow> bool" where
  "later r i j \<longleftrightarrow> i \<noteq> j \<and> (r ! j > r ! i \<or> (r ! j = r ! i \<and> j > i))"

definition cloth_order :: "u16 list \<Rightarrow> nat list" where
  "cloth_order r = map (\<lambda>i. length (filter (later r i) [0..<7])) [0..<7]"

definition start_game :: "u16 list \<Rightarrow> blue_spiral \<Rightarrow> action_t timer_queue \<Rightarrow> spiral_state \<times> out list" where
  "start_game r g q =
     (let (t, q') = set_timer TurnDoor q;
          g' = g\<lparr>m_started := True, m_next := 0, m_order := cloth_order r, m_timer := Some t\<rparr>
      in ((g', q'),
          send_to_all (GameMgr_BlueSpiral_ClothOrder_Message (m_gameid g') (m_order g')) g' @
          send_to_all (GameMgr_OneByte_Message (m_gameid g') Srv2Cli_BlueSpiral_GameStarted 0) g'))"

definition hit_cloth :: "byte \<Rightarrow> blue_spiral \<Rightarrow> action_t timer_queue \<Rightarrow> (spiral_state \<times> out list) res" where
  "hit_cloth cloth g q =
     (if \<not> m_started g then Inr ((g, q), [])
      else if \<not> m_next g < length (m_order g) then Inl Out_Of_Bounds
      else if m_order g ! m_next g = unat cloth
      then let g1 = g\<lparr>m_next := Suc (m_next g)\<rparr>;
               hit = [Send (m_owner g) (GameMgr_Simple_Message (m_gameid g) Srv2Cli_BlueSpiral_SuccessfulHit)]
           in if m_next g1 > 6
              then Inr ((g1\<lparr>m_started := False\<rparr>, q),
                hit @ [Send (m_owner g) (GameMgr_Simple_Message (m_gameid g) Srv2Cli_BlueSpiral_GameWon)])
              else Inr ((g1, q), hit)
      else rbind (cancel_timer (m_timer g) q) (\<lambda>q'.
        let g1 = g\<lparr>m_started := False, m_timer := None\<rparr>
        in Inr ((g1, q'),
             send_to_all (GameMgr_Simple_Message (m_gameid g) Srv2Cli_BlueSpiral_GameOver) g1)))"

definition bs_got_message ::
  "u16 list \<Rightarrow> gm_msg \<Rightarrow> kinum \<Rightarrow> blue_spiral \<Rightarrow> action_t timer_queue \<Rightarrow> (bool \<times> spiral_state \<times> out list) res"
where
  "bs_got_message r msg player g q =
     (if gm_msgtype msg = 3
      then (if player \<noteq> m_owner g then Inr (True, (g, q), [])
            else rbind (if m_started g then cancel_timer (m_timer g) q else Inr q) (\<lambda>q1.
              let stop = (if m_started g
                          then send_to_all (GameMgr_Simple_Message (m_gameid g) Srv2Cli_BlueSpiral_GameOver) g
                          else []);
                  (s, os) = start_game r g q1
              in Inr (True, s, stop @ os)))
      else if gm_msgtype msg = 4
      then (if length (gm_buf msg) < header_len + 1 then Inl Truncated_Message
            else rbind (get8 (gm_buf msg) header_len) (\<lambda>cloth.
              rbind (hit_cloth cloth g q) (\<lambda>(s, os). Inr (True, s, os))))
      else Inr (False, (g, q), []))"

definition bs_player_left :: "kinum \<Rightarrow> blue_spiral \<Rightarrow> blue_spiral \<times> out list" where
  "bs_player_left player g =
     (let (g', os) = GameMgr_player_left player g
      in (if m_owner g' = 0 then g'\<lparr>m_started := False\<rparr> else g', os))"

definition bs_handle_timeout :: "action_t \<Rightarrow> blue_spiral \<Rightarrow> action_t timer_queue \<Rightarrow> spiral_state \<times> out list" where
  "bs_handle_timeout why g q =
     (if why = TurnDoor
      then let (t, q') = set_timer GameDone q
           in ((g\<lparr>m_timer := Some t\<rparr>, q'),
               [Send (m_owner g) (GameMgr_OneByte_Message (m_gameid g) Srv2Cli_BlueSpiral_GameStarted 1)])
      else let g' = g\<lparr>m_started := False, m_timer := None\<rparr>
           in ((g', q),
               send_to_all (GameMgr_Simple_Message (m_gameid g) Srv2Cli_BlueSpiral_GameOver) g'))"

text \<open>A timer that expires is taken off the queue, then its callback runs.\<close>

definition fire :: "nat \<Rightarrow> spiral_state \<Rightarrow> (spiral_state \<times> out list) res" where
  "fire i = (\<lambda>(g, q).
     case map_of (tq_pending q) i of
       None \<Rightarrow> Inr ((g, q), [])
     | Some why \<Rightarrow>
         Inr (bs_handle_timeout why g (expire i q)))"

fun bs_step :: "(u16 list, nat) mgr_event \<Rightarrow> spiral_state \<Rightarrow> (spiral_state \<times> out list) res" where
  "bs_step (Setup_Msg msg player) (g, q) =
     rbind (bs_initialize_game msg player g) (\<lambda>(ok, g', os). Inr ((g', q), os))"
| "bs_step (Game_Msg r msg player) (g, q) =
     rbind (bs_got_message r msg player g q) (\<lambda>(ok, s', os). Inr (s', os))"
| "bs_step (Player_Left player) (g, q) =
     (case bs_player_left player g of (g', os) \<Rightarrow> Inr ((g', q), os))"
| "bs_step (Own_Event i) s = fire i s"

section \<open>The random order is a permutation\<close>

lemma later_trans: "later r i j \<Longrightarrow> later r j k \<Longrightarrow> later r i k"
  by (auto simp: later_def)

lemma later_total: "i \<noteq> j \<Longrightarrow> later r i j \<or> later r j i"
  by (auto simp: later_def)

lemma later_irrefl: "\<not> later r i i"
  by (simp add: later_def)

lemma filter_length_mono:
  assumes "\<And>x. P x \<Longrightarrow> Q x" and "y \<in> set xs" and "Q y" and "\<not> P y"
  shows "length (filter P xs) < length (filter Q xs)"
proof -
  have "filter P xs = filter P (filter Q xs)"
    using assms(1) by (auto intro: filter_cong)
  moreover have "length (filter P (filter Q xs)) < length (filter Q xs)"
    using assms(2-4) by (intro length_filter_less) auto
  ultimately show ?thesis by simp
qed

lemma later_count:
  assumes "later r i j" and "j < 7"
  shows "length (filter (later r j) [0..<7]) < length (filter (later r i) [0..<7])"
  using assms later_trans [of r i j] later_irrefl [of r j]
  by (intro filter_length_mono [where y = j]) auto

lemma cloth_order_distinct: "distinct (cloth_order r)"
proof -
  have "inj_on (\<lambda>i. length (filter (later r i) [0..<7])) {0..<7}"
  proof (rule inj_onI, rule ccontr)
    fix i j
    assume "i \<in> {0..<7}" "j \<in> {0..<7}" "i \<noteq> j"
      "length (filter (later r i) [0..<7]) = length (filter (later r j) [0..<7])"
    then show False
      using later_total [of i j r] later_count [of r i j] later_count [of r j i] by auto
  qed
  then show ?thesis unfolding cloth_order_def distinct_map by simp
qed

lemma cloth_order_bound: "x \<in> set (cloth_order r) \<Longrightarrow> x < 7"
proof -
  assume "x \<in> set (cloth_order r)"
  then obtain i where i: "i < 7" "x = length (filter (later r i) [0..<7])"
    by (auto simp: cloth_order_def)
  then have "x < length [0..<7 :: nat]"
    using length_filter_less [of i "[0..<7]" "later r i"] later_irrefl [of r i] by simp
  then show ?thesis by simp
qed

lemma cloth_order_permutation_lem: "mset (cloth_order r) = mset [0..<7]"
proof -
  have "set (cloth_order r) = {0..<7}"
  proof (rule card_subset_eq)
    show "card (set (cloth_order r)) = card {0..<7 :: nat}"
      using distinct_card [OF cloth_order_distinct] by (simp add: cloth_order_def)
  qed (auto dest: cloth_order_bound)
  then show ?thesis
    using cloth_order_distinct by (intro set_eq_iff_mset_eq_distinct [THEN iffD1]) auto
qed

theorem cloth_order_permutation: "mset (cloth_order r) = mset [0..<7]"
  by (rule cloth_order_permutation_lem)

section \<open>The invariant\<close>

definition game_wf :: "blue_spiral \<Rightarrow> bool" where
  "game_wf g \<longleftrightarrow> (m_started g \<longrightarrow> mset (m_order g) = mset [0..<7] \<and> m_next g \<le> 6)"

definition bs_inv :: "spiral_state \<Rightarrow> bool" where
  "bs_inv = (\<lambda>(g, q). roster_ok g \<and> game_wf g \<and> timer_pending (m_timer g) q \<and> queue_wf q)"

lemma bs_inv_iff:
  "bs_inv (g, q) \<longleftrightarrow> roster_ok g \<and> game_wf g \<and> timer_pending (m_timer g) q \<and> queue_wf q"
  by (simp add: bs_inv_def)

lemma roster_ok_update [simp]:
  "roster_ok (g\<lparr>m_started := b\<rparr>) = roster_ok g" "roster_ok (g\<lparr>m_timer := t\<rparr>) = roster_ok g"
  "roster_ok (g\<lparr>m_next := n\<rparr>) = roster_ok g" "roster_ok (g\<lparr>m_order := xs\<rparr>) = roster_ok g"
  by (simp_all add: roster_ok_def)

lemma game_wf_stopped [simp]: "\<not> m_started g \<Longrightarrow> game_wf g"
  by (simp add: game_wf_def)

lemma bs_inv_new: "bs_inv (BlueSpiralGameMgr gid, \<lparr>tq_next = 0, tq_pending = []\<rparr>)"
  by (simp add: bs_inv_iff BlueSpiralGameMgr_def roster_ok_def queue_wf_def game_wf_def)

lemma order_length: "mset (m_order g) = mset [0..<7] \<Longrightarrow> length (m_order g) = 7"
  by (metis diff_zero length_upt size_mset)

section \<open>Every operation keeps it\<close>

lemma start_inv:
  assumes "start_game r g q = (s, os)" and "roster_ok g" and "queue_wf q"
  shows "bs_inv s"
proof -
  obtain t q' where t: "set_timer TurnDoor q = (t, q')" by fastforce
  from set_timer_wf [OF t assms(3)] assms(1,2) t show ?thesis
    by (auto simp: start_game_def Let_def bs_inv_iff game_wf_def cloth_order_permutation_lem simp del: mset_upt)
qed

lemma hit_inv:
  assumes inv: "bs_inv (g, q)"
  shows "\<exists>s os. hit_cloth c g q = Inr (s, os) \<and> bs_inv s"
proof (cases "m_started g")
  case True
  with inv have o: "length (m_order g) = 7" "m_next g \<le> 6" "mset (m_order g) = mset [0..<7]"
    by (auto simp: bs_inv_iff game_wf_def order_length)
  from cancel_timer_wf [of "m_timer g" q] inv obtain q' where
    "cancel_timer (m_timer g) q = Inr q'" "queue_wf q'" by (auto simp: bs_inv_iff)
  with True o inv show ?thesis by (auto simp: hit_cloth_def Let_def bs_inv_iff game_wf_def)
qed (use inv in \<open>simp add: hit_cloth_def\<close>)

lemma initialize_inv:
  assumes inv: "bs_inv (g, q)" and ok: "gm_check_useable msg" "is_setup msg" "player \<noteq> 0"
  shows "\<exists>b g' os. bs_initialize_game msg player g = Inr (b, g', os) \<and> bs_inv (g', q)"
proof -
  let ?g = "if m_owner g = 0 then g\<lparr>m_owner := player\<rparr> else g"
  from setup_uuid_ok [OF ok(1,2)] obtain uuid where uuid: "setup_uuid msg = Inr uuid" by blast
  have g: "bs_inv (?g, q)" "m_owner ?g \<noteq> 0"
    using inv ok(3) by (auto simp: bs_inv_iff roster_ok_def game_wf_def)
  then have "roster_ok (add_player player ?g)"
    using ok(3) by (intro roster_add) (auto simp: bs_inv_iff)
  then have "bs_inv (add_player player ?g, q)"
    using g by (auto simp: bs_inv_iff add_player_def game_wf_def)
  with g uuid show ?thesis by (auto simp: bs_initialize_game_def send_setup_reply_def Let_def)
qed

lemma left_inv:
  assumes inv: "bs_inv (g, q)" and left: "bs_player_left player g = (g', os)"
  shows "bs_inv (g', q)"
proof -
  obtain g1 os1 where g1: "GameMgr_player_left player g = (g1, os1)" by fastforce
  from roster_left [OF _ g1] inv have "roster_ok g1" by (simp add: bs_inv_iff)
  moreover from left_frame [OF g1] have "game_mgr.more g1 = game_mgr.more g" by simp
  ultimately have "bs_inv (g1, q)"
    using inv by (cases g, cases g1) (simp add: bs_inv_iff game_wf_def)
  with left g1 show ?thesis
    by (auto simp: bs_player_left_def Let_def bs_inv_iff split: if_splits)
qed

lemma timeout_inv:
  assumes "roster_ok g" and "game_wf g" and "queue_wf q" and "bs_handle_timeout why g q = (s, os)"
  shows "bs_inv s"
proof -
  obtain t q' where t: "set_timer GameDone q = (t, q')" by fastforce
  from set_timer_wf [OF t assms(3)] t assms show ?thesis
    by (auto simp: bs_handle_timeout_def Let_def bs_inv_iff game_wf_def split: if_splits)
qed

lemma fire_inv:
  assumes inv: "bs_inv (g, q)"
  shows "\<exists>s os. fire i (g, q) = Inr (s, os) \<and> bs_inv s"
proof (cases "map_of (tq_pending q) i")
  case (Some why)
  let ?q = "expire i q"
  obtain s os where h: "bs_handle_timeout why g ?q = (s, os)" by fastforce
  from timeout_inv [OF _ _ expire_wf h] inv have "bs_inv s" by (simp add: bs_inv_iff)
  with Some h show ?thesis by (auto simp: fire_def)
qed (use inv in \<open>simp add: fire_def\<close>)

lemma got_message_inv:
  assumes inv: "bs_inv (g, q)"
  shows "bs_got_message r msg player g q = Inl Truncated_Message \<or>
    (\<exists>b s os. bs_got_message r msg player g q = Inr (b, s, os) \<and> bs_inv s)"
proof -
  consider "gm_msgtype msg = 3" "player \<noteq> m_owner g" | "gm_msgtype msg = 3" "player = m_owner g"
    | "gm_msgtype msg = 4" | "gm_msgtype msg \<noteq> 3" "gm_msgtype msg \<noteq> 4" by blast
  then show ?thesis
  proof cases
    case 2
    from cancel_timer_wf [of "m_timer g" q] inv obtain q1 where
      q1: "cancel_timer (m_timer g) q = Inr q1" "queue_wf q1" by (auto simp: bs_inv_iff)
    let ?q = "if m_started g then q1 else q"
    obtain g2 q2 os where st: "start_game r g ?q = ((g2, q2), os)" by (metis prod.exhaust)
    from start_inv [OF st] q1(2) inv have "bs_inv (g2, q2)" by (simp add: bs_inv_iff)
    with 2 q1 st show ?thesis by (cases "m_started g") (auto simp: bs_got_message_def Let_def)
  next
    case 3
    show ?thesis
    proof (cases "length (gm_buf msg) < header_len + 1")
      case True
      with 3 show ?thesis by (simp add: bs_got_message_def)
    next
      case False
      then have b: "get8 (gm_buf msg) header_len = Inr (gm_buf msg ! header_len)"
        by (simp add: get8_def)
      obtain g2 q2 os where
        "hit_cloth (gm_buf msg ! header_len) g q = Inr ((g2, q2), os)" "bs_inv (g2, q2)"
        using hit_inv [OF inv, of "gm_buf msg ! header_len"] by auto
      with 3 False show ?thesis by (auto simp: bs_got_message_def b)
    qed
  qed (use inv in \<open>auto simp: bs_got_message_def\<close>)
qed

interpretation blue_spiral: game_manager bs_step bs_inv "\<lambda>ev _. event_ok ev"
proof
  fix s :: spiral_state and ev s' os
  assume a: "bs_inv s" "event_ok ev" "bs_step ev s = Inr (s', os)"
  obtain g q where s: "s = (g, q)" by (cases s)
  show "bs_inv s'"
  proof (cases ev)
    case (Setup_Msg msg player)
    with a s initialize_inv [of g q msg player] show ?thesis by (auto simp: event_ok_def)
  next
    case (Game_Msg r msg player)
    with a s got_message_inv [of g q r msg player] show ?thesis by auto
  next
    case (Player_Left player)
    with a s left_inv [of g q player] show ?thesis by (auto split: prod.splits)
  next
    case (Own_Event i)
    with a s fire_inv [of g q i] show ?thesis by auto
  qed
next
  fix s :: spiral_state and ev e
  assume a: "bs_inv s" "event_ok ev" "bs_step ev s = Inl e"
  obtain g q where s: "s = (g, q)" by (cases s)
  show "e = Truncated_Message"
  proof (cases ev)
    case (Setup_Msg msg player)
    with a s initialize_inv [of g q msg player] show ?thesis by (auto simp: event_ok_def)
  next
    case (Game_Msg r msg player)
    with a s got_message_inv [of g q r msg player] show ?thesis by auto
  next
    case (Player_Left player)
    with a s show ?thesis by (auto split: prod.splits)
  next
    case (Own_Event i)
    with a s fire_inv [of g q i] show ?thesis by auto
  qed
qed

section \<open>Winning\<close>

fun hits :: "byte list \<Rightarrow> spiral_state \<Rightarrow> (spiral_state \<times> out list) res" where
  "hits [] s = Inr (s, [])"
| "hits (c # cs) (g, q) =
     rbind (hit_cloth c g q) (\<lambda>(s', o1). rbind (hits cs s') (\<lambda>(s'', o2). Inr (s'', o1 @ o2)))"

definition won :: "out list \<Rightarrow> bool" where
  "won os = list_ex (\<lambda>ev. case ev of
       Send _ (GameMgr_Simple_Message _ Srv2Cli_BlueSpiral_GameWon) \<Rightarrow> True | _ \<Rightarrow> False) os"

lemma won_simps [simp]:
  "\<not> won []" "won (xs @ ys) \<longleftrightarrow> won xs \<or> won ys"
  "won (Send p (GameMgr_Simple_Message i t) # os) \<longleftrightarrow> t = Srv2Cli_BlueSpiral_GameWon \<or> won os"
  "won (send_to_all (GameMgr_Simple_Message i t) h) \<longleftrightarrow>
     t = Srv2Cli_BlueSpiral_GameWon \<and> m_players h \<noteq> []"
  by (auto simp: won_def send_to_all_def list_ex_iff ex_in_conv split: srv_type.splits)

lemma hits_stopped: "\<not> m_started g \<Longrightarrow> hits cs (g, q) = Inr ((g, q), [])"
  by (induction cs) (simp_all add: hit_cloth_def)

lemma hits_started:
  "bs_inv (g, q) \<Longrightarrow> m_started g \<Longrightarrow>
   \<exists>s os. hits cs (g, q) = Inr (s, os) \<and> bs_inv s \<and>
     (won os \<longleftrightarrow> prefix (drop (m_next g) (m_order g)) (map unat cs))"
proof (induction cs arbitrary: g q)
  case Nil
  then have "length (m_order g) = 7" "m_next g \<le> 6"
    by (auto simp: bs_inv_iff game_wf_def order_length)
  with Nil show ?case by simp
next
  case (Cons c cs)
  from Cons.prems have o: "length (m_order g) = 7" "m_next g \<le> 6"
    by (auto simp: bs_inv_iff game_wf_def order_length)
  then have d: "drop (m_next g) (m_order g) =
      m_order g ! m_next g # drop (Suc (m_next g)) (m_order g)"
    by (simp add: Cons_nth_drop_Suc)
  from hit_inv [OF Cons.prems(1), of c] obtain g' q' o1 where
    h: "hit_cloth c g q = Inr ((g', q'), o1)" and inv': "bs_inv (g', q')" by auto
  consider "m_order g ! m_next g = unat c" "m_next g = 6"
    | "m_order g ! m_next g = unat c" "m_next g < 6" | "m_order g ! m_next g \<noteq> unat c"
    using o by linarith
  then show ?case
  proof cases
    case 1
    with h o Cons.prems have "\<not> m_started g'" "won o1" by (auto simp: hit_cloth_def Let_def)
    with 1 h d o inv' show ?thesis by (auto simp: hits_stopped)
  next
    case 2
    with h o Cons.prems have n: "m_started g'" "\<not> won o1" "m_next g' = Suc (m_next g)"
      "m_order g' = m_order g"
      by (auto simp: hit_cloth_def Let_def)
    with Cons.IH [OF inv' n(1)] 2 h d show ?thesis by auto
  next
    case 3
    with h o Cons.prems have "\<not> m_started g'" "\<not> won o1"
      by (auto simp: hit_cloth_def Let_def res_simps)
    with 3 h d inv' show ?thesis by (auto simp: hits_stopped)
  qed
qed


text \<open>
  The timer of a game that was won is not cancelled.  If the owner starts again before it
  expires, it ends the new game.
\<close>

theorem stale_timer_ends_game:
  assumes inv: "bs_inv (g, q)" and "\<not> m_started g" and i: "(i, GameDone) \<in> set (tq_pending q)"
    and msg: "gm_msgtype msg = 3"
  shows "\<exists>g1 q1 os g2 q2 os2. bs_step (Game_Msg r msg (m_owner g)) (g, q) = Inr ((g1, q1), os) \<and>
    m_started g1 \<and> bs_step (Own_Event i) (g1, q1) = Inr ((g2, q2), os2) \<and> \<not> m_started g2 \<and>
    m_timer g2 = None \<and> (tq_next q, TurnDoor) \<in> set (tq_pending q2)"
proof -
  from inv have wf: "queue_wf q" by (simp add: bs_inv_iff)
  let ?q1 = "\<lparr>tq_next = Suc (tq_next q), tq_pending = tq_pending q @ [(tq_next q, TurnDoor)]\<rparr>"
  obtain g1 os where st: "bs_step (Game_Msg r msg (m_owner g)) (g, q) = Inr ((g1, ?q1), os)" "m_started g1"
    using assms(2) msg by (auto simp: bs_got_message_def start_game_def set_timer_def Let_def)
  have "map_of (tq_pending ?q1) i = Some GameDone"
    using i wf by (auto simp: queue_wf_def map_add_Some_iff)
  moreover have "i \<noteq> tq_next q" using i wf by (auto simp: queue_wf_def)
  ultimately show ?thesis using st by (auto simp: fire_def expire_def bs_handle_timeout_def Let_def)
qed

section \<open>Every run is safe\<close>

text \<open>
  C9: From a new Blue Spiral game, no sequence of setup messages, game messages, departures and
  timeouts reads outside of a message, uses a timer that is gone or leaves the list of players
  inconsistent.
\<close>

theorem spiral_run_safe:
  assumes "list_all event_ok evs"
  shows "\<exists>g q os. run_events bs_step evs (BlueSpiralGameMgr gid, \<lparr>tq_next = 0, tq_pending = []\<rparr>) =
      Inr ((g, q), os) \<and> roster_ok g \<and> timer_pending (m_timer g) q"
  using blue_spiral.run_safe [OF bs_inv_new ok_run_all [OF assms], of gid] by (auto simp: bs_inv_iff)

definition sample_setup :: gm_msg where
  "sample_setup = \<lparr>gm_msgtype = 0, gm_reqid = 9, gm_gameid = 0, gm_buf = replicate 42 0\<rparr>"

definition sample_start :: gm_msg where
  "sample_start = \<lparr>gm_msgtype = 3, gm_reqid = 0, gm_gameid = 0, gm_buf = replicate 22 0\<rparr>"

definition sample_game :: blue_spiral where
  "sample_game = (BlueSpiralGameMgr 1)\<lparr>m_owner := 4, m_players := [4, 8]\<rparr>"

lemma sample_game_inv:
  "bs_inv (sample_game, \<lparr>tq_next = 0, tq_pending = []\<rparr>)"
  "bs_inv (sample_game, \<lparr>tq_next = 3, tq_pending = [(2, GameDone)]\<rparr>)"
  by (simp_all add: sample_game_def bs_inv_iff BlueSpiralGameMgr_def roster_ok_def queue_wf_def game_wf_def)

theorem spiral_run_safe_witness:
  "\<exists>g q os. run_events bs_step
       [Setup_Msg sample_setup 4, Game_Msg [5, 4, 3, 2, 1, 0, 7, 8] sample_start 4, Player_Left 4, Own_Event 0]
       (BlueSpiralGameMgr 1, \<lparr>tq_next = 0, tq_pending = []\<rparr>) = Inr ((g, q), os) \<and> roster_ok g"
  using spiral_run_safe
    [of "[Setup_Msg sample_setup 4, Game_Msg [5, 4, 3, 2, 1, 0, 7, 8] sample_start 4, Player_Left 4, Own_Event 0]" 1]
  by (auto simp: event_ok_def sample_setup_def sample_start_def gm_check_useable_def is_setup_def
      header_len_def)


theorem stale_timer_ends_game_witness:
  "\<exists>g1 q1 os g2 q2 os2.
     bs_step (Game_Msg [5, 4, 3, 2, 1, 0, 7, 8] sample_start 4)
       (sample_game, \<lparr>tq_next = 3, tq_pending = [(2, GameDone)]\<rparr>) = Inr ((g1, q1), os) \<and>
     m_started g1 \<and> bs_step (Own_Event 2) (g1, q1) = Inr ((g2, q2), os2) \<and> \<not> m_started g2"
  using stale_timer_ends_game [OF sample_game_inv(2), of 2 sample_start "[5, 4, 3, 2, 1, 0, 7, 8]"]
  by (auto simp: sample_game_def BlueSpiralGameMgr_def sample_start_def)

end
