(* ===== verification/Rc4.thy ===== *)
theory Rc4
  imports Moss_Prelude "HOL-Library.Multiset"
begin

text \<open>
  \<open>rc4.c\<close>: the stream cipher of the encrypted connections.  The state is the permutation \<open>S\<close> and
  the two byte indices; indices are bytes, so every access to the 256 entries is in range as long
  as \<open>S\<close> keeps its length.  The key is read through a pointer: a read behind its bytes is a fault.

  The lemmas show that key setup always ends, needs no more than \<open>keylen\<close> bytes of the key and
  leaves a permutation; that encryption can be cut into calls at any place; and that
  decrypting, which is the same operation, gives the text back.
\<close>

unbundle bit_operations_syntax

section \<open>The cipher\<close>

record rc4_state =
  S :: "byte list"
  idx_i :: byte
  idx_j :: byte

fun init_loop ::
  "byte list \<Rightarrow> int \<Rightarrow> nat list \<Rightarrow> byte \<Rightarrow> nat \<Rightarrow> byte list \<Rightarrow> byte list res" where
  "init_loop key keylen [] j k s = Inr s"
| "init_loop key keylen (i # is) j k s =
     rbind (get8 key k) (\<lambda>b.
       let tmp = s ! i;
           j' = j + tmp + b;
           s' = s[i := s ! unat j'];
           s'' = s'[unat j' := tmp];
           k' = (if int (k + 1) \<ge> keylen then 0 else k + 1)
       in init_loop key keylen is j' k' s'')"

definition rc4_init_key :: "byte list \<Rightarrow> int \<Rightarrow> rc4_state res" where
  "rc4_init_key key keylen =
     rbind (init_loop key keylen [0..<256] 0 0 (map of_nat [0..<256])) (\<lambda>s.
       Inr \<lparr>S = s, idx_i = 0, idx_j = 0\<rparr>)"

text \<open>One round of the loop of \<open>rc4_encrypt\<close>: the new state and the byte of the key stream.\<close>

definition rc4_round :: "rc4_state \<Rightarrow> rc4_state \<times> byte" where
  "rc4_round st =
     (let i = idx_i st + 1;
          j = idx_j st + S st ! unat i;
          tmp = S st ! unat i;
          s' = (S st)[unat i := S st ! unat j];
          s'' = s'[unat j := tmp];
          tmp' = tmp + s'' ! unat i
      in (\<lparr>S = s'', idx_i = i, idx_j = j\<rparr>, s'' ! unat tmp'))"

fun rc4_encrypt :: "rc4_state \<Rightarrow> byte list \<Rightarrow> rc4_state \<times> byte list" where
  "rc4_encrypt st [] = (st, [])"
| "rc4_encrypt st (b # buf) =
     (case rc4_round st of (st', c) \<Rightarrow>
        (case rc4_encrypt st' buf of (st'', out) \<Rightarrow> (st'', (b XOR c) # out)))"

section \<open>The state is a permutation\<close>

definition all_bytes :: "byte list" where
  "all_bytes = map of_nat [0..<256]"

definition rc4_ok :: "rc4_state \<Rightarrow> bool" where
  "rc4_ok st \<longleftrightarrow> mset (S st) = mset all_bytes"

lemma permutation_length: "mset s = mset all_bytes \<Longrightarrow> length s = 256"
  by (metis all_bytes_def diff_zero length_map length_upt size_mset)

lemma swap_permutation:
  fixes j :: byte
  assumes "mset s = mset all_bytes" and "i < 256"
  shows "mset (s[i := s ! unat j, unat j := s ! i]) = mset all_bytes"
  using swap_mset [of i s "unat j"] permutation_length [OF assms(1)] assms unat_byte_less [of j] by simp

lemma init_loop_ok:
  "mset s = mset all_bytes \<Longrightarrow> \<forall>i \<in> set is. i < 256 \<Longrightarrow> 1 \<le> keylen \<Longrightarrow>
   keylen \<le> int (length key) \<Longrightarrow> int k < keylen \<Longrightarrow>
   \<exists>s'. init_loop key keylen is j k s = Inr s' \<and> mset s' = mset all_bytes"
proof (induction "is" arbitrary: j k s)
  case (Cons i "is")
  let ?j = "j + s ! i + key ! k" and ?k = "if int (k + 1) \<ge> keylen then 0 else k + 1"
  let ?s = "s[i := s ! unat ?j, unat ?j := s ! i]"
  have key: "get8 key k = Inr (key ! k)"
    unfolding get8_def using Cons.prems by simp
  have "mset ?s = mset all_bytes"
    using Cons.prems by (intro swap_permutation) auto
  moreover have "int ?k < keylen" using Cons.prems by auto
  ultimately obtain s' where "init_loop key keylen is ?j ?k ?s = Inr s'" "mset s' = mset all_bytes"
    using Cons.IH [of ?s ?k ?j] Cons.prems by auto
  moreover have "init_loop key keylen (i # is) j k s = init_loop key keylen is ?j ?k ?s"
    unfolding init_loop.simps key Let_def by (rule rbind_Inr)
  ultimately show ?case by (metis (no_types))
qed simp

lemma rc4_init_key_ok_lem:
  assumes "1 \<le> keylen" and "keylen \<le> int (length key)"
  shows "\<exists>st. rc4_init_key key keylen = Inr st \<and> rc4_ok st"
proof -
  obtain s where "init_loop key keylen [0..<256] 0 0 all_bytes = Inr s" "mset s = mset all_bytes"
    using init_loop_ok [OF refl _ assms, of "[0..<256]" 0 0] assms(1) by auto
  then show ?thesis
    unfolding rc4_init_key_def rc4_ok_def all_bytes_def by (metis rbind_Inr rc4_state.select_convs(1))
qed

text \<open>
  C32: With a key length that the key really has, the key schedule stays inside the key and
  makes the table a permutation of all bytes.
\<close>

theorem rc4_init_key_ok:
  assumes "1 \<le> keylen" and "keylen \<le> int (length key)"
  shows "\<exists>st. rc4_init_key key keylen = Inr st \<and> rc4_ok st"
  using assms by (rule rc4_init_key_ok_lem)

lemma rc4_round_ok:
  assumes "rc4_ok st" and "rc4_round st = (st', c)"
  shows "rc4_ok st'"
  using assms swap_permutation [of "S st" "unat (idx_i st + 1)" "idx_j st + S st ! unat (idx_i st + 1)"]
    unat_byte_less [of "idx_i st + 1"]
  by (auto simp: rc4_round_def rc4_ok_def Let_def)

section \<open>Encryption\<close>

text \<open>The recursion equation without case distinctions on pairs.\<close>

lemma rc4_encrypt_Cons:
  "rc4_encrypt st (b # buf) =
     (fst (rc4_encrypt (fst (rc4_round st)) buf),
      (b XOR snd (rc4_round st)) # snd (rc4_encrypt (fst (rc4_round st)) buf))"
  by (simp add: split_beta)

lemmas rc4_rec = rc4_encrypt.simps(1) rc4_encrypt_Cons

theorem rc4_encrypt_ok:
  assumes "rc4_ok st"
  shows "rc4_ok (fst (rc4_encrypt st buf)) \<and> length (snd (rc4_encrypt st buf)) = length buf"
  using assms
proof (induction buf arbitrary: st)
  case (Cons b buf)
  have "rc4_ok (fst (rc4_round st))" by (rule rc4_round_ok [OF Cons.prems prod.collapse [symmetric]])
  from Cons.IH [OF this] show ?case unfolding rc4_rec by simp
qed (simp add: rc4_rec)

theorem rc4_encrypt_append:
  "rc4_encrypt st (a @ b) =
     (let (st1, out1) = rc4_encrypt st a; (st2, out2) = rc4_encrypt st1 b in (st2, out1 @ out2))"
  by (induction a arbitrary: st) (simp_all add: rc4_rec split_beta Let_def del: rc4_encrypt.simps(2))

lemma rc4_decrypt_lem:
  "rc4_encrypt st (snd (rc4_encrypt st buf)) = (fst (rc4_encrypt st buf), buf)"
  by (induction buf arbitrary: st) (simp_all add: rc4_rec xor.assoc del: rc4_encrypt.simps(2))


theorem rc4_init_key_ok_witness:
  "\<exists>st. rc4_init_key [1, 2, 3, 4, 5, 6, 7] 7 = Inr st \<and> rc4_ok st"
  by (rule rc4_init_key_ok) simp_all

theorem rc4_encrypt_ok_witness:
  "\<exists>st. rc4_ok st \<and> length (snd (rc4_encrypt st [1, 2, 3])) = 3"
  using rc4_encrypt_ok [of "\<lparr>S = all_bytes, idx_i = 0, idx_j = 0\<rparr>" "[1, 2, 3]"]
  by (intro exI [of _ "\<lparr>S = all_bytes, idx_i = 0, idx_j = 0\<rparr>"]) (simp add: rc4_ok_def)

end
