(* ===== verification/Uru_String.thy ===== *)
theory Uru_String
  imports Wire
begin

text \<open>
  \<open>UruString.cc\<close>: a string as it is found in network messages.  It may be held as a C string
  (\<open>m_cstr\<close>: two bytes of length, UTF-8, a null), in one other form (\<open>m_altstr\<close>, described by the
  flags \<open>m_alt_type\<close>), or both, and is converted on demand.

  A pointer is \<open>NULL\<close>, points to bytes (those that may be read through it), or points to memory
  that was freed.  Bytes of an allocation behind the last one that is ever used are not kept.
  A size that is counted down below zero wraps to a huge \<open>size_t\<close>, and the copy or conversion
  of that many bytes leaves the object; \<open>pred_size\<close> is that fault.

  \<open>iconv\<close> is not part of the program.  It is an argument: \<open>conv towide\<close> is \<open>None\<close> if no conversion
  descriptor can be had; \<open>Some f\<close> writes the bytes \<open>f src room\<close>, at most \<open>room\<close> by its contract.
  \<open>alloc n\<close> are the bytes of fresh memory.
\<close>

section \<open>State\<close>

datatype ptr = NULL_ptr | Ptr "byte list" | Dangling

abbreviation (input) C_TYPE :: u32 where "C_TYPE \<equiv> 0"
abbreviation (input) WIDE :: u32 where "WIDE \<equiv> 1"
abbreviation (input) HAS_LEN :: u32 where "HAS_LEN \<equiv> 2"
abbreviation (input) BITFLIP :: u32 where "BITFLIP \<equiv> 4"
abbreviation (input) NO_NULL :: u32 where "NO_NULL \<equiv> 8"

record uru_string =
  m_cstr :: ptr
  m_altstr :: ptr
  m_alt_type :: u32
  m_owns_cstr :: bool
  m_owns_altstr :: bool
  m_arrival_len :: nat
  m_cstr_size :: nat
  m_altstr_size :: nat

type_synonym iconv = "bool \<Rightarrow> (byte list \<Rightarrow> nat \<Rightarrow> byte list) option"

definition deref :: "ptr \<Rightarrow> byte list res" where
  "deref p = (case p of NULL_ptr \<Rightarrow> Inl Null_Pointer | Ptr bs \<Rightarrow> Inr bs | Dangling \<Rightarrow> Inl Use_After_Free)"

definition has :: "u32 \<Rightarrow> u32 \<Rightarrow> bool" where
  "has ty flag \<longleftrightarrow> ty AND flag \<noteq> 0"

definition pred_size :: "nat \<Rightarrow> nat res" where
  "pred_size n = (if n = 0 then Inl Out_Of_Bounds else Inr (n - 1))"

definition flip :: "byte list \<Rightarrow> byte list" where
  "flip = map NOT"

definition empty_string :: uru_string where
  "empty_string =
     \<lparr>m_cstr = NULL_ptr, m_altstr = NULL_ptr, m_alt_type = NO_NULL, m_owns_cstr = False,
      m_owns_altstr = False, m_arrival_len = 0, m_cstr_size = 0, m_altstr_size = 0\<rparr>"

section \<open>Constructors\<close>

text \<open>The search for a terminator in a string without a length.  \<open>buflen < 0\<close> turns checks off.\<close>

function scan_null :: "byte list \<Rightarrow> int \<Rightarrow> bool \<Rightarrow> nat \<Rightarrow> nat res" where
  "scan_null inbuf buflen is_wide off =
     (if buflen < 0 \<or> int off < buflen
      then rbind (get8 inbuf off) (\<lambda>b.
           rbind (if b = 0 then (if is_wide then rbind (get8 inbuf (off + 1)) (\<lambda>c. Inr (c = 0)) else Inr True)
                  else Inr False) (\<lambda>stop.
           if stop then Inr off
           else scan_null inbuf buflen is_wide (if is_wide then off + 2 else off + 1)))
      else Inr off)"
  by pat_completeness auto
termination
  by (relation "measure (\<lambda>(inbuf, buflen, is_wide, off). length inbuf - off)") auto

declare scan_null.simps [simp del]

text \<open>\<open>located\<close> is the part that finds the string: type, \<open>num_chars\<close>, arrival length, whether it is terminated.\<close>

definition ends_with_null :: "byte list \<Rightarrow> u32 \<Rightarrow> bool \<Rightarrow> nat \<Rightarrow> bool res" where
  "ends_with_null inbuf ty is_wide num_chars =
     (if num_chars > 0
      then let last_char = num_chars - 1;
               end_byte = (if has ty BITFLIP then 0xff else 0)
           in if is_wide
              then rbind (get8 inbuf (2 + 2 * last_char)) (\<lambda>b.
                   if b = end_byte
                   then rbind (get8 inbuf (2 + 2 * last_char + 1)) (\<lambda>c. Inr (c = end_byte))
                   else Inr False)
              else rbind (get8 inbuf (2 + last_char)) (\<lambda>b. Inr (b = end_byte))
      else Inr False)"

definition locate_with_length ::
  "byte list \<Rightarrow> int \<Rightarrow> bool \<Rightarrow> (u32 \<times> nat \<times> nat \<times> bool) res" where
  "locate_with_length inbuf buflen is_wide =
     rbind (read16 inbuf 0) (\<lambda>n.
       let ty = (NO_NULL OR (if is_wide then WIDE else 0) OR HAS_LEN OR
                 (if n AND 0xF000 = 0xF000 then BITFLIP else 0));
           chars = unat (n AND 0x0FFF);
           arrival = (if is_wide then 2 + 2 * chars else 2 + chars);
           cut = (buflen \<ge> 0 \<and> int arrival > buflen);
           arrival' = (if cut then nat buflen else arrival);
           chars' = (if cut then (if is_wide then (nat buflen - 2) div 2 else nat buflen - 2) else chars)
       in rbind (ends_with_null inbuf ty is_wide chars') (\<lambda>term.
            Inr ((if term then ty AND NOT NO_NULL else ty), chars', arrival', term)))"

definition locate_null :: "byte list \<Rightarrow> int \<Rightarrow> bool \<Rightarrow> (u32 \<times> nat \<times> nat \<times> bool) res" where
  "locate_null inbuf buflen is_wide =
     rbind (scan_null inbuf buflen is_wide 0) (\<lambda>arrival.
       let ty = (NO_NULL OR (if is_wide then WIDE else 0))
       in if buflen \<ge> 0 \<and> int arrival \<ge> buflen
          then Inr (ty, (if is_wide then nat buflen div 2 else nat buflen), nat buflen, False)
          else if is_wide
          then Inr (ty, arrival div 2,
                    (if buflen \<ge> 0 \<and> int (arrival + 2) > buflen then nat buflen else arrival + 2), False)
          else Inr (ty, arrival, arrival + 1, False))"

definition store_string ::
  "byte list \<Rightarrow> bool \<Rightarrow> bool \<Rightarrow> u32 \<times> nat \<times> nat \<times> bool \<Rightarrow> uru_string res" where
  "store_string inbuf has_length copy = (\<lambda>(ty, num_chars, arrival, dont_count_null).
     let n = (if dont_count_null then num_chars - 1 else num_chars)
     in if ty = C_TYPE OR HAS_LEN \<and> \<not> copy \<and> \<not> dont_count_null
        then Inr (empty_string\<lparr>m_cstr := Ptr inbuf, m_alt_type := ty, m_arrival_len := arrival,
                               m_cstr_size := num_chars\<rparr>)
        else if (ty = C_TYPE \<or> ty = C_TYPE OR HAS_LEN OR NO_NULL) \<and> copy
        then rbind (slice (if has_length then 2 else 0) n inbuf) (\<lambda>bs.
             Inr (empty_string\<lparr>m_cstr := Ptr (bytes16 (of_nat n) @ bs @ [0]), m_owns_cstr := True,
                    m_alt_type := ty, m_arrival_len := arrival, m_cstr_size := n\<rparr>))
        else if copy
        then let ty' = (ty OR HAS_LEN OR NO_NULL);
                 chars = (if has ty' BITFLIP then of_nat n OR 0xF000 else of_nat n)
             in rbind (if has_length then slice 2 (arrival - 2) inbuf else slice 0 arrival inbuf) (\<lambda>bs.
                Inr (empty_string\<lparr>m_altstr := Ptr (bytes16 chars @ bs), m_owns_altstr := True,
                       m_alt_type := ty', m_arrival_len := arrival, m_altstr_size := n\<rparr>))
        else Inr (empty_string\<lparr>m_altstr := Ptr inbuf, m_alt_type := ty, m_arrival_len := arrival,
                    m_altstr_size := num_chars\<rparr>))"

definition UruString_buf :: "byte list \<Rightarrow> int \<Rightarrow> bool \<Rightarrow> bool \<Rightarrow> bool \<Rightarrow> uru_string res" where
  "UruString_buf inbuf buflen has_length is_wide copy =
     (if has_length \<and> 0 \<le> buflen \<and> buflen < 2
      then Inr (empty_string\<lparr>m_alt_type := (NO_NULL OR (if is_wide then WIDE else 0)),
                             m_arrival_len := nat buflen\<rparr>)
      else rbind (if has_length then locate_with_length inbuf buflen is_wide
                  else locate_null inbuf buflen is_wide)
             (store_string inbuf has_length copy))"

text \<open>\<open>s\<close> is what \<open>strlen\<close> counts: the bytes before the null.  \<open>None\<close> is a \<open>NULL\<close> argument.\<close>

definition UruString_c :: "byte list option \<Rightarrow> bool \<Rightarrow> uru_string" where
  "UruString_c c_str copy =
     (case c_str of
        None \<Rightarrow> empty_string\<lparr>m_alt_type := C_TYPE\<rparr>
      | Some s \<Rightarrow>
          (if copy
           then empty_string\<lparr>m_cstr := Ptr (bytes16 (of_nat (length s)) @ s @ [0]), m_owns_cstr := True,
                             m_alt_type := C_TYPE, m_cstr_size := length s\<rparr>
           else empty_string\<lparr>m_altstr := Ptr (s @ [0]), m_alt_type := (C_TYPE OR NO_NULL),
                             m_cstr_size := length s, m_altstr_size := length s\<rparr>))"

definition alt_len :: "uru_string \<Rightarrow> nat" where
  "alt_len u =
     (let n = m_altstr_size u + (if has (m_alt_type u) NO_NULL then 0 else 1)
      in (if has (m_alt_type u) WIDE then n * 2 else n) + (if has (m_alt_type u) HAS_LEN then 2 else 0))"

definition UruString_copy :: "uru_string \<Rightarrow> bool \<Rightarrow> uru_string res" where
  "UruString_copy other copy =
     (let u = other\<lparr>m_cstr := NULL_ptr, m_altstr := NULL_ptr, m_owns_cstr := False, m_owns_altstr := False\<rparr>
      in rbind (if m_cstr other \<noteq> NULL_ptr \<and> (m_owns_cstr other \<or> copy)
                then rbind (deref (m_cstr other)) (\<lambda>b. rbind (slice 0 (m_cstr_size other + 3) b) (\<lambda>bs.
                     Inr (u\<lparr>m_cstr := Ptr bs, m_owns_cstr := True\<rparr>)))
                else Inr (u\<lparr>m_cstr := m_cstr other\<rparr>)) (\<lambda>u.
         if m_altstr other \<noteq> NULL_ptr \<and> (m_owns_altstr other \<or> copy)
         then if m_cstr u \<noteq> NULL_ptr then Inr (u\<lparr>m_alt_type := C_TYPE\<rparr>)
              else rbind (deref (m_altstr other)) (\<lambda>b. rbind (slice 0 (alt_len u) b) (\<lambda>bs.
                   Inr (u\<lparr>m_altstr := Ptr bs, m_owns_altstr := True\<rparr>)))
         else Inr (u\<lparr>m_altstr := m_altstr other\<rparr>)))"

section \<open>Assignment\<close>

definition free_strings :: "uru_string \<Rightarrow> uru_string" where
  "free_strings u =
     u\<lparr>m_cstr := (if m_owns_cstr u then Dangling else m_cstr u), m_owns_cstr := False,
       m_altstr := (if m_owns_altstr u then Dangling else m_altstr u), m_owns_altstr := False\<rparr>"

definition assign_string :: "uru_string \<Rightarrow> uru_string \<Rightarrow> uru_string res" where
  "assign_string u other =
     (let u1 = (free_strings u)\<lparr>m_arrival_len := m_arrival_len other, m_cstr_size := m_cstr_size other\<rparr>
      in rbind (if m_owns_cstr other
                then rbind (deref (m_cstr other)) (\<lambda>b. rbind (slice 0 (m_cstr_size u1 + 3) b) (\<lambda>bs.
                     Inr (u1\<lparr>m_cstr := Ptr bs, m_owns_cstr := True\<rparr>)))
                else Inr (u1\<lparr>m_cstr := m_cstr other\<rparr>)) (\<lambda>u2.
         if m_owns_altstr other
         then let u3 = u2\<lparr>m_alt_type := m_alt_type other, m_altstr_size := m_altstr_size other\<rparr>
              in rbind (deref (m_altstr other)) (\<lambda>b. rbind (slice 0 (alt_len u3) b) (\<lambda>bs.
                 Inr (u3\<lparr>m_altstr := Ptr bs, m_owns_altstr := True\<rparr>)))
         else Inr (u2\<lparr>m_alt_type := C_TYPE, m_altstr := m_altstr other\<rparr>)))"

definition assign_c_str :: "uru_string \<Rightarrow> byte list option \<Rightarrow> uru_string" where
  "assign_c_str u c_str =
     (let u1 = (free_strings u)\<lparr>m_altstr := NULL_ptr, m_alt_type := C_TYPE, m_arrival_len := 0\<rparr>
      in case c_str of
           None \<Rightarrow> u1\<lparr>m_cstr_size := 0\<rparr>
         | Some s \<Rightarrow> u1\<lparr>m_cstr := Ptr (bytes16 (of_nat (length s)) @ s @ [0]), m_owns_cstr := True,
                       m_cstr_size := length s\<rparr>)"

section \<open>Conversion\<close>

text \<open>
  What is put in the place of a character when there is no \<open>iconv\<close>.
\<close>

definition asciify :: "byte \<Rightarrow> byte" where
  "asciify b =
     (let c = b AND 0x7f
      in if c \<noteq> 9 \<and> c \<noteq> 10 \<and> c \<noteq> 13 \<and> c \<noteq> 0 \<and> (c < 0x20 \<or> c > 0x7e) then 0x3f else c)"

text \<open>\<open>every_other n bs\<close> are the bytes \<open>bs[2 * i]\<close> for \<open>i < n\<close>.\<close>

definition every_other :: "nat \<Rightarrow> byte list \<Rightarrow> byte list res" where
  "every_other n bs =
     (if 2 * n \<le> length bs + 1 then Inr (map (\<lambda>i. bs ! (2 * i)) [0..<n]) else Inl Out_Of_Bounds)"

definition run_iconv ::
  "(byte list \<Rightarrow> nat \<Rightarrow> byte list) \<Rightarrow> byte list \<Rightarrow> nat \<Rightarrow> nat \<Rightarrow> byte list res" where
  "run_iconv f read_at srclen room =
     rbind (slice 0 srclen read_at) (\<lambda>src.
       if length (f src room) \<le> room then Inr (f src room) else Inl Out_Of_Bounds)"

text \<open>
  \<open>make_cstr\<close>.  Without \<open>iconv\<close> its loop computes each character but stores only the null, so the
  text is whatever the new memory held.
\<close>

definition wide_cstr :: "iconv \<Rightarrow> (nat \<Rightarrow> byte list) \<Rightarrow> uru_string \<Rightarrow> byte list \<Rightarrow> uru_string res" where
  "wide_cstr conv alloc u alt =
     (let start = (if has (m_alt_type u) HAS_LEN then 2 else 0);
          size = m_altstr_size u
      in rbind (if has (m_alt_type u) BITFLIP
                then rbind (slice start (2 * size) alt) (\<lambda>bs. Inr (flip bs))
                else Inr (drop start alt)) (\<lambda>read_at.
         rbind (if has (m_alt_type u) NO_NULL then Inr size else pred_size size) (\<lambda>srclen.
         case conv False of
           Some f \<Rightarrow>
             rbind (run_iconv f read_at (srclen * 2) (srclen * 3)) (\<lambda>out.
             Inr (u\<lparr>m_cstr := Ptr (bytes16 (of_nat (length out)) @ out @ [0]),
                    m_owns_cstr := True, m_cstr_size := length out\<rparr>))
         | None \<Rightarrow>
             rbind (every_other size read_at) (\<lambda>text.
             let fresh = alloc (3 + srclen * 3)
             in rbind (if size > 0 then put (2 + size) [0] fresh else Inr fresh) (\<lambda>buf.
                rbind (write16 buf 0 (of_nat size)) (\<lambda>buf'.
                Inr (u\<lparr>m_cstr := Ptr buf', m_owns_cstr := True, m_cstr_size := size\<rparr>)))))))"

definition narrow_cstr :: "uru_string \<Rightarrow> uru_string res" where
  "narrow_cstr u =
     (if m_altstr u = NULL_ptr
      then Inr (u\<lparr>m_cstr := Ptr (bytes16 0 @ [0]), m_owns_cstr := True, m_cstr_size := 0\<rparr>)
      else rbind (if has (m_alt_type u) NO_NULL then Inr (m_altstr_size u)
                  else pred_size (m_altstr_size u)) (\<lambda>size.
           rbind (deref (m_altstr u)) (\<lambda>alt.
           rbind (slice (if has (m_alt_type u) HAS_LEN then 2 else 0) size alt) (\<lambda>bs.
           let text = (if has (m_alt_type u) BITFLIP then flip bs else bs)
           in Inr (u\<lparr>m_cstr := Ptr (bytes16 (of_nat size) @ text @ [0]), m_owns_cstr := True,
                     m_cstr_size := size\<rparr>)))))"

definition make_cstr :: "iconv \<Rightarrow> (nat \<Rightarrow> byte list) \<Rightarrow> uru_string \<Rightarrow> uru_string res" where
  "make_cstr conv alloc u =
     (if m_altstr u \<noteq> NULL_ptr \<and> has (m_alt_type u) WIDE
      then rbind (deref (m_altstr u)) (wide_cstr conv alloc u)
      else narrow_cstr u)"

definition c_str :: "iconv \<Rightarrow> (nat \<Rightarrow> byte list) \<Rightarrow> uru_string \<Rightarrow> (byte list \<times> uru_string) res" where
  "c_str conv alloc u =
     (if m_cstr u = NULL_ptr \<and> m_altstr u \<noteq> NULL_ptr \<and> m_alt_type u AND NOT HAS_LEN = C_TYPE
      then rbind (deref (m_altstr u)) (\<lambda>alt.
           Inr (if has (m_alt_type u) HAS_LEN then drop 2 alt else alt, u))
      else rbind (if m_cstr u = NULL_ptr then make_cstr conv alloc u else Inr u) (\<lambda>u'.
           rbind (deref (m_cstr u')) (\<lambda>c. Inr (drop 2 c, u'))))"

definition desired_type :: "bool \<Rightarrow> bool \<Rightarrow> bool \<Rightarrow> bool \<Rightarrow> u32" where
  "desired_type include_length as_wide include_null bitflip =
     (if include_length then HAS_LEN else 0) OR (if as_wide then WIDE else 0) OR
     (if include_null then 0 else NO_NULL) OR (if bitflip \<and> include_length then BITFLIP else 0)"

text \<open>The bits are flipped where the string lies, whoever owns the memory.\<close>

definition flip_in_place :: "uru_string \<Rightarrow> u32 \<Rightarrow> bool \<Rightarrow> uru_string res" where
  "flip_in_place u desired bitflip =
     rbind (deref (m_altstr u)) (\<lambda>alt.
     rbind (read16 alt 0) (\<lambda>n.
       let chars = n AND 0x0FFF;
           bytes = (if has (m_alt_type u) WIDE then 2 * unat chars else unat chars)
       in rbind (slice 2 bytes alt) (\<lambda>bs.
          rbind (put 2 (flip bs) alt) (\<lambda>alt'.
          rbind (write16 alt' 0 (if bitflip then chars OR 0xF000 else chars)) (\<lambda>alt''.
          Inr (u\<lparr>m_altstr := Ptr alt'', m_alt_type := desired\<rparr>))))))"

text \<open>\<open>convert\<close> is the part of \<open>get_str\<close> that makes a new \<open>m_altstr\<close> from the source it has chosen.\<close>

definition new_text ::
  "iconv \<Rightarrow> byte list \<Rightarrow> u32 \<Rightarrow> nat \<Rightarrow> bool \<Rightarrow> bool \<Rightarrow> bool \<Rightarrow> (byte list \<times> nat) res" where
  "new_text conv source src_type src_size as_wide include_null bitflip =
     (let has_null = (\<not> has src_type NO_NULL);
          src_wide = has src_type WIDE;
          src_flipped = has src_type BITFLIP;
          add_null = (include_null \<and> \<not> has_null);
          width = (if as_wide then 2 else 1);
          null = (if add_null then replicate width 0 else []);
          start = (if has src_type HAS_LEN then drop 2 source else source)
      in rbind (if \<not> include_null \<and> has_null then pred_size src_size else Inr src_size) (\<lambda>chars.
         let srclen = (if src_wide then chars * 2 else chars);
             units = (if add_null then src_size + 1 else src_size);
             dstlen = units * width * (if src_wide \<noteq> as_wide then 2 else 1)
         in if src_wide = as_wide
            then rbind (slice 0 srclen start) (\<lambda>src.
                 let text = (if src_flipped \<noteq> bitflip then flip src else src);
                     null' = (if bitflip then flip null else null)
                 in Inr (text @ null', if add_null then chars + 1 else chars))
            else rbind (if src_flipped then rbind (slice 0 srclen start) (\<lambda>bs. Inr (flip bs)) else Inr start)
              (\<lambda>read_at.
               rbind (case conv as_wide of
                   Some f \<Rightarrow> rbind (run_iconv f read_at srclen dstlen) (\<lambda>out. Inr (out, length out div width))
                 | None \<Rightarrow>
                     rbind (if as_wide then slice 0 chars read_at else every_other chars read_at) (\<lambda>text.
                     Inr (if as_wide then concat (map (\<lambda>b. [asciify b, 0]) text)
                          else map asciify text, chars))) (\<lambda>(out, n).
               if length out + length null \<le> dstlen
               then Inr (if bitflip then flip (out @ null) else out @ null, if add_null then n + 1 else n)
               else Inl Out_Of_Bounds))))"

definition choose_source :: "uru_string \<Rightarrow> bool \<Rightarrow> (byte list \<times> u32 \<times> nat) res" where
  "choose_source u as_wide =
     (if m_altstr u = NULL_ptr \<and> m_cstr u = NULL_ptr then Inr ([0], C_TYPE, 0)
      else if m_cstr u \<noteq> NULL_ptr \<and> (m_altstr u = NULL_ptr \<or> \<not> as_wide \<or> \<not> has (m_alt_type u) WIDE)
      then rbind (deref (m_cstr u)) (\<lambda>c. Inr (c, C_TYPE OR HAS_LEN OR NO_NULL, m_cstr_size u))
      else rbind (deref (m_altstr u)) (\<lambda>alt. Inr (alt, m_alt_type u, m_altstr_size u)))"

definition convert :: "iconv \<Rightarrow> uru_string \<Rightarrow> u32 \<Rightarrow> bool \<Rightarrow> bool \<Rightarrow> bool \<Rightarrow> uru_string res" where
  "convert conv u desired as_wide include_null bitflip =
     rbind (choose_source u as_wide) (\<lambda>(source, src_type, src_size).
     rbind (new_text conv source src_type src_size as_wide include_null bitflip) (\<lambda>(text, size).
       let chars = (if bitflip then of_nat size OR 0xF000 else of_nat size)
       in Inr (u\<lparr>m_altstr := Ptr (bytes16 chars @ text), m_owns_altstr := True,
                 m_alt_type := (desired OR HAS_LEN), m_altstr_size := size\<rparr>)))"

definition get_str ::
  "iconv \<Rightarrow> (nat \<Rightarrow> byte list) \<Rightarrow> uru_string \<Rightarrow> bool \<Rightarrow> bool \<Rightarrow> bool \<Rightarrow> bool \<Rightarrow>
   (byte list \<times> uru_string) res" where
  "get_str conv alloc u include_length as_wide include_null bitflip0 =
     (let bitflip = (bitflip0 \<and> include_length);
          desired = desired_type include_length as_wide include_null bitflip;
          ty = m_alt_type u;
          have_alt = (m_altstr u \<noteq> NULL_ptr)
      in if have_alt \<and> desired = ty
         then rbind (deref (m_altstr u)) (\<lambda>alt. Inr (alt, u))
         else if have_alt \<and> desired OR HAS_LEN = ty
         then rbind (deref (m_altstr u)) (\<lambda>alt. Inr (drop 2 alt, u))
         else if have_alt \<and> (ty AND NOT HAS_LEN) OR NO_NULL = desired
         then rbind (deref (m_altstr u)) (\<lambda>alt. Inr (if has ty HAS_LEN then drop 2 alt else alt, u))
         else if desired AND NOT NO_NULL = C_TYPE \<or> desired = C_TYPE OR NO_NULL OR HAS_LEN
         then rbind (if m_cstr u = NULL_ptr then make_cstr conv alloc u else Inr u) (\<lambda>u'.
              rbind (deref (m_cstr u')) (\<lambda>c.
              Inr (if desired = C_TYPE OR NO_NULL OR HAS_LEN then c else drop 2 c, u')))
         else rbind (if have_alt \<and> ty XOR desired = BITFLIP then flip_in_place u desired bitflip
                     else convert conv u desired as_wide include_null bitflip) (\<lambda>u'.
              rbind (deref (m_altstr u')) (\<lambda>alt. Inr (if include_length then alt else drop 2 alt, u'))))"

definition send_len ::
  "iconv \<Rightarrow> (nat \<Rightarrow> byte list) \<Rightarrow> uru_string \<Rightarrow> bool \<Rightarrow> bool \<Rightarrow> bool \<Rightarrow> (nat \<times> uru_string) res" where
  "send_len conv alloc u include_length as_wide include_null =
     (let from_alt = (\<lambda>u.
            rbind (if include_null \<and> has (m_alt_type u) NO_NULL then Inr (m_altstr_size u + 1)
                   else if \<not> include_null \<and> \<not> has (m_alt_type u) NO_NULL then pred_size (m_altstr_size u)
                   else Inr (m_altstr_size u)) (\<lambda>n. Inr (n, u)));
          null = (if include_null then 1 else 0)
      in rbind
        (if as_wide
         then rbind (if m_altstr u = NULL_ptr \<or> \<not> has (m_alt_type u) WIDE
                     then rbind (get_str conv alloc u include_length as_wide include_null False)
                            (\<lambda>(str, u'). Inr u')
                     else Inr u) from_alt
         else if m_cstr u \<noteq> NULL_ptr then Inr (m_cstr_size u + null, u)
         else if m_altstr u = NULL_ptr then Inr (null, u)
         else if \<not> has (m_alt_type u) WIDE then from_alt u
         else rbind (make_cstr conv alloc u) (\<lambda>u'. Inr (m_cstr_size u' + null, u')))
        (\<lambda>(n, u'). Inr ((if as_wide then n * 2 else n) + (if include_length then 2 else 0), u')))"

section \<open>Comparison\<close>

text \<open>\<open>memcmp\<close> compares from the left and stops at the first difference.\<close>

fun memeq :: "byte list \<Rightarrow> byte list \<Rightarrow> nat \<Rightarrow> bool res" where
  "memeq a b 0 = Inr True"
| "memeq (x # a) (y # b) (Suc n) = (if x = y then memeq a b n else Inr False)"
| "memeq _ _ (Suc n) = Inl Out_Of_Bounds"

definition cstring :: "byte list \<Rightarrow> byte list res" where
  "cstring bs = (if 0 \<in> set bs then Inr (takeWhile (\<lambda>b. b \<noteq> 0) bs) else Inl Out_Of_Bounds)"

definition is_empty :: "uru_string \<Rightarrow> bool" where
  "is_empty u =
     (if m_cstr u \<noteq> NULL_ptr then m_cstr_size u = 0
      else if m_altstr u \<noteq> NULL_ptr then m_altstr_size u = 0 else True)"

definition eq_string ::
  "iconv \<Rightarrow> (nat \<Rightarrow> byte list) \<Rightarrow> uru_string \<Rightarrow> uru_string \<Rightarrow> (bool \<times> uru_string) res" where
  "eq_string conv alloc u other =
     (let own_len = (\<lambda>u. send_len conv alloc u (has (m_alt_type u) HAS_LEN) (has (m_alt_type u) WIDE)
                          (\<not> has (m_alt_type u) NO_NULL))
      in if m_alt_type u = m_alt_type other \<and> m_altstr u \<noteq> NULL_ptr \<and> m_altstr other \<noteq> NULL_ptr
         then rbind (own_len u) (\<lambda>(n, u').
              rbind (deref (m_altstr u')) (\<lambda>a. rbind (deref (m_altstr other)) (\<lambda>b.
              rbind (memeq a b n) (\<lambda>r. Inr (r, u')))))
         else if m_cstr other \<noteq> NULL_ptr
         then rbind (if m_cstr u = NULL_ptr then make_cstr conv alloc u else Inr u) (\<lambda>u'.
              if m_cstr_size u' \<noteq> m_cstr_size other then Inr (False, u')
              else rbind (deref (m_cstr u')) (\<lambda>a. rbind (deref (m_cstr other)) (\<lambda>b.
                   rbind (memeq a b (m_cstr_size u' + 2)) (\<lambda>r. Inr (r, u')))))
         else if m_altstr other = NULL_ptr then Inr (is_empty u, u)
         else rbind (get_str conv alloc u (has (m_alt_type other) HAS_LEN) (has (m_alt_type other) WIDE)
                       (\<not> has (m_alt_type other) NO_NULL) (has (m_alt_type other) BITFLIP)) (\<lambda>(a, u').
              rbind (own_len u') (\<lambda>(n, u'').
              rbind (deref (m_altstr other)) (\<lambda>b.
              rbind (memeq a b n) (\<lambda>r. Inr (r, u''))))))"

definition eq_c_str ::
  "iconv \<Rightarrow> (nat \<Rightarrow> byte list) \<Rightarrow> uru_string \<Rightarrow> byte list option \<Rightarrow> (bool \<times> uru_string) res" where
  "eq_c_str conv alloc u other =
     (case other of
        None \<Rightarrow> Inr (is_empty u, u)
      | Some s \<Rightarrow>
          rbind (if m_cstr u = NULL_ptr then make_cstr conv alloc u else Inr u) (\<lambda>u'.
          if length s \<noteq> m_cstr_size u' then Inr (False, u')
          else rbind (c_str conv alloc u') (\<lambda>(p, u'').
               rbind (cstring p) (\<lambda>text. Inr (text = s, u'')))))"

section \<open>Reading a message never leaves it\<close>

lemma scan_null_step:
  assumes "off < len" and "len \<le> length inbuf" and "is_wide \<Longrightarrow> off + 1 < len"
  shows "scan_null inbuf (int len) is_wide off =
    (if inbuf ! off = 0 \<and> (is_wide \<longrightarrow> inbuf ! Suc off = 0) then Inr off
     else scan_null inbuf (int len) is_wide (if is_wide then off + 2 else off + 1))"
proof -
  have b: "get8 inbuf off = Inr (inbuf ! off)" using assms by (intro get8_ok) simp
  have c: "get8 inbuf (Suc off) = Inr (inbuf ! Suc off)" if is_wide
    using assms(2) assms(3) [OF that] by (intro get8_ok) simp
  show ?thesis
  proof (cases is_wide)
    case True
    with assms(1) show ?thesis
      unfolding scan_null.simps [of inbuf "int len" is_wide off] b by (simp add: c [OF True])
  next
    case False
    with assms(1) show ?thesis
      unfolding scan_null.simps [of inbuf "int len" is_wide off] b by simp
  qed
qed

text \<open>The search stops at the first terminator at or behind \<open>off\<close>, or at the end.\<close>

lemma scan_null_ok:
  "\<not> is_wide \<or> even (len - off) \<Longrightarrow> off \<le> len \<Longrightarrow> len \<le> length inbuf \<Longrightarrow>
   \<exists>n. scan_null inbuf (int len) is_wide off = Inr n \<and> off \<le> n \<and> n \<le> len \<and>
     (is_wide \<longrightarrow> even (n - off) \<and>
       (\<forall>i. off + 2 * i < len \<and> inbuf ! (off + 2 * i) = 0 \<and> inbuf ! (off + 2 * i + 1) = 0 \<longrightarrow> n \<le> off + 2 * i))"
proof (induction "len - off" arbitrary: off rule: less_induct)
  case less
  show ?case
  proof (cases "off < len")
    case False
    then show ?thesis using less.prems by (subst scan_null.simps) simp
  next
    case True
    let ?next = "if is_wide then off + 2 else off + 1"
    have wide: "off + 1 < len" if is_wide
      using less.prems(1) that True by (cases "len - off = 1") auto
    note step = scan_null_step [OF True less.prems(3) wide]
    show ?thesis
    proof (cases "inbuf ! off = 0 \<and> (is_wide \<longrightarrow> inbuf ! Suc off = 0)")
      case stop: True
      then show ?thesis using step True by auto
    next
      case go: False
      have "len - ?next < len - off" "?next \<le> len" "\<not> is_wide \<or> even (len - ?next)"
        using True wide less.prems(1) by (auto split: if_splits)
      from less.hyps [OF this(1,3,2) less.prems(3)] obtain n where
        n: "scan_null inbuf (int len) is_wide ?next = Inr n" "?next \<le> n" "n \<le> len"
        "is_wide \<longrightarrow> even (n - ?next) \<and> (\<forall>i. ?next + 2 * i < len \<and> inbuf ! (?next + 2 * i) = 0 \<and>
           inbuf ! (?next + 2 * i + 1) = 0 \<longrightarrow> n \<le> ?next + 2 * i)" by blast
      have "n \<le> off + 2 * i" if is_wide and "off + 2 * i < len \<and> inbuf ! (off + 2 * i) = 0 \<and> inbuf ! (off + 2 * i + 1) = 0" for i
      proof (cases i)
        case 0
        with that go show ?thesis by simp
      next
        case (Suc j)
        with that n(4) show ?thesis by (auto simp: algebra_simps)
      qed
      moreover from n(2,4) have "is_wide \<longrightarrow> even (n - off)" "off \<le> n" by (auto split: if_splits)
      ultimately show ?thesis using step go n(1,3) by auto
    qed
  qed
qed

lemma ends_with_null_ok:
  assumes "2 + (if is_wide then 2 * n else n) \<le> length inbuf"
  shows "\<exists>t. ends_with_null inbuf ty is_wide n = Inr t \<and> (t \<longrightarrow> 0 < n)"
proof (cases n)
  case 0
  then have "ends_with_null inbuf ty is_wide n = Inr False" by (simp add: ends_with_null_def)
  then show ?thesis by blast
next
  case (Suc k)
  have "get8 inbuf (2 + k) = Inr (inbuf ! (2 + k))" if "\<not> is_wide"
    using that assms Suc by (intro get8_ok) simp
  moreover have "get8 inbuf (2 + 2 * k) = Inr (inbuf ! (2 + 2 * k))" if "is_wide"
    using that assms Suc by (intro get8_ok) simp
  moreover have "get8 inbuf (2 + 2 * k + 1) = Inr (inbuf ! (2 + 2 * k + 1))" if "is_wide"
    using that assms Suc by (intro get8_ok) simp
  ultimately show ?thesis
    unfolding ends_with_null_def Let_def Suc by (cases is_wide) (simp_all add: ex_bool_eq del: add_2_eq_Suc' add_2_eq_Suc get8_eq_Inr)
qed

text \<open>
  What the constructor finds: a length that fits the buffer, and flags that fit the request.
\<close>

definition located ::
  "byte list \<Rightarrow> bool \<Rightarrow> bool \<Rightarrow> u32 \<times> nat \<times> nat \<times> bool \<Rightarrow> bool" where
  "located inbuf has_length is_wide = (\<lambda>(ty, n, arrival, term).
     (has ty WIDE \<longleftrightarrow> is_wide) \<and> (has ty HAS_LEN \<longleftrightarrow> has_length) \<and> (has ty NO_NULL \<longleftrightarrow> \<not> term) \<and>
     (term \<longrightarrow> 0 < n) \<and> arrival \<le> length inbuf \<and>
     (if has_length then 2 else 0) + (if is_wide then 2 * n else n) \<le> arrival)"

lemma locate_with_length_ok:
  assumes "2 \<le> length inbuf"
  shows "\<exists>r. locate_with_length inbuf (int (length inbuf)) is_wide = Inr r \<and> located inbuf True is_wide r"
proof -
  obtain w where w: "read16 inbuf 0 = Inr w" using assms by (simp add: read16_Inr)
  define ty where "ty = (NO_NULL OR (if is_wide then WIDE else 0) OR HAS_LEN OR
      (if w AND 0xF000 = 0xF000 then BITFLIP else 0))"
  define chars where "chars = unat (w AND 0x0FFF)"
  define n where "n = (if length inbuf < (if is_wide then 2 + 2 * chars else 2 + chars)
    then (if is_wide then (length inbuf - 2) div 2 else length inbuf - 2) else chars)"
  have n: "2 + (if is_wide then 2 * n else n) \<le> length inbuf"
    using assms by (auto simp: n_def)
  from ends_with_null_ok [OF n] obtain t where
    t: "ends_with_null inbuf ty is_wide n = Inr t" "t \<longrightarrow> 0 < n" by blast
  have flags: "has (if t then ty AND NOT NO_NULL else ty) WIDE = is_wide"
    "has (if t then ty AND NOT NO_NULL else ty) HAS_LEN"
    "has (if t then ty AND NOT NO_NULL else ty) NO_NULL = (\<not> t)"
    unfolding ty_def has_def by (cases t; cases is_wide; simp)+
  let ?a = "if length inbuf < (if is_wide then 2 + 2 * chars else 2 + chars) then length inbuf
    else (if is_wide then 2 + 2 * chars else 2 + chars)"
  have "locate_with_length inbuf (int (length inbuf)) is_wide =
      Inr (if t then ty AND NOT NO_NULL else ty, n, ?a, t)"
    using t(1) unfolding locate_with_length_def w Let_def rbind_Inr ty_def n_def chars_def [symmetric]
    by (auto simp: of_nat_less_iff split: if_splits)
  moreover have "located inbuf True is_wide (if t then ty AND NOT NO_NULL else ty, n, ?a, t)"
    unfolding located_def using flags t(2) assms by (auto simp: n_def)
  ultimately show ?thesis by blast
qed

lemma locate_null_ok:
  assumes "\<not> is_wide \<or> even (length inbuf)"
  shows "\<exists>r. locate_null inbuf (int (length inbuf)) is_wide = Inr r \<and> located inbuf False is_wide r"
proof -
  from scan_null_ok [of is_wide "length inbuf" 0 inbuf] assms obtain n where
    n: "scan_null inbuf (int (length inbuf)) is_wide 0 = Inr n" "n \<le> length inbuf" "is_wide \<longrightarrow> even n"
    by auto
  have flags: "has (NO_NULL OR (if is_wide then WIDE else 0)) WIDE = is_wide"
    "\<not> has (NO_NULL OR (if is_wide then WIDE else 0)) HAS_LEN"
    "has (NO_NULL OR (if is_wide then WIDE else 0)) NO_NULL"
    unfolding has_def by (cases is_wide; simp)+
  have "n + 2 \<le> length inbuf" if "is_wide" "n < length inbuf"
  proof -
    from that assms n(3) have "even n" "even (length inbuf)" by auto
    with that(2) show ?thesis by presburger
  qed
  then show ?thesis
    using n flags unfolding locate_null_def n(1) Let_def rbind_Inr located_def
    by (cases "n < length inbuf"; cases is_wide) auto
qed

section \<open>Well-formed strings\<close>

definition cstr_ok :: "uru_string \<Rightarrow> bool" where
  "cstr_ok u = (case m_cstr u of
     NULL_ptr \<Rightarrow> True | Dangling \<Rightarrow> False | Ptr c \<Rightarrow> m_cstr_size u + 2 \<le> length c)"

definition altstr_ok :: "uru_string \<Rightarrow> bool" where
  "altstr_ok u = (case m_altstr u of
     NULL_ptr \<Rightarrow> True | Dangling \<Rightarrow> False
   | Ptr alt \<Rightarrow>
       (if has (m_alt_type u) HAS_LEN then 2 else 0) +
       (if has (m_alt_type u) WIDE then 2 * m_altstr_size u else m_altstr_size u) \<le> length alt \<and>
       (has (m_alt_type u) NO_NULL \<or> 0 < m_altstr_size u))"

definition string_ok :: "uru_string \<Rightarrow> bool" where
  "string_ok u \<longleftrightarrow> cstr_ok u \<and> altstr_ok u"

lemma has_or: "has (a OR b) f \<longleftrightarrow> has a f \<or> has b f"
proof -
  have "(a OR b) AND f = 0 \<longleftrightarrow> a AND f = 0 \<and> b AND f = 0"
    by (auto simp: bit.conj_disj_distrib2 bit_eq_iff bit_simps)
  then show ?thesis by (simp add: has_def)
qed

lemma has_flags [simp]:
  "has (numeral a) (numeral b) \<longleftrightarrow> (numeral a AND numeral b :: u32) \<noteq> 0"
  "has (numeral a) 1 \<longleftrightarrow> (numeral a AND 1 :: u32) \<noteq> 0"
  "has 1 (numeral b) \<longleftrightarrow> (1 AND numeral b :: u32) \<noteq> 0"
  "has 1 1" "\<not> has 0 f"
  by (simp_all add: has_def)

lemma store_string_ok:
  assumes "located inbuf has_length is_wide (ty, n, arrival, term)"
  shows "\<exists>u. store_string inbuf has_length copy (ty, n, arrival, term) = Inr u \<and>
    m_arrival_len u = arrival \<and> string_ok u"
proof -
  let ?n = "if term then n - 1 else n"
  have l: "has ty WIDE = is_wide" "has ty HAS_LEN = has_length" "has ty NO_NULL = (\<not> term)"
    "term \<longrightarrow> 0 < n" "arrival \<le> length inbuf"
    "(if has_length then 2 else 0) + (if is_wide then 2 * n else n) \<le> arrival"
    using assms by (auto simp: located_def)
  consider (point) "ty = C_TYPE OR HAS_LEN \<and> \<not> copy \<and> \<not> term"
    | (cstr) "\<not> (ty = C_TYPE OR HAS_LEN \<and> \<not> copy \<and> \<not> term)"
        "(ty = C_TYPE \<or> ty = C_TYPE OR HAS_LEN OR NO_NULL) \<and> copy"
    | (copied) "\<not> ((ty = C_TYPE \<or> ty = C_TYPE OR HAS_LEN OR NO_NULL) \<and> copy)" "copy"
    | (shared) "\<not> (ty = C_TYPE OR HAS_LEN \<and> \<not> copy \<and> \<not> term)" "\<not> copy" by blast
  then show ?thesis
  proof cases
    case point
    with l show ?thesis by simp
  next
    case cstr
    then have "\<not> is_wide" using l(1) by (auto simp: has_def)
    with l have "slice (if has_length then 2 else 0) ?n inbuf =
        Inr (take ?n (drop (if has_length then 2 else 0) inbuf))" by (auto simp: slice_def)
    moreover have "length (take ?n (drop (if has_length then 2 else 0) inbuf)) = ?n"
      using l \<open>\<not> is_wide\<close> by auto
    ultimately show ?thesis
      using cstr by (simp add: store_string_def Let_def empty_string_def string_ok_def cstr_ok_def
          altstr_ok_def del: slice_eq_Inr length_take length_drop)
  next
    case copied
    obtain bs where "(if has_length then slice 2 (arrival - 2) inbuf else slice 0 arrival inbuf) = Inr bs"
      "length bs = (if has_length then arrival - 2 else arrival)"
      using slice_ok [of 2 "arrival - 2" inbuf] slice_ok [of 0 arrival inbuf] l(5,6)
      by (cases has_length) fastforce+
    then show ?thesis
      using copied l by (auto simp: store_string_def Let_def empty_string_def string_ok_def cstr_ok_def
          altstr_ok_def has_or simp del: slice_eq_Inr)
  next
    case shared
    with l show ?thesis
      by (auto simp: store_string_def Let_def empty_string_def string_ok_def cstr_ok_def altstr_ok_def)
  qed
qed

lemma UruString_buf_ok:
  assumes "has_length \<or> \<not> is_wide \<or> even (length inbuf)"
  shows "\<exists>u. UruString_buf inbuf (int (length inbuf)) has_length is_wide copy = Inr u \<and>
    m_arrival_len u \<le> length inbuf \<and> string_ok u"
proof (cases "has_length \<and> length inbuf < 2")
  case True
  then show ?thesis
    by (auto simp: UruString_buf_def empty_string_def string_ok_def cstr_ok_def altstr_ok_def)
next
  case False
  obtain ty n a t where
    r: "(if has_length then locate_with_length inbuf (int (length inbuf)) is_wide
         else locate_null inbuf (int (length inbuf)) is_wide) = Inr (ty, n, a, t)"
    and l: "located inbuf has_length is_wide (ty, n, a, t)"
    using locate_with_length_ok [of inbuf is_wide] locate_null_ok [of is_wide inbuf] False assms
    by (cases has_length) fastforce+
  from l have "a \<le> length inbuf" by (simp add: located_def)
  moreover have "UruString_buf inbuf (int (length inbuf)) has_length is_wide copy =
      store_string inbuf has_length copy (ty, n, a, t)"
    using False r unfolding UruString_buf_def by auto
  ultimately show ?thesis using store_string_ok [OF l, of copy] by auto
qed

text \<open>
  C27: Constructing a string from a buffer stays inside it, except for wide text without a
  length in a buffer of odd size; the string is well-formed and its arrival length is at most
  the buffer's.
\<close>

theorem UruString_buf_safe:
  assumes "has_length \<or> \<not> is_wide \<or> even (length inbuf)"
  shows "\<exists>u. UruString_buf inbuf (int (length inbuf)) has_length is_wide copy = Inr u \<and>
    m_arrival_len u \<le> length inbuf \<and> string_ok u"
  using assms by (rule UruString_buf_ok)

text \<open>
  Without a length, the search for a wide terminator reads a byte behind a buffer of odd length.
\<close>

theorem wide_scan_overread:
  "UruString_buf [0x41, 0, 0] 3 False True copy = Inl Out_Of_Bounds"
  by (simp add: UruString_buf_def locate_null_def scan_null.simps get8_def)

section \<open>A C string survives the way through a message\<close>

definition string_wire :: "bool \<Rightarrow> byte list \<Rightarrow> byte list" where
  "string_wire fl s =
     bytes16 (if fl then of_nat (length s) OR 0xF000 else of_nat (length s)) @ (if fl then flip s else s)"

lemma length_flip [simp]: "length (flip s) = length s"
  by (simp add: flip_def)

lemma flip_flip [simp]: "flip (flip s) = s"
  by (simp add: flip_def o_def)

lemma length_string_wire [simp]: "length (string_wire fl s) = length s + 2"
  by (simp add: string_wire_def)

lemma get_str_c:
  "\<exists>u null. get_str conv alloc (UruString_c (Some s) True) True False False fl =
     Inr (string_wire fl s @ null, u)"
  by (cases fl) (auto simp: get_str_def desired_type_def UruString_c_def empty_string_def deref_def
      convert_def choose_source_def new_text_def slice_def string_wire_def Let_def)

lemma send_len_c:
  "send_len conv alloc (UruString_c (Some s) True) True False False =
     Inr (length s + 2, UruString_c (Some s) True)"
  by (simp add: send_len_def UruString_c_def empty_string_def)

lemma header_word:
  assumes "n < 4096"
  shows "(of_nat n :: u16) AND 0xF000 = 0" "unat ((of_nat n :: u16) AND 0x0FFF) = n"
    "((of_nat n :: u16) OR 0xF000) AND 0xF000 = 0xF000"
    "unat (((of_nat n :: u16) OR 0xF000) AND 0x0FFF) = n"
proof -
  have m: "(0x0FFF :: u16) = mask 12" by (simp add: mask_eq_exp_minus_1)
  have "take_bit 12 (of_nat n :: u16) = of_nat (take_bit 12 n)" by (simp add: take_bit_of_nat)
  then have low: "(of_nat n :: u16) AND mask 12 = of_nat n"
    using assms by (simp add: take_bit_nat_eq_self flip: take_bit_eq_mask)
  have u: "unat (of_nat n :: u16) = n" using assms by (simp add: unat_of_nat)
  show "unat ((of_nat n :: u16) AND 0x0FFF) = n" unfolding m low by (rule u)
  have "(of_nat n :: u16) AND 0xF000 = (of_nat n AND mask 12) AND 0xF000" by (simp only: low)
  also have "\<dots> = of_nat n AND (mask 12 AND 0xF000)" by (simp only: and.assoc)
  also have "(mask 12 AND 0xF000 :: u16) = 0" by (simp flip: m)
  finally show z: "(of_nat n :: u16) AND 0xF000 = 0" by simp
  show "((of_nat n :: u16) OR 0xF000) AND 0xF000 = 0xF000"
    by (simp only: bit.conj_disj_distrib2 z) simp
  have "((of_nat n :: u16) OR 0xF000) AND 0x0FFF = of_nat n AND 0x0FFF"
    by (simp only: bit.conj_disj_distrib2) simp
  then show "unat (((of_nat n :: u16) OR 0xF000) AND 0x0FFF) = n"
    unfolding m low by (simp only: u)
qed

lemma not_flag: "NOT b = (0xff :: byte) \<longleftrightarrow> b = 0"
proof -
  have "(0xff :: byte) = NOT 0" by simp
  then show ?thesis by (metis bit.double_compl)
qed

lemma no_end:
  assumes "0 \<notin> set s"
  shows "ends_with_null (string_wire fl s @ rest) (if fl then 14 else 10) False (length s) = Inr False"
proof (cases s rule: rev_cases)
  case (snoc t b)
  then have b: "b \<noteq> 0" using assms by auto
  have "get8 (string_wire fl s @ rest) (2 + length t) = Inr (if fl then NOT b else b)"
    unfolding get8_def string_wire_def snoc by (auto simp: nth_append flip_def)
  then have "ends_with_null (string_wire fl s @ rest) (if fl then 14 else 10) False (length s) =
      Inr ((if fl then NOT b else b) = (if has (if fl then 14 else 10) BITFLIP then 0xff else 0))"
    unfolding ends_with_null_def snoc Let_def by (simp del: get8_eq_Inr add_2_eq_Suc add_2_eq_Suc')
  then show ?thesis using b by (cases fl) (simp_all add: not_flag)
qed (simp add: ends_with_null_def)

lemma parse_string_wire:
  assumes "length s < 4096" and "0 \<notin> set s"
  shows "locate_with_length (string_wire fl s @ rest) (int (length (string_wire fl s @ rest))) False =
    Inr (if fl then 14 else 10, length s, length s + 2, False)"
proof -
  define w :: u16 where "w = (if fl then of_nat (length s) OR 0xF000 else of_nat (length s))"
  have w: "unat (w AND 0x0FFF) = length s" "(w AND 0xF000 = 0xF000) = fl"
    using header_word [OF assms(1)] by (auto simp: w_def)
  have r: "read16 (string_wire fl s @ rest) 0 = Inr w"
    by (simp add: string_wire_def w_def)
  have ty: "NO_NULL OR (if False then WIDE else 0) OR HAS_LEN OR (if fl then BITFLIP else 0) =
      (if fl then 14 else 10 :: u32)" by simp
  have e: "ends_with_null (string_wire True s @ rest) 14 False (length s) = Inr False"
    "ends_with_null (string_wire False s @ rest) 10 False (length s) = Inr False"
    using no_end [OF assms(2), of True rest] no_end [OF assms(2), of False rest] by simp_all
  have "\<not> (0 \<le> int (length (string_wire fl s @ rest)) \<and>
      int (2 + length s) > int (length (string_wire fl s @ rest)))" by simp
  then show ?thesis
    unfolding locate_with_length_def r rbind_Inr Let_def w ty if_False by (simp add: e)
qed

lemma c_str_store:
  "\<exists>u2 u3. store_string (string_wire fl s @ rest) True True (if fl then 14 else 10, length s, length s + 2, False)
       = Inr u2 \<and> m_arrival_len u2 = length s + 2 \<and> c_str conv alloc u2 = Inr (s @ [0], u3)"
proof (cases fl)
  case True
  have "slice 2 (length s) (string_wire True s @ rest) = Inr (flip s)"
    by (simp add: slice_def string_wire_def)
  with True show ?thesis
    by (simp add: store_string_def empty_string_def c_str_def make_cstr_def narrow_cstr_def deref_def
        Let_def slice_def del: slice_eq_Inr)
next
  case False
  have "slice 2 (length s) (string_wire False s @ rest) = Inr s"
    by (simp add: slice_def string_wire_def)
  with False show ?thesis
    by (simp add: store_string_def empty_string_def c_str_def deref_def Let_def del: slice_eq_Inr)
qed

lemma UruString_buf_wire:
  assumes "length s < 4096" and "0 \<notin> set s"
  shows "\<exists>u u'. UruString_buf (string_wire fl s @ rest) (int (length (string_wire fl s @ rest))) True False True =
      Inr u \<and> m_arrival_len u = length s + 2 \<and> c_str conv alloc u = Inr (s @ [0], u')"
  using c_str_store [of fl s rest conv alloc] parse_string_wire [OF assms, of fl rest]
  unfolding UruString_buf_def by simp

text \<open>
  C16: A C string of less than 4096 bytes sent with a length field, bit-flipped or not, takes
  send_len bytes; read from a message it occupies exactly those bytes and c_str gives the
  original text.
\<close>

theorem string_roundtrip:
  assumes "length s < 4096" and "0 \<notin> set s"
  shows "\<exists>msg u1 u2 u3. get_str conv alloc (UruString_c (Some s) True) True False False fl = Inr (msg, u1) \<and>
    send_len conv alloc (UruString_c (Some s) True) True False False =
      Inr (length s + 2, UruString_c (Some s) True) \<and>
    UruString_buf (take (length s + 2) msg @ rest) (int (length s + 2 + length rest)) True False True = Inr u2 \<and>
    m_arrival_len u2 = length s + 2 \<and> c_str conv alloc u2 = Inr (s @ [0], u3)"
proof -
  obtain u1 null where g: "get_str conv alloc (UruString_c (Some s) True) True False False fl =
      Inr (string_wire fl s @ null, u1)"
    using get_str_c by blast
  let ?buf = "string_wire fl s @ rest"
  have "length ?buf = length s + 2 + length rest" by simp
  then have l: "UruString_buf ?buf (int (length s + 2 + length rest)) True False True =
      store_string ?buf True True (if fl then 14 else 10, length s, length s + 2, False)"
    using parse_string_wire [OF assms, of fl rest] unfolding UruString_buf_def by simp
  have m: "take (length s + 2) (string_wire fl s @ null) = string_wire fl s" by simp
  from c_str_store [of fl s rest conv alloc] obtain u2 u3 where
    "UruString_buf ?buf (int (length s + 2 + length rest)) True False True = Inr u2"
    "m_arrival_len u2 = length s + 2" "c_str conv alloc u2 = Inr (s @ [0], u3)"
    unfolding l by blast
  with g show ?thesis
    using send_len_c [of conv alloc s] m
    by (intro exI [of _ "string_wire fl s @ null"] exI [of _ u1] exI [of _ u2] exI [of _ u3]) (simp only: simp_thms)
qed

theorem string_roundtrip_witness:
  "\<exists>msg u1 u2 u3. get_str (\<lambda>_. None) (\<lambda>n. []) (UruString_c (Some [104, 105]) True) True False False True =
      Inr (msg, u1) \<and>
    send_len (\<lambda>_. None) (\<lambda>n. []) (UruString_c (Some [104, 105]) True) True False False =
      Inr (length [104, 105 :: byte] + 2, UruString_c (Some [104, 105]) True) \<and>
    UruString_buf (take (length [104, 105 :: byte] + 2) msg @ [9])
      (int (length [104, 105 :: byte] + 2 + length [9 :: byte])) True False True = Inr u2 \<and>
    m_arrival_len u2 = length [104, 105 :: byte] + 2 \<and>
    c_str (\<lambda>_. None) (\<lambda>n. []) u2 = Inr ([104, 105] @ [0], u3)"
  by (rule string_roundtrip) simp_all

theorem UruString_buf_safe_witness:
  "\<exists>u. UruString_buf [0x41, 0, 0x42, 0xF0] (int (length [0x41, 0, 0x42, 0xF0 :: byte])) False True False = Inr u \<and>
    m_arrival_len u \<le> length [0x41, 0, 0x42, 0xF0 :: byte] \<and> string_ok u"
  by (rule UruString_buf_safe) simp

section \<open>A well-formed string can be read\<close>

text \<open>What \<open>iconv\<close> promises: it writes no more than there is room for.\<close>

definition iconv_ok :: "iconv \<Rightarrow> bool" where
  "iconv_ok conv \<longleftrightarrow> (\<exists>f. conv False = Some f \<and> (\<forall>src room. length (f src room) \<le> room))"

lemma altstr_ok_cstr [simp]:
  "altstr_ok (u\<lparr>m_cstr := p, m_owns_cstr := b, m_cstr_size := n\<rparr>) = altstr_ok u"
  by (cases "m_altstr u") (simp_all add: altstr_ok_def)

lemma narrow_cstr_ok:
  assumes "altstr_ok u" and "\<not> has (m_alt_type u) WIDE \<or> m_altstr u = NULL_ptr"
  shows "\<exists>u' c. narrow_cstr u = Inr u' \<and> m_cstr u' = Ptr c \<and> string_ok u'"
proof (cases "m_altstr u")
  case NULL_ptr
  then show ?thesis by (simp add: narrow_cstr_def string_ok_def cstr_ok_def altstr_ok_def)
next
  case Dangling
  with assms show ?thesis by (simp add: altstr_ok_def)
next
  case (Ptr alt)
  let ?start = "if has (m_alt_type u) HAS_LEN then 2 else 0"
  let ?n = "if has (m_alt_type u) NO_NULL then m_altstr_size u else m_altstr_size u - 1"
  have b: "?start + m_altstr_size u \<le> length alt" "has (m_alt_type u) NO_NULL \<or> 0 < m_altstr_size u"
    using assms Ptr by (auto simp: altstr_ok_def)
  have "?start + ?n \<le> length alt" using b(1) by (auto split: if_splits)
  then obtain bs where bs: "slice ?start ?n alt = Inr bs" "length bs = ?n"
    using slice_ok by blast
  have n: "(if has (m_alt_type u) NO_NULL then Inr (m_altstr_size u) else pred_size (m_altstr_size u)) = Inr ?n"
    using b(2) by (auto simp: pred_size_def)
  let ?u = "u\<lparr>m_cstr := Ptr (bytes16 (of_nat ?n) @ (if has (m_alt_type u) BITFLIP then flip bs else bs) @ [0]),
    m_owns_cstr := True, m_cstr_size := ?n\<rparr>"
  have "narrow_cstr u = Inr ?u"
    unfolding narrow_cstr_def n rbind_Inr Ptr deref_def ptr.case bs(1) Let_def by simp
  moreover have "string_ok ?u"
    using assms(1) bs(2) by (auto simp: string_ok_def cstr_ok_def)
  ultimately show ?thesis by auto
qed

lemma wide_cstr_ok:
  assumes "altstr_ok u" and "has (m_alt_type u) WIDE" and alt: "m_altstr u = Ptr alt" and "iconv_ok conv"
  shows "\<exists>u' c. wide_cstr conv alloc u alt = Inr u' \<and> m_cstr u' = Ptr c \<and> string_ok u'"
proof -
  let ?start = "if has (m_alt_type u) HAS_LEN then 2 else 0"
  let ?n = "if has (m_alt_type u) NO_NULL then m_altstr_size u else m_altstr_size u - 1"
  obtain f where f: "conv False = Some f" "\<And>src room. length (f src room) \<le> room"
    using assms(4) by (auto simp: iconv_ok_def)
  have b: "?start + 2 * m_altstr_size u \<le> length alt" "has (m_alt_type u) NO_NULL \<or> 0 < m_altstr_size u"
    using assms by (auto simp: altstr_ok_def)
  obtain bs where bs: "slice ?start (2 * m_altstr_size u) alt = Inr bs" "length bs = 2 * m_altstr_size u"
    using slice_ok [OF b(1)] by blast
  define read_at where "read_at = (if has (m_alt_type u) BITFLIP then flip bs else drop ?start alt)"
  have r: "(if has (m_alt_type u) BITFLIP
      then rbind (slice ?start (2 * m_altstr_size u) alt) (\<lambda>bs. Inr (flip bs))
      else Inr (drop ?start alt)) = Inr read_at"
    unfolding bs(1) read_at_def by simp
  have "?n * 2 \<le> length read_at" using b bs(2) by (auto simp: read_at_def)
  then obtain src where src: "slice 0 (?n * 2) read_at = Inr src"
    using slice_ok [of 0 "?n * 2" read_at] by auto
  have n: "(if has (m_alt_type u) NO_NULL then Inr (m_altstr_size u) else pred_size (m_altstr_size u)) = Inr ?n"
    using b(2) by (auto simp: pred_size_def)
  let ?out = "f src (?n * 3)"
  let ?u = "u\<lparr>m_cstr := Ptr (bytes16 (of_nat (length ?out)) @ ?out @ [0]), m_owns_cstr := True,
    m_cstr_size := length ?out\<rparr>"
  have "wide_cstr conv alloc u alt = Inr ?u"
    unfolding wide_cstr_def Let_def r n rbind_Inr f(1) option.case run_iconv_def src using f(2) by simp
  moreover have "string_ok ?u"
    using assms(1) by (auto simp: string_ok_def cstr_ok_def)
  ultimately show ?thesis by auto
qed

text \<open>
  C25: On every well-formed string, and with any iconv that respects its output room, c_str
  returns and leaves the string well-formed.
\<close>

theorem c_str_total:
  assumes "string_ok u" and "iconv_ok conv"
  shows "\<exists>p u'. c_str conv alloc u = Inr (p, u') \<and> string_ok u'"
proof -
  have ok: "cstr_ok u" "altstr_ok u" using assms(1) by (auto simp: string_ok_def)
  have "\<exists>u' c. (if m_cstr u = NULL_ptr then make_cstr conv alloc u else Inr u) = Inr u' \<and>
      m_cstr u' = Ptr c \<and> string_ok u'"
  proof (cases "m_cstr u")
    case NULL_ptr
    show ?thesis
    proof (cases "m_altstr u \<noteq> NULL_ptr \<and> has (m_alt_type u) WIDE")
      case True
      then obtain alt where alt: "m_altstr u = Ptr alt" using ok(2) by (cases "m_altstr u") (auto simp: altstr_ok_def)
      with wide_cstr_ok [OF ok(2) _ alt assms(2)] NULL_ptr True show ?thesis
        by (auto simp: make_cstr_def deref_def)
    next
      case False
      with narrow_cstr_ok [OF ok(2)] NULL_ptr show ?thesis by (auto simp: make_cstr_def)
    qed
  qed (use ok(1) assms(1) in \<open>auto simp: cstr_ok_def\<close>)
  then obtain u' c where "(if m_cstr u = NULL_ptr then make_cstr conv alloc u else Inr u) = Inr u'"
    "m_cstr u' = Ptr c" "string_ok u'" by blast
  then show ?thesis
    using assms(1) ok(2) unfolding c_str_def
    by (cases "m_altstr u") (auto simp: deref_def altstr_ok_def)
qed

theorem c_str_total_witness:
  "\<exists>u p u'. UruString_buf [1, 0, 0x41, 0] 4 True True True = Inr u \<and>
     c_str (\<lambda>_. Some (\<lambda>src room. take room src)) (\<lambda>n. replicate n 0) u = Inr (p, u') \<and> string_ok u'"
proof -
  obtain u where u: "UruString_buf [1, 0, 0x41, 0] 4 True True True = Inr u" "string_ok u"
    using UruString_buf_ok [of True True "[1, 0, 0x41, 0]" True] by auto
  have "iconv_ok (\<lambda>_. Some (\<lambda>src room. take room src))" by (simp add: iconv_ok_def)
  from c_str_total [OF u(2) this, of "\<lambda>n. replicate n 0"] u(1) show ?thesis by blast
qed

section \<open>Where the class does not do what it says\<close>

definition one_char :: uru_string where
  "one_char = empty_string\<lparr>m_altstr := Ptr [1, 0, 0x41], m_alt_type := (HAS_LEN OR NO_NULL),
     m_arrival_len := 3, m_altstr_size := 1\<rparr>"

lemma one_char_buf: "UruString_buf [1, 0, 0x41] 3 True False False = Inr one_char"
  by (simp add: UruString_buf_def locate_with_length_def read16_def slice_def ends_with_null_def get8_def
      store_string_def one_char_def Let_def)

text \<open>A string that was not copied is flipped where it lies: in the message it was read from.\<close>

theorem get_str_writes_input:
  "UruString_buf [1, 0, 0x41] 3 True False False = Inr one_char \<and> \<not> m_owns_altstr one_char \<and>
   get_str conv alloc one_char True False False True =
     Inr ([1, 0xF0, 0xBE], one_char\<lparr>m_altstr := Ptr [1, 0xF0, 0xBE], m_alt_type := 14\<rparr>)"
  by (simp add: one_char_buf)
    (simp add: one_char_def empty_string_def get_str_def desired_type_def deref_def flip_in_place_def
      read16_def slice_def put_def flip_def write16_def bytes16_def Let_def)

text \<open>Assignment forgets the type and the size of a string that was not copied.\<close>

theorem assign_forgets_type:
  "\<exists>u. assign_string empty_string one_char = Inr u \<and>
    c_str conv alloc u = Inr ([1, 0, 0x41], u) \<and>
    (\<exists>u1. c_str conv alloc one_char = Inr ([0x41, 0], u1))"
  by (simp add: assign_string_def one_char_def free_strings_def empty_string_def c_str_def deref_def
      make_cstr_def narrow_cstr_def slice_def Let_def)

text \<open>The empty string counts its size down below zero when it is wanted with flipped bits.\<close>

theorem empty_string_bitflip: "get_str conv alloc empty_string True False False True = Inl Out_Of_Bounds"
  by (simp add: empty_string_def get_str_def desired_type_def convert_def choose_source_def new_text_def
      pred_size_def Let_def)

text \<open>Without \<open>iconv\<close>, the text of a wide string is what the fresh memory happened to hold.\<close>

theorem fallback_stores_nothing:
  "\<exists>u u'. UruString_buf [1, 0, 0x41, 0] 4 True True True = Inr u \<and>
     c_str (\<lambda>_. None) (\<lambda>n. [7, 7, 7, 7, 7, 7]) u = Inr ([7, 0, 7, 7], u')"
  by (simp add: UruString_buf_def locate_with_length_def read16_def slice_def ends_with_null_def get8_def
      store_string_def empty_string_def Let_def c_str_def make_cstr_def deref_def wide_cstr_def
      every_other_def put_def write16_def bytes16_def)

end
