(* ===== verification/Pl_Key.thy ===== *)
theory Pl_Key
  imports Uru_String
begin

text \<open>
  \<open>PlKey.cc\<close>: the key that names an object in the game ("Uru object descriptor"), how it is read
  from a message and written to one.  The name is an \<open>UruString\<close>, whose methods may convert it,
  so operations on a key return the key with the string as it is afterwards.

  The output buffer is a list; \<open>pk_write_out\<close> returns it with the number of bytes written.
\<close>

abbreviation (input) HasCloneIDs :: byte where "HasCloneIDs \<equiv> 1"
abbreviation (input) HasLoadMask :: byte where "HasLoadMask \<equiv> 2"

record pl_key =
  m_contents :: byte
  m_qualitycapability :: byte
  m_locflags :: u16
  m_classtype :: u16
  m_locsequencenumber :: u32
  m_objectid :: u32
  m_cloneid :: u32
  m_cloneplayerid :: u32
  m_name :: "uru_string option"

definition clone_ids :: "byte \<Rightarrow> bool" where
  "clone_ids contents \<longleftrightarrow> contents AND HasCloneIDs \<noteq> 0"

definition load_mask :: "byte \<Rightarrow> bool" where
  "load_mask contents \<longleftrightarrow> contents AND HasLoadMask \<noteq> 0"

section \<open>Operations\<close>

definition pk_read_in :: "byte list \<Rightarrow> (pl_key \<times> nat) res" where
  "pk_read_in buf =
     (if length buf < 1 then Inl Truncated_Message
      else rbind (get8 buf 0) (\<lambda>contents.
        if length buf < 15 + (if load_mask contents then 2 else 0) then Inl Truncated_Message
        else rbind (read32 buf 1) (\<lambda>seqnum.
             rbind (read16 buf 5) (\<lambda>flags.
             rbind (if load_mask contents then get8 buf 7 else Inr 0) (\<lambda>quality.
             let off = (if load_mask contents then 8 else 7)
             in rbind (read16 buf off) (\<lambda>classtype.
                rbind (read32 buf (off + 2)) (\<lambda>objectid.
                rbind (UruString_buf (drop (off + 6) buf) (int (length buf) - int (off + 6)) True False True)
                  (\<lambda>name.
                let off2 = off + 6 + m_arrival_len name
                in if clone_ids contents \<and> length buf < off2 + 8 then Inl Truncated_Message
                   else rbind (if clone_ids contents
                               then rbind (read16 buf off2) (\<lambda>cloneid.
                                    rbind (read16 buf (off2 + 2)) (\<lambda>dummy.
                                    rbind (read32 buf (off2 + 4)) (\<lambda>player.
                                    Inr (ucast cloneid, player, off2 + 8))))
                               else Inr (0, 0, off2)) (\<lambda>(cloneid, player, off3).
                        Inr (\<lparr>m_contents = contents, m_qualitycapability = quality, m_locflags = flags,
                              m_classtype = classtype, m_locsequencenumber = seqnum,
                              m_objectid = objectid, m_cloneid = cloneid, m_cloneplayerid = player,
                              m_name = Some name\<rparr>, off3))))))))))"

definition pk_send_len :: "iconv \<Rightarrow> (nat \<Rightarrow> byte list) \<Rightarrow> pl_key \<Rightarrow> (nat \<times> pl_key) res" where
  "pk_send_len conv alloc k =
     (let len = 13 + (if load_mask (m_contents k) then 1 else 0) + (if clone_ids (m_contents k) then 8 else 0)
      in case m_name k of
           None \<Rightarrow> Inr (len + 2, k)
         | Some u \<Rightarrow> rbind (send_len conv alloc u True False False) (\<lambda>(n, u').
             Inr (len + n, k\<lparr>m_name := Some u'\<rparr>)))"

text \<open>The fields in front of the name, and those behind it.\<close>

definition pk_head :: "pl_key \<Rightarrow> byte list" where
  "pk_head k = [m_contents k] @ bytes32 (m_locsequencenumber k) @ bytes16 (m_locflags k) @
     (if load_mask (m_contents k) then [m_qualitycapability k] else []) @
     bytes16 (m_classtype k) @ bytes32 (m_objectid k)"

definition pk_tail :: "pl_key \<Rightarrow> byte list" where
  "pk_tail k =
     (if clone_ids (m_contents k)
      then bytes16 (ucast (m_cloneid k)) @ bytes16 0 @ bytes32 (m_cloneplayerid k) else [])"

definition pk_write_out ::
  "iconv \<Rightarrow> (nat \<Rightarrow> byte list) \<Rightarrow> pl_key \<Rightarrow> byte list \<Rightarrow> bool \<Rightarrow> (byte list \<times> nat \<times> pl_key) res" where
  "pk_write_out conv alloc k buf bitflip =
     rbind (pk_send_len conv alloc k) (\<lambda>(need, k1).
       if length buf < need then Inr (buf, 0, k1)
       else rbind (case m_name k1 of
                None \<Rightarrow> Inr (bytes16 0xF000, k1)
              | Some u \<Rightarrow>
                  rbind (send_len conv alloc u True False False) (\<lambda>(l, u1).
                  rbind (get_str conv alloc u1 True False False bitflip) (\<lambda>(str, u2).
                  rbind (slice 0 l str) (\<lambda>name. Inr (name, k1\<lparr>m_name := Some u2\<rparr>))))) (\<lambda>(name, k2).
            let out = pk_head k @ name @ pk_tail k
            in rbind (put 0 out buf) (\<lambda>buf'. Inr (buf', length out, k2))))"

definition pk_eq ::
  "iconv \<Rightarrow> (nat \<Rightarrow> byte list) \<Rightarrow> pl_key \<Rightarrow> pl_key \<Rightarrow> (bool \<times> pl_key) res" where
  "pk_eq conv alloc k other =
     (if m_contents k \<noteq> m_contents other \<or> m_qualitycapability k \<noteq> m_qualitycapability other \<or>
         m_locsequencenumber k \<noteq> m_locsequencenumber other \<or> m_locflags k \<noteq> m_locflags other \<or>
         m_classtype k \<noteq> m_classtype other \<or> m_objectid k \<noteq> m_objectid other \<or>
         m_cloneid k \<noteq> m_cloneid other \<or> m_cloneplayerid k \<noteq> m_cloneplayerid other
      then Inr (False, k)
      else case (m_name k, m_name other) of
          (Some u, Some v) \<Rightarrow> rbind (eq_string conv alloc u v) (\<lambda>(r, u'). Inr (r, k\<lparr>m_name := Some u'\<rparr>))
        | (Some u, None) \<Rightarrow> rbind (c_str conv alloc u) (\<lambda>(p, u').
            rbind (cstring p) (\<lambda>s. Inr (s = [], k\<lparr>m_name := Some u'\<rparr>)))
        | (None, Some v) \<Rightarrow> rbind (c_str conv alloc v) (\<lambda>(p, v').
            rbind (cstring p) (\<lambda>s. Inr (s = [], k)))
        | (None, None) \<Rightarrow> Inr (True, k))"

definition null_key :: pl_key where
  "null_key =
     \<lparr>m_contents = 0, m_qualitycapability = 0, m_locflags = 0, m_classtype = 0,
      m_locsequencenumber = 0xFFFFFFFF, m_objectid = 0, m_cloneid = 0, m_cloneplayerid = 0, m_name = None\<rparr>"

definition write_null_key :: "byte list \<Rightarrow> (byte list \<times> nat) res" where
  "write_null_key buf =
     (if length buf < 15 then Inr (buf, 0)
      else rbind (put 0 [0, 0xFF, 0xFF, 0xFF, 0xFF, 0, 0, 0, 0, 0, 0, 0, 0, 0, 0xF0] buf) (\<lambda>buf'.
           Inr (buf', 15)))"

section \<open>Reading never leaves the buffer\<close>

lemma pk_read_in_safe_lem:
  "pk_read_in buf = Inl Truncated_Message \<or>
   (\<exists>k n. pk_read_in buf = Inr (k, n) \<and> n \<le> length buf \<and> (\<exists>u. m_name k = Some u \<and> string_ok u))"
proof (cases "length buf < 1")
  case True
  then show ?thesis by (simp add: pk_read_in_def)
next
  case False
  then obtain c where c: "get8 buf 0 = Inr c" by (simp add: get8_def)
  show ?thesis
  proof (cases "length buf < 15 + (if load_mask c then 2 else 0)")
    case True
    with False c show ?thesis unfolding pk_read_in_def c rbind_Inr by simp
  next
    case long: False
    define off where "off = (if load_mask c then 8 else 7 :: nat)"
    from long have b: "off + 8 \<le> length buf" by (auto simp: off_def split: if_splits)
    then obtain q cl ob sn fl where r: "read32 buf 1 = Inr sn" "read16 buf 5 = Inr fl"
      "(if load_mask c then get8 buf 7 else Inr 0) = Inr q" "read16 buf off = Inr cl"
      "read32 buf (off + 2) = Inr ob"
      by (auto simp: read32_Inr read16_Inr get8_def off_def split: if_splits)
    have room: "int (length buf) - int (off + 6) = int (length (drop (off + 6) buf))" using b by simp
    obtain u where u: "UruString_buf (drop (off + 6) buf) (int (length buf) - int (off + 6)) True False True = Inr u"
      "m_arrival_len u \<le> length (drop (off + 6) buf)" "string_ok u"
      unfolding room using UruString_buf_ok [of True False "drop (off + 6) buf" True] by blast
    let ?off2 = "off + 6 + m_arrival_len u"
    have off2: "?off2 \<le> length buf" using u(2) b by simp
    have body: "pk_read_in buf =
      (if clone_ids c \<and> length buf < ?off2 + 8 then Inl Truncated_Message
       else rbind (if clone_ids c
                   then rbind (read16 buf ?off2) (\<lambda>cloneid. rbind (read16 buf (?off2 + 2)) (\<lambda>dummy.
                        rbind (read32 buf (?off2 + 4)) (\<lambda>player. Inr (ucast cloneid, player, ?off2 + 8))))
                   else Inr (0, 0, ?off2)) (\<lambda>(cloneid, player, off3).
            Inr (\<lparr>m_contents = c, m_qualitycapability = q, m_locflags = fl, m_classtype = cl,
                  m_locsequencenumber = sn, m_objectid = ob, m_cloneid = cloneid,
                  m_cloneplayerid = player, m_name = Some u\<rparr>, off3)))"
      using False long
      unfolding pk_read_in_def c rbind_Inr r Let_def off_def [symmetric] u(1) by (simp only: if_False)
    show ?thesis
    proof (cases "clone_ids c \<and> length buf < ?off2 + 8")
      case True
      then show ?thesis unfolding body by simp
    next
      case fits: False
      show ?thesis
      proof (cases "clone_ids c")
        case True
        with fits obtain ci du pl where "read16 buf ?off2 = Inr ci" "read16 buf (?off2 + 2) = Inr du"
          "read32 buf (?off2 + 4) = Inr pl" by (auto simp: read32_Inr read16_Inr)
        with fits True u(3) show ?thesis unfolding body by simp
      next
        case False
        with off2 u(3) show ?thesis unfolding body by simp
      qed
    qed
  qed
qed

text \<open>
  C26: Reading a key from any bytes either throws truncated_message or returns a key with a
  well-formed name and at most as many bytes as there are.
\<close>

theorem pk_read_in_safe:
  "pk_read_in buf = Inl Truncated_Message \<or>
   (\<exists>k n. pk_read_in buf = Inr (k, n) \<and> n \<le> length buf \<and> (\<exists>u. m_name k = Some u \<and> string_ok u))"
  by (rule pk_read_in_safe_lem)

section \<open>Writing a key and reading it back\<close>

text \<open>The string of the name; a key without one is written like one with the empty, flipped name.\<close>

definition name_wire :: "bool \<Rightarrow> byte list option \<Rightarrow> byte list" where
  "name_wire bitflip s = (case s of None \<Rightarrow> string_wire True [] | Some s \<Rightarrow> string_wire bitflip s)"

definition with_name :: "pl_key \<Rightarrow> byte list option \<Rightarrow> pl_key" where
  "with_name k s = k\<lparr>m_name := map_option (\<lambda>s. UruString_c (Some s) True) s\<rparr>"

definition key_wire :: "bool \<Rightarrow> pl_key \<Rightarrow> byte list option \<Rightarrow> byte list" where
  "key_wire bitflip k s = pk_head k @ name_wire bitflip s @ pk_tail k"

lemma with_name_fields [simp]:
  "m_contents (with_name k s) = m_contents k" "pk_head (with_name k s) = pk_head k"
  "pk_tail (with_name k s) = pk_tail k"
  by (simp_all add: with_name_def pk_head_def pk_tail_def)

lemma length_pk_head: "length (pk_head k) = 13 + (if load_mask (m_contents k) then 1 else 0)"
  by (simp add: pk_head_def)

lemma length_pk_tail: "length (pk_tail k) = (if clone_ids (m_contents k) then 8 else 0)"
  by (simp add: pk_tail_def)

lemma length_name_wire: "length (name_wire bitflip s) = (case s of None \<Rightarrow> 0 | Some s \<Rightarrow> length s) + 2"
  by (auto simp: name_wire_def split: option.splits)

lemma pk_send_len_wire:
  "pk_send_len conv alloc (with_name k s) = Inr (length (key_wire bitflip k s), with_name k s)"
  by (cases s) (simp_all add: pk_send_len_def with_name_def send_len_c key_wire_def length_pk_head
      length_pk_tail length_name_wire Let_def)

lemma pk_write_out_wire:
  assumes "length (key_wire bitflip k s) \<le> length buf"
  shows "\<exists>k'. pk_write_out conv alloc (with_name k s) buf bitflip =
    Inr (key_wire bitflip k s @ drop (length (key_wire bitflip k s)) buf, length (key_wire bitflip k s), k')"
proof -
  let ?k = "with_name k s"
  have "\<exists>k2. (case m_name ?k of
        None \<Rightarrow> Inr (bytes16 0xF000, ?k)
      | Some u \<Rightarrow>
          rbind (send_len conv alloc u True False False) (\<lambda>(l, u1).
          rbind (get_str conv alloc u1 True False False bitflip) (\<lambda>(str, u2).
          rbind (slice 0 l str) (\<lambda>name. Inr (name, ?k\<lparr>m_name := Some u2\<rparr>))))) =
      Inr (name_wire bitflip s, k2)"
  proof (cases s)
    case None
    then show ?thesis by (simp add: with_name_def name_wire_def string_wire_def flip_def)
  next
    case (Some t)
    obtain u null where g: "get_str conv alloc (UruString_c (Some t) True) True False False bitflip =
        Inr (string_wire bitflip t @ null, u)" using get_str_c by blast
    have "slice 0 (length t + 2) (string_wire bitflip t @ null) = Inr (string_wire bitflip t)"
      using slice_prefix [of "string_wire bitflip t" null] by simp
    then show ?thesis by (simp add: Some with_name_def name_wire_def send_len_c g del: slice_eq_Inr)
  qed
  then obtain k2 where w: "(case m_name ?k of
        None \<Rightarrow> Inr (bytes16 0xF000, ?k)
      | Some u \<Rightarrow>
          rbind (send_len conv alloc u True False False) (\<lambda>(l, u1).
          rbind (get_str conv alloc u1 True False False bitflip) (\<lambda>(str, u2).
          rbind (slice 0 l str) (\<lambda>name. Inr (name, ?k\<lparr>m_name := Some u2\<rparr>))))) =
      Inr (name_wire bitflip s, k2)" by blast
  have out: "pk_head ?k @ name_wire bitflip s @ pk_tail ?k = key_wire bitflip k s"
    by (simp add: key_wire_def)
  have "\<not> length buf < length (key_wire bitflip k s)" using assms by simp
  then show ?thesis
    unfolding pk_write_out_def pk_send_len_wire [of conv alloc k s bitflip] rbind_Inr prod.case w out Let_def
    using assms by (simp add: put_def)
qed

lemma read32_from: "n \<le> length buf \<Longrightarrow> read32 buf n = read32 (drop n buf) 0"
  by (simp add: read32_def slice_drop)

lemma read16_from: "n \<le> length buf \<Longrightarrow> read16 buf n = read16 (drop n buf) 0"
  by (simp add: read16_def slice_drop)

lemma read_head:
  fixes k :: pl_key and rest :: "byte list"
  defines "off \<equiv> if load_mask (m_contents k) then 8 else 7 :: nat"
  shows "get8 (pk_head k @ rest) 0 = Inr (m_contents k)"
    and "read32 (pk_head k @ rest) 1 = Inr (m_locsequencenumber k)"
    and "read16 (pk_head k @ rest) 5 = Inr (m_locflags k)"
    and "load_mask (m_contents k) \<Longrightarrow> get8 (pk_head k @ rest) 7 = Inr (m_qualitycapability k)"
    and "read16 (pk_head k @ rest) off = Inr (m_classtype k)"
    and "read32 (pk_head k @ rest) (off + 2) = Inr (m_objectid k)"
    and "drop (off + 6) (pk_head k @ rest) = rest"
proof -
  have l: "off + 6 \<le> length (pk_head k @ rest)" by (simp add: length_pk_head off_def)
  show "get8 (pk_head k @ rest) 0 = Inr (m_contents k)" by (simp add: pk_head_def get8_def)
  show "read32 (pk_head k @ rest) 1 = Inr (m_locsequencenumber k)"
    using read32_at [of "[m_contents k]"] by (simp add: pk_head_def)
  show "read16 (pk_head k @ rest) 5 = Inr (m_locflags k)"
    using read16_at [of "[m_contents k] @ bytes32 (m_locsequencenumber k)"] by (simp add: pk_head_def)
  show "load_mask (m_contents k) \<Longrightarrow> get8 (pk_head k @ rest) 7 = Inr (m_qualitycapability k)"
    by (simp add: pk_head_def get8_def nth_append nth_Cons')
  let ?pre = "[m_contents k] @ bytes32 (m_locsequencenumber k) @ bytes16 (m_locflags k) @
      (if load_mask (m_contents k) then [m_qualitycapability k] else [])"
  have pre: "length ?pre = off" by (simp add: off_def)
  have head: "pk_head k @ rest = ?pre @ bytes16 (m_classtype k) @ bytes32 (m_objectid k) @ rest"
    by (simp add: pk_head_def)
  show "read16 (pk_head k @ rest) off = Inr (m_classtype k)"
    unfolding head pre [symmetric] by (simp only: read16_at read16_bytes16)
  have "off + 2 = length (?pre @ bytes16 (m_classtype k))" by (simp add: off_def)
  then show "read32 (pk_head k @ rest) (off + 2) = Inr (m_objectid k)"
    using read32_at [of "?pre @ bytes16 (m_classtype k)" "bytes32 (m_objectid k) @ rest"]
    unfolding head by (simp only: append_assoc read32_bytes32)
  have "off + 6 = length (pk_head k)" by (simp add: length_pk_head off_def)
  then show "drop (off + 6) (pk_head k @ rest) = rest" by (simp only:) simp
qed

text \<open>A key that can be told from its bytes: no field holds more than is written of it.\<close>

definition key_ok :: "pl_key \<Rightarrow> byte list option \<Rightarrow> bool" where
  "key_ok k s \<longleftrightarrow>
     (\<not> load_mask (m_contents k) \<longrightarrow> m_qualitycapability k = 0) \<and>
     (if clone_ids (m_contents k) then m_cloneid k < 0x10000 else m_cloneid k = 0 \<and> m_cloneplayerid k = 0) \<and>
     (\<forall>t. s = Some t \<longrightarrow> length t < 4096 \<and> 0 \<notin> set t)"

lemma clone_id_ok: "(c :: u32) < 0x10000 \<Longrightarrow> ucast (ucast c :: u16) = c"
  by (simp add: unsigned_ucast_eq, rule word_unat_eq_iff [THEN iffD2])
    (simp add: unsigned_take_bit_eq take_bit_nat_eq_self word_less_nat_alt)

lemma read_tail:
  assumes "clone_ids (m_contents k)"
  shows "read16 (pre @ pk_tail k @ rest) (length pre) = Inr (ucast (m_cloneid k))"
    and "\<exists>d. read16 (pre @ pk_tail k @ rest) (length pre + 2) = Inr d"
    and "read32 (pre @ pk_tail k @ rest) (length pre + 4) = Inr (m_cloneplayerid k)"
proof -
  have t: "pk_tail k = bytes16 (ucast (m_cloneid k)) @ bytes16 0 @ bytes32 (m_cloneplayerid k)"
    using assms by (simp add: pk_tail_def)
  show "read16 (pre @ pk_tail k @ rest) (length pre) = Inr (ucast (m_cloneid k))" by (simp add: t)
  show "\<exists>d. read16 (pre @ pk_tail k @ rest) (length pre + 2) = Inr d" by (simp add: t read16_Inr)
  show "read32 (pre @ pk_tail k @ rest) (length pre + 4) = Inr (m_cloneplayerid k)"
    using read32_at [of "pre @ bytes16 (ucast (m_cloneid k)) @ bytes16 0"] by (simp add: t)
qed

lemma pk_read_in_wire:
  assumes ok: "key_ok k s"
    and fits: "15 + (if load_mask (m_contents k) then 2 else 0) \<le> length (key_wire bitflip k s @ rest)"
  shows "\<exists>u u'. pk_read_in (key_wire bitflip k s @ rest) =
      Inr (k\<lparr>m_name := Some u\<rparr>, length (key_wire bitflip k s)) \<and>
    c_str conv alloc u = Inr ((case s of None \<Rightarrow> [] | Some t \<Rightarrow> t) @ [0], u')"
proof -
  obtain fl t where name: "name_wire bitflip s = string_wire fl t" "t = (case s of None \<Rightarrow> [] | Some t \<Rightarrow> t)"
    by (cases s) (auto simp: name_wire_def)
  have t: "length t < 4096" "0 \<notin> set t" using ok name(2) by (auto simp: key_ok_def split: option.splits)
  define off where "off = (if load_mask (m_contents k) then 8 else 7 :: nat)"
  let ?X = "string_wire fl t @ pk_tail k @ rest" and ?P = "pk_head k @ string_wire fl t"
  let ?buf = "pk_head k @ ?X"
  have buf: "key_wire bitflip k s @ rest = ?buf" by (simp add: key_wire_def name)
  have head: "length (pk_head k) = off + 6" by (simp add: length_pk_head off_def)
  have room: "int (length ?buf) - int (off + 6) = int (length ?X)" using head by simp
  obtain u u' where u: "UruString_buf ?X (int (length ?X)) True False True = Inr u"
    "m_arrival_len u = length t + 2" "c_str conv alloc u = Inr (t @ [0], u')"
    using UruString_buf_wire [OF t, of fl "pk_tail k @ rest" conv alloc] by blast
  note r = read_head [of k ?X, folded off_def]
  have q: "(if load_mask (m_contents k) then get8 ?buf 7 else Inr 0) = Inr (m_qualitycapability k)"
    using r(4) ok by (auto simp: key_ok_def simp del: get8_eq_Inr)
  let ?off2 = "off + 6 + m_arrival_len u"
  have off2: "?off2 = length ?P" using u(2) head by simp
  have split: "?buf = ?P @ pk_tail k @ rest" by simp
  have short: "\<not> (clone_ids (m_contents k) \<and> length ?buf < ?off2 + 8)"
    unfolding off2 split by (simp add: length_pk_tail)
  have ids: "(if clone_ids (m_contents k)
      then rbind (read16 ?buf ?off2) (\<lambda>cloneid. rbind (read16 ?buf (?off2 + 2)) (\<lambda>dummy.
           rbind (read32 ?buf (?off2 + 4)) (\<lambda>player. Inr (ucast cloneid, player, ?off2 + 8))))
      else Inr (0, 0, ?off2)) =
      Inr (m_cloneid k, m_cloneplayerid k, length (key_wire bitflip k s))"
  proof (cases "clone_ids (m_contents k)")
    case True
    obtain d where "read16 (?P @ pk_tail k @ rest) (length ?P + 2) = Inr d"
      using read_tail(2) [OF True] by blast
    then show ?thesis
      using True ok clone_id_ok [of "m_cloneid k"] unfolding off2 split read_tail(1,3) [OF True]
      by (simp add: key_ok_def key_wire_def name length_pk_tail)
  next
    case False
    then show ?thesis
      using ok off2 by (simp add: key_ok_def key_wire_def name length_pk_tail)
  qed
  have long: "\<not> length ?buf < 1" "\<not> length ?buf < 15 + (if load_mask (m_contents k) then 2 else 0)"
    using fits head unfolding buf by auto
  have "pk_read_in ?buf = Inr (k\<lparr>m_name := Some u\<rparr>, length (key_wire bitflip k s))"
    unfolding pk_read_in_def r(1) rbind_Inr r(2,3,5,6) q Let_def off_def [symmetric] r(7) room u(1)
    using long short ids by (simp only: if_False rbind_Inr prod.case) simp
  then show ?thesis unfolding buf using u(3) name(2) by blast
qed


definition sample_key :: pl_key where
  "sample_key = \<lparr>m_contents = 3, m_qualitycapability = 7, m_locflags = 2, m_classtype = 0x31,
     m_locsequencenumber = 0x123456, m_objectid = 9, m_cloneid = 5, m_cloneplayerid = 77, m_name = None\<rparr>"


text \<open>
  The length check counts two bytes for the capability of a key with a load mask, but only one is
  written: such a key with an empty name is rejected at the end of a message.
\<close>

theorem load_mask_key_rejected:
  "\<exists>k buf k1. key_ok k (Some []) \<and>
    pk_write_out conv alloc (with_name k (Some [])) (replicate 16 0) False = Inr (buf, 16, k1) \<and>
    pk_read_in (take 16 buf) = Inl Truncated_Message"
proof -
  define k where "k = sample_key\<lparr>m_contents := 2, m_cloneid := 0, m_cloneplayerid := 0\<rparr>"
  have l: "load_mask (m_contents k)" "\<not> clone_ids (m_contents k)"
    by (simp_all add: k_def load_mask_def clone_ids_def)
  have n: "length (key_wire False k (Some [])) = 16"
    by (simp add: key_wire_def length_pk_head length_pk_tail length_name_wire l)
  have ok: "key_ok k (Some [])" using l by (simp add: key_ok_def) (simp add: k_def)
  obtain k1 where w: "pk_write_out conv alloc (with_name k (Some [])) (replicate 16 0) False =
      Inr (key_wire False k (Some []), 16, k1)"
    using pk_write_out_wire [of False k "Some []" "replicate 16 0" conv alloc] n by auto
  have c: "get8 (key_wire False k (Some [])) 0 = Inr (m_contents k)"
    using read_head(1) [of k "name_wire False (Some []) @ pk_tail k"] by (simp add: key_wire_def)
  have "pk_read_in (key_wire False k (Some [])) = Inl Truncated_Message"
    using n l unfolding pk_read_in_def c rbind_Inr by simp
  with ok w n show ?thesis by (intro exI [of _ k] exI [of _ "key_wire False k (Some [])"] exI [of _ k1]) simp
qed

end
