(* ===== verification/Wide_Name.thy ===== *)
theory Wide_Name
  imports Uru_String
begin

text \<open>
  The two states in which \<open>UruString.cc\<close> keeps a copied wide string: as it was read, and with its
  null after it was once written to a message that wants one.  Comparing and writing switch
  between the two without changing the text.  The lemmas say so, and where the copy of the
  second state reads too far.
\<close>

definition wide_plain :: "byte list \<Rightarrow> uru_string \<Rightarrow> bool" where
  "wide_plain t u \<longleftrightarrow> m_alt_type u = 11 \<and> m_altstr_size u = length t div 2 \<and>
     (\<exists>r. m_altstr u = Ptr (bytes16 (of_nat (length t div 2)) @ t @ r))"

definition wide_null :: "byte list \<Rightarrow> uru_string \<Rightarrow> bool" where
  "wide_null t u \<longleftrightarrow> m_alt_type u = 3 \<and> m_altstr_size u = length t div 2 + 1 \<and>
     m_altstr u = Ptr (bytes16 (of_nat (length t div 2 + 1)) @ t @ [0, 0])"

text \<open>\<open>t\<close> is the text without the null; the field of a message holds at most 256 characters.\<close>

definition wide_form :: "byte list \<Rightarrow> uru_string \<Rightarrow> bool" where
  "wide_form t u \<longleftrightarrow> even (length t) \<and> length t \<le> 512 \<and> m_cstr u = NULL_ptr \<and> \<not> m_owns_cstr u \<and>
     m_owns_altstr u \<and> (wide_plain t u \<or> wide_null t u)"

lemma double_half: "even n \<Longrightarrow> 2 * (n div 2) = (n :: nat)"
  by simp

lemma memeq_append:
  "length a = length b \<Longrightarrow> memeq (a @ x) (b @ y) (length a + n) = (if a = b then memeq x y n else Inr False)"
  by (induction a b rule: list_induct2) auto

lemma memeq_prefix: "memeq (a @ x) (a @ y) (length a) = Inr True"
  using memeq_append [of a a x y 0] by simp

lemma bytes16_inj: "bytes16 a = bytes16 b \<longleftrightarrow> a = b"
  by (metis append_Nil2 le16_bytes16)

lemma of_nat_u16_inj:
  assumes "a < 65536" and "b < 65536"
  shows "(of_nat a :: u16) = of_nat b \<longleftrightarrow> a = b"
proof
  assume "(of_nat a :: u16) = of_nat b"
  then have "unat (of_nat a :: u16) = unat (of_nat b :: u16)" by simp
  with assms show "a = b" by (simp add: unat_of_nat)
qed simp

section \<open>Conversion between the two\<close>

lemma replicate_2: "replicate 2 x = [x, x]"
  by (simp add: numeral_2_eq_2)

lemmas conversion_defs = get_str_def desired_type_def deref_def Let_def convert_def choose_source_def
  new_text_def replicate_2 pred_size_def

lemma wide_formE:
  assumes "wide_form t u"
  obtains (plain) n r where "length t = 2 * n" "m_alt_type u = 11" "m_altstr_size u = n"
      "m_altstr u = Ptr (bytes16 (of_nat n) @ t @ r)" "m_cstr u = NULL_ptr" "wide_plain t u"
    | (null) n where "length t = 2 * n" "m_alt_type u = 3" "m_altstr_size u = n + 1"
      "m_altstr u = Ptr (bytes16 (of_nat (n + 1)) @ t @ [0, 0])" "m_cstr u = NULL_ptr" "wide_null t u"
  using assms by (auto simp: wide_form_def wide_plain_def wide_null_def elim!: evenE)

lemma slice_text: "length t = n * 2 \<Longrightarrow> slice 0 (n * 2) (t @ r) = Inr t"
  using slice_prefix [of t r] by simp

lemma get_with_null:
  assumes "wide_form t u"
  shows "\<exists>u'. get_str conv alloc u True True True False =
      Inr (bytes16 (of_nat (length t div 2 + 1)) @ t @ [0, 0], u') \<and> wide_form t u' \<and> wide_null t u'"
  using assms
proof (cases rule: wide_formE)
  case (plain n r)
  then have "slice 0 (n * 2) (t @ r) = Inr t" by (intro slice_text) simp
  with plain assms show ?thesis
    by (simp add: conversion_defs wide_form_def wide_null_def del: slice_eq_Inr)
next
  case (null n)
  with assms show ?thesis by (simp add: get_str_def desired_type_def deref_def Let_def)
qed

lemma get_plain:
  assumes "wide_form t u"
  shows "\<exists>u' r. get_str conv alloc u True True False False =
      Inr (bytes16 (of_nat (length t div 2)) @ t @ r, u') \<and> wide_form t u' \<and> wide_plain t u'"
  using assms
proof (cases rule: wide_formE)
  case (null n)
  then have "slice 0 (n * 2) (t @ [0, 0]) = Inr t" by (intro slice_text) simp
  with null assms show ?thesis
    by (simp add: conversion_defs wide_form_def wide_plain_def del: slice_eq_Inr)
next
  case (plain n r)
  with assms show ?thesis by (simp add: get_str_def desired_type_def deref_def Let_def)
qed

text \<open>What a message gets: the text with its null.\<close>

lemma send_wide_len:
  assumes "wide_form t u"
  shows "send_len conv alloc u False True True = Inr (length t + 2, u)"
  using assms by (cases rule: wide_formE) (simp_all add: send_len_def Let_def)

lemma send_wide:
  assumes "wide_form t u"
  shows "\<exists>u'. get_str conv alloc u False True True False = Inr (t @ [0, 0], u') \<and> wide_form t u' \<and> wide_null t u'"
  using assms
proof (cases rule: wide_formE)
  case (plain n r)
  then have "slice 0 (n * 2) (t @ r) = Inr t" by (intro slice_text) simp
  with plain assms show ?thesis
    by (simp add: conversion_defs wide_form_def wide_null_def del: slice_eq_Inr)
next
  case (null n)
  with assms show ?thesis by (simp add: get_str_def desired_type_def deref_def Let_def)
qed

section \<open>Comparison\<close>

lemma own_len:
  assumes "wide_form t u"
  shows "send_len conv alloc u (has (m_alt_type u) HAS_LEN) (has (m_alt_type u) WIDE)
    (\<not> has (m_alt_type u) NO_NULL) = Inr (2 + 2 * m_altstr_size u, u)"
  using assms by (cases rule: wide_formE) (simp_all add: send_len_def Let_def)

lemma memeq_header:
  assumes "length a = 2 * n" and "length b = 2 * k" and "n < 65536" and "k < 65536"
  shows "memeq (bytes16 (of_nat n) @ a @ x) (bytes16 (of_nat k) @ b @ y) (2 + 2 * n) = Inr (a = b)"
proof -
  have "memeq (bytes16 (of_nat n) @ a @ x) (bytes16 (of_nat k) @ b @ y) (2 + 2 * n) =
    (if n = k then memeq (a @ x) (b @ y) (2 * n) else Inr False)"
    using memeq_append [of "bytes16 (of_nat n)" "bytes16 (of_nat k)" "a @ x" "b @ y" "2 * n"] assms(3,4)
    by (simp add: bytes16_inj of_nat_u16_inj)
  also have "\<dots> = Inr (a = b)"
    using memeq_append [of a b x y 0] assms(1,2) by auto
  finally show ?thesis .
qed

lemma eq_wide:
  assumes "wide_form t u" and "wide_form s v"
  shows "\<exists>u'. eq_string conv alloc u v = Inr (t = s, u') \<and> wide_form t u' \<and> m_alt_type u' = m_alt_type v"
proof -
  have small: "length t \<le> 512" "length s \<le> 512" using assms by (auto simp: wide_form_def)
  from assms(2) show ?thesis
  proof (cases rule: wide_formE)
    case v: (plain k q)
    obtain u1 r where g: "get_str conv alloc u True True False False = Inr (bytes16 (of_nat (length t div 2)) @ t @ r, u1)"
      "wide_form t u1" "wide_plain t u1" using get_plain [OF assms(1)] by blast
    have n: "length t = 2 * (length t div 2)" using assms(1) by (simp add: wide_form_def)
    have m: "memeq (bytes16 (of_nat (length t div 2)) @ t @ x) (bytes16 (of_nat k) @ s @ q) (2 + 2 * (length t div 2)) =
        Inr (t = s)" for x
      using n v(1) small by (intro memeq_header) auto
    show ?thesis
      using assms(1)
    proof (cases rule: wide_formE)
      case (plain n r)
      with v m [of r] own_len [OF assms(1), of conv alloc] assms(1) show ?thesis
        by (simp add: eq_string_def Let_def deref_def)
    next
      case (null n)
      have "m_altstr_size u1 = length t div 2 \<and> m_alt_type u1 = 11" using g(3) by (simp add: wide_plain_def)
      with null v g m [of r] own_len [OF g(2), of conv alloc] show ?thesis
        by (simp add: eq_string_def Let_def deref_def)
    qed
  next
    case v: (null k)
    obtain u1 where g: "get_str conv alloc u True True True False =
        Inr (bytes16 (of_nat (length t div 2 + 1)) @ t @ [0, 0], u1)"
      "wide_form t u1" "wide_null t u1" using get_with_null [OF assms(1)] by blast
    have n: "length (t @ [0, 0]) = 2 * (length t div 2 + 1)" using assms(1) by (simp add: wide_form_def)
    have m: "memeq (bytes16 (of_nat (length t div 2 + 1)) @ t @ [0, 0]) (bytes16 (of_nat (k + 1)) @ s @ [0, 0])
        (2 + 2 * (length t div 2 + 1)) = Inr (t = s)"
      using memeq_header [of "t @ [0, 0]" "length t div 2 + 1" "s @ [0, 0]" "k + 1" "[]" "[]"] n v(1) small
      by simp
    show ?thesis
      using assms(1)
    proof (cases rule: wide_formE)
      case (plain n r)
      have "m_altstr_size u1 = length t div 2 + 1 \<and> m_alt_type u1 = 3" using g(3) by (simp add: wide_null_def)
      with plain v g m own_len [OF g(2), of conv alloc] show ?thesis
        by (simp add: eq_string_def Let_def deref_def)
    next
      case (null n)
      with v m own_len [OF assms(1), of conv alloc] assms(1) show ?thesis
        by (simp add: eq_string_def Let_def deref_def)
    qed
  qed
qed

section \<open>Copies\<close>

lemma assign_plain:
  assumes "wide_form t v" and "wide_plain t v"
  shows "\<exists>u. assign_string empty_string v = Inr u \<and> wide_form t u \<and> wide_plain t u"
  using assms(1)
proof (cases rule: wide_formE)
  case (plain n r)
  have "slice 0 (n * 2 + 2) ((bytes16 (of_nat n) @ t) @ r) = Inr (bytes16 (of_nat n) @ t)"
    using slice_prefix [of "bytes16 (of_nat n) @ t" r] plain(1) by (simp add: mult.commute)
  with plain assms(1) show ?thesis
    by (simp add: assign_string_def free_strings_def empty_string_def Let_def alt_len_def deref_def
        wide_form_def wide_plain_def del: slice_eq_Inr)
qed (use assms(2) in \<open>simp add: wide_plain_def\<close>)

text \<open>
  The length computed for the copy counts the null once more when the string already has it: the
  copy reads two bytes behind the source.
\<close>

lemma assign_null:
  assumes "wide_form t v" and "wide_null t v"
  shows "assign_string empty_string v = Inl Out_Of_Bounds"
  using assms(1)
proof (cases rule: wide_formE)
  case (null n)
  with assms(1) show ?thesis
    by (simp add: assign_string_def free_strings_def empty_string_def Let_def alt_len_def deref_def
        wide_form_def slice_def)
qed (use assms(2) in \<open>simp add: wide_null_def\<close>)

theorem copy_of_sent_name_overreads:
  assumes "wide_form t u"
  shows "\<exists>p u'. get_str conv alloc u False True True False = Inr (p, u') \<and>
    assign_string empty_string u' = Inl Out_Of_Bounds"
  using send_wide [OF assms] assign_null by blast

section \<open>A name in a fixed field of 512 bytes\<close>

text \<open>The text of a name is what comes before the first null character.\<close>

fun wide_text :: "byte list \<Rightarrow> byte list" where
  "wide_text (a # b # bs) = (if a = 0 \<and> b = 0 then [] else a # b # wide_text bs)"
| "wide_text bs = []"

lemma wide_text_prefix:
  "length (wide_text bs) \<le> length bs \<and> even (length (wide_text bs)) \<and>
   take (length (wide_text bs)) bs = wide_text bs"
  by (induction bs rule: wide_text.induct) auto

lemma scan_wide:
  "even (len - off) \<Longrightarrow> off \<le> len \<Longrightarrow> len \<le> length inbuf \<Longrightarrow>
   scan_null inbuf (int len) True off = Inr (off + length (wide_text (drop off (take len inbuf))))"
proof (induction "len - off" arbitrary: off rule: less_induct)
  case less
  show ?case
  proof (cases "off < len")
    case False
    with less.prems show ?thesis by (subst scan_null.simps) simp
  next
    case True
    with less.prems(1) have o: "off + 1 < len" by (cases "len - off = 1") auto
    with less.prems(3) have "drop off (take len inbuf) = inbuf ! off # inbuf ! Suc off # drop (off + 2) (take len inbuf)"
      using Cons_nth_drop_Suc [of off "take len inbuf"] Cons_nth_drop_Suc [of "Suc off" "take len inbuf"]
      by simp
    moreover have "scan_null inbuf (int len) True (off + 2) =
        Inr (off + 2 + length (wide_text (drop (off + 2) (take len inbuf))))"
      using less.prems o by (intro less.hyps) auto
    ultimately show ?thesis
      using scan_null_step [OF True less.prems(3) o] by simp
  qed
qed

lemma name_field:
  assumes "512 \<le> length bs"
  defines "t \<equiv> wide_text (take 512 bs)"
  shows "\<exists>u. UruString_buf bs 512 False True True = Inr u \<and> wide_form t u \<and> wide_plain t u"
proof -
  have t: "length t \<le> 512" "even (length t)"
    using wide_text_prefix [of "take 512 bs"] assms(1) by (simp_all add: t_def)
  have "take (length t) bs = t"
    using wide_text_prefix [of "take 512 bs"] by (clarsimp simp: t_def min_absorb1)
  note t = t this
  then obtain n where n: "length t = 2 * n" by (auto elim: evenE)
  have scan: "scan_null bs 512 True 0 = Inr (2 * n)"
    using scan_wide [of 512 0 bs] assms(1) n by (simp add: t_def)
  define a where "a = (if 2 * n \<ge> 512 then 512 else 2 * n + 2)"
  have a: "a \<le> length bs" "2 * n \<le> a" using assms(1) t(1) n by (auto simp: a_def)
  have loc: "locate_null bs 512 True = Inr (9, n, a, False)"
    using t(1) n unfolding locate_null_def scan rbind_Inr Let_def a_def by auto
  let ?u = "empty_string\<lparr>m_altstr := Ptr (bytes16 (of_nat n) @ take a bs), m_owns_altstr := True,
    m_alt_type := 11, m_arrival_len := a, m_altstr_size := n\<rparr>"
  have "UruString_buf bs 512 False True True = Inr ?u"
    using a(1) by (simp add: UruString_buf_def loc store_string_def Let_def slice_def)
  moreover have "take a bs = t @ drop (2 * n) (take a bs)"
    using append_take_drop_id [of "2 * n" "take a bs"] a(2) t(3) n by (simp add: min_def)
  then have "wide_plain t ?u" using n by (auto simp: wide_plain_def)
  ultimately show ?thesis
    using t(1,2) by (intro exI [of _ ?u]) (simp add: wide_form_def empty_string_def)
qed

section \<open>The text of a string\<close>

definition name_text :: "uru_string \<Rightarrow> byte list" where
  "name_text u =
     (case m_altstr u of
        Ptr bs \<Rightarrow> take (2 * (if has (m_alt_type u) NO_NULL then m_altstr_size u else m_altstr_size u - 1)) (drop 2 bs)
      | _ \<Rightarrow> [])"

lemma name_text_form: "wide_form t u \<Longrightarrow> name_text u = t"
  by (erule wide_formE) (simp_all add: name_text_def)

lemma plain_or_null:
  "wide_form t u \<Longrightarrow> (wide_plain t u \<longleftrightarrow> m_alt_type u = 11) \<and> (wide_null t u \<longleftrightarrow> m_alt_type u = 3)"
  by (auto simp: wide_form_def wide_plain_def wide_null_def)

text \<open>The name field of a message.\<close>

definition name_wire :: "byte list \<Rightarrow> byte list" where
  "name_wire t = t @ replicate (512 - length t) 0"

lemma name_wire_null:
  assumes "length t \<le> 510"
  shows "(t @ [0, 0]) @ replicate (512 - (length t + 2)) 0 = name_wire t"
proof -
  from assms have "512 - length t = Suc (Suc (512 - (length t + 2)))" by simp
  then show ?thesis by (simp only: name_wire_def replicate_Suc) simp
qed

text \<open>A name that was not copied is sent with its null like a copied one.\<close>

lemma uncopied_name:
  assumes "512 \<le> length bs"
  defines "t \<equiv> wide_text (take 512 bs)"
  shows "\<exists>u. UruString_buf bs 512 False True False = Inr u \<and> send_len conv alloc u False True True = Inr (length t + 2, u) \<and>
    (\<exists>u'. get_str conv alloc u False True True False = Inr (t @ [0, 0], u'))"
proof -
  have t: "length t \<le> 512" "even (length t)" "take (length t) bs = t"
    using wide_text_prefix [of "take 512 bs"] assms(1) by (auto simp: t_def min_absorb1)
  then obtain n where n: "length t = 2 * n" by (auto elim: evenE)
  have scan: "scan_null bs 512 True 0 = Inr (2 * n)"
    using scan_wide [of 512 0 bs] assms(1) n by (simp add: t_def)
  define a where "a = (if 2 * n \<ge> 512 then 512 else 2 * n + 2)"
  have loc: "locate_null bs 512 True = Inr (9, n, a, False)"
    using t(1) n unfolding locate_null_def scan rbind_Inr Let_def a_def by auto
  let ?u = "empty_string\<lparr>m_altstr := Ptr bs, m_alt_type := 9, m_arrival_len := a, m_altstr_size := n\<rparr>"
  have u: "UruString_buf bs 512 False True False = Inr ?u"
    by (simp add: UruString_buf_def loc store_string_def Let_def)
  have "n * 2 \<le> length bs" "take (n * 2) bs = t" using assms(1) t(1,3) n by (simp_all add: mult.commute)
  then have "slice 0 (n * 2) bs = Inr t" by (simp add: slice_def)
  then have "\<exists>u'. get_str conv alloc ?u False True True False = Inr (t @ [0, 0], u')"
    by (simp add: conversion_defs empty_string_def del: slice_eq_Inr)
  moreover have "send_len conv alloc ?u False True True = Inr (length t + 2, ?u)"
    using n by (simp add: send_len_def Let_def)
  ultimately show ?thesis using u by blast
qed

end
