(* ===== verification/Var_Sync.thy ===== *)
theory Var_Sync
  imports Game_Mgr Wide_Name "HOL-Library.Sublist"
begin

text \<open>
  \<open>VarSyncGameMgr\<close> of \<open>GameState.cc\<close>: named numeric variables that the owner of a game creates and
  sets and that the server repeats to all players.  A variable is referred to by its position,
  counted from 1, so the positions must never move.  A value is eight bytes the server does not
  look into.

  Names are \<open>UruString\<close>s, and sending one changes the state it is kept in (\<open>Wide_Name\<close>).
  \<open>grows n\<close> says whether \<open>push_back\<close> on a vector of \<open>n\<close> variables moves them to new memory, which
  copies every variable; this is a choice of the C++ library.  The calls of \<open>c_str\<close> for the log are
  left out: they only touch local strings.
\<close>

record var =
  v_name :: uru_string
  v_val :: "byte list"

record var_sync = game_mgr +
  m_vars :: "var list"

definition VarSyncGameMgr :: "u32 \<Rightarrow> var_sync" where
  "VarSyncGameMgr gid =
     \<lparr>m_gameid = gid, m_owner = 0, m_players = [], m_setups = [], m_vars = []\<rparr>"

section \<open>Operations\<close>

text \<open>
  \<open>GameMgr_VarSync_VarCreated_Message\<close>: the name has a field of 512 bytes; what it does not fill
  is cleared, and the size of that rest is computed without a check.
\<close>

definition var_created ::
  "iconv \<Rightarrow> (nat \<Rightarrow> byte list) \<Rightarrow> u32 \<Rightarrow> nat \<Rightarrow> uru_string \<Rightarrow> byte list \<Rightarrow> (srv_msg \<times> uru_string) res" where
  "var_created conv alloc gid idx name val =
     rbind (send_len conv alloc name False True True) (\<lambda>(str_len, name1).
     rbind (get_str conv alloc name1 False True True False) (\<lambda>(str, name2).
     rbind (slice 0 str_len str) (\<lambda>text.
       if str_len \<le> 512
       then Inr (GameMgr_VarSync_VarCreated_Message gid idx (text @ replicate (512 - str_len) 0) val, name2)
       else Inl Out_Of_Bounds)))"

fun send_vars ::
  "iconv \<Rightarrow> (nat \<Rightarrow> byte list) \<Rightarrow> u32 \<Rightarrow> kinum \<Rightarrow> nat \<Rightarrow> var list \<Rightarrow> (var list \<times> out list) res" where
  "send_vars conv alloc gid player idx [] = Inr ([], [])"
| "send_vars conv alloc gid player idx (v # vs) =
     rbind (var_created conv alloc gid (idx + 1) (v_name v) (v_val v)) (\<lambda>(msg, name).
     rbind (send_vars conv alloc gid player (idx + 1) vs) (\<lambda>(vs', os).
       Inr (v\<lparr>v_name := name\<rparr> # vs', Send player msg # os)))"

definition vs_initialize_game ::
  "iconv \<Rightarrow> (nat \<Rightarrow> byte list) \<Rightarrow> gm_msg \<Rightarrow> kinum \<Rightarrow> var_sync \<Rightarrow> (bool \<times> var_sync \<times> out list) res" where
  "vs_initialize_game conv alloc msg player g =
     (let g1 = (if m_owner g = 0 then g\<lparr>m_owner := player\<rparr> else g)
      in if setup_data msg + 1 < length (gm_buf msg) then Inr (False, g1, [])
         else let g2 = add_player player g1;
                  join = send_join player g2
              in rbind (send_setup_reply msg player g2) (\<lambda>o1.
                 rbind (send_vars conv alloc (m_gameid g2) player 0 (m_vars g2)) (\<lambda>(vars, o2).
                 Inr (True, g2\<lparr>m_vars := vars\<rparr>,
                   o1 @ (if m_owner g2 = player then join else []) @ o2 @
                   [Send player (GameMgr_Simple_Message (m_gameid g2) Srv2Cli_VarSync_AllVarsSent)] @
                   (if m_owner g2 \<noteq> player then join else [])))))"

fun find_var ::
  "iconv \<Rightarrow> (nat \<Rightarrow> byte list) \<Rightarrow> uru_string \<Rightarrow> nat \<Rightarrow> var list \<Rightarrow> (nat option \<times> uru_string) res" where
  "find_var conv alloc name idx [] = Inr (None, name)"
| "find_var conv alloc name idx (v # vs) =
     rbind (eq_string conv alloc name (v_name v)) (\<lambda>(same, name').
       if same then Inr (Some idx, name') else find_var conv alloc name' (idx + 1) vs)"

definition copy_var :: "var \<Rightarrow> var res" where
  "copy_var v = rbind (assign_string empty_string (v_name v)) (\<lambda>n. Inr (v\<lparr>v_name := n\<rparr>))"

fun copy_vars :: "var list \<Rightarrow> var list res" where
  "copy_vars [] = Inr []"
| "copy_vars (v # vs) = rbind (copy_var v) (\<lambda>v'. rbind (copy_vars vs) (\<lambda>vs'. Inr (v' # vs')))"

definition push_back :: "(nat \<Rightarrow> bool) \<Rightarrow> var list \<Rightarrow> var \<Rightarrow> var list res" where
  "push_back grows vars v =
     rbind (copy_var v) (\<lambda>v'.
     rbind (if grows (length vars) then copy_vars vars else Inr vars) (\<lambda>vars'. Inr (vars' @ [v'])))"

definition vs_create ::
  "iconv \<Rightarrow> (nat \<Rightarrow> byte list) \<Rightarrow> (nat \<Rightarrow> bool) \<Rightarrow> gm_msg \<Rightarrow> kinum \<Rightarrow> var_sync \<Rightarrow> (var_sync \<times> out list) res" where
  "vs_create conv alloc grows msg player g =
     (if length (gm_buf msg) < header_len + 520 then Inl Truncated_Message
      else rbind (UruString_buf (drop header_len (gm_buf msg)) 512 False True True) (\<lambda>varname.
           rbind (find_var conv alloc varname 0 (m_vars g)) (\<lambda>(found, varname').
           (case found of
             Some idx \<Rightarrow>
               (let v = m_vars g ! idx
                in rbind (var_created conv alloc (m_gameid g) (idx + 1) (v_name v) (v_val v)) (\<lambda>(vmsg, name).
                   Inr (g\<lparr>m_vars := (m_vars g)[idx := v\<lparr>v_name := name\<rparr>]\<rparr>, [Send player vmsg])))
           | None \<Rightarrow>
               rbind (assign_string empty_string varname') (\<lambda>newname.
               rbind (slice (header_len + 512) 8 (gm_buf msg)) (\<lambda>val.
               rbind (push_back grows (m_vars g) \<lparr>v_name = newname, v_val = val\<rparr>) (\<lambda>vars.
               let g' = g\<lparr>m_vars := vars\<rparr>
               in rbind (var_created conv alloc (m_gameid g') (length vars) newname val) (\<lambda>(vmsg, name).
                  Inr (g', send_to_all vmsg g')))))))))"

definition vs_set :: "gm_msg \<Rightarrow> var_sync \<Rightarrow> (var_sync \<times> out list) res" where
  "vs_set msg g =
     (if length (gm_buf msg) < header_len + 12 then Inl Truncated_Message
      else rbind (read32 (gm_buf msg) header_len) (\<lambda>idx.
           rbind (if idx > 0 \<and> unat idx \<le> length (m_vars g)
                  then rbind (slice (header_len + 4) 8 (gm_buf msg)) (\<lambda>val.
                       Inr (g\<lparr>m_vars := (m_vars g)[unat idx - 1 := (m_vars g ! (unat idx - 1))\<lparr>v_val := val\<rparr>]\<rparr>))
                  else Inr g) (\<lambda>g'.
           rbind (clobber_msgtype msg 5) (\<lambda>msg'. Inr (g', send_to_all (Redistributed (gm_buf msg')) g')))))"

definition vs_got_message ::
  "iconv \<Rightarrow> (nat \<Rightarrow> byte list) \<Rightarrow> (nat \<Rightarrow> bool) \<Rightarrow> gm_msg \<Rightarrow> kinum \<Rightarrow> var_sync \<Rightarrow>
   (bool \<times> var_sync \<times> out list) res" where
  "vs_got_message conv alloc grows msg player g =
     (if player \<noteq> m_owner g then Inr (True, g, [])
      else if gm_msgtype msg = 7
      then rbind (vs_create conv alloc grows msg player g) (\<lambda>(g', os). Inr (True, g', os))
      else if gm_msgtype msg = 4
      then rbind (vs_set msg g) (\<lambda>(g', os). Inr (True, g', os))
      else Inr (False, g, []))"

definition vs_player_left :: "kinum \<Rightarrow> var_sync \<Rightarrow> var_sync \<times> out list" where
  "vs_player_left player g =
     (let (g', os) = GameMgr_player_left player (g\<lparr>m_owner := 1\<rparr>)
      in if m_players g' = [] then (g'\<lparr>m_owner := 0, m_vars := []\<rparr>, os) else (g', os))"

fun vs_step ::
  "iconv \<Rightarrow> (nat \<Rightarrow> byte list) \<Rightarrow> (nat \<Rightarrow> bool) \<Rightarrow> (unit, unit) mgr_event \<Rightarrow> var_sync \<Rightarrow>
   (var_sync \<times> out list) res" where
  "vs_step conv alloc grows (Setup_Msg msg player) g =
     rbind (vs_initialize_game conv alloc msg player g) (\<lambda>(ok, g', os). Inr (g', os))"
| "vs_step conv alloc grows (Game_Msg i msg player) g =
     rbind (vs_got_message conv alloc grows msg player g) (\<lambda>(ok, g', os). Inr (g', os))"
| "vs_step conv alloc grows (Player_Left player) g = Inr (vs_player_left player g)"
| "vs_step conv alloc grows (Own_Event e) g = Inr (g, [])"

section \<open>The variables of a game\<close>

definition var_ok :: "var \<Rightarrow> bool" where
  "var_ok v \<longleftrightarrow> wide_form (name_text (v_name v)) (v_name v) \<and> length (name_text (v_name v)) \<le> 510 \<and>
     length (v_val v) = 8"

definition var_names :: "var list \<Rightarrow> byte list list" where
  "var_names vs = map (\<lambda>v. name_text (v_name v)) vs"

definition vs_inv :: "var_sync \<Rightarrow> bool" where
  "vs_inv g \<longleftrightarrow> roster_ok g \<and> list_all var_ok (m_vars g) \<and> distinct (var_names (m_vars g))"

lemma var_names_simps [simp]:
  "var_names [] = []" "var_names (v # vs) = name_text (v_name v) # var_names vs"
  "var_names (vs @ ws) = var_names vs @ var_names ws" "length (var_names vs) = length vs"
  by (simp_all add: var_names_def)

lemma var_names_nth [simp]: "i < length vs \<Longrightarrow> var_names vs ! i = name_text (v_name (vs ! i))"
  by (simp add: var_names_def)

lemma update_var:
  assumes "i < length vs" and "name_text (v_name v) = name_text (v_name (vs ! i))" and "var_ok v"
    and "list_all var_ok vs"
  shows "var_names (vs[i := v]) = var_names vs \<and> list_all var_ok (vs[i := v])"
proof -
  have "var_names (vs[i := v]) = (var_names vs)[i := name_text (v_name (vs ! i))]"
    using assms(2) by (simp add: var_names_def map_update)
  also have "\<dots> = var_names vs"
    using assms(1) by (metis list_update_id var_names_nth)
  finally show ?thesis
    using assms by (auto simp: list_all_length nth_list_update)
qed

lemma renamed: "var_ok v \<Longrightarrow> wide_form (name_text (v_name v)) u \<Longrightarrow> var_ok (v\<lparr>v_name := u\<rparr>)"
  using name_text_form by (auto simp: var_ok_def)

subsection \<open>Sending\<close>

lemma created_message:
  assumes "wide_form t u"
  shows "\<exists>u'. var_created conv alloc gid idx u val =
      (if length t \<le> 510 then Inr (GameMgr_VarSync_VarCreated_Message gid idx (name_wire t) val, u')
       else Inl Out_Of_Bounds) \<and> wide_form t u' \<and> m_alt_type u' = 3"
proof -
  obtain u' where u': "get_str conv alloc u False True True False = Inr (t @ [0, 0], u')"
    "wide_form t u'" "m_alt_type u' = 3"
    using send_wide [OF assms] by (auto simp: wide_null_def)
  have s: "slice 0 (length t + 2) (t @ [0, 0]) = Inr (t @ [0, 0])"
    using slice_prefix [of "t @ [0, 0]" "[]"] by simp
  have "name_wire t = (t @ [0, 0]) @ replicate (512 - (length t + 2)) 0" if "length t + 2 \<le> 512"
  proof -
    from that have "512 - length t = Suc (Suc (512 - (length t + 2)))" by simp
    then show ?thesis by (simp only: name_wire_def replicate_Suc) simp
  qed
  moreover have "length t + 2 \<le> 512 \<longleftrightarrow> length t \<le> 510" by auto
  ultimately show ?thesis
    using u'(2,3) unfolding var_created_def send_wide_len [OF assms] rbind_Inr prod.case u'(1) s by auto
qed

lemma created_ok:
  assumes "var_ok v"
  shows "\<exists>u'. var_created conv alloc gid idx (v_name v) val =
      Inr (GameMgr_VarSync_VarCreated_Message gid idx (name_wire (name_text (v_name v))) val, u') \<and>
    wide_form (name_text (v_name v)) u' \<and> m_alt_type u' = 3"
  using created_message [of "name_text (v_name v)" "v_name v"] assms unfolding var_ok_def by fastforce

definition var_messages :: "u32 \<Rightarrow> kinum \<Rightarrow> nat \<Rightarrow> var list \<Rightarrow> out list" where
  "var_messages gid player idx vs =
     map (\<lambda>(i, v). Send player (GameMgr_VarSync_VarCreated_Message gid (i + 1)
        (name_wire (name_text (v_name v))) (v_val v))) (zip [idx..<idx + length vs] vs)"

lemma var_messages_Cons:
  "var_messages gid player idx (v # vs) =
   Send player (GameMgr_VarSync_VarCreated_Message gid (idx + 1) (name_wire (name_text (v_name v))) (v_val v)) #
   var_messages gid player (idx + 1) vs"
  by (simp add: var_messages_def upt_rec)

lemma send_vars_ok:
  "list_all var_ok vs \<Longrightarrow>
   \<exists>vs'. send_vars conv alloc gid player idx vs = Inr (vs', var_messages gid player idx vs) \<and>
     list_all var_ok vs' \<and> var_names vs' = var_names vs \<and> map v_val vs' = map v_val vs \<and>
     list_all (\<lambda>v. m_alt_type (v_name v) = 3) vs'"
proof (induction vs arbitrary: idx)
  case (Cons v vs)
  then have v: "var_ok v" by simp
  from created_ok [OF v, of conv alloc gid "idx + 1" "v_val v"] obtain u where
    u: "var_created conv alloc gid (idx + 1) (v_name v) (v_val v) =
      Inr (GameMgr_VarSync_VarCreated_Message gid (idx + 1) (name_wire (name_text (v_name v))) (v_val v), u)"
    "wide_form (name_text (v_name v)) u" "m_alt_type u = 3" by blast
  from Cons.IH [of "idx + 1"] Cons.prems obtain vs' where
    "send_vars conv alloc gid player (idx + 1) vs = Inr (vs', var_messages gid player (idx + 1) vs)"
    "list_all var_ok vs'" "var_names vs' = var_names vs" "map v_val vs' = map v_val vs"
    "list_all (\<lambda>v. m_alt_type (v_name v) = 3) vs'" by auto
  with u renamed [OF v u(2)] name_text_form [OF u(2)] show ?case
    by (simp add: var_messages_Cons)
qed (simp add: var_messages_def)

subsection \<open>Searching\<close>

text \<open>
  The comparison brings the name that is searched for into the form of the name it meets, so after
  an unsuccessful search it has the form of the last one.
\<close>

definition last_form :: "uru_string \<Rightarrow> var list \<Rightarrow> u32" where
  "last_form u vs = m_alt_type (if vs = [] then u else v_name (last vs))"

lemma find_var_ok:
  "wide_form t u \<Longrightarrow> list_all var_ok vs \<Longrightarrow>
   \<exists>u' r. find_var conv alloc u idx vs = Inr (r, u') \<and> wide_form t u' \<and>
     (case r of None \<Rightarrow> t \<notin> set (var_names vs) \<and> m_alt_type u' = last_form u vs
      | Some i \<Rightarrow> idx \<le> i \<and> i - idx < length vs \<and> var_names vs ! (i - idx) = t)"
proof (induction vs arbitrary: idx u)
  case Nil
  then show ?case by (simp add: last_form_def)
next
  case (Cons v vs)
  from Cons.prems(2) have "wide_form (name_text (v_name v)) (v_name v)" by (simp add: var_ok_def)
  from eq_wide [OF Cons.prems(1) this, of conv alloc] obtain u1 where
    u1: "eq_string conv alloc u (v_name v) = Inr (t = name_text (v_name v), u1)" "wide_form t u1"
    "m_alt_type u1 = m_alt_type (v_name v)" by blast
  show ?case
  proof (cases "t = name_text (v_name v)")
    case True
    with u1 show ?thesis by simp
  next
    case False
    have "last_form u1 vs = last_form u (v # vs)"
      using u1(3) by (simp add: last_form_def)
    moreover from Cons.IH [OF u1(2), of "idx + 1"] Cons.prems(2) obtain u' r where
      "find_var conv alloc u1 (idx + 1) vs = Inr (r, u')" "wide_form t u'"
      "case r of None \<Rightarrow> t \<notin> set (var_names vs) \<and> m_alt_type u' = last_form u1 vs
       | Some i \<Rightarrow> idx + 1 \<le> i \<and> i - (idx + 1) < length vs \<and> var_names vs ! (i - (idx + 1)) = t"
      by auto
    ultimately show ?thesis
      using False u1 by (cases r) (auto simp: nth_Cons' Suc_diff_le)
  qed
qed

subsection \<open>Copying\<close>

lemma form_cases: "wide_form t u \<Longrightarrow> m_alt_type u = 11 \<or> m_alt_type u = 3"
  by (erule wide_formE) auto

lemma assign_form:
  assumes "wide_form t u"
  shows "(m_alt_type u = 11 \<longrightarrow> (\<exists>u'. assign_string empty_string u = Inr u' \<and> wide_form t u' \<and> m_alt_type u' = 11)) \<and>
    (m_alt_type u = 3 \<longrightarrow> assign_string empty_string u = Inl Out_Of_Bounds)"
  using assign_plain [OF assms] assign_null [OF assms] plain_or_null [OF assms] by (auto simp: wide_plain_def)

lemma copy_var_ok:
  assumes "var_ok v" and "copy_var v = Inr v'"
  shows "var_ok v' \<and> name_text (v_name v') = name_text (v_name v) \<and> v_val v' = v_val v"
proof -
  from assms(1) have w: "wide_form (name_text (v_name v)) (v_name v)" by (simp add: var_ok_def)
  from assms(2) obtain n where n: "assign_string empty_string (v_name v) = Inr n" "v' = v\<lparr>v_name := n\<rparr>"
    by (auto simp: copy_var_def rbind_eq_Inr)
  then have "wide_form (name_text (v_name v)) n"
    using assign_form [OF w] form_cases [OF w] by auto
  with n renamed [OF assms(1)] name_text_form show ?thesis by simp
qed

lemma copy_vars_ok:
  "list_all var_ok vs \<Longrightarrow> copy_vars vs = Inr vs' \<Longrightarrow>
   list_all var_ok vs' \<and> var_names vs' = var_names vs \<and> map v_val vs' = map v_val vs"
proof (induction vs arbitrary: vs')
  case (Cons v vs)
  then obtain v1 vs1 where v1: "copy_var v = Inr v1" "copy_vars vs = Inr vs1" "vs' = v1 # vs1"
    by (auto simp: rbind_eq_Inr)
  with Cons.IH [OF _ v1(2)] Cons.prems(1) copy_var_ok [OF _ v1(1)] show ?case by simp
qed simp

lemma push_back_ok:
  assumes "list_all var_ok vs" and "var_ok v" and "push_back grows vs v = Inr vs'"
  shows "list_all var_ok vs' \<and> var_names vs' = var_names vs @ [name_text (v_name v)] \<and>
    map v_val vs' = map v_val vs @ [v_val v]"
proof -
  from assms(3) obtain v1 vs1 where c: "copy_var v = Inr v1" "vs' = vs1 @ [v1]"
    "grows (length vs) \<and> copy_vars vs = Inr vs1 \<or> vs1 = vs"
    by (auto simp: push_back_def rbind_eq_Inr split: if_splits)
  from c(3) copy_vars_ok [OF assms(1)] assms(1)
  have "list_all var_ok vs1 \<and> var_names vs1 = var_names vs \<and> map v_val vs1 = map v_val vs" by auto
  with c(2) copy_var_ok [OF assms(2) c(1)] show ?thesis by simp
qed

section \<open>Creating a variable\<close>

text \<open>The name in a message that creates a variable, and the value that comes with it.\<close>

definition msg_name :: "gm_msg \<Rightarrow> byte list" where
  "msg_name msg = wide_text (take 512 (drop header_len (gm_buf msg)))"

definition msg_value :: "gm_msg \<Rightarrow> byte list" where
  "msg_value msg = take 8 (drop (header_len + 512) (gm_buf msg))"

lemma create_search:
  assumes "vs_inv g" and "header_len + 520 \<le> length (gm_buf msg)"
  shows "\<exists>u u' r. UruString_buf (drop header_len (gm_buf msg)) 512 False True True = Inr u \<and>
    find_var conv alloc u 0 (m_vars g) = Inr (r, u') \<and> wide_form (msg_name msg) u' \<and>
    (case r of None \<Rightarrow> msg_name msg \<notin> set (var_names (m_vars g)) \<and>
        m_alt_type u' = (if m_vars g = [] then 11 else m_alt_type (v_name (last (m_vars g))))
     | Some i \<Rightarrow> i < length (m_vars g) \<and> var_names (m_vars g) ! i = msg_name msg)"
proof -
  have "512 \<le> length (drop header_len (gm_buf msg))" using assms(2) by simp
  from name_field [OF this] obtain u where
    u: "UruString_buf (drop header_len (gm_buf msg)) 512 False True True = Inr u"
    "wide_form (msg_name msg) u" "m_alt_type u = 11"
    by (auto simp: msg_name_def wide_plain_def)
  from assms(1) have "list_all var_ok (m_vars g)" by (simp add: vs_inv_def)
  from find_var_ok [OF u(2) this, of conv alloc 0] obtain u' r where
    f: "find_var conv alloc u 0 (m_vars g) = Inr (r, u')" "wide_form (msg_name msg) u'"
    "case r of None \<Rightarrow> msg_name msg \<notin> set (var_names (m_vars g)) \<and> m_alt_type u' = last_form u (m_vars g)
     | Some i \<Rightarrow> 0 \<le> i \<and> i - 0 < length (m_vars g) \<and> var_names (m_vars g) ! (i - 0) = msg_name msg" by blast
  with u show ?thesis
    by (intro exI [of _ u] exI [of _ u'] exI [of _ r]) (cases r; simp add: last_form_def)
qed

lemma create_value:
  assumes "header_len + 520 \<le> length (gm_buf msg)"
  shows "slice (header_len + 512) 8 (gm_buf msg) = Inr (msg_value msg)" "length (msg_value msg) = 8"
  using assms by (simp_all add: msg_value_def slice_def)

lemma vs_create_new_lem:
  assumes inv: "vs_inv g" and len: "header_len + 520 \<le> length (gm_buf msg)"
    and new: "msg_name msg \<notin> set (var_names (m_vars g))"
    and plain: "m_vars g = [] \<or> m_alt_type (v_name (last (m_vars g))) = 11"
    and room: "length (msg_name msg) \<le> 510"
  shows "\<exists>v. vs_create conv alloc (\<lambda>_. False) msg player g =
      Inr (g\<lparr>m_vars := m_vars g @ [v]\<rparr>,
        send_to_all (GameMgr_VarSync_VarCreated_Message (m_gameid g) (length (m_vars g) + 1)
          (name_wire (msg_name msg)) (msg_value msg)) g) \<and>
    var_ok v \<and> name_text (v_name v) = msg_name msg \<and> v_val v = msg_value msg \<and> m_alt_type (v_name v) = 11"
proof -
  obtain u u' r where s: "UruString_buf (drop header_len (gm_buf msg)) 512 False True True = Inr u"
    "find_var conv alloc u 0 (m_vars g) = Inr (r, u')" "wide_form (msg_name msg) u'"
    "case r of None \<Rightarrow> msg_name msg \<notin> set (var_names (m_vars g)) \<and>
        m_alt_type u' = (if m_vars g = [] then 11 else m_alt_type (v_name (last (m_vars g))))
     | Some i \<Rightarrow> i < length (m_vars g) \<and> var_names (m_vars g) ! i = msg_name msg"
    using create_search [OF inv len] by blast
  have r: "r = None \<and> m_alt_type u' = 11"
  proof (cases r)
    case None
    with s(4) plain show ?thesis by auto
  next
    case (Some i)
    with s(4) new nth_mem [of i "var_names (m_vars g)"] show ?thesis by simp
  qed
  obtain n where n: "assign_string empty_string u' = Inr n" "wide_form (msg_name msg) n" "m_alt_type n = 11"
    using assign_form [OF s(3)] r by blast
  obtain n' where n': "assign_string empty_string n = Inr n'" "wide_form (msg_name msg) n'" "m_alt_type n' = 11"
    using assign_form [OF n(2)] n(3) by blast
  obtain n'' where c: "var_created conv alloc (m_gameid g) (length (m_vars g) + 1) n (msg_value msg) =
      Inr (GameMgr_VarSync_VarCreated_Message (m_gameid g) (length (m_vars g) + 1) (name_wire (msg_name msg)) (msg_value msg), n'')"
    using created_message [OF n(2)] room by fastforce
  let ?v = "\<lparr>v_name = n', v_val = msg_value msg\<rparr>"
  have "push_back (\<lambda>_. False) (m_vars g) \<lparr>v_name = n, v_val = msg_value msg\<rparr> = Inr (m_vars g @ [?v])"
    by (simp add: push_back_def copy_var_def n'(1))
  with s r n(1) c create_value [OF len] len
  have "vs_create conv alloc (\<lambda>_. False) msg player g = Inr (g\<lparr>m_vars := m_vars g @ [?v]\<rparr>,
        send_to_all (GameMgr_VarSync_VarCreated_Message (m_gameid g) (length (m_vars g) + 1)
          (name_wire (msg_name msg)) (msg_value msg)) g)"
    by (simp add: vs_create_def send_to_all_def Let_def del: slice_eq_Inr)
  moreover have "var_ok ?v" using n' room create_value(2) [OF len] name_text_form [OF n'(2)] by (simp add: var_ok_def)
  ultimately show ?thesis using n' name_text_form [OF n'(2)] by (intro exI [of _ ?v]) simp
qed

text \<open>A name that exists: only the player who asked is told, the table keeps names and values.\<close>

lemma vs_create_known_lem:
  assumes inv: "vs_inv g" and len: "header_len + 520 \<le> length (gm_buf msg)"
    and i: "i < length (m_vars g)" "var_names (m_vars g) ! i = msg_name msg"
  shows "\<exists>vs. vs_create conv alloc grows msg player g = Inr (g\<lparr>m_vars := vs\<rparr>,
      [Send player (GameMgr_VarSync_VarCreated_Message (m_gameid g) (i + 1) (name_wire (msg_name msg))
         (v_val (m_vars g ! i)))]) \<and>
    list_all var_ok vs \<and> var_names vs = var_names (m_vars g) \<and> map v_val vs = map v_val (m_vars g)"
proof -
  obtain u u' r where s: "UruString_buf (drop header_len (gm_buf msg)) 512 False True True = Inr u"
    "find_var conv alloc u 0 (m_vars g) = Inr (r, u')" 
    "case r of None \<Rightarrow> msg_name msg \<notin> set (var_names (m_vars g)) \<and>
        m_alt_type u' = (if m_vars g = [] then 11 else m_alt_type (v_name (last (m_vars g))))
     | Some i \<Rightarrow> i < length (m_vars g) \<and> var_names (m_vars g) ! i = msg_name msg"
    using create_search [OF inv len] by blast
  have r: "r = Some i"
  proof (cases r)
    case None
    with s(3) i nth_mem [of i "var_names (m_vars g)"] show ?thesis by simp
  next
    case (Some j)
    with s(3) i inv have "distinct (var_names (m_vars g))" "j < length (m_vars g)"
      "var_names (m_vars g) ! j = var_names (m_vars g) ! i" by (simp_all add: vs_inv_def)
    with i(1) Some show ?thesis using nth_eq_iff_index_eq [of "var_names (m_vars g)" j i] by simp
  qed
  from inv i(1) have v: "var_ok (m_vars g ! i)" "list_all var_ok (m_vars g)"
    by (auto simp: vs_inv_def list_all_length)
  have t: "name_text (v_name (m_vars g ! i)) = msg_name msg" using i by simp
  obtain n where n: "var_created conv alloc (m_gameid g) (i + 1) (v_name (m_vars g ! i)) (v_val (m_vars g ! i)) =
      Inr (GameMgr_VarSync_VarCreated_Message (m_gameid g) (i + 1) (name_wire (msg_name msg)) (v_val (m_vars g ! i)), n)"
    "wide_form (msg_name msg) n"
    using created_ok [OF v(1)] t by metis
  let ?v = "(m_vars g ! i)\<lparr>v_name := n\<rparr>"
  have "name_text (v_name ?v) = name_text (v_name (m_vars g ! i))" "var_ok ?v"
    using n(2) t name_text_form renamed [OF v(1)] by simp_all
  note u = update_var [OF i(1) this v(2)]
  have "map v_val ((m_vars g)[i := ?v]) = (map v_val (m_vars g))[i := map v_val (m_vars g) ! i]"
    using i(1) by (simp add: map_update)
  then have "map v_val ((m_vars g)[i := ?v]) = map v_val (m_vars g)" by (simp only: list_update_id)
  moreover have "vs_create conv alloc grows msg player g = Inr (g\<lparr>m_vars := (m_vars g)[i := ?v]\<rparr>,
      [Send player (GameMgr_VarSync_VarCreated_Message (m_gameid g) (i + 1) (name_wire (msg_name msg))
         (v_val (m_vars g ! i)))])"
    using s(1,2) r n(1) len by (simp add: vs_create_def Let_def)
  ultimately show ?thesis using u by blast
qed

text \<open>
  When the last variable has been sent to a player, its name has the null at the end; the new name
  takes that form in the comparison, and copying it reads behind its end.
\<close>

lemma vs_create_after_send_lem:
  assumes inv: "vs_inv g" and len: "header_len + 520 \<le> length (gm_buf msg)"
    and new: "msg_name msg \<notin> set (var_names (m_vars g))"
    and sent: "m_vars g \<noteq> []" "m_alt_type (v_name (last (m_vars g))) = 3"
  shows "vs_create conv alloc grows msg player g = Inl Out_Of_Bounds"
proof -
  obtain u u' r where s: "UruString_buf (drop header_len (gm_buf msg)) 512 False True True = Inr u"
    "find_var conv alloc u 0 (m_vars g) = Inr (r, u')" "wide_form (msg_name msg) u'"
    "case r of None \<Rightarrow> msg_name msg \<notin> set (var_names (m_vars g)) \<and>
        m_alt_type u' = (if m_vars g = [] then 11 else m_alt_type (v_name (last (m_vars g))))
     | Some i \<Rightarrow> i < length (m_vars g) \<and> var_names (m_vars g) ! i = msg_name msg"
    using create_search [OF inv len] by blast
  have "r = None \<and> m_alt_type u' = 3"
  proof (cases r)
    case None
    with s(4) sent show ?thesis by auto
  next
    case (Some i)
    with s(4) new nth_mem [of i "var_names (m_vars g)"] show ?thesis by simp
  qed
  with s(1,2) assign_form [OF s(3)] len show ?thesis by (simp add: vs_create_def)
qed

section \<open>The invariant is kept\<close>

lemma create_inv:
  assumes inv: "vs_inv g" and step: "vs_create conv alloc grows msg player g = Inr (g', os)"
  shows "vs_inv g' \<and> prefix (var_names (m_vars g)) (var_names (m_vars g'))"
proof -
  have len: "header_len + 520 \<le> length (gm_buf msg)"
    using step by (auto simp: vs_create_def split: if_splits)
  show ?thesis
  proof (cases "msg_name msg \<in> set (var_names (m_vars g))")
    case True
    then obtain i where "i < length (m_vars g)" "var_names (m_vars g) ! i = msg_name msg"
      by (auto simp: in_set_conv_nth)
    from vs_create_known_lem [OF inv len this, of conv alloc grows player] step inv show ?thesis
      by (auto simp: vs_inv_def roster_ok_def)
  next
    case new: False
    obtain u u' r where s: "UruString_buf (drop header_len (gm_buf msg)) 512 False True True = Inr u"
      "find_var conv alloc u 0 (m_vars g) = Inr (r, u')" "wide_form (msg_name msg) u'"
      "case r of None \<Rightarrow> msg_name msg \<notin> set (var_names (m_vars g)) \<and>
          m_alt_type u' = (if m_vars g = [] then 11 else m_alt_type (v_name (last (m_vars g))))
       | Some i \<Rightarrow> i < length (m_vars g) \<and> var_names (m_vars g) ! i = msg_name msg"
      using create_search [OF inv len] by blast
    have r: "r = None"
    proof (cases r)
      case (Some i)
      with s(4) new nth_mem [of i "var_names (m_vars g)"] show ?thesis by simp
    qed simp
    note val = create_value [OF len]
    from step r s(1,2) val(1) len obtain n vs m where
      n: "assign_string empty_string u' = Inr n" and
      vs: "push_back grows (m_vars g) \<lparr>v_name = n, v_val = msg_value msg\<rparr> = Inr vs" and
      m: "var_created conv alloc (m_gameid g) (length vs) n (msg_value msg) = Inr m" and
      g': "g' = g\<lparr>m_vars := vs\<rparr>"
      by (auto simp: vs_create_def rbind_eq_Inr Let_def simp del: slice_eq_Inr)
    have f: "wide_form (msg_name msg) n"
      using assign_form [OF s(3)] form_cases [OF s(3)] n by auto
    have "length (msg_name msg) \<le> 510"
      using created_message [OF f, of conv alloc "m_gameid g" "length vs" "msg_value msg"] m
      by (auto split: if_splits)
    then have "var_ok \<lparr>v_name = n, v_val = msg_value msg\<rparr>"
      using f name_text_form [OF f] val(2) by (simp add: var_ok_def)
    from push_back_ok [OF _ this vs] inv new name_text_form [OF f] g' show ?thesis
      by (simp add: vs_inv_def roster_ok_def)
  qed
qed

lemma set_spec:
  assumes inv: "vs_inv g" and len: "header_len + 12 \<le> length (gm_buf msg)"
    and idx: "read32 (gm_buf msg) header_len = Inr idx"
  shows "\<exists>vs buf. vs_set msg g = Inr (g\<lparr>m_vars := vs\<rparr>, send_to_all (Redistributed buf) g) \<and>
    write32 (gm_buf msg) 6 5 = Inr buf \<and> list_all var_ok vs \<and> var_names vs = var_names (m_vars g) \<and>
    map v_val vs = (if idx = 0 then map v_val (m_vars g)
      else (map v_val (m_vars g))[unat idx - 1 := take 8 (drop (header_len + 4) (gm_buf msg))])"
proof -
  obtain buf where b: "write32 (gm_buf msg) 6 5 = Inr buf"
    using len by (auto simp: header_len_def write32_def put_def)
  let ?val = "take 8 (drop (header_len + 4) (gm_buf msg))"
  have v: "slice (header_len + 4) 8 (gm_buf msg) = Inr ?val" "length ?val = 8"
    using len by (simp_all add: slice_def)
  from inv have ok: "list_all var_ok (m_vars g)" by (simp add: vs_inv_def)
  show ?thesis
  proof (cases "idx > 0 \<and> unat idx \<le> length (m_vars g)")
    case False
    have "map v_val (m_vars g) = (if idx = 0 then map v_val (m_vars g)
      else (map v_val (m_vars g))[unat idx - 1 := ?val])"
      using False by (auto simp: word_gt_0 list_update_beyond)
    moreover have "vs_set msg g = Inr (g, send_to_all (Redistributed buf) g)"
      using len b unfolding vs_set_def idx rbind_Inr if_not_P [OF False] by (simp add: clobber_msgtype_def)
    ultimately show ?thesis
      using b ok by (intro exI [of _ "m_vars g"] exI [of _ buf]) simp
  next
    case True
    then have i: "unat idx - 1 < length (m_vars g)" by (metis One_nat_def Suc_pred le_simps(3) unat_gt_0 word_gt_0)
    let ?v = "(m_vars g ! (unat idx - 1))\<lparr>v_val := ?val\<rparr>"
    have "var_ok ?v" using ok i v(2) by (auto simp: list_all_length var_ok_def)
    note u = update_var [OF i _ this ok]
    have "vs_set msg g = Inr (g\<lparr>m_vars := (m_vars g)[unat idx - 1 := ?v]\<rparr>, send_to_all (Redistributed buf) g)"
      using True len idx b v(1) by (simp add: vs_set_def clobber_msgtype_def send_to_all_def del: slice_eq_Inr)
    with b u True show ?thesis
      by (intro exI [of _ "(m_vars g)[unat idx - 1 := ?v]"] exI [of _ buf]) (auto simp: map_update)
  qed
qed

lemma set_inv:
  assumes inv: "vs_inv g" and step: "vs_set msg g = Inr (g', os)"
  shows "vs_inv g' \<and> prefix (var_names (m_vars g)) (var_names (m_vars g'))"
proof -
  obtain idx where "header_len + 12 \<le> length (gm_buf msg)" "read32 (gm_buf msg) header_len = Inr idx"
    using step by (auto simp: vs_set_def rbind_eq_Inr split: if_splits)
  from set_spec [OF inv this] step inv show ?thesis
    by (auto simp: vs_inv_def roster_ok_def)
qed

lemma initialize_spec:
  assumes inv: "vs_inv g" and player: "player \<noteq> 0" and step: "vs_initialize_game conv alloc msg player g = Inr (ok, g', os)"
  shows "vs_inv g' \<and> var_names (m_vars g') = var_names (m_vars g) \<and> map v_val (m_vars g') = map v_val (m_vars g) \<and>
    (ok \<longrightarrow> list_all (\<lambda>v. m_alt_type (v_name v) = 3) (m_vars g'))"
proof -
  let ?g1 = "if m_owner g = 0 then g\<lparr>m_owner := player\<rparr> else g"
  have g1: "vs_inv ?g1" "m_owner ?g1 \<noteq> 0" "m_vars ?g1 = m_vars g"
    using inv player by (auto simp: vs_inv_def roster_ok_def)
  show ?thesis
  proof (cases "setup_data msg + 1 < length (gm_buf msg)")
    case True
    with step have "ok = False" "g' = ?g1" by (simp_all add: vs_initialize_game_def Let_def)
    with g1 show ?thesis by simp
  next
    case False
    let ?g2 = "add_player player ?g1"
    have g2: "vs_inv ?g2" "m_vars ?g2 = m_vars g"
      using g1 player roster_add [of ?g1 player] by (auto simp: vs_inv_def add_player_def)
    obtain vs' where "send_vars conv alloc (m_gameid ?g2) player 0 (m_vars g) =
        Inr (vs', var_messages (m_gameid ?g2) player 0 (m_vars g))"
      "list_all var_ok vs'" "var_names vs' = var_names (m_vars g)" "map v_val vs' = map v_val (m_vars g)"
      "list_all (\<lambda>v. m_alt_type (v_name v) = 3) vs'"
      using send_vars_ok [of "m_vars g"] inv unfolding vs_inv_def by blast
    with step False g2 show ?thesis
      by (auto simp: vs_initialize_game_def Let_def rbind_eq_Inr vs_inv_def roster_ok_def)
  qed
qed

lemma vs_left_inv:
  assumes inv: "vs_inv g" and step: "vs_player_left player g = (g', os)"
  shows "vs_inv g' \<and> (var_names (m_vars g') = var_names (m_vars g) \<or> m_players g' = [] \<and> m_vars g' = [])"
proof -
  have "vs_inv (g\<lparr>m_owner := 1\<rparr>)" using inv by (auto simp: vs_inv_def roster_ok_def)
  moreover obtain g1 os1 where g1: "GameMgr_player_left player (g\<lparr>m_owner := 1\<rparr>) = (g1, os1)" by fastforce
  ultimately have "roster_ok g1" "game_mgr.more g1 = game_mgr.more g"
    using roster_left [OF _ g1] left_frame [OF g1] by (auto simp: vs_inv_def)
  moreover from this(2) have "m_vars g1 = m_vars g" by (cases g1; cases g; simp)
  ultimately show ?thesis
    using inv step g1 by (auto simp: vs_player_left_def vs_inv_def roster_ok_def split: if_splits)
qed

text \<open>One step: the invariant, and names stay where they are as long as anybody plays.\<close>

lemma step_ok:
  assumes inv: "vs_inv g" and ev: "event_ok ev" and step: "vs_step conv alloc grows ev g = Inr (g', os)"
  shows "vs_inv g' \<and> (prefix (var_names (m_vars g)) (var_names (m_vars g')) \<or>
    (\<exists>p. ev = Player_Left p) \<and> m_players g' = [] \<and> m_vars g' = [])"
proof (cases ev)
  case (Setup_Msg msg player)
  with step ev obtain ok where "player \<noteq> 0" "vs_initialize_game conv alloc msg player g = Inr (ok, g', os)"
    by (auto simp: rbind_eq_Inr event_ok_def)
  from initialize_spec [OF inv this] show ?thesis by simp
next
  case (Game_Msg i msg player)
  with step obtain ok where "vs_got_message conv alloc grows msg player g = Inr (ok, g', os)"
    by (auto simp: rbind_eq_Inr)
  then consider "vs_create conv alloc grows msg player g = Inr (g', os)" | "vs_set msg g = Inr (g', os)" | "g' = g"
    by (auto simp: vs_got_message_def rbind_eq_Inr split: if_splits)
  then show ?thesis
    using create_inv [OF inv] set_inv [OF inv] inv by cases auto
next
  case (Player_Left player)
  with step vs_left_inv [OF inv, of player g' os] show ?thesis by auto
next
  case (Own_Event e)
  with step inv show ?thesis by simp
qed

interpretation var_sync: game_invariant "vs_step conv alloc grows" vs_inv "\<lambda>ev _. event_ok ev"
  for conv alloc grows
  by unfold_locales (use step_ok in blast)

text \<open>
  C14: After any sequence of setup messages, game messages, departures and timeouts that a new
  VarSync game survives, its list of players is consistent, no two variables have the same name
  and every variable has a value of 8 bytes.
\<close>

theorem var_sync_run:
  assumes "list_all event_ok evs" and "run_events (vs_step conv alloc grows) evs (VarSyncGameMgr gid) = Inr (g, os)"
  shows "roster_ok g \<and> distinct (var_names (m_vars g)) \<and> (\<forall>v \<in> set (m_vars g). length (v_val v) = 8)"
proof -
  have "vs_inv (VarSyncGameMgr gid)" by (simp add: vs_inv_def VarSyncGameMgr_def roster_ok_def)
  from var_sync.run_inv [OF this ok_run_all [OF assms(1)] assms(2)] show ?thesis by (simp add: vs_inv_def list_all_iff var_ok_def)
qed

theorem var_sync_positions:
  assumes "vs_inv g" and "event_ok ev" and "vs_step conv alloc grows ev g = Inr (g', os)"
  shows "prefix (var_names (m_vars g)) (var_names (m_vars g')) \<or>
    (\<exists>p. ev = Player_Left p) \<and> m_players g' = [] \<and> m_vars g' = []"
  using step_ok [OF assms] by blast

theorem vs_create_new:
  assumes "vs_inv g" and "header_len + 520 \<le> length (gm_buf msg)"
    and "msg_name msg \<notin> set (var_names (m_vars g))"
    and "m_vars g = [] \<or> m_alt_type (v_name (last (m_vars g))) = 11"
    and "length (msg_name msg) \<le> 510"
  shows "\<exists>v. vs_create conv alloc (\<lambda>_. False) msg player g =
      Inr (g\<lparr>m_vars := m_vars g @ [v]\<rparr>,
        send_to_all (GameMgr_VarSync_VarCreated_Message (m_gameid g) (length (m_vars g) + 1)
          (name_wire (msg_name msg)) (msg_value msg)) g) \<and>
    name_text (v_name v) = msg_name msg \<and> v_val v = msg_value msg"
  using vs_create_new_lem [OF assms] by blast

theorem vs_create_known:
  assumes "vs_inv g" and "header_len + 520 \<le> length (gm_buf msg)"
    and "i < length (m_vars g)" and "var_names (m_vars g) ! i = msg_name msg"
  shows "\<exists>vs. vs_create conv alloc grows msg player g = Inr (g\<lparr>m_vars := vs\<rparr>,
      [Send player (GameMgr_VarSync_VarCreated_Message (m_gameid g) (i + 1) (name_wire (msg_name msg))
         (v_val (m_vars g ! i)))]) \<and>
    var_names vs = var_names (m_vars g) \<and> map v_val vs = map v_val (m_vars g)"
  using vs_create_known_lem [OF assms] by blast

theorem vs_set_spec:
  assumes "vs_inv g" and "header_len + 12 \<le> length (gm_buf msg)"
    and "read32 (gm_buf msg) header_len = Inr idx"
  shows "\<exists>vs buf. vs_set msg g = Inr (g\<lparr>m_vars := vs\<rparr>, send_to_all (Redistributed buf) g) \<and>
    write32 (gm_buf msg) 6 5 = Inr buf \<and> var_names vs = var_names (m_vars g) \<and>
    map v_val vs = (if idx = 0 then map v_val (m_vars g)
      else (map v_val (m_vars g))[unat idx - 1 := take 8 (drop (header_len + 4) (gm_buf msg))])"
  using set_spec [OF assms] by blast

text \<open>
  C35: After a second player has joined a VarSync game that has variables, creating another
  variable reads past the name of one of them.
\<close>

theorem create_after_join_overreads:
  assumes "vs_inv g" and "m_vars g \<noteq> []" and "newcomer \<noteq> 0"
    and "vs_initialize_game conv alloc setup newcomer g = Inr (True, g1, os)"
    and "header_len + 520 \<le> length (gm_buf msg)" and "msg_name msg \<notin> set (var_names (m_vars g))"
  shows "vs_create conv alloc grows msg player g1 = Inl Out_Of_Bounds"
proof -
  from initialize_spec [OF assms(1,3,4)] have g1: "vs_inv g1" "var_names (m_vars g1) = var_names (m_vars g)"
    "list_all (\<lambda>v. m_alt_type (v_name v) = 3) (m_vars g1)" by simp_all
  then have "length (m_vars g1) = length (m_vars g)" by (metis var_names_simps(4))
  with assms(2) have ne: "m_vars g1 \<noteq> []" by auto
  with g1(3) last_in_set [OF ne] have "m_alt_type (v_name (last (m_vars g1))) = 3"
    by (simp add: list_all_iff)
  with ne vs_create_after_send_lem [OF g1(1) assms(5)] assms(6) g1(2) show ?thesis by simp
qed

section \<open>A small game\<close>

definition sample_var :: var where
  "sample_var = \<lparr>v_name = empty_string\<lparr>m_altstr := Ptr (bytes16 1 @ [0x42, 0]), m_owns_altstr := True,
     m_alt_type := 11, m_altstr_size := 1\<rparr>, v_val = replicate 8 1\<rparr>"

definition sample_game :: var_sync where
  "sample_game = \<lparr>m_gameid = 5, m_owner = 7, m_players = [7], m_setups = [], m_vars = [sample_var]\<rparr>"

definition sample_create :: "byte \<Rightarrow> gm_msg" where
  "sample_create c = \<lparr>gm_msgtype = 7, gm_reqid = 0, gm_gameid = 5,
     gm_buf = replicate 22 0 @ [c, 0, 0, 0] @ replicate 516 9\<rparr>"

definition sample_setup :: gm_msg where
  "sample_setup = \<lparr>gm_msgtype = 0, gm_reqid = 1, gm_gameid = 5, gm_buf = replicate 42 0\<rparr>"

lemma vs_sample_inv: "vs_inv sample_game"
  by (simp add: vs_inv_def sample_game_def sample_var_def roster_ok_def var_ok_def name_text_def
      wide_form_def wide_plain_def empty_string_def bytes16_def)

lemma sample_create_name: "c \<noteq> 0 \<Longrightarrow> msg_name (sample_create c) = [c, 0]"
  by (simp add: msg_name_def sample_create_def header_len_def)

lemma sample_create_len: "header_len + 520 \<le> length (gm_buf (sample_create c))"
  by (simp add: header_len_def sample_create_def)

lemma sample_names: "var_names (m_vars sample_game) = [[0x42, 0]]"
  by (simp add: sample_game_def sample_var_def name_text_def)

theorem vs_create_new_witness:
  "\<exists>v. vs_create (\<lambda>_. None) (\<lambda>_. []) (\<lambda>_. False) (sample_create 0x41) 7 sample_game =
      Inr (sample_game\<lparr>m_vars := m_vars sample_game @ [v]\<rparr>,
        send_to_all (GameMgr_VarSync_VarCreated_Message (m_gameid sample_game) (length (m_vars sample_game) + 1)
          (name_wire (msg_name (sample_create 0x41))) (msg_value (sample_create 0x41))) sample_game) \<and>
    name_text (v_name v) = msg_name (sample_create 0x41) \<and> v_val v = msg_value (sample_create 0x41)"
  by (rule vs_create_new [OF vs_sample_inv sample_create_len])
    (simp_all add: sample_create_name sample_names, simp add: sample_game_def sample_var_def)

theorem vs_create_known_witness:
  "\<exists>vs. vs_create (\<lambda>_. None) (\<lambda>_. []) (\<lambda>_. False) (sample_create 0x42) 7 sample_game =
      Inr (sample_game\<lparr>m_vars := vs\<rparr>, [Send 7 (GameMgr_VarSync_VarCreated_Message 5 1
        (name_wire (msg_name (sample_create 0x42))) (replicate 8 1))])"
proof -
  have "0 < length (m_vars sample_game)" "var_names (m_vars sample_game) ! 0 = msg_name (sample_create 0x42)"
    by (simp_all add: sample_create_name sample_names del: var_names_nth) (simp add: sample_game_def)
  from vs_create_known [OF vs_sample_inv sample_create_len this, of "\<lambda>_. None" "\<lambda>_. []" "\<lambda>_. False" 7]
  show ?thesis by (auto simp: sample_game_def sample_var_def)
qed

theorem vs_set_spec_witness:
  "\<exists>vs buf. vs_set (sample_setup\<lparr>gm_buf := replicate 22 0 @ bytes32 1 @ replicate 8 3\<rparr>) sample_game =
      Inr (sample_game\<lparr>m_vars := vs\<rparr>, send_to_all (Redistributed buf) sample_game) \<and>
    map v_val vs = [replicate 8 3]"
proof -
  let ?m = "sample_setup\<lparr>gm_buf := replicate 22 0 @ bytes32 1 @ replicate 8 3\<rparr>"
  have "header_len + 12 \<le> length (gm_buf ?m)" by (simp add: header_len_def)
  moreover have "read32 (gm_buf ?m) header_len = Inr 1"
    using read32_at [of "replicate 22 0" "bytes32 1 @ replicate 8 3"] by (simp add: header_len_def)
  ultimately show ?thesis
    using vs_set_spec [OF vs_sample_inv, of ?m 1] by (auto simp: header_len_def sample_game_def sample_var_def)
qed

theorem create_after_join_overreads_witness:
  "\<exists>g1 os. vs_initialize_game (\<lambda>_. None) (\<lambda>_. []) sample_setup 8 sample_game = Inr (True, g1, os) \<and>
     vs_create (\<lambda>_. None) (\<lambda>_. []) (\<lambda>_. False) (sample_create 0x41) 7 g1 = Inl Out_Of_Bounds"
proof -
  obtain vs' os where "send_vars (\<lambda>_. None) (\<lambda>_. []) 5 8 0 [sample_var] = Inr (vs', os)"
    using send_vars_ok [of "[sample_var]" "\<lambda>_. None" "\<lambda>_. []" 5 8 0] vs_sample_inv
    by (auto simp: vs_inv_def sample_game_def)
  then obtain g1 os1 where g1: "vs_initialize_game (\<lambda>_. None) (\<lambda>_. []) sample_setup 8 sample_game = Inr (True, g1, os1)"
    by (auto simp: vs_initialize_game_def sample_setup_def sample_game_def setup_data_def header_len_def
        add_player_def send_setup_reply_def setup_uuid_def slice_def Let_def)
  moreover have "vs_create (\<lambda>_. None) (\<lambda>_. []) (\<lambda>_. False) (sample_create 0x41) 7 g1 = Inl Out_Of_Bounds"
    by (rule create_after_join_overreads [OF vs_sample_inv _ _ g1 sample_create_len])
      (simp_all add: sample_create_name sample_names, simp add: sample_game_def)
  ultimately show ?thesis by blast
qed

theorem var_sync_positions_witness:
  "\<exists>g' os. vs_step (\<lambda>_. None) (\<lambda>_. []) (\<lambda>_. False) (Game_Msg () (sample_create 0x41) 7) sample_game = Inr (g', os) \<and>
     prefix [[0x42, 0]] (var_names (m_vars g'))"
proof -
  have "\<exists>g' os. vs_step (\<lambda>_. None) (\<lambda>_. []) (\<lambda>_. False) (Game_Msg () (sample_create 0x41) 7) sample_game = Inr (g', os)"
    using vs_create_new_lem [OF vs_sample_inv sample_create_len [of "0x41"], where conv = "\<lambda>_. None" and alloc = "\<lambda>_. []" and player = 7]
    by (auto simp: sample_create_name sample_names vs_got_message_def)
      (auto simp: sample_game_def sample_create_def sample_var_def)
  moreover have "event_ok (Game_Msg () (sample_create 0x41) 7)"
    by (simp add: event_ok_def gm_check_useable_def sample_create_def is_setup_def)
  ultimately show ?thesis
    using var_sync_positions [OF vs_sample_inv] by (fastforce simp: sample_names)
qed

theorem var_sync_run_witness:
  "\<exists>g os. run_events (vs_step (\<lambda>_. None) (\<lambda>_. []) (\<lambda>_. False)) [Setup_Msg sample_setup 7, Player_Left 7]
      (VarSyncGameMgr 5) = Inr (g, os) \<and> roster_ok g \<and> distinct (var_names (m_vars g))"
proof -
  have ok: "list_all event_ok [Setup_Msg sample_setup 7, Player_Left 7 :: (unit, unit) mgr_event]"
    by (simp add: event_ok_def gm_check_useable_def sample_setup_def is_setup_def header_len_def)
  have "\<exists>g os. run_events (vs_step (\<lambda>_. None) (\<lambda>_. []) (\<lambda>_. False)) [Setup_Msg sample_setup 7, Player_Left 7]
      (VarSyncGameMgr 5) = Inr (g, os)"
    by (simp add: vs_initialize_game_def VarSyncGameMgr_def sample_setup_def setup_data_def header_len_def
        add_player_def send_setup_reply_def setup_uuid_def slice_def Let_def vs_player_left_def GameMgr_player_left_def
        remove_player_def)
  with var_sync_run [OF ok] show ?thesis by blast
qed

end
