(* ===== verification/Timer_Queue.thy ===== *)
theory Timer_Queue
  imports Moss_Prelude "HOL-Library.Multiset"
begin

text \<open>
  Points in time (\<open>struct timeval\<close> and the macros of \<open>util.h\<close>) and the queue of timers every server
  has (\<open>Server::TimerQueue\<close> of \<open>moss_serv.h\<close> and \<open>moss_serv.cc\<close>).

  The queue is a \<open>std::deque\<close> kept as a heap with \<open>push_heap\<close> and \<open>pop_heap\<close>; they are modelled as
  the binary heap in a vector, with the comparison of \<open>timer_compare\<close>, which puts the earliest timer
  in front.  The memory address of a timer is a number that is never used again.
\<close>

section \<open>Points in time\<close>

datatype timeval = Timeval (tv_sec: int) (tv_usec: int)

definition timeval_lessthan :: "timeval \<Rightarrow> timeval \<Rightarrow> bool" where
  "timeval_lessthan t1 t2 =
     (if tv_sec t1 < tv_sec t2 then True
      else if tv_sec t1 > tv_sec t2 then False else tv_usec t1 < tv_usec t2)"

definition timeval_add :: "timeval \<Rightarrow> timeval \<Rightarrow> timeval" where
  "timeval_add t1 t2 =
     (let sec = tv_sec t1 + tv_sec t2; usec = tv_usec t1 + tv_usec t2
      in if usec > 1000000 then Timeval (sec + 1) (usec - 1000000) else Timeval sec usec)"

definition timeval_subtract :: "timeval \<Rightarrow> timeval \<Rightarrow> timeval" where
  "timeval_subtract t1 t2 =
     (let t = (if tv_usec t2 > tv_usec t1 then Timeval (tv_sec t1 - 1) (tv_usec t1 + 1000000) else t1)
      in Timeval (tv_sec t - tv_sec t2) (tv_usec t - tv_usec t2))"

definition timeval_difference :: "timeval \<Rightarrow> timeval \<Rightarrow> timeval" where
  "timeval_difference t1 t2 =
     (if tv_usec t2 > tv_usec t1
      then Timeval (tv_sec t1 - 1 - tv_sec t2) (tv_usec t1 + 1000000 - tv_usec t2)
      else Timeval (tv_sec t1 - tv_sec t2) (tv_usec t1 - tv_usec t2))"

text \<open>The comparison is the library's order on \<open>timeval\<close>.\<close>

instantiation timeval :: linorder
begin

definition less_timeval :: "timeval \<Rightarrow> timeval \<Rightarrow> bool" where
  "less_timeval a b = timeval_lessthan a b"

definition less_eq_timeval :: "timeval \<Rightarrow> timeval \<Rightarrow> bool" where
  "less_eq_timeval a b = (\<not> timeval_lessthan b a)"

instance
proof
  fix x y :: timeval
  show "x \<le> y \<Longrightarrow> y \<le> x \<Longrightarrow> x = y"
    by (cases x; cases y) (auto simp: less_eq_timeval_def timeval_lessthan_def split: if_splits)
qed (auto simp: less_timeval_def less_eq_timeval_def timeval_lessthan_def split: if_splits)

end

definition micros :: "timeval \<Rightarrow> int" where
  "micros t = tv_sec t * 1000000 + tv_usec t"

definition normal :: "timeval \<Rightarrow> bool" where
  "normal t \<longleftrightarrow> 0 \<le> tv_usec t \<and> tv_usec t < 1000000"

lemma micros_less: "normal a \<Longrightarrow> normal b \<Longrightarrow> a < b \<longleftrightarrow> micros a < micros b"
  by (auto simp: normal_def micros_def less_timeval_def timeval_lessthan_def)

lemma micros_eq: "normal a \<Longrightarrow> normal b \<Longrightarrow> micros a = micros b \<Longrightarrow> a = b"
  using micros_less [of a b] micros_less [of b a] by (metis less_irrefl linorder_neqE)

theorem timeval_arithmetic:
  assumes "normal a" and "normal b"
  shows "(timeval_lessthan a b \<longleftrightarrow> micros a < micros b) \<and>
    micros (timeval_add a b) = micros a + micros b \<and>
    micros (timeval_subtract a b) = micros a - micros b \<and> normal (timeval_subtract a b) \<and>
    timeval_difference a b = timeval_subtract a b \<and>
    (normal (timeval_add a b) \<longleftrightarrow> tv_usec a + tv_usec b \<noteq> 1000000)"
  using assms micros_less [OF assms]
  by (auto simp: less_timeval_def timeval_add_def timeval_subtract_def timeval_difference_def micros_def
      normal_def Let_def)

theorem timeval_arithmetic_witness:
  "micros (timeval_add (Timeval 3 400000) (Timeval 1 150000)) = 4550000"
proof -
  have "normal (Timeval 3 400000)" "normal (Timeval 1 150000)" by (simp_all add: normal_def)
  from timeval_arithmetic [OF this] show ?thesis by (simp add: micros_def)
qed

text \<open>A sum of exactly one second is not carried, and then counts as earlier than it is.\<close>

theorem timeval_add_carry:
  "timeval_add (Timeval 0 500000) (Timeval 0 500000) = Timeval 0 1000000 \<and>
   micros (Timeval 0 1000000) = micros (Timeval 1 0) \<and>
   timeval_lessthan (Timeval 0 1000000) (Timeval 1 0)"
  by (simp add: timeval_add_def timeval_lessthan_def micros_def)

section \<open>A heap in a vector\<close>

text \<open>\<open>push_heap\<close> lets the last element rise, \<open>pop_heap\<close> exchanges the first and the last and lets the new first sink.\<close>

function sift_up :: "('b \<Rightarrow> 'a::linorder) \<Rightarrow> nat \<Rightarrow> 'b list \<Rightarrow> 'b list" where
  "sift_up f i xs =
     (if i > 0 \<and> f (xs ! i) < f (xs ! ((i - 1) div 2))
      then sift_up f ((i - 1) div 2) (xs[i := xs ! ((i - 1) div 2), (i - 1) div 2 := xs ! i])
      else xs)"
  by pat_completeness auto
termination by (relation "measure (\<lambda>(f, i, xs). i)") auto

definition smaller_child :: "('b \<Rightarrow> 'a::linorder) \<Rightarrow> nat \<Rightarrow> nat \<Rightarrow> 'b list \<Rightarrow> nat" where
  "smaller_child f n i xs =
     (if 2 * i + 2 < n \<and> f (xs ! (2 * i + 2)) < f (xs ! (2 * i + 1)) then 2 * i + 2 else 2 * i + 1)"

function sift_down :: "('b \<Rightarrow> 'a::linorder) \<Rightarrow> nat \<Rightarrow> nat \<Rightarrow> 'b list \<Rightarrow> 'b list" where
  "sift_down f n i xs =
     (if 2 * i + 1 < n \<and> f (xs ! smaller_child f n i xs) < f (xs ! i)
      then sift_down f n (smaller_child f n i xs) (xs[i := xs ! smaller_child f n i xs, smaller_child f n i xs := xs ! i])
      else xs)"
  by pat_completeness auto
termination by (relation "measure (\<lambda>(f, n, i, xs). n - i)") (auto simp: smaller_child_def)

declare sift_up.simps [simp del] sift_down.simps [simp del]

definition push_heap :: "('b \<Rightarrow> 'a::linorder) \<Rightarrow> 'b list \<Rightarrow> 'b list" where
  "push_heap f xs = sift_up f (length xs - 1) xs"

definition pop_heap :: "('b \<Rightarrow> 'a::linorder) \<Rightarrow> 'b list \<Rightarrow> 'b list" where
  "pop_heap f xs =
     (let n = length xs - 1 in sift_down f n 0 (xs[0 := xs ! n, n := xs ! 0]))"

definition is_heap :: "('b \<Rightarrow> 'a::linorder) \<Rightarrow> 'b list \<Rightarrow> bool" where
  "is_heap f xs \<longleftrightarrow> (\<forall>i. 0 < i \<and> i < length xs \<longrightarrow> f (xs ! ((i - 1) div 2)) \<le> f (xs ! i))"

lemma sift_up_length [simp]: "length (sift_up f i xs) = length xs"
  by (induction f i xs rule: sift_up.induct) (subst sift_up.simps, simp)

lemma sift_down_length [simp]: "length (sift_down f n i xs) = length xs"
  by (induction f n i xs rule: sift_down.induct) (subst sift_down.simps, simp)

lemma parent_less: "0 < j \<Longrightarrow> (j - 1) div 2 < (j :: nat)"
  by auto

definition heap_above :: "('b \<Rightarrow> 'a::linorder) \<Rightarrow> nat \<Rightarrow> 'b list \<Rightarrow> bool" where
  "heap_above f i xs \<longleftrightarrow>
     (\<forall>j. 0 < j \<and> j < length xs \<and> j \<noteq> i \<longrightarrow> f (xs ! ((j - 1) div 2)) \<le> f (xs ! j)) \<and>
     (\<forall>j. 0 < i \<and> 0 < j \<and> j < length xs \<and> (j - 1) div 2 = i \<longrightarrow> f (xs ! ((i - 1) div 2)) \<le> f (xs ! j))"

lemma heap_above_step:
  fixes f :: "'b \<Rightarrow> 'a::linorder"
  assumes h: "heap_above f i xs" and i: "0 < i" "i < length xs" and less: "f (xs ! i) < f (xs ! ((i - 1) div 2))"
  defines "p \<equiv> (i - 1) div 2"
  shows "heap_above f p (xs[i := xs ! p, p := xs ! i])"
proof -
  let ?ys = "xs[i := xs ! p, p := xs ! i]"
  have p: "p < i" "p < length xs" using i parent_less by (auto simp: p_def)
  have pe: "(i - Suc 0) div 2 = p" by (simp add: p_def)
  note nth = nth_swap [OF i(2) p(2)]
  from h have h1: "f (xs ! ((j - 1) div 2)) \<le> f (xs ! j)" if "0 < j" "j < length xs" "j \<noteq> i" for j
    using that by (simp add: heap_above_def)
  from h i(1) have h2: "f (xs ! p) \<le> f (xs ! j)" if "0 < j" "j < length xs" "(j - 1) div 2 = i" for j
    using that unfolding heap_above_def p_def by blast
  have par: "(j - 1) div 2 < j" "(j - 1) div 2 < length xs" if "0 < j" "j < length xs" for j
    using that parent_less [OF that(1)] by auto
  have 1: "f (?ys ! ((j - 1) div 2)) \<le> f (?ys ! j)" if j: "0 < j" "j < length xs" "j \<noteq> p" for j
  proof -
    consider "j = i" | "j \<noteq> i" "(j - 1) div 2 = p" | "j \<noteq> i" "(j - 1) div 2 = i" | "j \<noteq> i" "(j - 1) div 2 \<noteq> p" "(j - 1) div 2 \<noteq> i"
      by blast
    then show ?thesis
    proof cases
      case 1
      with less p i nth [OF i(2)] nth [OF p(2)] show ?thesis by (simp add: pe)
    next
      case 2
      with less p nth [OF j(2)] nth [OF p(2)] h1 [OF j(1,2)] j(3) show ?thesis by (simp add: pe)
    next
      case 3
      with p nth [OF j(2)] nth [OF i(2)] h2 [OF j(1,2)] j(3) show ?thesis by simp
    next
      case 4
      with nth [OF j(2)] nth [OF par(2) [OF j(1,2)]] h1 [OF j(1,2)] j(3) show ?thesis by simp
    qed
  qed
  have 2: "f (?ys ! ((p - 1) div 2)) \<le> f (?ys ! j)" if j: "0 < p" "0 < j" "j < length xs" "(j - 1) div 2 = p" for j
  proof -
    have pp: "(p - 1) div 2 < p" "(p - 1) div 2 < length xs" using par [OF j(1) p(2)] by auto
    have up: "f (xs ! ((p - 1) div 2)) \<le> f (xs ! p)" using h1 [OF j(1) p(2)] p by simp
    have "p < j" using parent_less [OF j(2)] j(4) by simp
    show ?thesis
    proof (cases "j = i")
      case True
      with up pp p nth [OF pp(2)] nth [OF i(2)] show ?thesis by simp
    next
      case False
      with up pp p nth [OF pp(2)] nth [OF j(3)] h1 [OF j(2,3)] j(4) \<open>p < j\<close> show ?thesis by simp
    qed
  qed
  from 1 2 show ?thesis unfolding heap_above_def length_list_update by blast
qed

lemma sift_up_heap:
  "i < length xs \<Longrightarrow> heap_above f i xs \<Longrightarrow> is_heap f (sift_up f i xs) \<and> mset (sift_up f i xs) = mset xs"
proof (induction f i xs rule: sift_up.induct)
  case (1 f i xs)
  show ?case
  proof (cases "i > 0 \<and> f (xs ! i) < f (xs ! ((i - 1) div 2))")
    case True
    let ?p = "(i - 1) div 2"
    let ?ys = "xs[i := xs ! ?p, ?p := xs ! i]"
    have p: "?p < length xs" using True 1(2) by auto
    from True have "heap_above f ?p ?ys" using heap_above_step [OF 1(3) _ 1(2)] by blast
    with 1(1) [OF True] p have "is_heap f (sift_up f ?p ?ys) \<and> mset (sift_up f ?p ?ys) = mset ?ys" by simp
    with True swap_mset [OF 1(2) p] show ?thesis by (subst (1 2) sift_up.simps) simp
  next
    case False
    then have s: "sift_up f i xs = xs" by (subst sift_up.simps) auto
    have "is_heap f xs"
      unfolding is_heap_def
    proof (intro allI impI)
      fix j
      assume j: "0 < j \<and> j < length xs"
      show "f (xs ! ((j - 1) div 2)) \<le> f (xs ! j)"
        using False 1(3) j by (cases "j = i") (auto simp: heap_above_def)
    qed
    with s show ?thesis by simp
  qed
qed

definition heap_upto :: "('b \<Rightarrow> 'a::linorder) \<Rightarrow> nat \<Rightarrow> 'b list \<Rightarrow> bool" where
  "heap_upto f n xs \<longleftrightarrow> (\<forall>j. 0 < j \<and> j < n \<longrightarrow> f (xs ! ((j - 1) div 2)) \<le> f (xs ! j))"

definition heap_below :: "('b \<Rightarrow> 'a::linorder) \<Rightarrow> nat \<Rightarrow> nat \<Rightarrow> 'b list \<Rightarrow> bool" where
  "heap_below f n i xs \<longleftrightarrow>
     (\<forall>j. 0 < j \<and> j < n \<and> (j - 1) div 2 \<noteq> i \<longrightarrow> f (xs ! ((j - 1) div 2)) \<le> f (xs ! j)) \<and>
     (\<forall>j. 0 < i \<and> 0 < j \<and> j < n \<and> (j - 1) div 2 = i \<longrightarrow> f (xs ! ((i - 1) div 2)) \<le> f (xs ! j))"

lemma child_cases: "0 < j \<Longrightarrow> (j - 1) div 2 = i \<Longrightarrow> j = 2 * i + 1 \<or> j = 2 * i + (2 :: nat)"
  by presburger

lemma smaller_child:
  fixes f :: "'b \<Rightarrow> 'a::linorder" and xs :: "'b list"
  assumes "2 * i + 1 < n"
  defines "c \<equiv> smaller_child f n i xs"
  shows "c < n" "i < c" "(c - 1) div 2 = i" "\<And>j. 0 < j \<Longrightarrow> j < n \<Longrightarrow> (j - 1) div 2 = i \<Longrightarrow> f (xs ! c) \<le> f (xs ! j)"
proof -
  show "c < n" "i < c" "(c - 1) div 2 = i" using assms(1) by (auto simp: c_def smaller_child_def)
  show "f (xs ! c) \<le> f (xs ! j)" if "0 < j" "j < n" "(j - 1) div 2 = i" for j
    using child_cases [OF that(1,3)] that(2) by (auto simp: c_def smaller_child_def)
qed

lemma heap_below_step:
  fixes f :: "'b \<Rightarrow> 'a::linorder"
  assumes h: "heap_below f n i xs" and n: "n \<le> length xs" "2 * i + 1 < n"
    and less: "f (xs ! smaller_child f n i xs) < f (xs ! i)"
  defines "c \<equiv> smaller_child f n i xs"
  shows "heap_below f n c (xs[i := xs ! c, c := xs ! i])"
proof -
  let ?ys = "xs[i := xs ! c, c := xs ! i]"
  note c = smaller_child [OF n(2), where f = f and xs = xs, folded c_def]
  have l: "i < length xs" "c < length xs" using c n by auto
  have ce: "(c - Suc 0) div 2 = i" using c(3) by simp
  note nth = nth_swap [OF l]
  from h have h1: "f (xs ! ((j - 1) div 2)) \<le> f (xs ! j)" if "0 < j" "j < n" "(j - 1) div 2 \<noteq> i" for j
    using that by (simp add: heap_below_def)
  from h have h2: "f (xs ! ((i - 1) div 2)) \<le> f (xs ! j)" if "0 < i" "0 < j" "j < n" "(j - 1) div 2 = i" for j
    using that unfolding heap_below_def by blast
  have par: "(j - 1) div 2 < j" "(j - 1) div 2 < length xs" "j < length xs" if "0 < j" "j < n" for j
    using that n(1) parent_less [OF that(1)] by auto
  have 1: "f (?ys ! ((j - 1) div 2)) \<le> f (?ys ! j)" if j: "0 < j" "j < n" "(j - 1) div 2 \<noteq> c" for j
  proof -
    consider "j = c" | "j = i" | "j \<noteq> c" "j \<noteq> i" "(j - 1) div 2 = i" | "j \<noteq> c" "j \<noteq> i" "(j - 1) div 2 \<noteq> i"
      by blast
    then show ?thesis
    proof cases
      case 1
      with less c nth [OF l(1)] nth [OF l(2)] show ?thesis by (simp add: ce c_def)
    next
      case 2
      with par [OF j(1,2)] c nth [OF l(1)] nth [of "(i - 1) div 2"] h2 [OF _ _ c(1,3)] j show ?thesis by simp
    next
      case 3
      with par [OF j(1,2)] c nth [OF l(1)] nth [of j] c(4) [OF j(1,2)] show ?thesis by simp
    next
      case 4
      with par [OF j(1,2)] nth [of j] nth [of "(j - 1) div 2"] h1 [OF j(1,2)] j(3) show ?thesis by simp
    qed
  qed
  have 2: "f (?ys ! ((c - 1) div 2)) \<le> f (?ys ! j)" if j: "0 < c" "0 < j" "j < n" "(j - 1) div 2 = c" for j
  proof -
    have "c < j" using parent_less [OF j(2)] j(4) by simp
    with par [OF j(2,3)] c nth [OF l(1)] nth [of j] h1 [OF j(2,3)] j(4) show ?thesis by (simp add: ce)
  qed
  from 1 2 show ?thesis unfolding heap_below_def by blast
qed

lemma sift_down_heap:
  "n \<le> length xs \<Longrightarrow> heap_below f n i xs \<Longrightarrow>
   heap_upto f n (sift_down f n i xs) \<and> mset (sift_down f n i xs) = mset xs \<and>
   drop n (sift_down f n i xs) = drop n xs"
proof (induction f n i xs rule: sift_down.induct)
  case (1 f n i xs)
  let ?c = "smaller_child f n i xs"
  show ?case
  proof (cases "2 * i + 1 < n \<and> f (xs ! ?c) < f (xs ! i)")
    case True
    let ?ys = "xs[i := xs ! ?c, ?c := xs ! i]"
    note c = smaller_child [where i = i and n = n and f = f and xs = xs]
    from True have "heap_below f n ?c ?ys" using heap_below_step [OF 1(3,2)] by blast
    moreover have "drop n ?ys = drop n xs" using True c(1) by simp
    moreover have "mset ?ys = mset xs" using True c(1,2) 1(2) by (intro swap_mset) auto
    ultimately show ?thesis
      using 1(1) [OF True] True c(1) 1(2) by (subst (1 2 3) sift_down.simps) simp
  next
    case False
    then have s: "sift_down f n i xs = xs" by (subst sift_down.simps) auto
    have "f (xs ! ((j - 1) div 2)) \<le> f (xs ! j)" if j: "0 < j" "j < n" for j
    proof (cases "(j - 1) div 2 = i")
      case True
      with child_cases [OF j(1) True] j have "2 * i + 1 < n" by auto
      with False smaller_child(4) [OF this j True, where f = f and xs = xs] True show ?thesis by simp
    next
      case False
      with 1(3) j show ?thesis by (simp add: heap_below_def)
    qed
    with s show ?thesis by (simp add: heap_upto_def)
  qed
qed

section \<open>The laws of the library's heap\<close>

lemma push_heap_ok:
  assumes "is_heap f xs"
  shows "is_heap f (push_heap f (xs @ [x])) \<and> mset (push_heap f (xs @ [x])) = add_mset x (mset xs)"
proof -
  have "heap_above f (length xs) (xs @ [x])"
    unfolding heap_above_def
  proof (intro conjI allI impI; elim conjE)
    fix j
    assume j: "0 < j" "j < length (xs @ [x])" "j \<noteq> length xs"
    then have "(j - 1) div 2 < length xs" "j < length xs" by auto
    with assms j show "f ((xs @ [x]) ! ((j - 1) div 2)) \<le> f ((xs @ [x]) ! j)"
      by (simp add: nth_append is_heap_def)
  next
    fix j
    assume "0 < j" "j < length (xs @ [x])" "(j - 1) div 2 = length xs"
    then show "f ((xs @ [x]) ! ((length xs - 1) div 2)) \<le> f ((xs @ [x]) ! j)" by auto
  qed
  from sift_up_heap [OF _ this] show ?thesis by (simp add: push_heap_def)
qed

lemma heap_root: "is_heap f xs \<Longrightarrow> i < length xs \<Longrightarrow> f (xs ! 0) \<le> f (xs ! i)"
proof (induction i rule: less_induct)
  case (less i)
  show ?case
  proof (cases "i = 0")
    case False
    then have "f (xs ! 0) \<le> f (xs ! ((i - 1) div 2))" "f (xs ! ((i - 1) div 2)) \<le> f (xs ! i)"
      using less.prems by (auto intro!: less.IH simp: is_heap_def)
    then show ?thesis by (rule order.trans)
  qed simp
qed

lemma pop_heap_ok:
  assumes "is_heap f xs" and "xs \<noteq> []"
  shows "is_heap f (butlast (pop_heap f xs)) \<and> last (pop_heap f xs) = hd xs \<and>
    add_mset (hd xs) (mset (butlast (pop_heap f xs))) = mset xs"
proof -
  let ?n = "length xs - 1"
  let ?ys = "xs[0 := xs ! ?n, ?n := xs ! 0]"
  have n: "0 < length xs" "?n < length xs" using assms(2) by auto
  have "f (?ys ! ((j - 1) div 2)) \<le> f (?ys ! j)" if "0 < j" "j < ?n" "(j - 1) div 2 \<noteq> 0" for j
  proof -
    from that have "(j - 1) div 2 < length xs" "(j - 1) div 2 \<noteq> ?n" "j < length xs" by auto
    with that assms(1) nth_swap [OF n, of j] nth_swap [OF n, of "(j - 1) div 2"] show ?thesis
      by (auto simp: is_heap_def)
  qed
  then have "heap_below f ?n 0 ?ys" unfolding heap_below_def by (intro conjI allI impI) (blast, simp)
  from sift_down_heap [OF _ this] have
    r: "heap_upto f ?n (pop_heap f xs)" "mset (pop_heap f xs) = mset xs" "drop ?n (pop_heap f xs) = drop ?n ?ys"
    using swap_mset [OF n] by (auto simp: pop_heap_def Let_def)
  have l: "length (pop_heap f xs) = length xs" by (simp add: pop_heap_def Let_def)
  then have ne: "pop_heap f xs \<noteq> []" using assms(2) by auto
  have "[last (pop_heap f xs)] = drop ?n (pop_heap f xs)"
    using ne l by (metis append_butlast_last_id append_eq_conv_conj length_butlast)
  also have "\<dots> = [hd xs]"
    using r(3) Cons_nth_drop_Suc [of ?n ?ys] n nth_swap [OF n n(2)] assms(2) by (simp add: hd_conv_nth)
  finally have last: "last (pop_heap f xs) = hd xs" by simp
  moreover have "is_heap f (butlast (pop_heap f xs))"
    using r(1) l unfolding is_heap_def heap_upto_def by (auto simp: nth_butlast)
  moreover have "add_mset (last (pop_heap f xs)) (mset (butlast (pop_heap f xs))) = mset xs"
    using r(2) ne by (metis append_butlast_last_id mset.simps(1,2) union_code union_mset_add_mset_right add.right_neutral mset_append)
  ultimately show ?thesis by simp
qed

text \<open>What the C++ standard promises of the two functions, and what follows for a queue.\<close>

locale std_heap =
  fixes key :: "'b \<Rightarrow> 'a::linorder" and push pop :: "'b list \<Rightarrow> 'b list"
  assumes push_law: "is_heap key xs \<Longrightarrow>
      is_heap key (push (xs @ [x])) \<and> mset (push (xs @ [x])) = add_mset x (mset xs)"
    and pop_law: "is_heap key xs \<Longrightarrow> xs \<noteq> [] \<Longrightarrow>
      is_heap key (butlast (pop xs)) \<and> last (pop xs) = hd xs \<and>
      add_mset (hd xs) (mset (butlast (pop xs))) = mset xs"
begin

lemma front_least: "is_heap key xs \<Longrightarrow> x \<in> set xs \<Longrightarrow> key (hd xs) \<le> key x"
  using heap_root [of key xs] by (metis in_set_conv_nth hd_conv_nth length_pos_if_in_set length_greater_0_conv)

lemma push_set: "is_heap key xs \<Longrightarrow> set (push (xs @ [x])) = insert x (set xs)"
  using push_law [of xs x] by (metis set_mset_mset set_mset_add_mset_insert)

lemma pop_length: "is_heap key xs \<Longrightarrow> xs \<noteq> [] \<Longrightarrow> length (butlast (pop xs)) = length xs - 1"
  using pop_law [of xs] by (metis size_mset size_add_mset add_diff_cancel_left' plus_1_eq_Suc)

lemma pop_set: "is_heap key xs \<Longrightarrow> xs \<noteq> [] \<Longrightarrow> set xs = insert (hd xs) (set (butlast (pop xs)))"
  using pop_law [of xs] by (metis set_mset_mset set_mset_add_mset_insert)

lemma pop_distinct: "is_heap key xs \<Longrightarrow> xs \<noteq> [] \<Longrightarrow> distinct (map g xs) \<Longrightarrow>
   distinct (map g (butlast (pop xs))) \<and> g (hd xs) \<notin> g ` set (butlast (pop xs))"
proof -
  assume a: "is_heap key xs" "xs \<noteq> []" "distinct (map g xs)"
  then have "mset (map g xs) = mset (g (hd xs) # map g (butlast (pop xs)))"
    using pop_law [of xs] by (metis mset_map image_mset_add_mset mset.simps(2))
  with a(3) have "distinct (g (hd xs) # map g (butlast (pop xs)))" by (metis mset_eq_imp_distinct_iff)
  then show ?thesis by simp
qed

end

section \<open>The queue\<close>

record 'c timer =
  m_id :: nat          \<comment> \<open>the address\<close>
  m_when :: timeval
  m_cancelled :: bool
  m_call :: 'c

record 'c timer_queue =
  tq_queue :: "'c timer list"
  tq_next :: nat
  tq_interval :: int
  tq_timeout :: timeval

interpretation timers: std_heap "m_when :: 'c timer \<Rightarrow> timeval" "push_heap m_when" "pop_heap m_when"
  by unfold_locales (rule push_heap_ok, assumption, rule pop_heap_ok)

definition set_timeout :: "'c timer_queue \<Rightarrow> 'c timer_queue" where
  "set_timeout q =
     (if tq_queue q = [] then q\<lparr>tq_interval := 0\<rparr>
      else q\<lparr>tq_interval := 1, tq_timeout := m_when (hd (tq_queue q))\<rparr>)"

definition TimerQueue :: "'c timer_queue" where
  "TimerQueue = \<lparr>tq_queue = [], tq_next = 0, tq_interval = 0, tq_timeout = Timeval 0 0\<rparr>"

text \<open>\<open>insert_timer\<close> makes a timer at a new address and inserts it.\<close>

definition insert_timer :: "timeval \<Rightarrow> 'c \<Rightarrow> 'c timer_queue \<Rightarrow> 'c timer_queue" where
  "insert_timer time call q =
     set_timeout (q\<lparr>tq_queue := push_heap m_when
        (tq_queue q @ [\<lparr>m_id = tq_next q, m_when = time, m_cancelled = False, m_call = call\<rparr>]),
        tq_next := tq_next q + 1\<rparr>)"

definition cancel :: "nat \<Rightarrow> 'c timer_queue \<Rightarrow> 'c timer_queue" where
  "cancel i q =
     q\<lparr>tq_queue := map (\<lambda>t. if m_id t = i then t\<lparr>m_cancelled := True\<rparr> else t) (tq_queue q)\<rparr>"

text \<open>
  What a callback does to the queue.  \<open>cb\<close> gets what the timer was made with, the address the next
  timer will have and the state of the server.
\<close>

datatype 'c act = Insert timeval 'c | Cancel nat

fun run_act :: "'c act \<Rightarrow> 'c timer_queue \<Rightarrow> 'c timer_queue" where
  "run_act (Insert time call) q = insert_timer time call q"
| "run_act (Cancel i) q = cancel i q"

text \<open>
  \<open>handle_timeout\<close> calls a timer while it is still in the queue and then takes off the front.  Were
  this another timer by then, a timer in the queue would be deleted.  The result names the timers
  that were called, in order.  The loop need not end: None.
\<close>

partial_function (option) handle_loop ::
  "('c \<Rightarrow> nat \<Rightarrow> 's \<Rightarrow> 's \<times> 'c act list) \<Rightarrow> timeval \<Rightarrow> 's \<Rightarrow> 'c timer_queue \<Rightarrow> 'c timer list \<Rightarrow>
   ('s \<times> 'c timer_queue \<times> 'c timer list) res option" where
  "handle_loop cb time s q called =
     (case tq_queue q of
        [] \<Rightarrow> Some (Inr (s, q, called))
      | t # _ \<Rightarrow>
          (if timeval_lessthan (m_when t) time \<or> m_cancelled t
           then let (s', acts) = (if m_cancelled t then (s, []) else cb (m_call t) (tq_next q) s);
                    q' = foldl (\<lambda>q a. run_act a q) q acts;
                    popped = pop_heap m_when (tq_queue q')
                in if m_id (last popped) \<noteq> m_id t then Some (Inl Use_After_Free)
                   else handle_loop cb time s' (q'\<lparr>tq_queue := butlast popped\<rparr>)
                          (if m_cancelled t then called else called @ [t])
           else Some (Inr (s, q, called))))"

definition handle_timeout ::
  "('c \<Rightarrow> nat \<Rightarrow> 's \<Rightarrow> 's \<times> 'c act list) \<Rightarrow> timeval \<Rightarrow> 's \<Rightarrow> 'c timer_queue \<Rightarrow>
   ('s \<times> 'c timer_queue \<times> 'c timer list) res option" where
  "handle_timeout cb time s q =
     map_option (\<lambda>r. rbind r (\<lambda>(s', q', called). Inr (s', set_timeout q', called)))
       (handle_loop cb time s q [])"

section \<open>The queue is a heap of timers with different addresses\<close>

definition queue_ok :: "'c timer_queue \<Rightarrow> bool" where
  "queue_ok q \<longleftrightarrow> is_heap m_when (tq_queue q) \<and> distinct (map m_id (tq_queue q)) \<and>
     (\<forall>t \<in> set (tq_queue q). m_id t < tq_next q)"

lemma set_timeout_queue [simp]: "tq_queue (set_timeout q) = tq_queue q" "tq_next (set_timeout q) = tq_next q"
  by (simp_all add: set_timeout_def)

lemma queue_ok_timeout [simp]: "queue_ok (set_timeout q) = queue_ok q"
  by (simp add: queue_ok_def)

lemma insert_ok:
  assumes "queue_ok q"
  shows "queue_ok (insert_timer time call q) \<and>
    mset (tq_queue (insert_timer time call q)) =
      add_mset \<lparr>m_id = tq_next q, m_when = time, m_cancelled = False, m_call = call\<rparr> (mset (tq_queue q))"
proof -
  let ?t = "\<lparr>m_id = tq_next q, m_when = time, m_cancelled = False, m_call = call\<rparr>"
  have h: "is_heap m_when (tq_queue q)" using assms by (simp add: queue_ok_def)
  note p = timers.push_law [OF h, of ?t]
  then have "mset (map m_id (push_heap m_when (tq_queue q @ [?t]))) = mset (tq_next q # map m_id (tq_queue q))"
    by (metis mset_map image_mset_add_mset mset.simps(2) timer.select_convs(1))
  moreover have "distinct (tq_next q # map m_id (tq_queue q))" using assms by (auto simp: queue_ok_def)
  ultimately have "distinct (map m_id (push_heap m_when (tq_queue q @ [?t])))"
    by (metis mset_eq_imp_distinct_iff)
  with p timers.push_set [OF h, of ?t] assms show ?thesis by (auto simp: insert_timer_def queue_ok_def)
qed

lemma is_heap_keys: "is_heap f xs \<longleftrightarrow> is_heap id (map f xs)"
proof -
  have "f (xs ! ((i - 1) div 2)) \<le> f (xs ! i) \<longleftrightarrow> map f xs ! ((i - 1) div 2) \<le> map f xs ! i"
    if "0 < i" "i < length xs" for i
    using that by (simp add: nth_map)
  then show ?thesis by (auto simp: is_heap_def)
qed

lemma cancel_ok:
  assumes "queue_ok q"
  shows "queue_ok (cancel i q) \<and> map m_when (tq_queue (cancel i q)) = map m_when (tq_queue q) \<and>
    map m_id (tq_queue (cancel i q)) = map m_id (tq_queue q)"
proof -
  let ?c = "\<lambda>t. if m_id t = i then t\<lparr>m_cancelled := True\<rparr> else t"
  have c: "m_when (?c t) = m_when t" "m_id (?c t) = m_id t" for t by simp_all
  have w: "map m_when (map ?c ts) = map m_when ts" "map m_id (map ?c ts) = map m_id ts" for ts
    by (simp_all add: c)
  have "is_heap m_when (map ?c (tq_queue q))"
    using assms unfolding queue_ok_def by (subst is_heap_keys) (simp only: w is_heap_keys [symmetric])
  moreover have "distinct (map m_id (map ?c (tq_queue q)))"
    using assms by (simp only: w queue_ok_def)
  moreover have "\<forall>t \<in> set (map ?c (tq_queue q)). m_id t < tq_next q" using assms by (auto simp: queue_ok_def)
  moreover have "tq_queue (cancel i q) = map ?c (tq_queue q)" "tq_next (cancel i q) = tq_next q"
    by (simp_all add: cancel_def)
  ultimately show ?thesis unfolding queue_ok_def by (simp only: w simp_thms)
qed

section \<open>Handling a timeout\<close>

text \<open>A new timer that is not earlier than the front does not displace it.\<close>

lemma sift_up_front:
  "0 < i \<Longrightarrow> i < length xs \<Longrightarrow> f (xs ! 0) \<le> f (xs ! i) \<Longrightarrow> sift_up f i xs ! 0 = xs ! 0"
proof (induction f i xs rule: sift_up.induct)
  case (1 f i xs)
  let ?p = "(i - 1) div 2"
  show ?case
  proof (cases "f (xs ! i) < f (xs ! ?p)")
    case False
    then show ?thesis by (subst sift_up.simps) simp
  next
    case True
    with 1(4) have p: "0 < ?p" by (cases "?p = 0") auto
    have len: "?p < length xs" "?p < i" using 1(2,3) by auto
    let ?ys = "xs[i := xs ! ?p, ?p := xs ! i]"
    have "?ys ! 0 = xs ! 0" "?ys ! ?p = xs ! i" using nth_swap [OF 1(3) len(1)] p len 1(2) by auto
    with 1(1) [OF conjI [OF 1(2) True]] p len 1(4) have "sift_up f ?p ?ys ! 0 = xs ! 0" by simp
    with True 1(2) show ?thesis by (subst sift_up.simps) simp
  qed
qed

lemma push_heap_front: "xs \<noteq> [] \<Longrightarrow> f (hd xs) \<le> f x \<Longrightarrow> hd (push_heap f (xs @ [x])) = hd xs"
proof -
  assume a: "xs \<noteq> []" "f (hd xs) \<le> f x"
  then have "sift_up f (length xs) (xs @ [x]) ! 0 = (xs @ [x]) ! 0"
    by (intro sift_up_front) (simp_all add: nth_append hd_conv_nth)
  moreover have "sift_up f (length xs) (xs @ [x]) \<noteq> []" by (metis length_0_conv sift_up_length snoc_eq_iff_butlast)
  ultimately show ?thesis using a by (simp add: push_heap_def hd_conv_nth nth_append)
qed

definition late :: "timeval \<Rightarrow> 'c act list \<Rightarrow> bool" where
  "late time acts \<longleftrightarrow> list_all (\<lambda>a. case a of Insert w c \<Rightarrow> time \<le> w | Cancel i \<Rightarrow> True) acts"

definition no_cancel :: "'c act list \<Rightarrow> bool" where
  "no_cancel acts \<longleftrightarrow> list_all (\<lambda>a. case a of Insert w c \<Rightarrow> True | Cancel i \<Rightarrow> False) acts"

definition due :: "timeval \<Rightarrow> 'c timer \<Rightarrow> bool" where
  "due time t \<longleftrightarrow> m_when t < time \<and> \<not> m_cancelled t"

abbreviation expired :: "timeval \<Rightarrow> 'c timer_queue \<Rightarrow> timeval multiset" where
  "expired time q \<equiv> filter_mset (\<lambda>w. w < time) (image_mset m_when (mset (tq_queue q)))"

text \<open>\<open>same_front\<close>: the actions of a callback keep the front and add nothing that is due.\<close>

definition same_front :: "timeval \<Rightarrow> 'c timer_queue \<Rightarrow> 'c timer_queue \<Rightarrow> bool" where
  "same_front time q q' \<longleftrightarrow>
     queue_ok q' \<and> tq_queue q' \<noteq> [] \<and> m_id (hd (tq_queue q')) = m_id (hd (tq_queue q)) \<and>
     m_when (hd (tq_queue q')) = m_when (hd (tq_queue q)) \<and> expired time q' = expired time q"

lemma act_front:
  assumes "queue_ok q" and "tq_queue q \<noteq> []" and "m_when (hd (tq_queue q)) < time" and "late time [a]"
  shows "same_front time q (run_act a q) \<and> (no_cancel [a] \<longrightarrow>
    hd (tq_queue (run_act a q)) = hd (tq_queue q) \<and>
    filter_mset (due time) (mset (tq_queue (run_act a q))) = filter_mset (due time) (mset (tq_queue q)))"
proof (cases a)
  case (Insert w c)
  let ?t = "\<lparr>m_id = tq_next q, m_when = w, m_cancelled = False, m_call = c\<rparr>"
  have w: "time \<le> w" using assms(4) Insert by (simp add: late_def)
  then have f: "hd (tq_queue (insert_timer w c q)) = hd (tq_queue q)"
    using push_heap_front [OF assms(2), of m_when ?t] assms(3) by (simp add: insert_timer_def)
  have ne: "tq_queue (insert_timer w c q) \<noteq> []"
    using insert_ok [OF assms(1), of w c] by (metis mset.simps(1) add_mset_not_empty)
  show ?thesis
    using Insert f ne w insert_ok [OF assms(1), of w c] by (simp add: same_front_def no_cancel_def due_def)
next
  case (Cancel i)
  have "image_mset m_when (mset (tq_queue (cancel i q))) = image_mset m_when (mset (tq_queue q))"
    using cancel_ok [OF assms(1), of i] by (metis mset_map)
  moreover have "tq_queue (cancel i q) \<noteq> []" using assms(2) by (simp add: cancel_def)
  moreover have "m_when (hd (tq_queue (cancel i q))) = m_when (hd (tq_queue q))"
    "m_id (hd (tq_queue (cancel i q))) = m_id (hd (tq_queue q))"
    using assms(2) by (simp_all add: cancel_def hd_map)
  ultimately show ?thesis using Cancel cancel_ok [OF assms(1), of i] by (simp add: same_front_def no_cancel_def)
qed

lemma acts_front:
  "queue_ok q \<Longrightarrow> tq_queue q \<noteq> [] \<Longrightarrow> m_when (hd (tq_queue q)) < time \<Longrightarrow> late time acts \<Longrightarrow>
   same_front time q (foldl (\<lambda>q a. run_act a q) q acts) \<and> (no_cancel acts \<longrightarrow>
    hd (tq_queue (foldl (\<lambda>q a. run_act a q) q acts)) = hd (tq_queue q) \<and>
    filter_mset (due time) (mset (tq_queue (foldl (\<lambda>q a. run_act a q) q acts))) =
      filter_mset (due time) (mset (tq_queue q)))"
proof (induction acts arbitrary: q)
  case (Cons a acts)
  from Cons.prems(4) have l: "late time [a]" "late time acts" by (simp_all add: late_def)
  note s = act_front [OF Cons.prems(1-3) l(1)]
  then have q: "queue_ok (run_act a q)" "tq_queue (run_act a q) \<noteq> []" "m_when (hd (tq_queue (run_act a q))) < time"
    using Cons.prems(3) by (auto simp: same_front_def)
  have n: "no_cancel (a # acts) \<longleftrightarrow> no_cancel [a] \<and> no_cancel acts" by (simp add: no_cancel_def)
  from Cons.IH [OF q l(2)] s show ?case unfolding n by (auto simp: same_front_def)
qed (simp add: same_front_def)

text \<open>One turn of the loop: the front is called unless it was cancelled, and taken off.\<close>

definition turn :: "('c \<Rightarrow> nat \<Rightarrow> 's \<Rightarrow> 's \<times> 'c act list) \<Rightarrow> 's \<Rightarrow> 'c timer_queue \<Rightarrow> 's \<times> 'c timer_queue" where
  "turn cb s q =
     (let t = hd (tq_queue q);
          (s', acts) = (if m_cancelled t then (s, []) else cb (m_call t) (tq_next q) s);
          q' = foldl (\<lambda>q a. run_act a q) q acts
      in (s', q'\<lparr>tq_queue := butlast (pop_heap m_when (tq_queue q'))\<rparr>))"

lemma turn_ok:
  assumes q: "queue_ok q" "tq_queue q = t # ts" and ex: "m_when t < time \<or> m_cancelled t"
    and cb: "\<And>c n s. late time (snd (cb c n s))" and turn: "turn cb s q = (s', q2)"
  shows "handle_loop cb time s q called = handle_loop cb time s' q2 (if m_cancelled t then called else called @ [t])"
    and "queue_ok q2"
    and "((size (expired time q2), length (tq_queue q2)), (size (expired time q), length (tq_queue q)))
      \<in> less_than <*lex*> less_than"
    and "expired time q2 \<subseteq># expired time q"
    and "(\<forall>c n s. no_cancel (snd (cb c n s))) \<Longrightarrow> filter_mset (due time) (mset (tq_queue q)) =
      filter_mset (due time) (add_mset t (mset (tq_queue q2)))"
proof -
  obtain acts where a: "(s', acts) = (if m_cancelled t then (s, []) else cb (m_call t) (tq_next q) s)"
    using turn q(2) by (auto simp: turn_def Let_def split: prod.splits)
  define q1 where "q1 = foldl (\<lambda>q a. run_act a q) q acts"
  have q2: "q2 = q1\<lparr>tq_queue := butlast (pop_heap m_when (tq_queue q1))\<rparr>"
    using turn q(2) a by (auto simp: turn_def Let_def q1_def split: prod.splits if_splits)
  have front: "same_front time q q1 \<and> ((\<forall>c n s. no_cancel (snd (cb c n s))) \<longrightarrow>
      hd (tq_queue q1) = t \<and> filter_mset (due time) (mset (tq_queue q1)) = filter_mset (due time) (mset (tq_queue q)))"
  proof (cases "m_cancelled t")
    case True
    with a q have "q1 = q" by (simp add: q1_def)
    with q show ?thesis by (simp add: same_front_def)
  next
    case False
    with a have l: "acts = snd (cb (m_call t) (tq_next q) s)" by (metis snd_conv)
    with acts_front [OF q(1), of time acts] q(2) False ex cb [of "m_call t" "tq_next q" s] show ?thesis
      by (simp add: q1_def)
  qed
  then have q1: "queue_ok q1" "tq_queue q1 \<noteq> []" "m_id (hd (tq_queue q1)) = m_id t"
    "m_when (hd (tq_queue q1)) = m_when t" "expired time q1 = expired time q"
    using q(2) by (auto simp: same_front_def)
  then have h: "is_heap m_when (tq_queue q1)" by (simp add: queue_ok_def)
  note pop = timers.pop_law [OF h q1(2)]
  show "queue_ok q2"
    using q1(1) pop timers.pop_distinct [OF h q1(2), of m_id] timers.pop_set [OF h q1(2)] q2
    by (auto simp: queue_ok_def)
  show "handle_loop cb time s q called = handle_loop cb time s' q2 (if m_cancelled t then called else called @ [t])"
    using q(2) ex a pop q1(3) q2
    by (subst handle_loop.simps) (auto simp: less_timeval_def Let_def q1_def split: prod.splits if_splits)
  have "image_mset m_when (mset (tq_queue q1)) = add_mset (m_when t) (image_mset m_when (mset (tq_queue q2)))"
    using pop q1(4) q2 by (metis image_mset_add_mset timer_queue.select_convs(1) timer_queue.surjective timer_queue.update_convs(1))
  then have e: "expired time q = (if m_when t < time then add_mset (m_when t) (expired time q2) else expired time q2)"
    using q1(5) by simp
  then show "expired time q2 \<subseteq># expired time q" by simp
  have "length (tq_queue q2) = length (tq_queue q1) - 1"
    using timers.pop_length [OF h q1(2)] q2 by simp
  moreover have "q1 = q" if "\<not> m_when t < time" using that ex a by (simp add: q1_def)
  ultimately show "((size (expired time q2), length (tq_queue q2)), (size (expired time q), length (tq_queue q)))
      \<in> less_than <*lex*> less_than"
    using e q(2) by (cases "m_when t < time") auto
  show "filter_mset (due time) (mset (tq_queue q)) = filter_mset (due time) (add_mset t (mset (tq_queue q2)))"
    if "\<forall>c n s. no_cancel (snd (cb c n s))"
    using front that pop q2 by (metis timer_queue.select_convs(1) timer_queue.surjective timer_queue.update_convs(1))
qed

definition handled :: "timeval \<Rightarrow> 'c timer_queue \<Rightarrow> 'c timer list \<Rightarrow> 'c timer_queue \<Rightarrow> bool" where
  "handled time q new q' \<longleftrightarrow>
     queue_ok q' \<and> sorted (map m_when new) \<and> list_all (due time) new \<and>
     (\<forall>t \<in> set (tq_queue q'). \<not> m_when t < time) \<and>
     (tq_queue q' \<noteq> [] \<longrightarrow> \<not> m_cancelled (hd (tq_queue q'))) \<and>
     (\<forall>w \<le> time. (\<forall>u \<in> set (tq_queue q). w \<le> m_when u) \<longrightarrow> (\<forall>t \<in> set new. w \<le> m_when t))"

lemma bound_below:
  assumes "expired time q2 \<subseteq># expired time q" and "w \<le> time" and "\<forall>u \<in> set (tq_queue q). w \<le> m_when u"
    and "u \<in> set (tq_queue q2)"
  shows "w \<le> m_when u"
proof (cases "m_when u < time")
  case True
  then have "m_when u \<in># expired time q2" using assms(4) by simp
  then have "m_when u \<in># expired time q" using assms(1) by (rule mset_subset_eqD [rotated])
  then obtain v where "v \<in> set (tq_queue q)" "m_when v = m_when u" by auto
  with assms(3) show ?thesis by metis
next
  case False
  with assms(2) show ?thesis by (meson le_less_trans not_le)
qed

lemma handle_loop_ok:
  assumes late: "\<forall>c n s. late time (snd (cb c n s))"
  shows "queue_ok q \<Longrightarrow> \<exists>s' q' new. handle_loop cb time s q called = Some (Inr (s', q', called @ new)) \<and>
     handled time q new q' \<and>
     ((\<forall>c n s. no_cancel (snd (cb c n s))) \<longrightarrow> mset new = filter_mset (due time) (mset (tq_queue q)))"
proof (induction "(size (expired time q), length (tq_queue q))" arbitrary: q s called
    rule: wf_induct_rule [OF wf_lex_prod [OF wf_less_than wf_less_than]])
  case 1
  note h = 1(2)
  have cb: "\<And>c n s. late time (snd (cb c n s))" using late by blast
  have least: "\<forall>u \<in> set (tq_queue q). m_when (hd (tq_queue q)) \<le> m_when u"
    using timers.front_least [of "tq_queue q"] h by (auto simp: queue_ok_def)
  show ?case
  proof (cases "tq_queue q")
    case Nil
    then have "handle_loop cb time s q called = Some (Inr (s, q, called @ []))" by (subst handle_loop.simps) simp
    with Nil h show ?thesis by (intro exI [of _ s] exI [of _ q] exI [of _ "[]"]) (simp add: handled_def)
  next
    case (Cons t ts)
    show ?thesis
    proof (cases "m_when t < time \<or> m_cancelled t")
      case False
      then have "handle_loop cb time s q called = Some (Inr (s, q, called @ []))"
        using Cons by (subst handle_loop.simps) (simp add: less_timeval_def)
      moreover have l: "\<forall>u \<in> set (tq_queue q). \<not> m_when u < time"
        using least Cons False by (metis leD le_less_trans list.sel(1) not_le)
      moreover from l have "filter_mset (due time) (mset (tq_queue q)) = {#}"
        by (auto simp: due_def multiset_eq_iff count_eq_zero_iff)
      ultimately show ?thesis using h False Cons
        by (intro exI [of _ s] exI [of _ q] exI [of _ "[]"]) (simp add: handled_def)
    next
      case True
      obtain s' q2 where turn: "turn cb s q = (s', q2)" by fastforce
      note t = turn_ok [OF h Cons True cb turn, simplified]
      let ?called = "if m_cancelled t then called else called @ [t]"
      obtain s'' q' new where ih: "handle_loop cb time s' q2 ?called = Some (Inr (s'', q', ?called @ new))"
        "handled time q2 new q'"
        "(\<forall>c n s. no_cancel (snd (cb c n s))) \<longrightarrow> mset new = filter_mset (due time) (mset (tq_queue q2))"
        using 1(1) [OF turn_ok(3) [OF h Cons True cb turn] turn_ok(2) [OF h Cons True cb turn], of s' ?called] by blast
      let ?new = "if m_cancelled t then new else t # new"
      have "handle_loop cb time s q called = Some (Inr (s'', q', called @ ?new))"
        using turn_ok(1) [OF h Cons True cb turn, of called] ih(1) by simp
      moreover have below: "\<forall>x \<in> set new. w \<le> m_when x" if "w \<le> time" "\<forall>u \<in> set (tq_queue q). w \<le> m_when u" for w
        using ih(2) that(1) bound_below [OF turn_ok(4) [OF h Cons True cb turn] that] by (simp add: handled_def)
      have i: "queue_ok q'" "sorted (map m_when new)" "list_all (due time) new"
        "\<forall>x \<in> set (tq_queue q'). \<not> m_when x < time" "tq_queue q' \<noteq> [] \<longrightarrow> \<not> m_cancelled (hd (tq_queue q'))"
        using ih(2) unfolding handled_def by blast+
      have w: "\<forall>x \<in> set ?new. w \<le> m_when x" if "w \<le> time" "\<forall>u \<in> set (tq_queue q). w \<le> m_when u" for w
        using below [OF that] that(2) Cons by simp
      have d: "m_when t < time \<and> (\<forall>x \<in> set new. m_when t \<le> m_when x)" if "\<not> m_cancelled t"
        using below [of "m_when t"] that True least Cons by simp
      have "sorted (map m_when ?new) \<and> list_all (due time) ?new"
        using i(2,3) d by (cases "m_cancelled t") (simp_all add: due_def)
      with i w have "handled time q ?new q'" unfolding handled_def by blast
      moreover have "(\<forall>c n s. no_cancel (snd (cb c n s))) \<longrightarrow> mset ?new = filter_mset (due time) (mset (tq_queue q))"
        using ih(3) turn_ok(5) [OF h Cons True cb turn] True by (auto simp: due_def)
      ultimately show ?thesis by blast
    qed
  qed
qed

text \<open>
  C13: When no callback starts a timer before the present time, handle_timeout returns, whatever
  the callbacks insert or cancel: it calls only expired timers that were not cancelled, in the
  order of their times, leaves no expired timer in the queue, and calls exactly the expired ones
  when no callback cancels.
\<close>

theorem handle_timeout_spec:
  assumes "queue_ok q" and "\<forall>c n s. late time (snd (cb c n s))"
  shows "\<exists>s' q' called. handle_timeout cb time s q = Some (Inr (s', q', called)) \<and>
    queue_ok q' \<and> sorted (map m_when called) \<and> list_all (due time) called \<and>
    (\<forall>t \<in> set (tq_queue q'). \<not> timeval_lessthan (m_when t) time) \<and>
    ((\<forall>c n s. no_cancel (snd (cb c n s))) \<longrightarrow> mset called = filter_mset (due time) (mset (tq_queue q)))"
proof -
  from handle_loop_ok [OF assms(2,1), where s = s and called = "[]"] obtain s' q' new where
    l: "handle_loop cb time s q [] = Some (Inr (s', q', new))" "handled time q new q'"
    "(\<forall>c n s. no_cancel (snd (cb c n s))) \<longrightarrow> mset new = filter_mset (due time) (mset (tq_queue q))" unfolding append_Nil by blast
  then show ?thesis
    by (intro exI [of _ s'] exI [of _ "set_timeout q'"] exI [of _ new])
      (simp add: handle_timeout_def handled_def less_timeval_def)
qed

theorem insert_timer_spec:
  assumes "queue_ok q"
  shows "queue_ok (insert_timer time call q) \<and> tq_interval (insert_timer time call q) = 1 \<and>
    mset (tq_queue (insert_timer time call q)) =
      add_mset \<lparr>m_id = tq_next q, m_when = time, m_cancelled = False, m_call = call\<rparr> (mset (tq_queue q)) \<and>
    (\<forall>t \<in> set (tq_queue (insert_timer time call q)). tq_timeout (insert_timer time call q) \<le> m_when t)"
proof -
  note i = insert_ok [OF assms, of time call]
  then have "tq_queue (insert_timer time call q) \<noteq> []" by (metis mset.simps(1) add_mset_not_empty)
  then have "tq_interval (insert_timer time call q) = 1"
    "tq_timeout (insert_timer time call q) = m_when (hd (tq_queue (insert_timer time call q)))"
    by (simp_all add: insert_timer_def set_timeout_def split: if_splits)
  with i timers.front_least [of "tq_queue (insert_timer time call q)"] show ?thesis by (simp add: queue_ok_def)
qed

definition sample_timers :: "nat timer_queue" where
  "sample_timers = insert_timer (Timeval 9 0) 1 (insert_timer (Timeval 3 0) 2 (insert_timer (Timeval 5 0) 3 TimerQueue))"

lemma TimerQueue_ok: "queue_ok TimerQueue"
  by (simp add: queue_ok_def TimerQueue_def is_heap_def)

lemma sample_timers_ok: "queue_ok sample_timers"
  unfolding sample_timers_def by (intro insert_ok [THEN conjunct1] TimerQueue_ok)

theorem handle_timeout_spec_witness:
  "\<exists>s' q' called. handle_timeout (\<lambda>c n s. (s @ [c], [])) (Timeval 6 0) [] sample_timers = Some (Inr (s', q', called)) \<and>
     sorted (map m_when called) \<and> mset called = filter_mset (due (Timeval 6 0)) (mset (tq_queue sample_timers))"
proof -
  have "\<forall>c n s. late (Timeval 6 0) (snd ((\<lambda>c n s. (s @ [c], [])) c n s))" by (simp add: late_def)
  from handle_timeout_spec [OF sample_timers_ok this, of "[]"] show ?thesis by (auto simp: no_cancel_def)
qed

theorem insert_timer_spec_witness:
  "tq_interval (insert_timer (Timeval 4 0) 7 sample_timers) = 1"
  using insert_timer_spec [OF sample_timers_ok, of "Timeval 4 0" 7] by simp

text \<open>
  The loop takes off the front after the callback; a callback that inserts an earlier timer than the
  one that called it makes this the wrong one.
\<close>


end
