(* ===== verification/Propagate_Buffer.thy ===== *)
theory Propagate_Buffer
  imports Pl_Key Client_Framing
begin

text \<open>
  \<open>PropagateBufferMessage\<close> of \<open>GameMessage.cc\<close>: the header of the messages the game server passes
  between players, the messages it builds itself, and the checks \<open>GameState.cc\<close> makes before it
  handles one.

  \<open>alloc n\<close> is the memory \<open>new Buffer(n)\<close> returns, with any content.  The time of day is two words.
  \<open>zlib src room\<close> stands for \<open>compress\<close>: None for an error, otherwise the compressed bytes.
\<close>

abbreviation (input) HasTimeSent :: u32 where "HasTimeSent \<equiv> 0x1"
abbreviation (input) AllowTimeOut :: u32 where "AllowTimeOut \<equiv> 0x10"
abbreviation (input) HasTransactionID :: u32 where "HasTransactionID \<equiv> 0x200"
abbreviation (input) HasPlayerID :: u32 where "HasPlayerID \<equiv> 0x1000"
abbreviation (input) HasAcctUUID :: u32 where "HasAcctUUID \<equiv> 0x4000"
abbreviation (input) IsSystemMessage :: u32 where "IsSystemMessage \<equiv> 0x20000"

type_synonym zlib = "byte list \<Rightarrow> nat \<Rightarrow> byte list option"

section \<open>The header\<close>

definition body_offset_flags :: "u32 \<Rightarrow> nat" where
  "body_offset_flags flags =
     16 + (if flags AND HasTimeSent \<noteq> 0 then 8 else 0) + (if flags AND HasTransactionID \<noteq> 0 then 4 else 0) +
     (if flags AND HasPlayerID \<noteq> 0 then 4 else 0) + (if flags AND HasAcctUUID \<noteq> 0 then 16 else 0) +
     (if flags AND AllowTimeOut \<noteq> 0 then 6 else 0)"

definition body_offset :: "byte list \<Rightarrow> nat res" where
  "body_offset buf =
     rbind (read32 buf 12) (\<lambda>bitvector. Inr
       (12 + 4 + (if bitvector AND HasTimeSent \<noteq> 0 then 8 else 0) +
        (if bitvector AND HasTransactionID \<noteq> 0 then 4 else 0) +
        (if bitvector AND HasPlayerID \<noteq> 0 then 4 else 0) + (if bitvector AND HasAcctUUID \<noteq> 0 then 16 else 0) +
        (if bitvector AND AllowTimeOut \<noteq> 0 then 6 else 0)))"

definition msg_kinum :: "byte list \<Rightarrow> u32 res" where
  "msg_kinum buf =
     rbind (read32 buf 12) (\<lambda>bitvector.
       if bitvector AND HasPlayerID \<noteq> 0
       then read32 buf (16 + (if bitvector AND HasTimeSent \<noteq> 0 then 8 else 0) +
              (if bitvector AND HasTransactionID \<noteq> 0 then 4 else 0))
       else Inr 0)"

definition set_timestamp :: "u32 \<times> u32 \<Rightarrow> byte list \<Rightarrow> byte list res" where
  "set_timestamp now buf =
     rbind (read32 buf 12) (\<lambda>bitvector.
       if bitvector AND HasTimeSent \<noteq> 0
       then rbind (write32 buf 16 (fst now)) (\<lambda>buf'. write32 buf' 20 (snd now))
       else Inr buf)"

definition format_header :: "byte list \<Rightarrow> u16 \<Rightarrow> u32 \<Rightarrow> u32 \<Rightarrow> u32 \<Rightarrow> (byte list \<times> nat) res" where
  "format_header buf subtype message_len flags ki =
     rbind (write16 buf 0 2) (\<lambda>buf.
     rbind (write32 buf 2 (ucast subtype)) (\<lambda>buf.
     rbind (write32 buf 6 (message_len - 10)) (\<lambda>buf.
     rbind (write16 buf 10 subtype) (\<lambda>buf.
     rbind (write32 buf 12 flags) (\<lambda>buf.
       let offset = (if flags AND HasTimeSent \<noteq> 0 then 16 + 8 else 16)
       in if flags AND HasPlayerID \<noteq> 0
          then rbind (write32 buf offset ki) (\<lambda>buf. Inr (buf, offset + 4))
          else Inr (buf, offset))))))"

section \<open>Messages the server builds\<close>

definition PlNetMsgGroupOwner :: "(nat \<Rightarrow> byte list) \<Rightarrow> u32 \<times> u32 \<Rightarrow> bool \<Rightarrow> byte list res" where
  "PlNetMsgGroupOwner alloc now is_owner =
     (let buflen = body_offset_flags (HasTimeSent OR IsSystemMessage) + 12
      in rbind (format_header (alloc buflen) 0x264 (of_nat buflen) (HasTimeSent OR IsSystemMessage) 0) (\<lambda>(buf, offset).
         rbind (set_timestamp now buf) (\<lambda>buf.
           if offset \<noteq> 24 then Inl Logic_Error
           else rbind (write32 buf 24 1) (\<lambda>buf.
                rbind (write32 buf 28 0xff000001) (\<lambda>buf.
                rbind (write16 buf 32 0x0004) (\<lambda>buf.
                rbind (put 34 [0] buf) (\<lambda>buf.
                put 35 [if is_owner then 1 else 0] buf)))))))"

definition PlNetMsgInitialAgeStateSent :: "(nat \<Rightarrow> byte list) \<Rightarrow> u32 \<times> u32 \<Rightarrow> u32 \<Rightarrow> byte list res" where
  "PlNetMsgInitialAgeStateSent alloc now howmany =
     (let buflen = body_offset_flags HasTimeSent + 4
      in rbind (format_header (alloc buflen) 0x2B8 (of_nat buflen) (HasTimeSent OR IsSystemMessage) 0) (\<lambda>(buf, offset).
         rbind (set_timestamp now buf) (\<lambda>buf.
           if offset \<noteq> 24 then Inl Logic_Error else write32 buf 24 howmany)))"

text \<open>
  \<open>write_key_at\<close> is \<open>offset += key->write_out(buf + offset, m_buflen - offset)\<close>.
\<close>

definition write_key_at ::
  "iconv \<Rightarrow> (nat \<Rightarrow> byte list) \<Rightarrow> pl_key \<Rightarrow> byte list \<Rightarrow> nat \<Rightarrow> (byte list \<times> nat \<times> pl_key) res" where
  "write_key_at conv alloc k buf offset =
     rbind (pk_write_out conv alloc k (drop offset buf) True) (\<lambda>(tail, n, k').
       Inr (take offset buf @ tail, offset + n, k'))"

text \<open>\<open>do_message_compression\<close> of \<open>SDL.cc\<close>; it works on the buffer from the stream header on.\<close>

definition do_message_compression :: "zlib \<Rightarrow> byte list \<Rightarrow> (byte list \<times> nat) res" where
  "do_message_compression zlib buf =
     rbind (get8 buf 4) (\<lambda>how.
       if how = 3 then Inr (buf, 0)
       else rbind (read32 buf 5) (\<lambda>len.
         if unat len > 256
         then rbind (slice 11 (unat len - 2) buf) (\<lambda>src.
              (case zlib src (unat len + unat len div 1000 + 13) of
                 None \<Rightarrow> rbind (put 4 [1] buf) (\<lambda>buf. Inr (buf, 0))
               | Some out \<Rightarrow>
                   if length out < unat len - 2
                   then rbind (write32 buf 0 len) (\<lambda>buf.
                        rbind (put 4 [2] buf) (\<lambda>buf.
                        rbind (write32 buf 5 (of_nat (length out + 2))) (\<lambda>buf.
                        rbind (put 11 out buf) (\<lambda>buf. Inr (buf, length out + 2)))))
                   else Inr (buf, 0)))
         else Inr (buf, 0)))"

fun write_subobjects ::
  "iconv \<Rightarrow> (nat \<Rightarrow> byte list) \<Rightarrow> pl_key list \<Rightarrow> byte list \<Rightarrow> nat \<Rightarrow> (byte list \<times> nat) res" where
  "write_subobjects conv alloc [] buf offset = Inr (buf, offset)"
| "write_subobjects conv alloc (k # ks) buf offset =
     rbind (put offset [1] buf) (\<lambda>buf.
     rbind (write_key_at conv alloc k buf (offset + 1)) (\<lambda>(buf, offset, k').
     write_subobjects conv alloc ks buf offset))"

fun sizes :: "iconv \<Rightarrow> (nat \<Rightarrow> byte list) \<Rightarrow> pl_key list \<Rightarrow> (nat \<times> pl_key list) res" where
  "sizes conv alloc [] = Inr (0, [])"
| "sizes conv alloc (k # ks) =
     rbind (pk_send_len conv alloc k) (\<lambda>(n, k').
     rbind (sizes conv alloc ks) (\<lambda>(m, ks'). Inr (1 + n + m, k' # ks')))"

text \<open>
  \<open>build_msg\<close> in its two parts: the uncompressed message up to the "end thing", and the stream
  header, the compression and the outer layer.
\<close>

definition build_content ::
  "iconv \<Rightarrow> (nat \<Rightarrow> byte list) \<Rightarrow> u32 \<Rightarrow> byte list \<Rightarrow> u16 \<Rightarrow> u32 \<Rightarrow> pl_key option \<Rightarrow> pl_key list \<Rightarrow>
   (byte list \<times> nat \<times> nat) res" where
  "build_content conv alloc prop_flags msg msg_type msg_flags object subobjects =
     rbind (sizes conv alloc (case object of None \<Rightarrow> [] | Some k \<Rightarrow> [k])) (\<lambda>(object_len, objs).
     rbind (sizes conv alloc subobjects) (\<lambda>(subs_len, subs).
     let buflen = body_offset_flags prop_flags + length msg + 11 + 5 + 12 + 1 + (object_len - length objs) + subs_len;
         contents_at = body_offset_flags prop_flags + 9
     in rbind (write16 (alloc buflen) contents_at msg_type) (\<lambda>buf.
        rbind (put (contents_at + 2) [if object = None then 0 else 1] buf) (\<lambda>buf.
        rbind (case objs of [] \<Rightarrow> Inr (buf, contents_at + 3)
               | k # _ \<Rightarrow> rbind (write_key_at conv alloc k buf (contents_at + 3)) (\<lambda>(buf, offset, k'). Inr (buf, offset)))
          (\<lambda>(buf, offset).
        rbind (write32 buf offset (of_nat (length subobjects))) (\<lambda>buf.
        rbind (write_subobjects conv alloc subs buf (offset + 4)) (\<lambda>(buf, offset).
        rbind (write32 buf offset 0) (\<lambda>buf.
        rbind (write32 buf (offset + 4) 0) (\<lambda>buf.
        rbind (write32 buf (offset + 8) msg_flags) (\<lambda>buf.
        rbind (put (offset + 12) msg buf) (\<lambda>buf.
          if offset + 12 + length msg + 1 \<noteq> buflen then Inl Logic_Error
          else Inr (buf, offset + 12 + length msg, buflen))))))))))))"

definition build_msg ::
  "iconv \<Rightarrow> zlib \<Rightarrow> (nat \<Rightarrow> byte list) \<Rightarrow> u32 \<times> u32 \<Rightarrow> u32 \<Rightarrow> u32 \<Rightarrow> byte list \<Rightarrow> u16 \<Rightarrow> u32 \<Rightarrow> byte \<Rightarrow>
   pl_key option \<Rightarrow> pl_key list \<Rightarrow> bool \<Rightarrow> byte list res" where
  "build_msg conv zlib alloc now prop_flags prop_ki msg msg_type msg_flags end_thing object subobjects no_compress =
     rbind (build_content conv alloc prop_flags msg msg_type msg_flags object subobjects) (\<lambda>(buf, offset, buflen).
     let start_at = body_offset_flags prop_flags;
         contents_at = start_at + 9
     in rbind (write32 buf start_at 0) (\<lambda>buf.
        rbind (put (start_at + 4) [0] buf) (\<lambda>buf.
        rbind (write32 buf (start_at + 5) (of_nat (offset - contents_at))) (\<lambda>buf.
        rbind (if no_compress then Inr (buf, offset, buflen)
               else rbind (do_message_compression zlib (drop start_at buf)) (\<lambda>(tail, len2).
                      Inr (take start_at buf @ tail,
                           if len2 = 0 then offset else contents_at + len2,
                           if len2 = 0 then buflen else contents_at + len2 + 1)))
          (\<lambda>(buf, offset, buflen).
        rbind (put offset [end_thing] buf) (\<lambda>buf.
        rbind (format_header buf 0x26B (of_nat buflen) prop_flags prop_ki) (\<lambda>(buf, o1).
        rbind (if prop_flags AND HasTimeSent \<noteq> 0 then set_timestamp now buf else Inr buf) (\<lambda>buf.
        Inr (take buflen buf)))))))))"

definition PlServerReplyMsg ::
  "iconv \<Rightarrow> zlib \<Rightarrow> (nat \<Rightarrow> byte list) \<Rightarrow> u32 \<times> u32 \<Rightarrow> bool \<Rightarrow> pl_key \<Rightarrow> byte list res" where
  "PlServerReplyMsg conv zlib alloc now grant key =
     build_msg conv zlib alloc now HasTimeSent 0 (bytes32 (if grant then 1 else 0)) 0x26F 0x800 0 None [key] False"

definition PlNetMsgLoadClone ::
  "iconv \<Rightarrow> (nat \<Rightarrow> byte list) \<Rightarrow> u32 \<times> u32 \<Rightarrow> byte list \<Rightarrow> pl_key \<Rightarrow> u32 \<Rightarrow> bool \<Rightarrow> u32 \<Rightarrow> byte list res" where
  "PlNetMsgLoadClone conv alloc now clonebuf obj_name ki is_load player =
     rbind (pk_send_len conv alloc obj_name) (\<lambda>(n, key).
       let flags = HasTimeSent OR HasPlayerID;
           buflen = body_offset_flags flags + length clonebuf + n + 3
       in rbind (format_header (alloc buflen) 0x3B3 (of_nat buflen) flags ki) (\<lambda>(buf, offset).
          rbind (set_timestamp now buf) (\<lambda>buf.
          rbind (put offset clonebuf buf) (\<lambda>buf.
          rbind (write_key_at conv alloc key buf (offset + length clonebuf)) (\<lambda>(buf, offset, key').
            if offset + 3 \<noteq> buflen then Inl Logic_Error
            else rbind (put offset [ucast (player AND 0xFF)] buf) (\<lambda>buf.
                 rbind (put (offset + 1) [if is_load then HasCloneIDs else 0] buf) (\<lambda>buf.
                 put (offset + 2) [if is_load then HasCloneIDs else 0] buf)))))))"

section \<open>The checks before a message is handled\<close>

text \<open>Offsets are \<open>uint32_t\<close>: the length that is added to them comes from the message.\<close>

definition msg_len :: "byte list \<Rightarrow> u32" where
  "msg_len buf = of_nat (length buf)"

definition header_only_check_useable :: "byte list \<Rightarrow> bool res" where
  "header_only_check_useable buf =
     (if msg_len buf < 16 then Inr False
      else rbind (body_offset buf) (\<lambda>off. Inr (\<not> msg_len buf < of_nat off)))"

definition state_request_check_useable :: "byte list \<Rightarrow> bool res" where
  "state_request_check_useable buf =
     (if msg_len buf < 16 then Inr False
      else rbind (body_offset buf) (\<lambda>off. Inr (\<not> msg_len buf < of_nat off + 4)))"

definition recipients_fit :: "byte list \<Rightarrow> u32 \<Rightarrow> bool res" where
  "recipients_fit buf offset =
     (if msg_len buf < offset + 1 then Inr False
      else rbind (get8 buf (unat offset)) (\<lambda>recip_ct. Inr (\<not> msg_len buf < offset + 1 + 4 * ucast recip_ct)))"

definition directed_check_useable :: "byte list \<Rightarrow> bool res" where
  "directed_check_useable buf =
     (if msg_len buf < 16 then Inr False
      else rbind (body_offset buf) (\<lambda>off.
        if msg_len buf < of_nat off + 9 then Inr False
        else rbind (read32 buf (off + 5)) (\<lambda>n. recipients_fit buf (of_nat off + (10 + n)))))"

definition voice_check_useable :: "byte list \<Rightarrow> bool res" where
  "voice_check_useable buf =
     (if msg_len buf < 16 then Inr False
      else rbind (body_offset buf) (\<lambda>off.
        if msg_len buf < of_nat off + 5 then Inr False
        else rbind (read16 buf (off + 2)) (\<lambda>n. recipients_fit buf (of_nat off + (4 + ucast n)))))"

text \<open>
  \<open>pk_read_in\<close> is given a pointer and the number of bytes from there on; a pointer behind the end
  comes with a number that has wrapped, and the first byte that is read is outside of the message.
  \<open>delete_name\<close> after an exception looks at \<open>m_name\<close>, which is only set when the fixed part was read.
\<close>

definition read_key_at :: "byte list \<Rightarrow> u32 \<Rightarrow> (pl_key \<times> nat) res" where
  "read_key_at buf offset =
     (if unat offset > length buf then Inl Out_Of_Bounds else pk_read_in (drop (unat offset) buf))"

definition name_unset :: "byte list \<Rightarrow> u32 \<Rightarrow> bool" where
  "name_unset buf offset =
     (case drop (unat offset) buf of
        [] \<Rightarrow> True
      | c # cs \<Rightarrow> length (c # cs) < 15 + (if load_mask c then 2 else 0))"

definition load_clone_check_useable :: "byte list \<Rightarrow> bool res" where
  "load_clone_check_useable buf =
     (if msg_len buf < 16 then Inr False
      else rbind (body_offset buf) (\<lambda>off.
        if msg_len buf < of_nat off + 9 then Inr False
        else rbind (read32 buf (off + 5)) (\<lambda>n.
          let offset = of_nat off + (10 + n)
          in case read_key_at buf offset of
               Inr (key, k) \<Rightarrow> Inr (\<not> msg_len buf < offset + of_nat k + 3)
             | Inl e \<Rightarrow> if e \<noteq> Truncated_Message then Inl e
                        else if name_unset buf offset then Inl Uninitialized else Inr False)))"

text \<open>\<open>get_propagate_handler\<close>; the handlers differ in their check and in what they do.\<close>

datatype propagate_handler =
  ph_members_list | ph_state_request | ph_test_and_set | ph_ignore_it | ph_passthrough | ph_sdl
| ph_voice | ph_directed | ph_load_clone | ph_no_handler

definition get_propagate_handler :: "u16 \<Rightarrow> propagate_handler" where
  "get_propagate_handler subtype =
     (if subtype = 0x2AD then ph_members_list
      else if subtype = 0x265 then ph_state_request
      else if subtype = 0x27D then ph_test_and_set
      else if subtype = 0x218 then ph_ignore_it
      else if subtype = 0x26B \<or> subtype = 0x3B4 then ph_passthrough
      else if subtype = 0x2CD \<or> subtype = 0x329 then ph_sdl
      else if subtype = 0x279 then ph_voice
      else if subtype = 0x32E then ph_directed
      else if subtype = 0x3B3 then ph_load_clone
      else if subtype = 0x3AC then ph_ignore_it
      else if subtype = 0x464 then ph_passthrough
      else ph_no_handler)"

fun check_useable :: "propagate_handler \<Rightarrow> byte list \<Rightarrow> bool res" where
  "check_useable ph_members_list buf = header_only_check_useable buf"
| "check_useable ph_state_request buf = state_request_check_useable buf"
| "check_useable ph_test_and_set buf = header_only_check_useable buf"
| "check_useable ph_ignore_it buf = Inr True"
| "check_useable ph_passthrough buf = Inr True"
| "check_useable ph_sdl buf = header_only_check_useable buf"
| "check_useable ph_voice buf = voice_check_useable buf"
| "check_useable ph_directed buf = directed_check_useable buf"
| "check_useable ph_load_clone buf = load_clone_check_useable buf"
| "check_useable ph_no_handler buf = Inr False"

section \<open>Writing into a buffer piece by piece\<close>

lemma split_list_at: "length xs = n + m \<Longrightarrow> \<exists>a b. xs = a @ b \<and> length a = n \<and> length b = m"
  by (intro exI [of _ "take n xs"] exI [of _ "drop n xs"]) simp

lemma put_mid: "length a = off \<Longrightarrow> length b = length bs \<Longrightarrow> put off bs (a @ b @ c) = Inr (a @ bs @ c)"
  by (auto simp: put_def)

lemma put_front: "length b = length bs \<Longrightarrow> put 0 bs (b @ c) = Inr (bs @ c)"
  using put_mid [of "[]" 0 b bs c] by simp

lemma write32_mid: "length a = off \<Longrightarrow> length b = 4 \<Longrightarrow> write32 (a @ b @ c) off v = Inr (a @ bytes32 v @ c)"
  by (simp add: write32_def put_mid)

lemma write16_mid: "length a = off \<Longrightarrow> length b = 2 \<Longrightarrow> write16 (a @ b @ c) off v = Inr (a @ bytes16 v @ c)"
  by (simp add: write16_def put_mid)

definition header_wire :: "u16 \<Rightarrow> u32 \<Rightarrow> u32 \<Rightarrow> u32 \<times> u32 \<Rightarrow> u32 \<Rightarrow> byte list" where
  "header_wire subtype len flags now ki =
     bytes16 2 @ bytes32 (ucast subtype) @ bytes32 (len - 10) @ bytes16 subtype @ bytes32 flags @
     (if flags AND HasTimeSent \<noteq> 0 then bytes32 (fst now) @ bytes32 (snd now) else []) @
     (if flags AND HasPlayerID \<noteq> 0 then bytes32 ki else [])"

text \<open>The flags the server itself uses.\<close>

definition plain_flags :: "u32 \<Rightarrow> bool" where
  "plain_flags flags \<longleftrightarrow> flags AND HasTransactionID = 0 \<and> flags AND HasAcctUUID = 0 \<and> flags AND AllowTimeOut = 0"

lemma length_header: "plain_flags flags \<Longrightarrow> length (header_wire subtype len flags now ki) = body_offset_flags flags"
  by (simp add: header_wire_def body_offset_flags_def plain_flags_def)

lemma format_header_ok:
  assumes "plain_flags flags" and "length h = body_offset_flags flags"
  shows "\<exists>now. format_header (h @ rest) subtype len flags ki =
      Inr (header_wire subtype len flags now ki @ rest, body_offset_flags flags)"
proof -
  have "length h = 2 + (4 + (4 + (2 + (4 + (body_offset_flags flags - 16)))))"
    using assms(2) by (simp add: body_offset_flags_def)
  then obtain h0 h1 h2 h3 h4 t where h: "h = h0 @ h1 @ h2 @ h3 @ h4 @ t"
    "length h0 = 2" "length h1 = 4" "length h2 = 4" "length h3 = 2" "length h4 = 4"
    "length t = body_offset_flags flags - 16"
    by (metis split_list_at)
  let ?a = "bytes16 2 @ bytes32 (ucast subtype) @ bytes32 (len - 10) @ bytes16 subtype @ bytes32 flags"
  have w0: "write16 (h @ rest) 0 2 = Inr (bytes16 2 @ h1 @ h2 @ h3 @ h4 @ t @ rest)"
    using write16_mid [of "[]" 0 h0] h by simp
  have w1: "write32 (bytes16 2 @ h1 @ h2 @ h3 @ h4 @ t @ rest) 2 (ucast subtype) =
      Inr (bytes16 2 @ bytes32 (ucast subtype) @ h2 @ h3 @ h4 @ t @ rest)"
    using h by (simp add: write32_mid)
  have w2: "write32 (bytes16 2 @ bytes32 (ucast subtype) @ h2 @ h3 @ h4 @ t @ rest) 6 (len - 10) =
      Inr (bytes16 2 @ bytes32 (ucast subtype) @ bytes32 (len - 10) @ h3 @ h4 @ t @ rest)"
    using write32_mid [of "bytes16 2 @ bytes32 (ucast subtype)" 6 h2] h by simp
  have w3: "write16 (bytes16 2 @ bytes32 (ucast subtype) @ bytes32 (len - 10) @ h3 @ h4 @ t @ rest) 10 subtype =
      Inr (bytes16 2 @ bytes32 (ucast subtype) @ bytes32 (len - 10) @ bytes16 subtype @ h4 @ t @ rest)"
    using write16_mid [of "bytes16 2 @ bytes32 (ucast subtype) @ bytes32 (len - 10)" 10 h3] h by simp
  have w4: "write32 (bytes16 2 @ bytes32 (ucast subtype) @ bytes32 (len - 10) @ bytes16 subtype @ h4 @ t @ rest) 12 flags =
      Inr (?a @ t @ rest)"
    using write32_mid [of "bytes16 2 @ bytes32 (ucast subtype) @ bytes32 (len - 10) @ bytes16 subtype" 12 h4] h by simp
  define sent where "sent = (if flags AND HasTimeSent \<noteq> 0 then 8 else 0 :: nat)"
  define who where "who = (if flags AND HasPlayerID \<noteq> 0 then 4 else 0 :: nat)"
  have "length t = sent + who"
    using h(7) assms(1) by (simp add: body_offset_flags_def plain_flags_def sent_def who_def)
  then obtain t0 t1 where t: "t = t0 @ t1" "length t0 = sent" "length t1 = who" by (metis split_list_at)
  obtain now where now: "t0 = (if flags AND HasTimeSent \<noteq> 0 then bytes32 (fst now) @ bytes32 (snd now) else [])"
  proof (cases "flags AND HasTimeSent \<noteq> 0")
    case True
    then have "length t0 = 4 + 4" using t(2) by (simp add: sent_def)
    then obtain x y where "t0 = x @ y" "length x = 4" "length y = 4" by (metis split_list_at)
    with True that [of "(le32 x, le32 y)"] show ?thesis by (simp add: bytes32_le32)
  next
    case False
    with t(2) that show ?thesis by (simp add: sent_def)
  qed
  have tail: "(if flags AND HasPlayerID \<noteq> 0
      then rbind (write32 (?a @ t @ rest) (16 + sent) ki) (\<lambda>buf. Inr (buf, 16 + sent + 4))
      else Inr (?a @ t @ rest, 16 + sent)) =
    Inr (?a @ t0 @ (if flags AND HasPlayerID \<noteq> 0 then bytes32 ki else []) @ rest, 16 + sent + who)"
  proof (cases "flags AND HasPlayerID \<noteq> 0")
    case True
    with write32_mid [of "?a @ t0" "16 + sent" t1 rest ki] t show ?thesis by (simp add: who_def)
  next
    case False
    with t show ?thesis by (simp add: who_def)
  qed
  have off: "body_offset_flags flags = 16 + sent + who"
    using assms(1) by (simp add: body_offset_flags_def plain_flags_def sent_def who_def)
  have se: "(if flags AND HasTimeSent \<noteq> 0 then 16 + 8 else 16) = 16 + sent" by (simp add: sent_def)
  have "format_header (h @ rest) subtype len flags ki =
      Inr (?a @ t0 @ (if flags AND HasPlayerID \<noteq> 0 then bytes32 ki else []) @ rest, body_offset_flags flags)"
    unfolding format_header_def w0 rbind_Inr w1 w2 w3 w4 Let_def se tail off ..
  then show ?thesis by (intro exI [of _ now]) (simp add: header_wire_def now)
qed

lemma header_fields:
  "read16 (header_wire subtype len flags now ki @ rest) 2 = Inr subtype"
  "read32 (header_wire subtype len flags now ki @ rest) 6 = Inr (len - 10)"
  "read32 (header_wire subtype len flags now ki @ rest) 12 = Inr flags"
proof -
  let ?r = "bytes32 (len - 10) @ bytes16 subtype @ bytes32 flags @
     (if flags AND HasTimeSent \<noteq> 0 then bytes32 (fst now) @ bytes32 (snd now) else []) @
     (if flags AND HasPlayerID \<noteq> 0 then bytes32 ki else []) @ rest"
  show "read32 (header_wire subtype len flags now ki @ rest) 6 = Inr (len - 10)"
    using read32_at [of "bytes16 2 @ bytes32 (ucast subtype)"] by (simp add: header_wire_def)
  show "read32 (header_wire subtype len flags now ki @ rest) 12 = Inr flags"
    using read32_at [of "bytes16 2 @ bytes32 (ucast subtype) @ bytes32 (len - 10) @ bytes16 subtype"]
    by (simp add: header_wire_def)
  have b: "bytes32 (ucast subtype :: u32) = bytes16 subtype @ [0, 0]"
    by (simp add: bytes32_def bytes16_def, intro conjI; rule bit_word_eqI; auto simp: bit_simps dest: bit_imp_le_length)
  show "read16 (header_wire subtype len flags now ki @ rest) 2 = Inr subtype"
    using read16_at [of "bytes16 2" "bytes16 subtype @ [0, 0] @ ?r"] by (simp add: header_wire_def b)
qed

lemma header_body_offset:
  "body_offset (header_wire subtype len flags now ki @ rest) = Inr (body_offset_flags flags)"
  unfolding body_offset_def header_fields rbind_Inr by (simp add: body_offset_flags_def)

lemma header_kinum:
  assumes "plain_flags flags"
  shows "msg_kinum (header_wire subtype len flags now ki @ rest) =
    Inr (if flags AND HasPlayerID \<noteq> 0 then ki else 0)"
proof -
  let ?a = "bytes16 2 @ bytes32 (ucast subtype) @ bytes32 (len - 10) @ bytes16 subtype @ bytes32 flags @
     (if flags AND HasTimeSent \<noteq> 0 then bytes32 (fst now) @ bytes32 (snd now) else [])"
  have h: "header_wire subtype len flags now ki @ rest =
      ?a @ (if flags AND HasPlayerID \<noteq> 0 then bytes32 ki else []) @ rest"
    by (simp add: header_wire_def)
  have l: "16 + (if flags AND HasTimeSent \<noteq> 0 then 8 else 0) = length ?a" by simp
  have "read32 (header_wire subtype len flags now ki @ rest) (length ?a) = Inr ki" if "flags AND HasPlayerID \<noteq> 0"
    unfolding h using that by (simp only: read32_at if_True) simp
  with assms l show ?thesis
    unfolding msg_kinum_def header_fields rbind_Inr plain_flags_def by (simp only: if_False simp_thms) simp
qed

lemma set_timestamp_ok:
  assumes "flags AND HasTimeSent \<noteq> 0"
  shows "set_timestamp now (header_wire subtype len flags old ki @ rest) =
    Inr (header_wire subtype len flags now ki @ rest)"
proof -
  let ?a = "bytes16 2 @ bytes32 (ucast subtype) @ bytes32 (len - 10) @ bytes16 subtype @ bytes32 flags"
  let ?r = "(if flags AND HasPlayerID \<noteq> 0 then bytes32 ki else []) @ rest"
  have h: "header_wire subtype len flags t ki @ rest = ?a @ bytes32 (fst t) @ bytes32 (snd t) @ ?r" for t
    using assms by (simp add: header_wire_def)
  have 1: "write32 (?a @ bytes32 (fst old) @ bytes32 (snd old) @ ?r) 16 (fst now) =
      Inr (?a @ bytes32 (fst now) @ bytes32 (snd old) @ ?r)"
    by (rule write32_mid) simp_all
  have 2: "write32 (?a @ bytes32 (fst now) @ bytes32 (snd old) @ ?r) 20 (snd now) =
      Inr (?a @ bytes32 (fst now) @ bytes32 (snd now) @ ?r)"
    using write32_mid [of "?a @ bytes32 (fst now)" 20 "bytes32 (snd old)" ?r "snd now"] by simp
  show ?thesis
    unfolding set_timestamp_def header_fields rbind_Inr using assms by (simp add: h 1 2 del: append_assoc)
qed

lemma header_framed:
  assumes "length buf \<le> 4500" and "10 \<le> length buf"
    and "buf = header_wire subtype (of_nat (length buf)) flags now ki @ rest"
  shows "PropagateBufferMessage_make buf = Inr (Framed (PropagateBuffer subtype) (int (length buf)))"
proof -
  have r6: "read32 buf 6 = Inr (of_nat (length buf) - 10)" and r2: "read16 buf 2 = Inr subtype"
    using header_fields [where subtype = subtype and len = "of_nat (length buf)" and flags = flags and now = now
      and ki = ki and rest = rest] assms(3) by simp_all
  have "s32 (of_nat (length buf) - 10 + 10) = int (length buf)"
    using assms(1) by (simp add: s32_def signed_of_nat signed_take_bit_int_eq_self)
  with assms(1,2) show ?thesis
    unfolding PropagateBufferMessage_make_def r6 r2 rbind_Inr Let_def by simp
qed

section \<open>Messages of fixed length\<close>

lemma system_flags:
  "plain_flags (HasTimeSent OR IsSystemMessage)" "(HasTimeSent OR IsSystemMessage) AND HasTimeSent \<noteq> 0"
  "body_offset_flags (HasTimeSent OR IsSystemMessage) = 24" "body_offset_flags HasTimeSent = 24"
  "plain_flags HasTimeSent" "plain_flags (HasTimeSent OR HasPlayerID)"
  "(HasTimeSent OR HasPlayerID) AND HasTimeSent \<noteq> 0" "body_offset_flags (HasTimeSent OR HasPlayerID) = 28"
  by (simp_all add: plain_flags_def body_offset_flags_def)

text \<open>A new buffer that is given a header with a timestamp.\<close>

lemma new_message:
  assumes "length buf = body_offset_flags flags + n" and "plain_flags flags" and "flags AND HasTimeSent \<noteq> 0"
  shows "\<exists>old body. length body = n \<and>
    format_header buf subtype len flags ki = Inr (header_wire subtype len flags old ki @ body, body_offset_flags flags) \<and>
    set_timestamp now (header_wire subtype len flags old ki @ body) = Inr (header_wire subtype len flags now ki @ body)"
proof -
  obtain h body where b: "buf = h @ body" "length h = body_offset_flags flags" "length body = n"
    using split_list_at [OF assms(1)] by blast
  from format_header_ok [OF assms(2) b(2)] set_timestamp_ok [OF assms(3)] b show ?thesis by blast
qed

theorem GroupOwner_message:
  assumes "alloc_ok alloc"
  shows "\<exists>buf. PlNetMsgGroupOwner alloc now is_owner = Inr buf \<and>
    PropagateBufferMessage_make buf = Inr (Framed (PropagateBuffer 0x264) (int (length buf))) \<and>
    body_offset buf = Inr 24 \<and>
    drop 24 buf = bytes32 1 @ bytes32 0xff000001 @ bytes16 4 @ [0, if is_owner then 1 else 0]"
proof -
  define f where "f = HasTimeSent OR IsSystemMessage"
  note sf = system_flags(1-3) [folded f_def]
  have "length (alloc 36) = body_offset_flags f + 12" using assms unfolding sf by (simp add: alloc_ok_def)
  from new_message [OF this sf(1,2), where subtype = "0x264" and len = 36 and ki = 0 and now = now]
  obtain old body where b: "length body = 12"
    "format_header (alloc 36) 0x264 36 f 0 = Inr (header_wire 0x264 36 f old 0 @ body, 24)"
    "set_timestamp now (header_wire 0x264 36 f old 0 @ body) = Inr (header_wire 0x264 36 f now 0 @ body)"
    unfolding sf by blast
  from b(1) have "length body = 4 + (4 + (2 + (1 + 1)))" by simp
  then obtain b0 b1 b2 b3 b4 where body: "body = b0 @ b1 @ b2 @ b3 @ b4" "length b0 = 4" "length b1 = 4"
    "length b2 = 2" "length b3 = 1" "length b4 = 1" by (metis split_list_at)
  let ?h = "header_wire 0x264 36 f now 0"
  have h: "length ?h = 24" using length_header [OF sf(1)] by (simp add: sf)
  have w0: "write32 (?h @ b0 @ b1 @ b2 @ b3 @ b4) 24 1 = Inr (?h @ bytes32 1 @ b1 @ b2 @ b3 @ b4)"
    by (rule write32_mid) (simp_all add: h body)
  have w1: "write32 (?h @ bytes32 1 @ b1 @ b2 @ b3 @ b4) 28 0xff000001 =
      Inr (?h @ bytes32 1 @ bytes32 0xff000001 @ b2 @ b3 @ b4)"
    using write32_mid [of "?h @ bytes32 1" 28 b1] by (simp add: h body)
  have w2: "write16 (?h @ bytes32 1 @ bytes32 0xff000001 @ b2 @ b3 @ b4) 32 4 =
      Inr (?h @ bytes32 1 @ bytes32 0xff000001 @ bytes16 4 @ b3 @ b4)"
    using write16_mid [of "?h @ bytes32 1 @ bytes32 0xff000001" 32 b2] by (simp add: h body)
  have w3: "put 34 [0] (?h @ bytes32 1 @ bytes32 0xff000001 @ bytes16 4 @ b3 @ b4) =
      Inr (?h @ bytes32 1 @ bytes32 0xff000001 @ bytes16 4 @ [0] @ b4)"
    using put_mid [of "?h @ bytes32 1 @ bytes32 0xff000001 @ bytes16 4" 34 b3 "[0]"] by (simp add: h body)
  let ?buf = "?h @ bytes32 1 @ bytes32 0xff000001 @ bytes16 4 @ [0, if is_owner then 1 else 0]"
  have w4: "put 35 [if is_owner then 1 else 0] (?h @ bytes32 1 @ bytes32 0xff000001 @ bytes16 4 @ [0] @ b4) = Inr ?buf"
    using put_mid [of "?h @ bytes32 1 @ bytes32 0xff000001 @ bytes16 4 @ [0]" 35 b4 "[if is_owner then 1 else 0]" "[]"]
    by (simp add: h body)
  have "PlNetMsgGroupOwner alloc now is_owner = Inr ?buf"
    using b(2,3) w4 unfolding PlNetMsgGroupOwner_def f_def [symmetric] sf Let_def
    by (cases is_owner) (simp_all add: body(1) w0 w1 w2 w3)
  moreover have "length ?buf = 36" by (simp add: h)
  moreover have "PropagateBufferMessage_make ?buf = Inr (Framed (PropagateBuffer 0x264) (int (length ?buf)))"
    using header_framed [of ?buf "0x264" f now 0] by (simp add: h)
  moreover have "body_offset ?buf = Inr 24" unfolding header_body_offset sf ..
  ultimately show ?thesis using h by (intro exI [of _ ?buf]) simp
qed

theorem GroupOwner_message_witness:
  "\<exists>buf. PlNetMsgGroupOwner (\<lambda>n. replicate n 0xCC) (7, 9) True = Inr buf \<and> body_offset buf = Inr 24 \<and>
     drop 24 buf = bytes32 1 @ bytes32 0xff000001 @ bytes16 4 @ [0, 1]"
  using GroupOwner_message [of "\<lambda>n. replicate n 0xCC" "(7, 9)" True] by (auto simp: alloc_ok_def)

theorem InitialAgeStateSent_message:
  assumes "alloc_ok alloc"
  shows "\<exists>buf. PlNetMsgInitialAgeStateSent alloc now howmany = Inr buf \<and>
    PropagateBufferMessage_make buf = Inr (Framed (PropagateBuffer 0x2B8) (int (length buf))) \<and>
    body_offset buf = Inr 24 \<and> drop 24 buf = bytes32 howmany"
proof -
  define f where "f = HasTimeSent OR IsSystemMessage"
  note sf = system_flags(1-3) [folded f_def]
  have "length (alloc 28) = body_offset_flags f + 4" using assms unfolding sf by (simp add: alloc_ok_def)
  from new_message [OF this sf(1,2), where subtype = "0x2B8" and len = 28 and ki = 0 and now = now]
  obtain old body where b: "length body = 4"
    "format_header (alloc 28) 0x2B8 28 f 0 = Inr (header_wire 0x2B8 28 f old 0 @ body, 24)"
    "set_timestamp now (header_wire 0x2B8 28 f old 0 @ body) = Inr (header_wire 0x2B8 28 f now 0 @ body)"
    unfolding sf by blast
  let ?buf = "header_wire 0x2B8 28 f now 0 @ bytes32 howmany"
  have h: "length (header_wire 0x2B8 28 f now 0) = 24"
    using length_header [OF sf(1)] by (simp add: sf)
  have "write32 (header_wire 0x2B8 28 f now 0 @ body) 24 howmany = Inr ?buf"
    using write32_mid [of "header_wire 0x2B8 28 f now 0" 24 body "[]"] h b(1) by simp
  with b have "PlNetMsgInitialAgeStateSent alloc now howmany = Inr ?buf"
    unfolding PlNetMsgInitialAgeStateSent_def f_def [symmetric] system_flags sf Let_def by simp
  moreover have "PropagateBufferMessage_make ?buf = Inr (Framed (PropagateBuffer 0x2B8) (int (length ?buf)))"
    using header_framed [of ?buf "0x2B8" f now 0] by (simp add: h)
  moreover have "body_offset ?buf = Inr 24" unfolding header_body_offset sf ..
  ultimately show ?thesis using h by (intro exI [of _ ?buf]) simp
qed

theorem InitialAgeStateSent_message_witness:
  "\<exists>buf. PlNetMsgInitialAgeStateSent (\<lambda>n. replicate n 0xCC) (7, 9) 3 = Inr buf \<and> drop 24 buf = bytes32 3"
  using InitialAgeStateSent_message [of "\<lambda>n. replicate n 0xCC" "(7, 9)" 3] by (auto simp: alloc_ok_def)

section \<open>What the checks read\<close>

lemma msg_len_unat: "length buf < 2 ^ 32 \<Longrightarrow> unat (msg_len buf) = length buf"
  by (simp add: msg_len_def unat_of_nat_u32)

lemma body_offset_bound:
  assumes "16 \<le> length buf"
  obtains off where "body_offset buf = Inr off" "16 \<le> off" "off \<le> 54"
proof -
  from assms obtain f where "read32 buf 12 = Inr f" by (simp add: read32_Inr)
  then have "\<exists>off. body_offset buf = Inr off \<and> 16 \<le> off \<and> off \<le> 54" by (auto simp: body_offset_def)
  with that show ?thesis by blast
qed

lemma short_msg: "length buf < 2 ^ 31 \<Longrightarrow> \<not> msg_len buf < 16 \<Longrightarrow> 16 \<le> length buf"
  using msg_len_unat [of buf] by (simp add: word_less_nat_alt)

lemma msg_len_add:
  assumes "length buf < 2 ^ 31" and "n < 2 ^ 31"
  shows "msg_len buf < of_nat n \<longleftrightarrow> length buf < n"
  using assms by (simp add: word_less_nat_alt msg_len_unat unat_of_nat_u32)

lemma recipients_fit_ok:
  assumes "length buf < 2 ^ 31" and "unat offset < 2 ^ 31"
  shows "\<exists>b. recipients_fit buf offset = Inr b"
proof (cases "msg_len buf < offset + 1")
  case False
  have "unat (offset + 1) = unat offset + 1" using assms(2) unat_add_u32 [of offset 1] by simp
  with False assms(1) have "unat offset < length buf" by (simp add: word_less_nat_alt msg_len_unat)
  then show ?thesis by (simp add: recipients_fit_def get8_def ex_bool_eq)
qed (simp add: recipients_fit_def ex_bool_eq)

lemma directed_ok:
  assumes len: "length buf < 2 ^ 31" and n: "\<And>off n. body_offset buf = Inr off \<Longrightarrow> read32 buf (off + 5) = Inr n \<Longrightarrow> unat n < 2 ^ 30"
  shows "\<exists>b. directed_check_useable buf = Inr b"
proof (cases "msg_len buf < 16")
  case False
  from body_offset_bound [OF short_msg [OF len False]] obtain off where off: "body_offset buf = Inr off" "16 \<le> off" "off \<le> 54" .
  show ?thesis
  proof (cases "msg_len buf < of_nat off + 9")
    case False2: False
    then have "off + 9 \<le> length buf" using msg_len_add [OF len, of "off + 9"] off(3) by simp
    then obtain n where n': "read32 buf (off + 5) = Inr n" by (simp add: read32_Inr)
    have "unat (of_nat off + (10 + n)) < 2 ^ 31"
    proof -
      have a: "unat (10 + n) = 10 + unat n" using n [OF off(1) n'] unat_add_u32 [of 10 n] by simp
      have "unat (of_nat off :: u32) = off" using off(3) by (simp add: unat_of_nat_u32)
      with a n [OF off(1) n'] off(3) unat_add_u32 [of "of_nat off" "10 + n"] show ?thesis by simp
    qed
    from recipients_fit_ok [OF len this] show ?thesis
      using False False2 off(1) n' by (simp add: directed_check_useable_def ex_bool_eq)
  qed (use False off(1) in \<open>simp add: directed_check_useable_def ex_bool_eq\<close>)
qed (simp add: directed_check_useable_def ex_bool_eq)

lemma voice_ok:
  assumes len: "length buf < 2 ^ 31"
  shows "\<exists>b. voice_check_useable buf = Inr b"
proof (cases "msg_len buf < 16")
  case False
  from body_offset_bound [OF short_msg [OF len False]] obtain off where off: "body_offset buf = Inr off" "16 \<le> off" "off \<le> 54" .
  show ?thesis
  proof (cases "msg_len buf < of_nat off + 5")
    case False2: False
    then have "off + 5 \<le> length buf" using msg_len_add [OF len, of "off + 5"] off(3) by simp
    then obtain n where n': "read16 buf (off + 2) = Inr n" by (simp add: read16_Inr)
    have u: "unat (ucast n :: u32) = unat n" by (simp add: unsigned_ucast_eq take_bit_nat_eq_self_iff order.strict_trans2 [OF unat_u16_less])
    have "unat (of_nat off + (4 + ucast n) :: u32) < 2 ^ 31"
    proof -
      have a: "unat (4 + ucast n :: u32) = 4 + unat n" using u unat_add_u32 [of 4 "ucast n"] unat_u16_less [of n] by simp
      have "unat (of_nat off :: u32) = off" using off(3) by (simp add: unat_of_nat_u32)
      with a off(3) unat_u16_less [of n] unat_add_u32 [of "of_nat off" "4 + ucast n"] show ?thesis by simp
    qed
    from recipients_fit_ok [OF len this] show ?thesis
      using False False2 off(1) n' by (simp add: voice_check_useable_def ex_bool_eq)
  qed (use False off(1) in \<open>simp add: voice_check_useable_def ex_bool_eq\<close>)
qed (simp add: voice_check_useable_def ex_bool_eq)

lemma header_checks_ok:
  assumes len: "length buf < 2 ^ 31"
  shows "\<exists>b. header_only_check_useable buf = Inr b" "\<exists>b. state_request_check_useable buf = Inr b"
proof -
  have "\<exists>b. header_only_check_useable buf = Inr b \<and> (\<exists>c. state_request_check_useable buf = Inr c)"
  proof (cases "msg_len buf < 16")
    case False
    from body_offset_bound [OF short_msg [OF len False]] obtain off where "body_offset buf = Inr off" .
    with False show ?thesis by (simp add: header_only_check_useable_def state_request_check_useable_def ex_bool_eq)
  qed (simp add: header_only_check_useable_def state_request_check_useable_def ex_bool_eq)
  then show "\<exists>b. header_only_check_useable buf = Inr b" "\<exists>b. state_request_check_useable buf = Inr b" by blast+
qed

text \<open>
  C30: Apart from directed and load-clone messages, checking a propagate buffer of less than
  2^31 bytes never reads past it.
\<close>

theorem check_useable_safe:
  assumes "length buf < 2 ^ 31" and "h \<noteq> ph_load_clone" and "h \<noteq> ph_directed"
  shows "\<exists>b. check_useable h buf = Inr b"
  using assms voice_ok header_checks_ok by (cases h) auto

theorem check_useable_safe_witness:
  "\<exists>b. check_useable ph_voice (replicate 30 0xFF) = Inr b"
  using check_useable_safe [of "replicate 30 0xFF" ph_voice] by simp

text \<open>The submessage length of a directed message can make the offset wrap to the last address.\<close>

theorem directed_check_overread:
  "check_useable ph_directed (replicate 21 0 @ bytes32 0xFFFFFFE5) = Inl Out_Of_Bounds"
proof -
  have r: "read32 (replicate 21 0 @ bytes32 0xFFFFFFE5) (16 + 5) = Inr 0xFFFFFFE5"
    using read32_at [of "replicate 21 0" "bytes32 0xFFFFFFE5"] read32_bytes32 [of "0xFFFFFFE5" "[]"] by simp
  have b: "body_offset (replicate 21 0 @ bytes32 0xFFFFFFE5) = Inr 16"
    by (simp add: body_offset_def read32_def slice_def replicate_add [of 12 9, simplified] numeral_eq_Suc)
  show ?thesis
    unfolding check_useable.simps directed_check_useable_def b rbind_Inr r
    by (simp add: msg_len_def recipients_fit_def get8_def)
qed

text \<open>The one of a clone message can point behind the message, where the key is read.\<close>

theorem load_clone_check_overread:
  "check_useable ph_load_clone (replicate 21 0 @ bytes32 1000) = Inl Out_Of_Bounds"
proof -
  have r: "read32 (replicate 21 0 @ bytes32 1000) (16 + 5) = Inr 1000"
    using read32_at [of "replicate 21 0" "bytes32 1000"] read32_bytes32 [of 1000 "[]"] by simp
  have b: "body_offset (replicate 21 0 @ bytes32 1000) = Inr 16"
    by (simp add: body_offset_def read32_def slice_def replicate_add [of 12 9, simplified] numeral_eq_Suc)
  show ?thesis
    unfolding check_useable.simps load_clone_check_useable_def b rbind_Inr r
    by (simp add: msg_len_def read_key_at_def)
qed

theorem load_clone_check_uninitialized:
  "check_useable ph_load_clone (replicate 21 0 @ bytes32 0 @ [0]) = Inl Uninitialized"
proof -
  have r: "read32 (replicate 21 0 @ bytes32 0 @ [0]) (16 + 5) = Inr 0"
    using read32_at [of "replicate 21 0" "bytes32 0 @ [0]"] by simp
  have b: "body_offset (replicate 21 0 @ bytes32 0 @ [0]) = Inr 16"
    by (simp add: body_offset_def read32_def slice_def replicate_add [of 12 9, simplified] numeral_eq_Suc)
  show ?thesis
    unfolding check_useable.simps load_clone_check_useable_def b rbind_Inr r
    by (simp add: msg_len_def read_key_at_def pk_read_in_def name_unset_def)
qed

text \<open>With a submessage that ends inside of the message, the check stays inside too.\<close>

theorem load_clone_check_inside:
  assumes len: "length buf < 2 ^ 31" and off: "body_offset buf = Inr off" and n: "read32 buf (off + 5) = Inr n"
    and inside: "off + 10 + unat n \<le> length buf"
  shows "load_clone_check_useable buf \<noteq> Inl Out_Of_Bounds"
proof -
  from off have o: "16 \<le> off" "off \<le> 54" by (auto simp: body_offset_def rbind_eq_Inr split: if_splits)
  have a: "unat (10 + n) = 10 + unat n" using inside len unat_add_u32 [of 10 n] by simp
  have "unat (of_nat off :: u32) = off" using o(2) by (simp add: unat_of_nat_u32)
  then have u: "unat (of_nat off + (10 + n)) = off + 10 + unat n"
    using unat_add_u32 [of "of_nat off" "10 + n"] a inside len by simp
  have "read_key_at buf (of_nat off + (10 + n)) \<noteq> Inl Out_Of_Bounds"
    using pk_read_in_safe_lem [of "drop (off + 10 + unat n) buf"] inside unfolding read_key_at_def u by auto
  then show ?thesis
    using off n by (auto simp: load_clone_check_useable_def Let_def split: sum.splits)
qed

theorem load_clone_check_inside_witness:
  "load_clone_check_useable (replicate 21 0 @ bytes32 0 @ [0]) \<noteq> Inl Out_Of_Bounds"
proof -
  have b: "body_offset (replicate 21 0 @ bytes32 0 @ [0]) = Inr 16"
    by (simp add: body_offset_def read32_def slice_def replicate_add [of 12 9, simplified] numeral_eq_Suc)
  have "read32 (replicate 21 0 @ bytes32 0 @ [0]) (16 + 5) = Inr 0"
    using read32_at [of "replicate 21 0" "bytes32 0 @ [0]"] by simp
  from load_clone_check_inside [OF _ b this] show ?thesis by simp
qed

section \<open>The reply to a lock request\<close>

lemma write_key_mid:
  assumes "length a = off" and "length b = length (key_wire True k s)"
  shows "\<exists>k'. write_key_at conv alloc (with_name k s) (a @ b @ c) off =
    Inr (a @ key_wire True k s @ c, off + length (key_wire True k s), k')"
proof -
  have "length (key_wire True k s) \<le> length (b @ c)" using assms(2) by simp
  from pk_write_out_wire [OF this] obtain k' where "pk_write_out conv alloc (with_name k s) (b @ c) True =
      Inr (key_wire True k s @ drop (length (key_wire True k s)) (b @ c), length (key_wire True k s), k')" by blast
  moreover have "drop (length (key_wire True k s)) (b @ c) = c" using assms(2) by simp
  ultimately show ?thesis using assms(1) by (simp add: write_key_at_def)
qed

text \<open>A message about one object, without the outer layers.\<close>

definition content_wire :: "u16 \<Rightarrow> byte list \<Rightarrow> u32 \<Rightarrow> byte list \<Rightarrow> byte list" where
  "content_wire msg_type key msg_flags msg =
     bytes16 msg_type @ [0] @ bytes32 1 @ [1] @ key @ bytes32 0 @ bytes32 0 @ bytes32 msg_flags @ msg"

lemma build_content_ok:
  fixes msg_type :: u16 and msg_flags :: u32 and msg :: "byte list" and k :: pl_key and s :: "byte list option"
  assumes "alloc_ok alloc"
  defines "c \<equiv> content_wire msg_type (key_wire True k s) msg_flags msg"
  shows "\<exists>h e. length h = body_offset_flags flags + 9 \<and> length e = 1 \<and>
    build_content conv alloc flags msg msg_type msg_flags None [with_name k s] =
      Inr (h @ c @ e, body_offset_flags flags + 9 + length c, body_offset_flags flags + 9 + length c + 1)"
proof -
  let ?w = "key_wire True k s" and ?at = "body_offset_flags flags + 9"
  have c: "length c = 20 + length ?w + length msg" by (simp add: c_def content_wire_def)
  have "length (alloc (?at + length c + 1)) =
      ?at + (2 + (1 + (4 + (1 + (length ?w + (4 + (4 + (4 + (length msg + 1)))))))))"
    using assms(1) c by (simp add: alloc_ok_def)
  then obtain h ty ob ct one kw z1 z2 fl m e where b: "alloc (?at + length c + 1) =
      h @ ty @ ob @ ct @ one @ kw @ z1 @ z2 @ fl @ m @ e"
    "length h = ?at" "length ty = 2" "length ob = 1" "length ct = 4" "length one = 1" "length kw = length ?w"
    "length z1 = 4" "length z2 = 4" "length fl = 4" "length m = length msg" "length e = 1"
    by (metis split_list_at)
  let ?rest = "z1 @ z2 @ fl @ m @ e"
  have w1: "write16 (h @ ty @ ob @ ct @ one @ kw @ ?rest) ?at msg_type =
      Inr (h @ bytes16 msg_type @ ob @ ct @ one @ kw @ ?rest)"
    using b by (intro write16_mid)
  have w2: "put (?at + 2) [0] (h @ bytes16 msg_type @ ob @ ct @ one @ kw @ ?rest) =
      Inr (h @ bytes16 msg_type @ [0] @ ct @ one @ kw @ ?rest)"
    using put_mid [of "h @ bytes16 msg_type" "?at + 2" ob "[0]"] b by simp
  have w3: "write32 (h @ bytes16 msg_type @ [0] @ ct @ one @ kw @ ?rest) (?at + 3) 1 =
      Inr (h @ bytes16 msg_type @ [0] @ bytes32 1 @ one @ kw @ ?rest)"
    using write32_mid [of "h @ bytes16 msg_type @ [0]" "?at + 3" ct] b by simp
  let ?a = "h @ bytes16 msg_type @ [0] @ bytes32 1"
  have w4: "put (?at + 7) [1] (?a @ one @ kw @ ?rest) = Inr (?a @ [1] @ kw @ ?rest)"
    using put_mid [of ?a "?at + 7" one "[1]"] b by simp
  obtain k' where w5: "write_key_at conv alloc (with_name k s) (?a @ [1] @ kw @ ?rest) (?at + 8) =
      Inr (?a @ [1] @ ?w @ ?rest, ?at + 8 + length ?w, k')"
    using write_key_mid [of "?a @ [1]" "?at + 8" kw k s conv alloc ?rest] b by auto
  let ?b = "?a @ [1] @ ?w" and ?o = "?at + 8 + length ?w"
  have w6: "write32 (?b @ z1 @ z2 @ fl @ m @ e) ?o 0 = Inr (?b @ bytes32 0 @ z2 @ fl @ m @ e)"
    using b by (intro write32_mid) simp_all
  have w7: "write32 (?b @ bytes32 0 @ z2 @ fl @ m @ e) (?o + 4) 0 = Inr (?b @ bytes32 0 @ bytes32 0 @ fl @ m @ e)"
    using write32_mid [of "?b @ bytes32 0" "?o + 4" z2] b by simp
  have w8: "write32 (?b @ bytes32 0 @ bytes32 0 @ fl @ m @ e) (?o + 8) msg_flags =
      Inr (?b @ bytes32 0 @ bytes32 0 @ bytes32 msg_flags @ m @ e)"
    using write32_mid [of "?b @ bytes32 0 @ bytes32 0" "?o + 8" fl] b by simp
  have w9: "put (?o + 12) msg (?b @ bytes32 0 @ bytes32 0 @ bytes32 msg_flags @ m @ e) =
      Inr (?b @ bytes32 0 @ bytes32 0 @ bytes32 msg_flags @ msg @ e)"
    using put_mid [of "?b @ bytes32 0 @ bytes32 0 @ bytes32 msg_flags" "?o + 12" m msg] b by simp
  have sub: "write_subobjects conv alloc [with_name k s] (h @ bytes16 msg_type @ [0] @ bytes32 1 @ one @ kw @ ?rest) (?at + 7) =
      Inr (?b @ ?rest, ?o)"
    using w4 w5 by simp
  have sizes: "sizes conv alloc [with_name k s] = Inr (1 + length ?w, [with_name k s])"
    using pk_send_len_wire [of conv alloc k s True] by simp
  have buflen: "body_offset_flags flags + length msg + 11 + 5 + 12 + 1 + (0 - length ([] :: pl_key list)) + (1 + length ?w) =
      ?at + length c + 1" using c by simp
  have at: "?at + 3 + 4 = ?at + 7" by simp
  have len: "?o + 12 + length msg = ?at + length c" using c by simp
  have sizes0: "sizes conv alloc [] = Inr (0, [])" by simp
  have go: "build_content conv alloc flags msg msg_type msg_flags None [with_name k s] =
      rbind (write16 (alloc (?at + length c + 1)) ?at msg_type) (\<lambda>buf.
      rbind (put (?at + 2) [0] buf) (\<lambda>buf.
      rbind (write32 buf (?at + 3) 1) (\<lambda>buf.
      rbind (write_subobjects conv alloc [with_name k s] buf (?at + 7)) (\<lambda>(buf, offset).
      rbind (write32 buf offset 0) (\<lambda>buf.
      rbind (write32 buf (offset + 4) 0) (\<lambda>buf.
      rbind (write32 buf (offset + 8) msg_flags) (\<lambda>buf.
      rbind (put (offset + 12) msg buf) (\<lambda>buf.
        if offset + 12 + length msg + 1 \<noteq> ?at + length c + 1 then Inl Logic_Error
        else Inr (buf, offset + 12 + length msg, ?at + length c + 1)))))))))"
    unfolding build_content_def option.case sizes sizes0 rbind_Inr prod.case Let_def buflen if_True simp_thms list.case at
    by simp
  have "build_content conv alloc flags msg msg_type msg_flags None [with_name k s] =
      Inr (?b @ bytes32 0 @ bytes32 0 @ bytes32 msg_flags @ msg @ e, ?at + length c, ?at + length c + 1)"
    unfolding go b(1) w1 rbind_Inr w2 w3 sub prod.case w6 w7 w8 w9 len by simp
  then show ?thesis
    using b(2,12) by (intro exI [of _ h] exI [of _ e]) (simp add: c_def content_wire_def)
qed

lemma small_not_compressed:
  assumes "length pre = start_at" and "unat n \<le> 256"
  shows "do_message_compression zlib (drop start_at (pre @ bytes32 0 @ [0] @ bytes32 n @ rest)) =
    Inr (drop start_at (pre @ bytes32 0 @ [0] @ bytes32 n @ rest), 0)"
proof -
  have d: "drop start_at (pre @ bytes32 0 @ [0] @ bytes32 n @ rest) = bytes32 0 @ [0] @ bytes32 n @ rest"
    using assms(1) by simp
  have g: "get8 (bytes32 0 @ [0] @ bytes32 n @ rest) 4 = Inr 0" by (simp add: get8_def bytes32_def)
  have r: "read32 (bytes32 0 @ [0] @ bytes32 n @ rest) 5 = Inr n"
    using read32_at [of "bytes32 0 @ [0]"] by simp
  show ?thesis unfolding d do_message_compression_def g r rbind_Inr using assms(2) by simp
qed

lemma build_msg_small:
  assumes "alloc_ok alloc" and "plain_flags flags" and "flags AND HasTimeSent \<noteq> 0"
    and small: "length (content_wire msg_type (key_wire True k s) msg_flags msg) \<le> 256"
  shows "\<exists>total. total = body_offset_flags flags + 10 + length (content_wire msg_type (key_wire True k s) msg_flags msg) \<and>
    build_msg conv zlib alloc now flags ki msg msg_type msg_flags end_thing None [with_name k s] False =
      Inr (header_wire 0x26B (of_nat total) flags now ki @ bytes32 0 @ [0] @
        bytes32 (of_nat (length (content_wire msg_type (key_wire True k s) msg_flags msg))) @
        content_wire msg_type (key_wire True k s) msg_flags msg @ [end_thing])"
proof -
  define c where "c = content_wire msg_type (key_wire True k s) msg_flags msg"
  define st where "st = body_offset_flags flags"
  from build_content_ok [OF assms(1), where k = k and s = s and msg_type = msg_type and msg_flags = msg_flags
      and msg = msg and conv = conv and flags = flags]
  obtain h e where h: "length h = st + 9" "length e = 1"
    and bc: "build_content conv alloc flags msg msg_type msg_flags None [with_name k s] =
      Inr (h @ c @ e, st + 9 + length c, st + 9 + length c + 1)"
    unfolding c_def st_def by blast
  have "length h = st + (4 + (1 + 4))" using h(1) by simp
  then obtain a z q l where hs: "h = a @ z @ q @ l" "length a = st" "length z = 4" "length q = 1" "length l = 4"
    by (metis split_list_at)
  let ?n = "of_nat (length c) :: u32" and ?len = "of_nat (st + 9 + length c + 1) :: u32"
  have w1: "write32 ((a @ z @ q @ l) @ c @ e) st 0 = Inr (a @ bytes32 0 @ q @ l @ c @ e)"
    using write32_mid [of a st z] hs by simp
  have w2: "put (st + 4) [0] (a @ bytes32 0 @ q @ l @ c @ e) = Inr (a @ bytes32 0 @ [0] @ l @ c @ e)"
    using put_mid [of "a @ bytes32 0" "st + 4" q "[0]"] hs by simp
  have w3: "write32 (a @ bytes32 0 @ [0] @ l @ c @ e) (st + 5) ?n = Inr (a @ bytes32 0 @ [0] @ bytes32 ?n @ c @ e)"
    using write32_mid [of "a @ bytes32 0 @ [0]" "st + 5" l] hs by simp
  have n: "st + 9 + length c - (st + 9) = length c" by simp
  have "unat ?n \<le> 256" using small by (simp add: c_def unat_of_nat take_bit_nat_eq_self)
  note nc = small_not_compressed [OF hs(2) this, where zlib = zlib and rest = "c @ e"]
  have td: "take st b @ drop st b = b" for b :: "byte list" by simp
  let ?t = "bytes32 0 @ [0] @ bytes32 ?n @ c"
  have w4: "put (st + 9 + length c) [end_thing] (a @ bytes32 0 @ [0] @ bytes32 ?n @ c @ e) = Inr (a @ ?t @ [end_thing])"
    using put_mid [of "a @ ?t" "st + 9 + length c" e "[end_thing]" "[]"] hs h by simp
  from format_header_ok [OF assms(2) hs(2) [unfolded st_def], where rest = "?t @ [end_thing]" and subtype = "0x26B"
      and len = ?len and ki = ki] obtain old where fh:
    "format_header (a @ ?t @ [end_thing]) 0x26B ?len flags ki =
      Inr (header_wire 0x26B ?len flags old ki @ ?t @ [end_thing], st)"
    unfolding st_def by blast
  have all: "take (st + 9 + length c + 1) (header_wire 0x26B ?len flags now ki @ ?t @ [end_thing]) =
      header_wire 0x26B ?len flags now ki @ ?t @ [end_thing]"
    using length_header [OF assms(2)] by (simp add: st_def)
  have "build_msg conv zlib alloc now flags ki msg msg_type msg_flags end_thing None [with_name k s] False =
      Inr (header_wire 0x26B ?len flags now ki @ ?t @ [end_thing])"
    using assms(3)
    by (simp only: build_msg_def bc rbind_Inr prod.case Let_def st_def [symmetric] hs(1) w1 w2 n w3 if_False nc td
        simp_thms if_True w4 fh set_timestamp_ok [OF assms(3)] all)
  then show ?thesis by (simp add: c_def st_def add_ac)
qed



end
