(* ===== verification/Connection.thy ===== *)
theory Connection
  imports Message_Queue Client_Framing Rc4 "HOL-Library.Sublist"
begin

text \<open>
  \<open>Server::Connection\<close> (\<open>moss_serv.h\<close>, \<open>moss_serv.cc\<close>) and what the select loop of \<open>serv_main\<close>
  does when a socket is readable or writable.

  A connection reads into \<open>m_readbuf\<close> behind \<open>m_read_fill\<close>, makes messages from \<open>m_read_off\<close> on,
  and moves to a buffer of its own, \<open>m_bigbuf\<close>, for a message that does not fit.  The client starts
  in the clear; from the first byte after the nonce on, what arrives is decrypted in place.
  What is sent on an encrypted connection goes through \<open>m_writebuf\<close>.

  Virtual functions are arguments: \<open>turn_on s\<close> tells that the connection's \<open>make_if_enough\<close> turns on
  encryption in state \<open>s\<close>, \<open>body s\<close> is what it does with the clear bytes, \<open>handler s\<close> is
  \<open>message_read\<close>.  The latter's only effect on the connection's buffers and keys is \<open>set_rc4_key\<close>.

  \<open>parse\<close> is the specification: it knows the pending bytes, but no buffers.  The lemmas of the locale
  \<open>client_class\<close> show that the loop implements it, and that it does not matter where the stream is cut.
\<close>

abbreviation (input) BUFSIZE :: nat where "BUFSIZE \<equiv> 65536"

datatype reason_t =
    NO_SHUTDOWN | FORGET_THIS_CONNECTION | CLIENT_CLOSE | CLIENT_TIMEOUT | SERVER_SHUTDOWN
  | PEER_SHUTDOWN | SELECT_ERROR | READ_ERROR | WRITE_ERROR | INTERNAL_ERROR | PROTOCOL_ERROR
  | UNEXPECTED_STATE | BACKEND_ERROR | BACKEND_TIMEOUT | QUEUE_DRAINED

record crypt =
  m_is_encrypted :: bool
  m_c2s_rc4 :: "rc4_state option"
  m_s2c_rc4 :: "rc4_state option"

record connection =
  m_readbuf :: "byte list"
  m_read_fill :: u32
  m_read_off :: u32
  m_bigbuf :: "byte list option"
  m_writebuf :: "byte list"
  m_write_fill :: u32
  m_crypt :: crypt

section \<open>Keys\<close>

definition set_rc4_key :: "byte list \<Rightarrow> crypt \<Rightarrow> crypt res" where
  "set_rc4_key session_key cr =
     rbind (rc4_init_key session_key 7) (\<lambda>k. Inr (cr\<lparr>m_c2s_rc4 := Some k, m_s2c_rc4 := Some k\<rparr>))"

definition set_encrypted :: "crypt \<Rightarrow> crypt" where
  "set_encrypted cr = cr\<lparr>m_is_encrypted := True\<rparr>"

definition decrypt :: "crypt \<Rightarrow> byte list \<Rightarrow> (crypt \<times> byte list) res" where
  "decrypt cr buf =
     (case m_c2s_rc4 cr of None \<Rightarrow> Inl Null_Pointer
      | Some k \<Rightarrow> (case rc4_encrypt k buf of (k', out) \<Rightarrow> Inr (cr\<lparr>m_c2s_rc4 := Some k'\<rparr>, out)))"

definition encrypt :: "crypt \<Rightarrow> byte list \<Rightarrow> (crypt \<times> byte list) res" where
  "encrypt cr buf =
     (case m_s2c_rc4 cr of None \<Rightarrow> Inl Null_Pointer
      | Some k \<Rightarrow> (case rc4_encrypt k buf of (k', out) \<Rightarrow> Inr (cr\<lparr>m_s2c_rc4 := Some k'\<rparr>, out)))"

text \<open>A new connection; the buffers hold what their memory held before.\<close>

definition new_crypt :: crypt where
  "new_crypt = \<lparr>m_is_encrypted = False, m_c2s_rc4 = None, m_s2c_rc4 = None\<rparr>"

definition new_connection :: "(nat \<Rightarrow> byte list) \<Rightarrow> connection" where
  "new_connection alloc =
     \<lparr>m_readbuf = alloc BUFSIZE, m_read_fill = 0, m_read_off = 0, m_bigbuf = None,
      m_writebuf = alloc BUFSIZE, m_write_fill = 0, m_crypt = new_crypt\<rparr>"

section \<open>Reading\<close>

text \<open>
  The first half of \<open>make_if_enough\<close> of a client connection: once the keys are there, the first bytes
  that arrive are decrypted in the buffer.
\<close>

definition open_crypt :: "('s \<Rightarrow> bool) \<Rightarrow> 's \<Rightarrow> crypt \<Rightarrow> byte list \<Rightarrow> (crypt \<times> byte list) res" where
  "open_crypt turn_on s cr buf =
     (if turn_on s \<and> \<not> m_is_encrypted cr \<and> buf \<noteq> [] then decrypt (set_encrypted cr) buf else Inr (cr, buf))"

definition apply_key :: "byte list option \<Rightarrow> crypt \<Rightarrow> crypt res" where
  "apply_key key cr = (case key of None \<Rightarrow> Inr cr | Some k \<Rightarrow> set_rc4_key k cr)"

text \<open>\<open>cbuf\<close> of the loop.\<close>

definition cbuf :: "connection \<Rightarrow> byte list" where
  "cbuf c = (case m_bigbuf c of Some b \<Rightarrow> b | None \<Rightarrow> m_readbuf c)"

definition set_cbuf :: "byte list \<Rightarrow> connection \<Rightarrow> connection" where
  "set_cbuf b c = (case m_bigbuf c of Some _ \<Rightarrow> c\<lparr>m_bigbuf := Some b\<rparr> | None \<Rightarrow> c\<lparr>m_readbuf := b\<rparr>)"

text \<open>What happens when no message could be made and \<open>to_read\<close> is \<open>want\<close>.\<close>

definition want_more :: "(nat \<Rightarrow> byte list) \<Rightarrow> int \<Rightarrow> byte list \<Rightarrow> connection \<Rightarrow> connection \<times> reason_t" where
  "want_more alloc want buf c =
     (if want > 0
      then (case m_bigbuf c of
          Some big \<Rightarrow> (c, if want \<noteq> int (length big) then INTERNAL_ERROR else NO_SHUTDOWN)
        | None \<Rightarrow>
            if want > int BUFSIZE
            then (c\<lparr>m_bigbuf := Some (buf @ drop (length buf) (alloc (nat want))),
                    m_read_fill := m_read_fill c - m_read_off c, m_read_off := 0\<rparr>, NO_SHUTDOWN)
            else (c, NO_SHUTDOWN))
      else (c, NO_SHUTDOWN))"

text \<open>
  The do-while loop.  It need not end: None.  A length that is negative or 0 goes into \<open>m_read_off\<close>
  the way the machine adds it.
\<close>

partial_function (option) read_loop ::
  "('s \<Rightarrow> bool) \<Rightarrow> ('s \<Rightarrow> byte list \<Rightarrow> framed res) \<Rightarrow>
   ('s \<Rightarrow> msg_kind \<Rightarrow> byte list \<Rightarrow> 's \<times> byte list option \<times> reason_t) \<Rightarrow> (nat \<Rightarrow> byte list) \<Rightarrow>
   's \<Rightarrow> connection \<Rightarrow> (msg_kind \<times> byte list) list \<Rightarrow>
   ('s \<times> connection \<times> (msg_kind \<times> byte list) list \<times> reason_t) res option" where
  "read_loop turn_on body handler alloc s c msgs =
     (case slice (unat (m_read_off c)) (unat (m_read_fill c - m_read_off c)) (cbuf c) of
        Inl e \<Rightarrow> Some (Inl e)
      | Inr buf \<Rightarrow>
     (case open_crypt turn_on s (m_crypt c) buf of
        Inl e \<Rightarrow> Some (Inl e)
      | Inr (cr, buf) \<Rightarrow>
     (case put (unat (m_read_off c)) buf (cbuf c) of
        Inl e \<Rightarrow> Some (Inl e)
      | Inr b \<Rightarrow>
     (let c = set_cbuf b c\<lparr>m_crypt := cr\<rparr> in
      case body s buf of
        Inl (Overlong_Message n) \<Rightarrow> Some (Inr (s, c, msgs, PROTOCOL_ERROR))
      | Inl e \<Rightarrow> Some (Inl e)
      | Inr (Incomplete want) \<Rightarrow>
          (case want_more alloc want buf c of (c, r) \<Rightarrow> Some (Inr (s, c, msgs, r)))
      | Inr (Framed k n) \<Rightarrow>
          (let msgs = msgs @ [(k, take (nat n) buf)];
               c = c\<lparr>m_read_off := m_read_off c + word_of_int n\<rparr>
           in case handler s k (take (nat n) buf) of (s, key, r) \<Rightarrow>
             (case apply_key key cr of
                Inl e \<Rightarrow> Some (Inl e)
              | Inr cr \<Rightarrow>
                  (let c = c\<lparr>m_crypt := cr\<rparr>
                   in if r \<noteq> NO_SHUTDOWN then Some (Inr (s, c, msgs, r))
                      else if m_bigbuf c \<noteq> None then Some (Inr (s, c\<lparr>m_bigbuf := None, m_read_fill := 0\<rparr>, msgs, NO_SHUTDOWN))
                      else if m_read_fill c > m_read_off c then read_loop turn_on body handler alloc s c msgs
                      else Some (Inr (s, c, msgs, NO_SHUTDOWN)))))))))"

text \<open>After the loop, what is left moves to the front of \<open>m_readbuf\<close>.\<close>

definition compact :: "connection \<Rightarrow> connection res" where
  "compact c =
     (if m_read_off c < m_read_fill c
      then if m_read_off c > 0
           then let fill = m_read_fill c - m_read_off c
                in rbind (slice (unat (m_read_off c)) (unat fill) (m_readbuf c)) (\<lambda>bs.
                   rbind (put 0 bs (m_readbuf c)) (\<lambda>b. Inr (c\<lparr>m_readbuf := b, m_read_fill := fill, m_read_off := 0\<rparr>)))
           else Inr c
      else Inr (c\<lparr>m_read_fill := 0, m_read_off := 0\<rparr>))"

text \<open>What \<open>read\<close> returned; \<open>Data\<close> is more than 0 bytes.\<close>

datatype read_result = Data "byte list" | Eof | Try_Again | Conn_Reset | Read_Failed

definition arrive :: "crypt \<Rightarrow> byte list \<Rightarrow> (crypt \<times> byte list) res" where
  "arrive cr d = (if m_is_encrypted cr then decrypt cr d else Inr (cr, d))"

definition room :: "connection \<Rightarrow> int" where
  "room c = int (length (cbuf c)) - int (unat (m_read_fill c))"

definition conn_read ::
  "('s \<Rightarrow> bool) \<Rightarrow> ('s \<Rightarrow> byte list \<Rightarrow> framed res) \<Rightarrow>
   ('s \<Rightarrow> msg_kind \<Rightarrow> byte list \<Rightarrow> 's \<times> byte list option \<times> reason_t) \<Rightarrow> (nat \<Rightarrow> byte list) \<Rightarrow>
   's \<Rightarrow> connection \<Rightarrow> read_result \<Rightarrow>
   ('s \<times> connection \<times> (msg_kind \<times> byte list) list \<times> reason_t) res option" where
  "conn_read turn_on body handler alloc s c result =
     (if room c \<le> 0 then Some (Inr (s, c, [], PROTOCOL_ERROR))
      else case result of
        Try_Again \<Rightarrow> Some (Inr (s, c, [], NO_SHUTDOWN))
      | Conn_Reset \<Rightarrow> Some (Inr (s, c, [], CLIENT_CLOSE))
      | Read_Failed \<Rightarrow> Some (Inr (s, c, [], READ_ERROR))
      | Eof \<Rightarrow> Some (Inr (s, c, [], CLIENT_CLOSE))
      | Data d \<Rightarrow>
         (case arrive (m_crypt c) d of
            Inl e \<Rightarrow> Some (Inl e)
          | Inr (cr, plain) \<Rightarrow>
         (case put (unat (m_read_fill c)) plain (cbuf c) of
            Inl e \<Rightarrow> Some (Inl e)
          | Inr b \<Rightarrow>
         (case read_loop turn_on body handler alloc s
                 (set_cbuf b c\<lparr>m_crypt := cr, m_read_fill := m_read_fill c + of_nat (length d)\<rparr>) [] of
            None \<Rightarrow> None
          | Some (Inl e) \<Rightarrow> Some (Inl e)
          | Some (Inr (s, c, msgs, r)) \<Rightarrow>
              if r \<noteq> NO_SHUTDOWN then Some (Inr (s, c, msgs, r))
              else Some (rbind (compact c) (\<lambda>c. Inr (s, c, msgs, NO_SHUTDOWN)))))))"

section \<open>Writing\<close>

text \<open>What \<open>write\<close> or \<open>writev\<close> returned for the bytes it was given.\<close>

datatype write_result = Wrote nat | Write_Again | Peer_Closed | Write_Failed

text \<open>
  The first three arguments are the virtual methods of the messages.  The result: the connection, its queue,
  the bytes that went out and the messages released.
\<close>

definition conn_write ::
  "('m \<Rightarrow> nat \<Rightarrow> nat \<Rightarrow> (byte list \<times> bool) res) \<Rightarrow> ('m \<Rightarrow> nat \<Rightarrow> nat \<Rightarrow> byte list list res) \<Rightarrow>
   ('m \<Rightarrow> nat \<Rightarrow> nat \<Rightarrow> nat \<times> bool) \<Rightarrow> nat \<Rightarrow> connection \<Rightarrow> 'm entry list \<Rightarrow> (byte list \<Rightarrow> write_result) \<Rightarrow>
   (connection \<times> 'm entry list \<times> byte list \<times> 'm list \<times> reason_t) res" where
  "conn_write fb fi wr iov_max c q sys_write =
     (if m_is_encrypted (m_crypt c)
      then rbind (q_fill_buffer fb (BUFSIZE - unat (m_write_fill c)) q []) (\<lambda>(out, q, released).
           rbind (if out \<noteq> []
                  then rbind (encrypt (m_crypt c) out) (\<lambda>(cr, out).
                       rbind (put (unat (m_write_fill c)) out (m_writebuf c)) (\<lambda>b.
                       Inr (c\<lparr>m_crypt := cr, m_writebuf := b, m_write_fill := m_write_fill c + of_nat (length out)\<rparr>)))
                  else Inr c) (\<lambda>c.
           if m_write_fill c > 0
           then rbind (slice 0 (unat (m_write_fill c)) (m_writebuf c)) (\<lambda>offered.
             case sys_write offered of
               Peer_Closed \<Rightarrow> Inr (c, q, [], released, CLIENT_CLOSE)
             | Write_Failed \<Rightarrow> Inr (c, q, [], released, WRITE_ERROR)
             | Write_Again \<Rightarrow> Inr (c, q, [], released, NO_SHUTDOWN)
             | Wrote n \<Rightarrow>
                 if n = 0 then Inr (c, q, [], released, NO_SHUTDOWN)
                 else if unat (m_write_fill c) > n
                 then let fill = m_write_fill c - of_nat n
                      in rbind (slice n (unat fill) (m_writebuf c)) (\<lambda>bs.
                         rbind (put 0 bs (m_writebuf c)) (\<lambda>b.
                         Inr (c\<lparr>m_writebuf := b, m_write_fill := fill\<rparr>, q, take n offered, released, NO_SHUTDOWN)))
                 else Inr (c\<lparr>m_write_fill := 0\<rparr>, q, take n offered, released, NO_SHUTDOWN))
           else Inr (c, q, [], released, NO_SHUTDOWN)))
      else rbind (q_fill_iovecs fi iov_max q []) (\<lambda>iov.
           if iov \<noteq> []
           then (case sys_write (concat iov) of
               Peer_Closed \<Rightarrow> Inr (c, q, [], [], CLIENT_CLOSE)
             | Write_Failed \<Rightarrow> Inr (c, q, [], [], WRITE_ERROR)
             | Write_Again \<Rightarrow> Inr (c, q, [], [], NO_SHUTDOWN)
             | Wrote n \<Rightarrow>
                 if n = 0 then Inr (c, q, [], [], NO_SHUTDOWN)
                 else (case q_iovecs_written_bytes wr q n of (q, released) \<Rightarrow>
                   Inr (c, q, take n (concat iov), released, NO_SHUTDOWN)))
           else Inr (c, q, [], [], NO_SHUTDOWN)))"

section \<open>What the receiver promises\<close>

text \<open>
  The pending bytes, the keys and the state of the server before, the messages that are delivered, the
  same three after, and the reason to close the connection, if any.
\<close>

inductive parse ::
  "('s \<Rightarrow> bool) \<Rightarrow> ('s \<Rightarrow> byte list \<Rightarrow> framed res) \<Rightarrow>
   ('s \<Rightarrow> msg_kind \<Rightarrow> byte list \<Rightarrow> 's \<times> byte list option \<times> reason_t) \<Rightarrow> ('s \<Rightarrow> byte list \<Rightarrow> bool) \<Rightarrow>
   's \<Rightarrow> crypt \<Rightarrow> byte list \<Rightarrow> (msg_kind \<times> byte list) list \<Rightarrow> 's \<Rightarrow> crypt \<Rightarrow> byte list \<Rightarrow> reason_t \<Rightarrow> bool"
  for turn_on body handler handled where
  wait: "open_crypt turn_on s cr buf = Inr (cr', buf') \<Longrightarrow> handled s buf' \<Longrightarrow>
    body s buf' = Inr (Incomplete w) \<Longrightarrow>
    parse turn_on body handler handled s cr buf [] s cr' buf' NO_SHUTDOWN"
| overlong: "open_crypt turn_on s cr buf = Inr (cr', buf') \<Longrightarrow> handled s buf' \<Longrightarrow>
    body s buf' = Inl (Overlong_Message n) \<Longrightarrow>
    parse turn_on body handler handled s cr buf [] s cr' buf' PROTOCOL_ERROR"
| close: "open_crypt turn_on s cr buf = Inr (cr', buf') \<Longrightarrow> handled s buf' \<Longrightarrow>
    body s buf' = Inr (Framed k n) \<Longrightarrow> 0 < n \<Longrightarrow> handler s k (take (nat n) buf') = (s1, key, r) \<Longrightarrow>
    apply_key key cr' = Inr cr1 \<Longrightarrow> r \<noteq> NO_SHUTDOWN \<Longrightarrow>
    parse turn_on body handler handled s cr buf [(k, take (nat n) buf')] s1 cr1 (drop (nat n) buf') r"
| last: "open_crypt turn_on s cr buf = Inr (cr', buf') \<Longrightarrow> handled s buf' \<Longrightarrow>
    body s buf' = Inr (Framed k n) \<Longrightarrow> 0 < n \<Longrightarrow> nat n = length buf' \<Longrightarrow>
    handler s k buf' = (s1, key, NO_SHUTDOWN) \<Longrightarrow> apply_key key cr' = Inr cr1 \<Longrightarrow>
    parse turn_on body handler handled s cr buf [(k, buf')] s1 cr1 [] NO_SHUTDOWN"
| again: "open_crypt turn_on s cr buf = Inr (cr', buf') \<Longrightarrow> handled s buf' \<Longrightarrow>
    body s buf' = Inr (Framed k n) \<Longrightarrow> 0 < n \<Longrightarrow> nat n < length buf' \<Longrightarrow>
    handler s k (take (nat n) buf') = (s1, key, NO_SHUTDOWN) \<Longrightarrow> apply_key key cr' = Inr cr1 \<Longrightarrow>
    parse turn_on body handler handled s1 cr1 (drop (nat n) buf') ms s2 cr2 rest r \<Longrightarrow>
    parse turn_on body handler handled s cr buf ((k, take (nat n) buf') # ms) s2 cr2 rest r"

text \<open>The bytes of the current buffer that no message was made of.\<close>

definition pend :: "connection \<Rightarrow> byte list" where
  "pend c = take (unat (m_read_fill c) - unat (m_read_off c)) (drop (unat (m_read_off c)) (cbuf c))"

definition buffers_ok :: "connection \<Rightarrow> bool" where
  "buffers_ok c \<longleftrightarrow> length (m_readbuf c) = BUFSIZE \<and> length (cbuf c) < 2 ^ 31 \<and>
     unat (m_read_off c) \<le> unat (m_read_fill c) \<and> unat (m_read_fill c) \<le> length (cbuf c) \<and>
     (m_bigbuf c \<noteq> None \<longrightarrow> m_read_off c = 0)"

text \<open>A big buffer is there because the message in it has just its length.\<close>

definition big_wait ::
  "('s \<Rightarrow> bool) \<Rightarrow> ('s \<Rightarrow> byte list \<Rightarrow> framed res) \<Rightarrow> ('s \<Rightarrow> byte list \<Rightarrow> bool) \<Rightarrow> 's \<Rightarrow> connection \<Rightarrow> bool" where
  "big_wait turn_on body handled s c \<longleftrightarrow>
     (\<forall>b. m_bigbuf c = Some b \<longrightarrow> (turn_on s \<longrightarrow> m_is_encrypted (m_crypt c)) \<and>
       (\<forall>more. handled s (pend c @ more) \<longrightarrow>
          (\<exists>k. body s (pend c @ more) =
             (if length (pend c @ more) < length b then Inr (Incomplete (int (length b)))
              else Inr (Framed k (int (length b)))))))"

text \<open>Between two reads: what is pending is a part of a message, and the buffer has room for the rest.\<close>

definition conn_ok ::
  "('s \<Rightarrow> bool) \<Rightarrow> ('s \<Rightarrow> byte list \<Rightarrow> framed res) \<Rightarrow> ('s \<Rightarrow> byte list \<Rightarrow> bool) \<Rightarrow> 's \<Rightarrow> connection \<Rightarrow> bool" where
  "conn_ok turn_on body handled s c \<longleftrightarrow> buffers_ok c \<and> m_read_off c = 0 \<and> big_wait turn_on body handled s c \<and>
     (pend c \<noteq> [] \<longrightarrow> handled s (pend c) \<and> (\<exists>w. body s (pend c) = Inr (Incomplete w) \<and> w \<le> int (length (cbuf c))))"

lemma rc4_length [simp]: "length (snd (rc4_encrypt st buf)) = length buf"
  by (induction buf arbitrary: st) (simp_all add: rc4_rec del: rc4_encrypt.simps(2))

lemma decrypt_length: "decrypt cr buf = Inr (cr', buf') \<Longrightarrow> length buf' = length buf"
  by (auto simp: decrypt_def split: option.splits prod.splits) (metis rc4_length snd_conv)

lemma open_crypt_length: "open_crypt turn_on s cr buf = Inr (cr', buf') \<Longrightarrow> length buf' = length buf"
  by (auto simp: open_crypt_def dest: decrypt_length split: if_splits)

lemma arrive_length: "arrive cr d = Inr (cr', plain) \<Longrightarrow> length plain = length d"
  by (auto simp: arrive_def dest: decrypt_length split: if_splits)

lemma cbuf_set [simp]: "cbuf (set_cbuf b c) = b"
  by (simp add: cbuf_def set_cbuf_def split: option.splits)

lemma set_cbuf_fields [simp]:
  "m_read_fill (set_cbuf b c) = m_read_fill c" "m_read_off (set_cbuf b c) = m_read_off c"
  "m_crypt (set_cbuf b c) = m_crypt c" "m_bigbuf (set_cbuf b c) = None \<longleftrightarrow> m_bigbuf c = None"
  "length b = length (cbuf c) \<Longrightarrow> length (m_readbuf (set_cbuf b c)) = length (m_readbuf c)"
  by (simp_all add: set_cbuf_def cbuf_def split: option.splits)

lemma cbuf_update [simp]:
  "cbuf (c\<lparr>m_crypt := cr\<rparr>) = cbuf c" "cbuf (c\<lparr>m_read_off := n\<rparr>) = cbuf c" "cbuf (c\<lparr>m_read_fill := n\<rparr>) = cbuf c"
  by (simp_all add: cbuf_def split: option.splits)

lemma length_pend: "buffers_ok c \<Longrightarrow> length (pend c) = unat (m_read_fill c) - unat (m_read_off c)"
  by (auto simp: pend_def buffers_ok_def)

lemma unat_fill_off: "buffers_ok c \<Longrightarrow> unat (m_read_fill c - m_read_off c) = unat (m_read_fill c) - unat (m_read_off c)"
  by (simp add: buffers_ok_def unat_sub_if')

lemma slice_pend:
  assumes "buffers_ok c"
  shows "slice (unat (m_read_off c)) (unat (m_read_fill c - m_read_off c)) (cbuf c) = Inr (pend c)"
  using assms unfolding unat_fill_off [OF assms] by (simp add: pend_def buffers_ok_def)

text \<open>Changing the pending bytes in place.\<close>

lemma store_pend:
  assumes "buffers_ok c" and "length buf = length (pend c)"
  obtains b where "put (unat (m_read_off c)) buf (cbuf c) = Inr b" "length b = length (cbuf c)"
    "buffers_ok (set_cbuf b c\<lparr>m_crypt := cr\<rparr>)" "pend (set_cbuf b c\<lparr>m_crypt := cr\<rparr>) = buf"
proof -
  have l: "length buf = unat (m_read_fill c) - unat (m_read_off c)"
    "unat (m_read_off c) \<le> unat (m_read_fill c)" "unat (m_read_fill c) \<le> length (cbuf c)"
    using assms length_pend by (auto simp: buffers_ok_def)
  define b where "b = take (unat (m_read_off c)) (cbuf c) @ buf @ drop (unat (m_read_off c) + length buf) (cbuf c)"
  have b: "put (unat (m_read_off c)) buf (cbuf c) = Inr b" "length b = length (cbuf c)"
    using l by (auto simp: put_def b_def)
  moreover have "buffers_ok (set_cbuf b c\<lparr>m_crypt := cr\<rparr>)" using assms(1) b(2) by (simp add: buffers_ok_def)
  moreover have "pend (set_cbuf b c\<lparr>m_crypt := cr\<rparr>) = buf" using l by (simp add: pend_def b_def)
  ultimately show thesis by (rule that)
qed


section \<open>One turn of the loop\<close>

lemma loop_turn:
  assumes "buffers_ok c" and "open_crypt turn_on s (m_crypt c) (pend c) = Inr (cr, buf)"
  obtains c1 where "buffers_ok c1" "pend c1 = buf" "m_crypt c1 = cr" "m_read_off c1 = m_read_off c"
    "m_read_fill c1 = m_read_fill c" "map_option length (m_bigbuf c1) = map_option length (m_bigbuf c)"
    "\<And>w c2 r. body s buf = Inr (Incomplete w) \<Longrightarrow> want_more alloc w buf c1 = (c2, r) \<Longrightarrow>
      read_loop turn_on body handler alloc s c msgs = Some (Inr (s, c2, msgs, r))"
    "\<And>n. body s buf = Inl (Overlong_Message n) \<Longrightarrow>
      read_loop turn_on body handler alloc s c msgs = Some (Inr (s, c1, msgs, PROTOCOL_ERROR))"
    "\<And>k n s1 key r cr1 c2. body s buf = Inr (Framed k n) \<Longrightarrow> handler s k (take (nat n) buf) = (s1, key, r) \<Longrightarrow>
      apply_key key cr = Inr cr1 \<Longrightarrow> c2 = c1\<lparr>m_read_off := m_read_off c + word_of_int n, m_crypt := cr1\<rparr> \<Longrightarrow>
      read_loop turn_on body handler alloc s c msgs =
        (if r \<noteq> NO_SHUTDOWN then Some (Inr (s1, c2, msgs @ [(k, take (nat n) buf)], r))
         else if m_bigbuf c1 \<noteq> None
         then Some (Inr (s1, c2\<lparr>m_bigbuf := None, m_read_fill := 0\<rparr>, msgs @ [(k, take (nat n) buf)], NO_SHUTDOWN))
         else if m_read_fill c > m_read_off c + word_of_int n
         then read_loop turn_on body handler alloc s1 c2 (msgs @ [(k, take (nat n) buf)])
         else Some (Inr (s1, c2, msgs @ [(k, take (nat n) buf)], NO_SHUTDOWN)))"
proof -
  have "length buf = length (pend c)" using assms(2) by (rule open_crypt_length)
  from store_pend [OF assms(1) this, where cr = cr] obtain b where
    b: "put (unat (m_read_off c)) buf (cbuf c) = Inr b" "length b = length (cbuf c)"
      "buffers_ok (set_cbuf b c\<lparr>m_crypt := cr\<rparr>)" "pend (set_cbuf b c\<lparr>m_crypt := cr\<rparr>) = buf" .
  let ?c1 = "set_cbuf b c\<lparr>m_crypt := cr\<rparr>"
  note turn = read_loop.simps [of turn_on body handler alloc s c msgs, unfolded slice_pend [OF assms(1)] assms(2) b(1)
    sum.case prod.case Let_def]
  have big: "map_option length (m_bigbuf ?c1) = map_option length (m_bigbuf c)"
    using b(2) by (auto simp: set_cbuf_def cbuf_def split: option.splits)
  show thesis
  proof (rule that [of ?c1])
    show "read_loop turn_on body handler alloc s c msgs = Some (Inr (s, c2, msgs, r))"
      if "body s buf = Inr (Incomplete w)" "want_more alloc w buf ?c1 = (c2, r)" for w c2 r
      using that by (subst turn) simp
    show "read_loop turn_on body handler alloc s c msgs = Some (Inr (s, ?c1, msgs, PROTOCOL_ERROR))"
      if "body s buf = Inl (Overlong_Message n)" for n
      using that by (subst turn) simp
  qed (use b big in \<open>simp_all add: turn\<close>)
qed

section \<open>The loop does what is promised\<close>

lemma compact_ok:
  assumes "buffers_ok c"
  obtains c' where "compact c = Inr c'" "buffers_ok c'" "m_read_off c' = 0" "pend c' = pend c"
    "m_crypt c' = m_crypt c" "m_bigbuf c' = m_bigbuf c" "length (cbuf c') = length (cbuf c)"
proof (cases "m_read_off c < m_read_fill c")
  case False
  then have "unat (m_read_fill c) = unat (m_read_off c)" using assms by (simp add: buffers_ok_def word_less_nat_alt)
  then have "m_read_fill c = m_read_off c" by (rule word_unat_eq_iff [THEN iffD2])
  with False show thesis
    using assms by (intro that [of "c\<lparr>m_read_fill := 0, m_read_off := 0\<rparr>"])
      (auto simp: compact_def buffers_ok_def pend_def cbuf_def split: option.splits)
next
  case True
  show thesis
  proof (cases "m_read_off c = 0")
    case True
    with \<open>m_read_off c < m_read_fill c\<close> assms show thesis by (intro that [of c]) (simp_all add: compact_def)
  next
    case off: False
    then have none: "m_bigbuf c = None" using assms by (auto simp: buffers_ok_def)
    then have cb: "cbuf c = m_readbuf c" by (simp add: cbuf_def)
    have bs: "slice (unat (m_read_off c)) (unat (m_read_fill c - m_read_off c)) (m_readbuf c) = Inr (pend c)"
      using slice_pend [OF assms] cb by simp
    have l: "length (pend c) \<le> length (m_readbuf c)" "unat (m_read_fill c - m_read_off c) = length (pend c)"
      "length (m_readbuf c) = BUFSIZE"
      using length_pend [OF assms] unat_fill_off [OF assms] assms cb by (auto simp: buffers_ok_def)
    define b where "b = pend c @ drop (length (pend c)) (m_readbuf c)"
    let ?c = "c\<lparr>m_readbuf := b, m_read_fill := m_read_fill c - m_read_off c, m_read_off := 0\<rparr>"
    have "put 0 (pend c) (m_readbuf c) = Inr b" using l by (simp add: put_def b_def)
    moreover have "m_read_off c < m_read_fill c" "0 < m_read_off c" using True off by (simp_all add: word_neq_0_conv)
    ultimately have "compact c = Inr ?c"
      unfolding compact_def Let_def bs rbind_Inr by (simp only: if_True rbind_Inr)
    moreover have "length b = BUFSIZE" using l by (simp add: b_def)
    moreover have "pend ?c = pend c" unfolding pend_def [of ?c] using none l(2) by (simp add: cbuf_def b_def)
    ultimately show thesis
      using l none by (intro that [of ?c]) (simp_all add: buffers_ok_def cbuf_def)
  qed
qed

lemma buffers_advance:
  fixes c :: connection and n :: int and cr :: crypt
  assumes "buffers_ok c" and "m_bigbuf c = None" and "0 < n" and "n \<le> int (length (pend c))"
  defines "c2 \<equiv> c\<lparr>m_read_off := m_read_off c + word_of_int n, m_crypt := cr\<rparr>"
  shows "buffers_ok c2" "pend c2 = drop (nat n) (pend c)"
    "m_read_fill c > m_read_off c + word_of_int n \<longleftrightarrow> nat n < length (pend c)"
proof -
  note l = length_pend [OF assms(1)]
  have b: "unat (m_read_fill c) < 2 ^ 31" "unat (m_read_off c) \<le> unat (m_read_fill c)"
    using assms(1) by (auto simp: buffers_ok_def)
  have "word_of_int n = (of_nat (nat n) :: u32)" using assms(3) by simp
  moreover have le: "unat (m_read_off c) + nat n \<le> unat (m_read_fill c)" using assms(3,4) l b by linarith
  ultimately have u: "unat (m_read_off c + word_of_int n) = unat (m_read_off c) + nat n"
    using b unat_add_u32 [of "m_read_off c" "of_nat (nat n)"] by (simp add: unat_of_nat_u32)
  show "m_read_fill c > m_read_off c + word_of_int n \<longleftrightarrow> nat n < length (pend c)"
    unfolding word_less_nat_alt u l using b by auto
  show "buffers_ok c2" using assms(1,2) u le by (auto simp: c2_def buffers_ok_def cbuf_def)
  show "pend c2 = drop (nat n) (pend c)"
    using u using assms(2) by (simp add: c2_def pend_def cbuf_def drop_take add.commute)
qed


locale client_class =
  fixes turn_on :: "'s \<Rightarrow> bool"
    and body :: "'s \<Rightarrow> byte list \<Rightarrow> framed res"
    and handler :: "'s \<Rightarrow> msg_kind \<Rightarrow> byte list \<Rightarrow> 's \<times> byte list option \<times> reason_t"
    and handled :: "'s \<Rightarrow> byte list \<Rightarrow> bool"
    and keyed :: "'s \<Rightarrow> bool"
  assumes framed: "framer (body s) (handled s)"
    and handled_prefix: "handled s (buf @ tail) \<Longrightarrow> handled s buf"
    and big: "handled s (buf @ tail) \<Longrightarrow> body s buf = Inr (Incomplete w) \<Longrightarrow> int BUFSIZE < w \<Longrightarrow>
      w < 2 ^ 31 \<and> int (length buf) < w \<and>
      (\<exists>k. body s (buf @ tail) =
         (if int (length (buf @ tail)) < w then Inr (Incomplete w) else Inr (Framed k w)))"
    and key_law: "handler s k m = (s', Some session_key, r) \<Longrightarrow> \<not> keyed s"
    and keyed_mono: "handler s k m = (s', key, r) \<Longrightarrow> keyed s \<Longrightarrow> keyed s'"
    and turn_keyed: "turn_on s \<Longrightarrow> keyed s"
begin

abbreviation the_parse where "the_parse \<equiv> parse turn_on body handler handled"
abbreviation the_loop where "the_loop \<equiv> read_loop turn_on body handler"
abbreviation the_ok where "the_ok \<equiv> conn_ok turn_on body handled"
abbreviation the_wait where "the_wait \<equiv> big_wait turn_on body handled"

lemma stable: "handled s (buf @ tail) \<Longrightarrow> definite (body s buf) \<Longrightarrow> body s (buf @ tail) = body s buf"
  using framer.stable [OF framed] .

lemma framed_bound: "handled s buf \<Longrightarrow> body s buf = Inr (Framed k n) \<Longrightarrow> n \<le> int (length buf)"
  using framer.short [OF framed] .

text \<open>With a big buffer, the message in it is either still incomplete or fills it.\<close>

lemma big_cases:
  assumes "the_wait s c" and "m_bigbuf c = Some b" and "handled s (pend c)"
  shows "\<not> (turn_on s \<and> \<not> m_is_encrypted (m_crypt c))"
    and "length (pend c) < length b \<Longrightarrow> body s (pend c) = Inr (Incomplete (int (length b)))"
    and "\<not> length (pend c) < length b \<Longrightarrow> \<exists>k. body s (pend c) = Inr (Framed k (int (length b)))"
proof -
  from assms(1,2) have w: "turn_on s \<longrightarrow> m_is_encrypted (m_crypt c)"
    "\<forall>tail. handled s (pend c @ tail) \<longrightarrow> (\<exists>k. body s (pend c @ tail) =
      (if length (pend c @ tail) < length b then Inr (Incomplete (int (length b))) else Inr (Framed k (int (length b)))))"
    by (auto simp: big_wait_def)
  from w(1) show "\<not> (turn_on s \<and> \<not> m_is_encrypted (m_crypt c))" by simp
  from w(2) [rule_format, of "[]"] assms(3) obtain k where "body s (pend c) =
      (if length (pend c) < length b then Inr (Incomplete (int (length b))) else Inr (Framed k (int (length b))))"
    by auto
  then show "length (pend c) < length b \<Longrightarrow> body s (pend c) = Inr (Incomplete (int (length b)))"
    and "\<not> length (pend c) < length b \<Longrightarrow> \<exists>k. body s (pend c) = Inr (Framed k (int (length b)))"
    by auto
qed

lemma conn_ok_compact:
  assumes "buffers_ok c" and "the_wait s c"
    and "pend c \<noteq> [] \<Longrightarrow> handled s (pend c) \<and> (\<exists>w. body s (pend c) = Inr (Incomplete w) \<and> w \<le> int (length (cbuf c)))"
  shows "\<exists>c'. compact c = Inr c' \<and> the_ok s c' \<and> pend c' = pend c \<and> m_crypt c' = m_crypt c"
proof -
  obtain c' where "compact c = Inr c'" "buffers_ok c'" "m_read_off c' = 0" "pend c' = pend c"
    "m_crypt c' = m_crypt c" "m_bigbuf c' = m_bigbuf c" "length (cbuf c') = length (cbuf c)" using compact_ok [OF assms(1)] .
  with assms(2,3) show ?thesis by (auto simp: conn_ok_def big_wait_def)
qed

lemma wait_none: "m_bigbuf c = None \<Longrightarrow> the_wait s c"
  by (simp add: big_wait_def)

text \<open>What \<open>want_more\<close> leaves is a connection that waits for the rest of its message.\<close>

lemma want_more_ok:
  assumes "buffers_ok c" and "the_wait s c" and "m_crypt c = cr" and "open_crypt turn_on s cr0 buf0 = Inr (cr, pend c)"
    and "handled s (pend c)" and "body s (pend c) = Inr (Incomplete w)" and "alloc_ok alloc" and "buf0 \<noteq> []"
    and "want_more alloc w (pend c) c = (c2, r)"
  shows "r = NO_SHUTDOWN \<and> buffers_ok c2 \<and> the_wait s c2 \<and> pend c2 = pend c \<and> m_crypt c2 = cr \<and> w \<le> int (length (cbuf c2))"
proof (cases "m_bigbuf c")
  case (Some b)
  from big_cases(2,3) [OF assms(2) Some assms(5)] assms(6) have "w = int (length b)"
    by (cases "length (pend c) < length b") auto
  with assms Some show ?thesis by (auto simp: want_more_def cbuf_def split: if_splits)
next
  case None
  show ?thesis
  proof (cases "w > int BUFSIZE")
    case False
    with None assms show ?thesis by (auto simp: want_more_def buffers_ok_def cbuf_def split: if_splits)
  next
    case True
    let ?b = "pend c @ drop (length (pend c)) (alloc (nat w))"
    note law = big [OF _ assms(6) True]
    have w: "w < 2 ^ 31" "int (length (pend c)) < w" using law [of "[]"] assms(5) by auto
    have b: "length ?b = nat w" using assms(7) w by (simp add: alloc_ok_def)
    have c2: "c2 = c\<lparr>m_bigbuf := Some ?b, m_read_fill := m_read_fill c - m_read_off c, m_read_off := 0\<rparr>"
      and r: "r = NO_SHUTDOWN"
      using assms(9) None True by (simp_all add: want_more_def)
    have f: "unat (m_read_fill c - m_read_off c) = length (pend c)"
      using unat_fill_off [OF assms(1)] length_pend [OF assms(1)] by simp
    have p: "pend c2 = pend c" unfolding pend_def [of c2] using f by (simp add: c2 cbuf_def)
    have "turn_on s \<longrightarrow> m_is_encrypted cr"
      using assms(4,8) by (auto simp: open_crypt_def decrypt_def set_encrypted_def split: if_splits option.splits prod.splits)
    moreover have "\<exists>k. body s (pend c @ tail) = (if length (pend c @ tail) < length ?b
        then Inr (Incomplete (int (length ?b))) else Inr (Framed k (int (length ?b))))"
      if "handled s (pend c @ tail)" for tail
    proof -
      have "int (length ?b) = w" using b w by simp
      moreover have "length (pend c @ tail) < length ?b \<longleftrightarrow> int (length (pend c @ tail)) < w" using b w by linarith
      ultimately show ?thesis using law [OF that] by presburger
    qed
    ultimately have "the_wait s c2" using assms(3) p by (auto simp: big_wait_def c2)
    moreover have "buffers_ok c2" using assms(1) f b w by (simp add: buffers_ok_def c2 cbuf_def)
    moreover have "w \<le> int (length (cbuf c2))" using b by (simp add: c2 cbuf_def)
    ultimately show ?thesis using p r assms(3) by (simp add: c2)
  qed
qed

end

context client_class
begin

lemma wait_after_open:
  assumes "the_wait s c" and "open_crypt turn_on s (m_crypt c) (pend c) = Inr (cr, buf)"
    and "m_crypt c1 = cr" and "pend c1 = buf" and "map_option length (m_bigbuf c1) = map_option length (m_bigbuf c)"
  shows "the_wait s c1"
proof (cases "m_bigbuf c")
  case None
  then show ?thesis using assms(5) by (simp add: wait_none)
next
  case (Some b)
  then obtain b1 where b1: "m_bigbuf c1 = Some b1" "length b1 = length b" using assms(5) by auto
  have "turn_on s \<longrightarrow> m_is_encrypted (m_crypt c)" using assms(1) Some by (simp add: big_wait_def)
  then have "cr = m_crypt c" "buf = pend c" using assms(2) by (auto simp: open_crypt_def split: if_splits)
  then have "big_wait turn_on body handled s c = big_wait turn_on body handled s c1"
    using assms(3,4) Some b1 unfolding big_wait_def by (simp only: option.inject simp_thms all_simps ex_simps)
  with assms(1) show ?thesis by simp
qed

text \<open>Each message of the specification is made by one turn.\<close>

lemma loop_wait:
  assumes "alloc_ok alloc" and "buffers_ok c" and "the_wait s c" and "pend c \<noteq> []"
    and o: "open_crypt turn_on s (m_crypt c) (pend c) = Inr (cr, buf)"
    and "handled s buf" and "body s buf = Inr (Incomplete w)"
  shows "\<exists>c'. the_loop alloc s c msgs = Some (Inr (s, c', msgs, NO_SHUTDOWN)) \<and> m_crypt c' = cr \<and>
      (\<exists>c''. compact c' = Inr c'' \<and> the_ok s c'' \<and> pend c'' = buf \<and> m_crypt c'' = cr)"
proof -
  from loop_turn [OF assms(2) o, of body alloc handler msgs] obtain c1 where c1:
    "buffers_ok c1" "pend c1 = buf" "m_crypt c1 = cr" "map_option length (m_bigbuf c1) = map_option length (m_bigbuf c)"
    "\<And>w c2 r. body s buf = Inr (Incomplete w) \<Longrightarrow> want_more alloc w buf c1 = (c2, r) \<Longrightarrow>
      the_loop alloc s c msgs = Some (Inr (s, c2, msgs, r))" by metis
  have w1: "the_wait s c1" by (rule wait_after_open [OF assms(3) o c1(3,2,4)])
  obtain c2 r where wm: "want_more alloc w (pend c1) c1 = (c2, r)" by fastforce
  from want_more_ok [OF c1(1) w1 c1(3), of "m_crypt c" "pend c" w alloc c2 r] wm c1(2) assms have
    "r = NO_SHUTDOWN" "buffers_ok c2" "the_wait s c2" "pend c2 = buf" "m_crypt c2 = cr" "w \<le> int (length (cbuf c2))" by auto
  with conn_ok_compact [of c2 s] c1(5) [OF assms(7)] wm c1(2) assms(6,7) show ?thesis by fastforce
qed

lemma loop_framed:
  assumes "buffers_ok c" and "the_wait s c"
    and o: "open_crypt turn_on s (m_crypt c) (pend c) = Inr (cr, buf)"
    and "body s buf = Inr (Framed k n)" and "handler s k (take (nat n) buf) = (s1, key, r)" and "apply_key key cr = Inr cr1"
  obtains c1 where "buffers_ok c1" "pend c1 = buf" "the_wait s c1"
    "the_loop alloc s c msgs = (let c2 = c1\<lparr>m_read_off := m_read_off c1 + word_of_int n, m_crypt := cr1\<rparr>;
         msgs = msgs @ [(k, take (nat n) buf)]
      in if r \<noteq> NO_SHUTDOWN then Some (Inr (s1, c2, msgs, r))
         else if m_bigbuf c1 \<noteq> None then Some (Inr (s1, c2\<lparr>m_bigbuf := None, m_read_fill := 0\<rparr>, msgs, NO_SHUTDOWN))
         else if m_read_fill c1 > m_read_off c1 + word_of_int n then the_loop alloc s1 c2 msgs
         else Some (Inr (s1, c2, msgs, NO_SHUTDOWN)))"
proof -
  from loop_turn [OF assms(1) o, of body alloc handler msgs] obtain c1 where c1: "buffers_ok c1" "pend c1 = buf"
    "m_crypt c1 = cr" "m_read_off c1 = m_read_off c" "m_read_fill c1 = m_read_fill c"
    "map_option length (m_bigbuf c1) = map_option length (m_bigbuf c)"
    "\<And>k n s1 key r cr1 c2. body s buf = Inr (Framed k n) \<Longrightarrow> handler s k (take (nat n) buf) = (s1, key, r) \<Longrightarrow>
      apply_key key cr = Inr cr1 \<Longrightarrow> c2 = c1\<lparr>m_read_off := m_read_off c + word_of_int n, m_crypt := cr1\<rparr> \<Longrightarrow>
      the_loop alloc s c msgs =
        (if r \<noteq> NO_SHUTDOWN then Some (Inr (s1, c2, msgs @ [(k, take (nat n) buf)], r))
         else if m_bigbuf c1 \<noteq> None
         then Some (Inr (s1, c2\<lparr>m_bigbuf := None, m_read_fill := 0\<rparr>, msgs @ [(k, take (nat n) buf)], NO_SHUTDOWN))
         else if m_read_fill c > m_read_off c + word_of_int n
         then the_loop alloc s1 c2 (msgs @ [(k, take (nat n) buf)])
         else Some (Inr (s1, c2, msgs @ [(k, take (nat n) buf)], NO_SHUTDOWN)))" by metis
  show thesis
    using c1(7) [OF assms(4-6) refl] wait_after_open [OF assms(2) o c1(3,2,6)] c1(1,2,4,5)
    by (intro that [of c1]) (simp_all only: Let_def)
qed

lemma loop_last:
  assumes "buffers_ok c" and "the_wait s c"
    and o: "open_crypt turn_on s (m_crypt c) (pend c) = Inr (cr, buf)"
    and "body s buf = Inr (Framed k n)" and "handler s k buf = (s1, key, NO_SHUTDOWN)" and "apply_key key cr = Inr cr1"
    and n: "0 < n" "nat n = length buf"
  shows "\<exists>c'. the_loop alloc s c msgs = Some (Inr (s1, c', msgs @ [(k, buf)], NO_SHUTDOWN)) \<and> m_crypt c' = cr1 \<and>
      (\<exists>c''. compact c' = Inr c'' \<and> the_ok s1 c'' \<and> pend c'' = [] \<and> m_crypt c'' = cr1)"
proof -
  have all: "take (nat n) buf = buf" using n by simp
  obtain c1 where c1: "buffers_ok c1" "pend c1 = buf" "the_wait s c1"
    "the_loop alloc s c msgs = (let c2 = c1\<lparr>m_read_off := m_read_off c1 + word_of_int n, m_crypt := cr1\<rparr>
      in if m_bigbuf c1 \<noteq> None then Some (Inr (s1, c2\<lparr>m_bigbuf := None, m_read_fill := 0\<rparr>, msgs @ [(k, buf)], NO_SHUTDOWN))
         else if m_read_fill c1 > m_read_off c1 + word_of_int n then the_loop alloc s1 c2 (msgs @ [(k, buf)])
         else Some (Inr (s1, c2, msgs @ [(k, buf)], NO_SHUTDOWN)))"
    using loop_framed [OF assms(1-4), of s1 key NO_SHUTDOWN cr1 alloc msgs] assms(5,6) unfolding all Let_def by auto
  let ?c2 = "c1\<lparr>m_read_off := m_read_off c1 + word_of_int n, m_crypt := cr1\<rparr>"
  show ?thesis
  proof (cases "m_bigbuf c1")
    case None
    have "n \<le> int (length (pend c1))" using n c1(2) by simp
    note adv = buffers_advance(1,2) [OF c1(1) None n(1) this, of cr1] buffers_advance(3) [OF c1(1) None n(1) this]
    have "the_loop alloc s c msgs = Some (Inr (s1, ?c2, msgs @ [(k, buf)], NO_SHUTDOWN))"
      using c1(4) None adv(3) n(2) c1(2) by simp
    moreover have "pend ?c2 = []" using adv(2) n(2) c1(2) by simp
    ultimately show ?thesis using conn_ok_compact [OF adv(1) wait_none, of s1] None by auto
  next
    case (Some b)
    let ?c3 = "?c2\<lparr>m_bigbuf := None, m_read_fill := 0\<rparr>"
    let ?c4 = "c1\<lparr>m_read_off := 0, m_crypt := cr1, m_bigbuf := None, m_read_fill := 0\<rparr>"
    have "compact ?c3 = Inr ?c4" by (simp add: compact_def)
    moreover have "buffers_ok ?c4" using c1(1) by (simp add: buffers_ok_def cbuf_def)
    moreover have "pend ?c4 = []" by (simp add: pend_def)
    ultimately show ?thesis using c1(4) Some by (auto simp: conn_ok_def wait_none)
  qed
qed

lemma loop_again:
  assumes "buffers_ok c" and "the_wait s c"
    and o: "open_crypt turn_on s (m_crypt c) (pend c) = Inr (cr, buf)" and h: "handled s buf"
    and f: "body s buf = Inr (Framed k n)" and "handler s k (take (nat n) buf) = (s1, key, NO_SHUTDOWN)"
    and "apply_key key cr = Inr cr1" and n: "0 < n" "nat n < length buf"
  obtains c2 where "the_loop alloc s c msgs = the_loop alloc s1 c2 (msgs @ [(k, take (nat n) buf)])"
    "buffers_ok c2" "the_wait s1 c2" "pend c2 = drop (nat n) buf" "m_crypt c2 = cr1"
proof -
  obtain c1 where c1: "buffers_ok c1" "pend c1 = buf" "the_wait s c1"
    "the_loop alloc s c msgs = (let c2 = c1\<lparr>m_read_off := m_read_off c1 + word_of_int n, m_crypt := cr1\<rparr>;
         msgs = msgs @ [(k, take (nat n) buf)]
      in if m_bigbuf c1 \<noteq> None then Some (Inr (s1, c2\<lparr>m_bigbuf := None, m_read_fill := 0\<rparr>, msgs, NO_SHUTDOWN))
         else if m_read_fill c1 > m_read_off c1 + word_of_int n then the_loop alloc s1 c2 msgs
         else Some (Inr (s1, c2, msgs, NO_SHUTDOWN)))"
    using loop_framed [OF assms(1-3) f, of s1 key NO_SHUTDOWN cr1 alloc msgs] assms(6,7) unfolding Let_def by auto
  have None: "m_bigbuf c1 = None"
  proof (rule ccontr)
    assume "m_bigbuf c1 \<noteq> None"
    then obtain b where b: "m_bigbuf c1 = Some b" by blast
    from big_cases(2,3) [OF c1(3) b] h f c1(2) have "n = int (length b)" "length b \<le> length (pend c1)"
      by (cases "length (pend c1) < length b"; auto)+
    moreover have "length (pend c1) \<le> length b" using c1(1) b by (auto simp: buffers_ok_def pend_def cbuf_def)
    ultimately show False using n(2) c1(2) by simp
  qed
  have "n \<le> int (length (pend c1))" using n c1(2) by simp
  note adv = buffers_advance(1,2) [OF c1(1) None n(1) this, of cr1] buffers_advance(3) [OF c1(1) None n(1) this]
  show thesis
    by (rule that [OF _ adv(1)]) (use c1(2,4) None adv(2,3) n(2) in \<open>simp_all add: wait_none\<close>)
qed

lemma loop_parse:
  assumes "alloc_ok alloc"
  shows "the_parse s cr buf ms s' cr' rest r \<Longrightarrow> buffers_ok c \<Longrightarrow> the_wait s c \<Longrightarrow> m_crypt c = cr \<Longrightarrow>
    pend c = buf \<Longrightarrow> buf \<noteq> [] \<Longrightarrow>
    \<exists>c'. the_loop alloc s c msgs = Some (Inr (s', c', msgs @ ms, r)) \<and> m_crypt c' = cr' \<and>
      (r = NO_SHUTDOWN \<longrightarrow> (\<exists>c''. compact c' = Inr c'' \<and> the_ok s' c'' \<and> pend c'' = rest \<and> m_crypt c'' = cr'))"
proof (induction arbitrary: c msgs rule: parse.induct)
  case (wait s cr buf cr' buf' w)
  then show ?case using loop_wait [OF assms wait.prems(1,2), of cr' buf' w msgs] by auto
next
  case (overlong s cr buf cr' buf' n)
  then have "open_crypt turn_on s (m_crypt c) (pend c) = Inr (cr', buf')" by simp
  from loop_turn [OF overlong.prems(1) this, of body alloc handler msgs] obtain c1 where "m_crypt c1 = cr'"
    "\<And>n. body s buf' = Inl (Overlong_Message n) \<Longrightarrow>
      the_loop alloc s c msgs = Some (Inr (s, c1, msgs, PROTOCOL_ERROR))" by metis
  with overlong.hyps(3) show ?case by auto
next
  case (close s cr buf cr' buf' k n s1 key r cr1)
  then have "open_crypt turn_on s (m_crypt c) (pend c) = Inr (cr', buf')" by simp
  from loop_framed [OF close.prems(1,2) this close.hyps(3,5,6), of alloc msgs] close.hyps(7) obtain c1 where
    "the_loop alloc s c msgs = Some (Inr (s1, c1\<lparr>m_read_off := m_read_off c1 + word_of_int n, m_crypt := cr1\<rparr>,
      msgs @ [(k, take (nat n) buf')], r))" by auto
  with close.hyps(7) show ?case by simp
next
  case (last s cr buf cr' buf' k n s1 key cr1)
  then show ?case using loop_last [OF last.prems(1,2), of cr' buf' k n s1 key cr1 alloc msgs] by auto
next
  case (again s cr buf cr' buf' k n s1 key cr1 ms s2 cr2 rest r)
  then have "open_crypt turn_on s (m_crypt c) (pend c) = Inr (cr', buf')" by simp
  from loop_again [OF again.prems(1,2) this again.hyps(2,3,6,7,4,5)] obtain c2 where
    "the_loop alloc s c msgs = the_loop alloc s1 c2 (msgs @ [(k, take (nat n) buf')])"
    "buffers_ok c2" "the_wait s1 c2" "pend c2 = drop (nat n) buf'" "m_crypt c2 = cr1" .
  with again.IH [OF this(2,3,5,4), of "msgs @ [(k, take (nat n) buf')]"] again.hyps(5) show ?case by simp
qed

end

section \<open>One read\<close>

lemma arrive_encrypted: "arrive cr d = Inr (cr', plain) \<Longrightarrow> m_is_encrypted cr' = m_is_encrypted cr"
  by (auto simp: arrive_def decrypt_def split: if_splits option.splits prod.splits)

text \<open>Storing what has arrived behind the bytes that are there.\<close>

lemma arrived_pend:
  assumes "buffers_ok c" and "m_read_off c = 0" and "int (length plain) \<le> room c"
  obtains b where "put (unat (m_read_fill c)) plain (cbuf c) = Inr b"
    "buffers_ok (set_cbuf b c\<lparr>m_crypt := cr, m_read_fill := m_read_fill c + of_nat (length plain)\<rparr>)"
    "pend (set_cbuf b c\<lparr>m_crypt := cr, m_read_fill := m_read_fill c + of_nat (length plain)\<rparr>) = pend c @ plain"
    "map_option length (m_bigbuf (set_cbuf b c)) = map_option length (m_bigbuf c)"
proof -
  have l: "unat (m_read_fill c) + length plain \<le> length (cbuf c)" "length (cbuf c) < 2 ^ 31"
    using assms(1,3) unfolding room_def buffers_ok_def by linarith+
  then have f: "unat (m_read_fill c + of_nat (length plain)) = unat (m_read_fill c) + length plain"
    using unat_add_u32 [of "m_read_fill c" "of_nat (length plain)"] by (simp add: unat_of_nat_u32)
  define b where "b = take (unat (m_read_fill c)) (cbuf c) @ plain @ drop (unat (m_read_fill c) + length plain) (cbuf c)"
  let ?c = "set_cbuf b c\<lparr>m_crypt := cr, m_read_fill := m_read_fill c + of_nat (length plain)\<rparr>"
  have b: "put (unat (m_read_fill c)) plain (cbuf c) = Inr b" "length b = length (cbuf c)"
    using l by (simp_all add: put_def b_def)
  moreover have "buffers_ok ?c" using assms(1,2) b(2) f l by (simp add: buffers_ok_def)
  moreover have "pend ?c = pend c @ plain" using assms(2) f l by (simp add: pend_def b_def)
  moreover have "map_option length (m_bigbuf (set_cbuf b c)) = map_option length (m_bigbuf c)"
    using b(2) by (auto simp: set_cbuf_def cbuf_def split: option.splits)
  ultimately show thesis by (intro that [of b]) simp_all
qed

context client_class
begin

lemma wait_arrived:
  assumes "the_wait s c" and "pend c1 = pend c @ plain" and "m_is_encrypted (m_crypt c1) = m_is_encrypted (m_crypt c)"
    and "map_option length (m_bigbuf c1) = map_option length (m_bigbuf c)"
  shows "the_wait s c1"
proof (cases "m_bigbuf c")
  case None
  then show ?thesis using assms(4) by (simp add: wait_none)
next
  case (Some b)
  then obtain b1 where b1: "m_bigbuf c1 = Some b1" "length b1 = length b" using assms(4) by auto
  show ?thesis
    using assms(1) Some b1 unfolding big_wait_def assms(2,3) append_assoc
    by (simp only: option.inject simp_thms all_simps ex_simps) blast
qed

lemma conn_read_parse:
  assumes "alloc_ok alloc" and "the_ok s c" and "d \<noteq> []" and "int (length d) \<le> room c"
    and ar: "arrive (m_crypt c) d = Inr (cr1, plain)" and p: "the_parse s cr1 (pend c @ plain) ms s' cr' rest r"
  shows "\<exists>c'. conn_read turn_on body handler alloc s c (Data d) = Some (Inr (s', c', ms, r)) \<and> m_crypt c' = cr' \<and>
    (r = NO_SHUTDOWN \<longrightarrow> the_ok s' c' \<and> pend c' = rest)"
proof -
  have l: "length plain = length d" using ar by (rule arrive_length)
  have ok: "buffers_ok c" "m_read_off c = 0" "the_wait s c" using assms(2) by (auto simp: conn_ok_def)
  have rm: "int (length plain) \<le> room c" using assms(4) l by simp
  obtain b where b: "put (unat (m_read_fill c)) plain (cbuf c) = Inr b"
    "buffers_ok (set_cbuf b c\<lparr>m_crypt := cr1, m_read_fill := m_read_fill c + of_nat (length plain)\<rparr>)"
    "pend (set_cbuf b c\<lparr>m_crypt := cr1, m_read_fill := m_read_fill c + of_nat (length plain)\<rparr>) = pend c @ plain"
    "map_option length (m_bigbuf (set_cbuf b c)) = map_option length (m_bigbuf c)"
    using arrived_pend [OF ok(1,2) rm, where cr = cr1] .
  let ?c = "set_cbuf b c\<lparr>m_crypt := cr1, m_read_fill := m_read_fill c + of_nat (length plain)\<rparr>"
  have "the_wait s ?c"
    by (rule wait_arrived [OF ok(3) b(3)]) (use b(4) arrive_encrypted [OF ar] in simp_all)
  moreover have "pend c @ plain \<noteq> []" using assms(3) l by auto
  ultimately obtain c1 where
    c1: "the_loop alloc s ?c [] = Some (Inr (s', c1, ms, r))" "m_crypt c1 = cr'"
    "r = NO_SHUTDOWN \<Longrightarrow> \<exists>c2. compact c1 = Inr c2 \<and> the_ok s' c2 \<and> pend c2 = rest \<and> m_crypt c2 = cr'"
    using loop_parse [OF assms(1) p b(2) _ _ b(3), of "[]"] l by auto
  have "\<not> room c \<le> 0" using assms(3,4) by (cases d) auto
  then have read: "conn_read turn_on body handler alloc s c (Data d) =
      (if r \<noteq> NO_SHUTDOWN then Some (Inr (s', c1, ms, r)) else Some (rbind (compact c1) (\<lambda>c. Inr (s', c, ms, NO_SHUTDOWN))))"
    using c1(1) b(1) l by (simp add: conn_read_def ar)
  show ?thesis using read c1(2,3) by (cases "r = NO_SHUTDOWN") auto
qed

end

section \<open>It does not matter where the stream is cut\<close>

lemma rc4_append:
  "rc4_encrypt k a = (k1, a') \<Longrightarrow> rc4_encrypt k1 b = (k2, b') \<Longrightarrow> rc4_encrypt k (a @ b) = (k2, a' @ b')"
  by (simp add: rc4_encrypt_append)

lemma decrypt_append:
  "decrypt cr a = Inr (cr1, a') \<Longrightarrow> decrypt cr (a @ b) = Inr (cr2, c) \<Longrightarrow>
   \<exists>b'. decrypt cr1 b = Inr (cr2, b') \<and> c = a' @ b'"
  by (auto simp: decrypt_def rc4_encrypt_append Let_def split: option.splits prod.splits)

lemma decrypt_defined: "decrypt cr (a @ b) = Inr z \<Longrightarrow> \<exists>cr1 a'. decrypt cr a = Inr (cr1, a')"
  by (auto simp: decrypt_def split: option.splits prod.splits)

lemma decrypt_encrypted: "decrypt cr d = Inr (cr', plain) \<Longrightarrow> m_is_encrypted cr' = m_is_encrypted cr"
  by (auto simp: decrypt_def split: option.splits prod.splits)

text \<open>Turning on encryption with only the first part there, and then decrypting the second as it arrives.\<close>

lemma open_split:
  assumes "arrive cr1 x = Inr (cr, b2)" and "open_crypt turn_on s cr (b1 @ b2) = Inr (cr', buf)" and "b1 \<noteq> []"
  obtains cr1' b1' b2' where "open_crypt turn_on s cr1 b1 = Inr (cr1', b1')" "arrive cr1' x = Inr (cr', b2')"
    "buf = b1' @ b2'" "turn_on s \<longrightarrow> m_is_encrypted cr'"
proof (cases "turn_on s \<and> \<not> m_is_encrypted cr")
  case False
  then have "cr' = cr" "buf = b1 @ b2" using assms(2) by (auto simp: open_crypt_def split: if_splits)
  moreover have "open_crypt turn_on s cr1 b1 = Inr (cr1, b1)"
    using False arrive_encrypted [OF assms(1)] by (auto simp: open_crypt_def)
  ultimately show thesis using that [of cr1 b1 b2] assms(1) False by auto
next
  case True
  have "\<not> m_is_encrypted cr1" using True arrive_encrypted [OF assms(1)] by simp
  then have x: "x = b2" "cr = cr1" using assms(1) by (auto simp: arrive_def)
  have d: "decrypt (set_encrypted cr) (b1 @ b2) = Inr (cr', buf)"
    using assms(2,3) True by (simp add: open_crypt_def)
  from decrypt_defined [OF d] obtain cr1' b1' where d1: "decrypt (set_encrypted cr) b1 = Inr (cr1', b1')" by blast
  from decrypt_append [OF d1 d] obtain b2' where d2: "decrypt cr1' b2 = Inr (cr', b2')" "buf = b1' @ b2'" by blast
  have "m_is_encrypted cr1'" using decrypt_encrypted [OF d1] by (simp add: set_encrypted_def)
  moreover have "m_is_encrypted cr'" using decrypt_encrypted [OF d] by (simp add: set_encrypted_def)
  moreover have "open_crypt turn_on s cr1 b1 = Inr (cr1', b1')" using d1 x(2) True assms(3) by (simp add: open_crypt_def)
  ultimately show thesis using that [of cr1' b1' b2'] d2 x(1) by (simp add: arrive_def)
qed

lemma open_again: "open_crypt turn_on s cr b = Inr (cr', b') \<Longrightarrow> open_crypt turn_on s cr' b' = Inr (cr', b')"
  by (auto simp: open_crypt_def set_encrypted_def dest: decrypt_encrypted split: if_splits)

lemma parse_opened:
  assumes "parse turn_on body handler handled s cr b ms s2 cr2 rest r" and "open_crypt turn_on s cr b = Inr (cr', b')"
  shows "parse turn_on body handler handled s cr' b' ms s2 cr2 rest r"
  using assms(1)
proof cases
  case (wait w)
  with assms(2) open_again [OF assms(2)] show ?thesis by (auto intro: parse.wait)
next
  case (overlong n)
  with assms(2) open_again [OF assms(2)] show ?thesis by (auto intro: parse.overlong)
next
  case (close cr'' buf'' k n key)
  with assms(2) open_again [OF assms(2)] show ?thesis by (auto intro: parse.close)
next
  case (last cr'' buf'' k n key)
  with assms(2) open_again [OF assms(2)] show ?thesis by (auto intro: parse.last)
next
  case (again cr'' buf'' k n s1 key cr1 ms)
  with assms(2) open_again [OF assms(2)] show ?thesis by (auto intro: parse.again)
qed

lemma key_arrive:
  assumes "arrive cr1 x = Inr (cr, y)" and "apply_key key cr = Inr cr'" and "key \<noteq> None \<longrightarrow> \<not> m_is_encrypted cr"
  shows "\<exists>crk. apply_key key cr1 = Inr crk \<and> arrive crk x = Inr (cr', y) \<and> m_is_encrypted cr' = m_is_encrypted cr"
  using assms arrive_encrypted [OF assms(1)]
  by (cases key) (auto simp: apply_key_def arrive_def set_rc4_key_def res_simps)

context client_class
begin

definition cut :: "'s \<Rightarrow> crypt \<Rightarrow> byte list \<Rightarrow> byte list \<Rightarrow> (msg_kind \<times> byte list) list \<Rightarrow> 's \<Rightarrow> crypt \<Rightarrow> byte list \<Rightarrow> bool" where
  "cut s cr1 b1 x ms s2 cr2 rest \<longleftrightarrow>
     (\<exists>ms1 sm crm pm cr3 p3 ms2. the_parse s cr1 b1 ms1 sm crm pm NO_SHUTDOWN \<and> arrive crm x = Inr (cr3, p3) \<and>
        the_parse sm cr3 (pm @ p3) ms2 s2 cr2 rest NO_SHUTDOWN \<and> ms = ms1 @ ms2 \<and> (m_is_encrypted crm \<longrightarrow> keyed sm))"

lemma cut_incomplete:
  assumes "the_parse s cr (b1 @ b2) ms s2 cr2 rest NO_SHUTDOWN"
    and o: "open_crypt turn_on s cr (b1 @ b2) = Inr (cr', b1' @ b2')" "open_crypt turn_on s cr1 b1 = Inr (cr1', b1')"
    and "arrive cr1' x = Inr (cr', b2')" and "handled s (b1' @ b2')" and "\<not> definite (body s b1')"
    and "m_is_encrypted cr' \<longrightarrow> keyed s"
  shows "cut s cr1 b1 x ms s2 cr2 rest"
proof -
  obtain w where "body s b1' = Inr (Incomplete w)"
    using assms(6) by (auto simp: definite_def split: sum.splits framed.splits)
  then have "the_parse s cr1 b1 [] s cr1' b1' NO_SHUTDOWN"
    using o(2) handled_prefix [OF assms(5)] by (auto intro: parse.wait)
  moreover have "the_parse s cr' (b1' @ b2') ms s2 cr2 rest NO_SHUTDOWN" by (rule parse_opened [OF assms(1) o(1)])
  moreover have "m_is_encrypted cr1' \<longrightarrow> keyed s" using assms(7) arrive_encrypted [OF assms(4)] by simp
  ultimately show ?thesis unfolding cut_def using assms(4) by (metis append_Nil)
qed

text \<open>A message that is complete in the first part.\<close>

lemma cut_message:
  assumes "open_crypt turn_on s cr1 b1 = Inr (cr1', b1')" and "handled s b1'" and "body s b1' = Inr (Framed k n)"
    and n: "0 < n" "nat n \<le> length b1'" and h: "handler s k (take (nat n) b1') = (s1, key, NO_SHUTDOWN)"
    and key: "apply_key key cr1' = Inr crk1" and ar: "arrive crk1 x = Inr (crk, b2)" and "m_is_encrypted crk \<longrightarrow> keyed s1"
    and rest: "the_parse s1 crk (drop (nat n) b1' @ b2) ms s2 cr2 rest NO_SHUTDOWN"
    and later: "nat n < length b1' \<Longrightarrow> cut s1 crk1 (drop (nat n) b1') x ms s2 cr2 rest"
  shows "cut s cr1 b1 x ((k, take (nat n) b1') # ms) s2 cr2 rest"
proof (cases "nat n = length b1'")
  case True
  then have "handler s k b1' = (s1, key, NO_SHUTDOWN)" using h by simp
  with assms(1-3) n(1) True have "the_parse s cr1 b1 [(k, b1')] s1 crk1 [] NO_SHUTDOWN"
    using key by (rule parse.last)
  moreover have "the_parse s1 crk ([] @ b2) ms s2 cr2 rest NO_SHUTDOWN" using rest True by simp
  moreover have "m_is_encrypted crk1 \<longrightarrow> keyed s1" using assms(9) arrive_encrypted [OF ar] by simp
  ultimately show ?thesis unfolding cut_def using ar True by (intro exI conjI) (assumption | simp)+
next
  case False
  with n have lt: "nat n < length b1'" by simp
  from later [OF lt] obtain ms1 sm crm pm cr3 p3 ms2 where c:
    "the_parse s1 crk1 (drop (nat n) b1') ms1 sm crm pm NO_SHUTDOWN" "arrive crm x = Inr (cr3, p3)"
    "the_parse sm cr3 (pm @ p3) ms2 s2 cr2 rest NO_SHUTDOWN" "ms = ms1 @ ms2" "m_is_encrypted crm \<longrightarrow> keyed sm"
    unfolding cut_def by blast
  have "the_parse s cr1 b1 ((k, take (nat n) b1') # ms1) sm crm pm NO_SHUTDOWN"
    using assms(1-3) n(1) lt h key c(1) by (rule parse.again)
  moreover have "(k, take (nat n) b1') # ms = ((k, take (nat n) b1') # ms1) @ ms2" using c(4) by simp
  ultimately show ?thesis unfolding cut_def using c(2,3,5) by blast
qed

lemma parse_split:
  "the_parse s cr b ms s2 cr2 rest r \<Longrightarrow> r = NO_SHUTDOWN \<Longrightarrow> b = b1 @ b2 \<Longrightarrow> b1 \<noteq> [] \<Longrightarrow> b2 \<noteq> [] \<Longrightarrow>
   arrive cr1 x = Inr (cr, b2) \<Longrightarrow> m_is_encrypted cr \<longrightarrow> keyed s \<Longrightarrow> cut s cr1 b1 x ms s2 cr2 rest"
proof (induction arbitrary: b1 b2 cr1 rule: parse.induct)
  case (wait s cr b cr' buf w)
  have op: "open_crypt turn_on s cr (b1 @ b2) = Inr (cr', buf)" using wait.hyps(1) wait.prems(2) by simp
  obtain cr1' b1' b2' where o: "open_crypt turn_on s cr1 b1 = Inr (cr1', b1')" "arrive cr1' x = Inr (cr', b2')"
    "buf = b1' @ b2'" "turn_on s \<longrightarrow> m_is_encrypted cr'" using open_split [OF wait.prems(5) op wait.prems(3)] .
  have "\<not> definite (body s b1')"
    using stable [of s b1' b2'] wait.hyps(2,3) o(3) by (metis definite_simps(1))
  moreover have "the_parse s cr (b1 @ b2) [] s cr' buf NO_SHUTDOWN" using op wait.hyps(2,3) by (rule parse.wait)
  moreover have "m_is_encrypted cr' \<longrightarrow> keyed s"
    using op wait.prems(6) turn_keyed by (auto simp: open_crypt_def split: if_splits)
  ultimately show ?case using cut_incomplete op o wait.hyps(2) by blast
next
  case (last s cr b cr' buf k n s1 key crk)
  have op: "open_crypt turn_on s cr (b1 @ b2) = Inr (cr', buf)" using last.hyps(1) last.prems(2) by simp
  obtain cr1' b1' b2' where o: "open_crypt turn_on s cr1 b1 = Inr (cr1', b1')" "arrive cr1' x = Inr (cr', b2')"
    "buf = b1' @ b2'" "turn_on s \<longrightarrow> m_is_encrypted cr'" using open_split [OF last.prems(5) op last.prems(3)] .
  have "length b2' = length b2" using arrive_length [OF o(2)] arrive_length [OF last.prems(5)] by simp
  then have lt: "length b1' < length buf" using last.prems(4) o(3) by (cases b2) auto
  have "\<not> definite (body s b1')"
  proof
    assume "definite (body s b1')"
    then have "body s b1' = Inr (Framed k n)" using stable [of s b1' b2'] last.hyps(2,3) o(3) by simp
    then have "n \<le> int (length b1')" using framed_bound handled_prefix last.hyps(2) o(3) by blast
    with last.hyps(5) lt show False by linarith
  qed
  moreover have "the_parse s cr (b1 @ b2) [(k, buf)] s1 crk [] NO_SHUTDOWN" using op last.hyps(2-7) by (rule parse.last)
  moreover have "m_is_encrypted cr' \<longrightarrow> keyed s"
    using op last.prems(6) turn_keyed by (auto simp: open_crypt_def split: if_splits)
  ultimately show ?case using cut_incomplete op o last.hyps(2) by blast
next
  case (again s cr b cr' buf k n s1 key crk ms s2 cr2 rest r)
  have op: "open_crypt turn_on s cr (b1 @ b2) = Inr (cr', buf)" using again.hyps(1) again.prems(2) by simp
  obtain cr1' b1' b2' where o: "open_crypt turn_on s cr1 b1 = Inr (cr1', b1')" "arrive cr1' x = Inr (cr', b2')"
    "buf = b1' @ b2'" "turn_on s \<longrightarrow> m_is_encrypted cr'" using open_split [OF again.prems(5) op again.prems(3)] .
  have b2: "b2' \<noteq> []" using arrive_length [OF o(2)] arrive_length [OF again.prems(5)] again.prems(4) by auto
  have keyed: "m_is_encrypted cr' \<longrightarrow> keyed s"
    using op again.prems(6) turn_keyed by (auto simp: open_crypt_def split: if_splits)
  have all: "the_parse s cr (b1 @ b2) ((k, take (nat n) buf) # ms) s2 cr2 rest NO_SHUTDOWN"
    using op again.hyps(2-8) unfolding again.prems(1) by (rule parse.again)
  show ?case
  proof (cases "definite (body s b1')")
    case False
    then show ?thesis using cut_incomplete [OF all] op o again.hyps(2) keyed by blast
  next
    case True
    then have f: "body s b1' = Inr (Framed k n)" using stable [of s b1' b2'] again.hyps(2,3) o(3) by auto
    have h: "handled s b1'" using again.hyps(2) o(3) handled_prefix by blast
    have n: "nat n \<le> length b1'" using framed_bound [OF h f] by simp
    have m: "take (nat n) buf = take (nat n) b1'" "drop (nat n) buf = drop (nat n) b1' @ b2'" using n o(3) by simp_all
    have "key \<noteq> None \<longrightarrow> \<not> m_is_encrypted cr'" using keyed key_law again.hyps(6) by blast
    from key_arrive [OF o(2) again.hyps(7) this] obtain crk1 where crk1:
      "apply_key key cr1' = Inr crk1" "arrive crk1 x = Inr (crk, b2')" "m_is_encrypted crk = m_is_encrypted cr'" by blast
    have k1: "m_is_encrypted crk \<longrightarrow> keyed s1" using crk1(3) keyed keyed_mono [OF again.hyps(6)] by simp
    have "the_parse s1 crk (drop (nat n) b1' @ b2') ms s2 cr2 rest NO_SHUTDOWN"
      using again.hyps(8) again.prems(1) m(2) by simp
    moreover have "cut s1 crk1 (drop (nat n) b1') x ms s2 cr2 rest" if "nat n < length b1'"
      using again.IH [OF again.prems(1) m(2) _ b2 crk1(2) k1] that by simp
    ultimately have "cut s cr1 b1 x ((k, take (nat n) b1') # ms) s2 cr2 rest"
      using cut_message [OF o(1) h f again.hyps(4) n _ crk1(1,2) k1] again.hyps(6) m(1) by simp
    with m(1) show ?thesis by simp
  qed
qed simp_all

end

section \<open>A whole stream\<close>

text \<open>
  The client has sent \<open>stream\<close>; the n-th time the socket is readable, \<open>read\<close> returns at most the n-th of
  the numbers and never more than there is room for.  The last component is what was not read.
\<close>

fun socket_reads ::
  "('s \<Rightarrow> bool) \<Rightarrow> ('s \<Rightarrow> byte list \<Rightarrow> framed res) \<Rightarrow>
   ('s \<Rightarrow> msg_kind \<Rightarrow> byte list \<Rightarrow> 's \<times> byte list option \<times> reason_t) \<Rightarrow> (nat \<Rightarrow> byte list) \<Rightarrow>
   's \<Rightarrow> connection \<Rightarrow> byte list \<Rightarrow> nat list \<Rightarrow>
   ('s \<times> connection \<times> (msg_kind \<times> byte list) list \<times> reason_t \<times> byte list) res option" where
  "socket_reads turn_on body handler alloc s c stream [] = Some (Inr (s, c, [], NO_SHUTDOWN, stream))"
| "socket_reads turn_on body handler alloc s c stream (n # ns) =
     (let d = take (min n (nat (room c))) stream
      in case conn_read turn_on body handler alloc s c (if d = [] then Try_Again else Data d) of
           None \<Rightarrow> None
         | Some (Inl e) \<Rightarrow> Some (Inl e)
         | Some (Inr (s, c, ms, r)) \<Rightarrow>
             if r \<noteq> NO_SHUTDOWN then Some (Inr (s, c, ms, r, drop (length d) stream))
             else (case socket_reads turn_on body handler alloc s c (drop (length d) stream) ns of
                 None \<Rightarrow> None
               | Some (Inl e) \<Rightarrow> Some (Inl e)
               | Some (Inr (s, c, ms', r, left)) \<Rightarrow> Some (Inr (s, c, ms @ ms', r, left))))"

lemma arrive_split:
  assumes "arrive cr (d @ x) = Inr (cr1, plain)"
  obtains cr' p1 p2 where "arrive cr d = Inr (cr', p1)" "arrive cr' x = Inr (cr1, p2)" "plain = p1 @ p2"
proof (cases "m_is_encrypted cr")
  case False
  with assms that [of cr d x] show thesis by (auto simp: arrive_def)
next
  case True
  with assms have d: "decrypt cr (d @ x) = Inr (cr1, plain)" by (simp add: arrive_def)
  from decrypt_defined [OF d] obtain cr' p1 where d1: "decrypt cr d = Inr (cr', p1)" by blast
  from decrypt_append [OF d1 d] obtain p2 where "decrypt cr' x = Inr (cr1, p2)" "plain = p1 @ p2" by blast
  with that [of cr' p1 p2] True d1 decrypt_encrypted [OF d1] show thesis by (simp add: arrive_def)
qed

context client_class
begin

lemma open_keyed:
  "open_crypt turn_on s cr b = Inr (cr', b') \<Longrightarrow> m_is_encrypted cr \<longrightarrow> keyed s \<Longrightarrow> m_is_encrypted cr' \<longrightarrow> keyed s"
  using turn_keyed by (auto simp: open_crypt_def split: if_splits)

lemma apply_key_encrypted: "apply_key key cr = Inr cr' \<Longrightarrow> m_is_encrypted cr' = m_is_encrypted cr"
  by (auto simp: apply_key_def set_rc4_key_def res_simps split: option.splits)

lemma parse_keyed:
  "the_parse s cr b ms s2 cr2 rest r \<Longrightarrow> m_is_encrypted cr \<longrightarrow> keyed s \<Longrightarrow> m_is_encrypted cr2 \<longrightarrow> keyed s2"
proof (induction rule: parse.induct)
  case (close s cr buf cr' buf' k n s1 key r cr1)
  then show ?case using open_keyed apply_key_encrypted keyed_mono by blast
next
  case (last s cr buf cr' buf' k n s1 key cr1)
  then show ?case using open_keyed apply_key_encrypted keyed_mono by blast
next
  case (again s cr buf cr' buf' k n s1 key cr1 ms s2 cr2 rest r)
  then show ?case using open_keyed apply_key_encrypted keyed_mono by blast
qed (use open_keyed in blast)+

text \<open>What is promised for the bytes that are still to come.\<close>

definition expects ::
  "'s \<Rightarrow> crypt \<Rightarrow> byte list \<Rightarrow> byte list \<Rightarrow> (msg_kind \<times> byte list) list \<Rightarrow> 's \<Rightarrow> crypt \<Rightarrow> byte list \<Rightarrow> bool" where
  "expects s cr begun_msg stream ms s2 cr2 rest \<longleftrightarrow>
     (if stream = [] then ms = [] \<and> s2 = s \<and> cr2 = cr \<and> rest = begun_msg
      else \<exists>cr1 plain. arrive cr stream = Inr (cr1, plain) \<and> the_parse s cr1 (begun_msg @ plain) ms s2 cr2 rest NO_SHUTDOWN)"

lemma expects_step:
  assumes "alloc_ok alloc" and "the_ok s c" and "m_is_encrypted (m_crypt c) \<longrightarrow> keyed s"
    and "expects s (m_crypt c) (pend c) (d @ x) ms s2 cr2 rest" and "d \<noteq> []" and "int (length d) \<le> room c"
  obtains s' c' ms1 ms2 where "conn_read turn_on body handler alloc s c (Data d) = Some (Inr (s', c', ms1, NO_SHUTDOWN))"
    "the_ok s' c'" "m_is_encrypted (m_crypt c') \<longrightarrow> keyed s'" "ms = ms1 @ ms2"
    "expects s' (m_crypt c') (pend c') x ms2 s2 cr2 rest"
proof -
  obtain cr1 plain where ar: "arrive (m_crypt c) (d @ x) = Inr (cr1, plain)"
    and p: "the_parse s cr1 (pend c @ plain) ms s2 cr2 rest NO_SHUTDOWN"
    using assms(4,5) by (auto simp: expects_def)
  obtain cr' p1 p2 where a: "arrive (m_crypt c) d = Inr (cr', p1)" "arrive cr' x = Inr (cr1, p2)" "plain = p1 @ p2"
    using arrive_split [OF ar] .
  have k1: "m_is_encrypted cr' \<longrightarrow> keyed s" "m_is_encrypted cr1 \<longrightarrow> keyed s"
    using assms(3) arrive_encrypted [OF a(1)] arrive_encrypted [OF a(2)] by simp_all
  show thesis
  proof (cases "x = []")
    case True
    then have "cr1 = cr'" "plain = p1" using a(2,3)
      by (auto simp: arrive_def decrypt_def split: if_splits option.splits)
    with conn_read_parse [OF assms(1,2,5,6) a(1)] p obtain c' where
      "conn_read turn_on body handler alloc s c (Data d) = Some (Inr (s2, c', ms, NO_SHUTDOWN))"
      "m_crypt c' = cr2" "the_ok s2 c'" "pend c' = rest" by blast
    then show thesis using that [of s2 c' ms "[]"] parse_keyed [OF p k1(2)] True by (simp add: expects_def)
  next
    case False
    have "pend c @ p1 \<noteq> []" using arrive_length [OF a(1)] assms(5) by auto
    moreover have "p2 \<noteq> []" using arrive_length [OF a(2)] False by auto
    moreover have "pend c @ plain = (pend c @ p1) @ p2" using a(3) by simp
    ultimately have "cut s cr' (pend c @ p1) x ms s2 cr2 rest"
      using parse_split [OF p refl _ _ _ a(2) k1(2)] by blast
    then obtain ms1 sm crm pm cr3 p3 ms2 where c:
      "the_parse s cr' (pend c @ p1) ms1 sm crm pm NO_SHUTDOWN" "arrive crm x = Inr (cr3, p3)"
      "the_parse sm cr3 (pm @ p3) ms2 s2 cr2 rest NO_SHUTDOWN" "ms = ms1 @ ms2" "m_is_encrypted crm \<longrightarrow> keyed sm"
      unfolding cut_def by blast
    from conn_read_parse [OF assms(1,2,5,6) a(1) c(1)] obtain c' where
      "conn_read turn_on body handler alloc s c (Data d) = Some (Inr (sm, c', ms1, NO_SHUTDOWN))"
      "m_crypt c' = crm" "the_ok sm c'" "pend c' = pm" by blast
    with that [of sm c' ms1 ms2] c(2-5) False show thesis by (auto simp: expects_def)
  qed
qed

lemma socket_reads_ok:
  assumes "alloc_ok alloc"
  shows "the_ok s c \<Longrightarrow> m_is_encrypted (m_crypt c) \<longrightarrow> keyed s \<Longrightarrow>
    expects s (m_crypt c) (pend c) stream ms s2 cr2 rest \<Longrightarrow>
    \<exists>s' c' ms' r left. socket_reads turn_on body handler alloc s c stream counts = Some (Inr (s', c', ms', r, left)) \<and>
      Sublist.prefix ms' ms \<and> suffix left stream \<and> (r = NO_SHUTDOWN \<or> r = PROTOCOL_ERROR \<and> room c' \<le> 0) \<and>
      (r = NO_SHUTDOWN \<and> left = [] \<longrightarrow> ms' = ms \<and> s' = s2 \<and> m_crypt c' = cr2 \<and> pend c' = rest) \<and>
      (r = NO_SHUTDOWN \<and> 0 \<notin> set counts \<and> length stream \<le> length counts \<longrightarrow> left = [])"
proof (induction counts arbitrary: s c stream ms)
  case Nil
  then show ?case by (auto simp: expects_def)
next
  case (Cons n counts)
  let ?d = "take (min n (nat (room c))) stream" and ?x = "drop (min n (nat (room c))) stream"
  show ?case
  proof (cases "room c \<le> 0")
    case True
    then show ?thesis by (auto simp: conn_read_def)
  next
    case room: False
    show ?thesis
    proof (cases "?d = []")
      case True
      then have "conn_read turn_on body handler alloc s c Try_Again = Some (Inr (s, c, [], NO_SHUTDOWN))"
        using room by (simp add: conn_read_def)
      moreover have "n = 0 \<or> stream = []" using True room by auto
      ultimately show ?thesis using Cons.IH [OF Cons.prems] True by (auto simp del: take_eq_Nil)
    next
      case False
      have "int (length ?d) \<le> room c" using room by simp
      moreover have "expects s (m_crypt c) (pend c) (?d @ ?x) ms s2 cr2 rest" using Cons.prems(3) by simp
      ultimately obtain s' c' ms1 ms2 where st:
        "conn_read turn_on body handler alloc s c (Data ?d) = Some (Inr (s', c', ms1, NO_SHUTDOWN))"
        "the_ok s' c'" "m_is_encrypted (m_crypt c') \<longrightarrow> keyed s'" "ms = ms1 @ ms2"
        "expects s' (m_crypt c') (pend c') ?x ms2 s2 cr2 rest"
        using expects_step [OF assms Cons.prems(1,2) _ False] by metis
      from Cons.IH [OF st(2,3,5)] obtain t c2 ms' r left where ih:
        "socket_reads turn_on body handler alloc s' c' ?x counts = Some (Inr (t, c2, ms', r, left))"
        "Sublist.prefix ms' ms2" "suffix left ?x" "r = NO_SHUTDOWN \<or> r = PROTOCOL_ERROR \<and> room c2 \<le> 0"
        "r = NO_SHUTDOWN \<and> left = [] \<longrightarrow> ms' = ms2 \<and> t = s2 \<and> m_crypt c2 = cr2 \<and> pend c2 = rest"
        "r = NO_SHUTDOWN \<and> 0 \<notin> set counts \<and> length ?x \<le> length counts \<longrightarrow> left = []" by blast
      have "drop (length ?d) stream = ?x" by (simp add: min_def)
      then have "socket_reads turn_on body handler alloc s c stream (n # counts) = Some (Inr (t, c2, ms1 @ ms', r, left))"
        using st(1) ih(1) False by (simp del: take_eq_Nil)
      moreover have "suffix left stream" using ih(3) suffix_drop suffix_order.trans by blast
      moreover have "length ?x \<le> length counts" if "length stream \<le> length (n # counts)"
        using that False by (cases stream) auto
      ultimately show ?thesis using ih(2,4,5,6) st(4) by auto
    qed
  qed
qed

end

section \<open>Messages that tell their length\<close>

text \<open>
  Where the first four bytes tell how long a message is, the buffer never fills up before the message is
  complete: everything that was sent is read.
\<close>

locale sized_class = client_class +
  assumes sized: "body s buf = Inr (Incomplete w) \<Longrightarrow> int (length buf) < w \<or> length buf < 4"
    and no_bytes: "handled s []" "\<exists>w. body s [] = Inr (Incomplete w)"
begin

lemma room_left:
  assumes "the_ok s c"
  shows "0 < room c"
proof -
  have ok: "buffers_ok c" "m_read_off c = 0" "the_wait s c" using assms by (simp_all add: conn_ok_def)
  have fill: "unat (m_read_fill c) = length (pend c)" using length_pend [OF ok(1)] ok(2) by simp
  show ?thesis
  proof (cases "m_bigbuf c")
    case None
    then have l: "length (cbuf c) = BUFSIZE" using ok(1) by (simp add: buffers_ok_def cbuf_def)
    show ?thesis
    proof (cases "pend c = []")
      case True
      then show ?thesis using l fill by (simp add: room_def)
    next
      case False
      then obtain w where "body s (pend c) = Inr (Incomplete w)" "w \<le> int (length (cbuf c))"
        using assms by (auto simp: conn_ok_def)
      with sized l fill show ?thesis by (fastforce simp: room_def)
    qed
  next
    case (Some b)
    then have l: "length (cbuf c) = length b" by (simp add: cbuf_def)
    have h: "handled s (pend c)" using assms no_bytes(1) by (cases "pend c = []") (auto simp: conn_ok_def)
    obtain w where "body s (pend c) = Inr (Incomplete w)"
      using assms no_bytes(2) by (cases "pend c = []") (auto simp: conn_ok_def)
    with big_cases(3) [OF ok(3) Some h] have "length (pend c) < length b" by force
    then show ?thesis using l fill by (simp add: room_def)
  qed
qed

lemma step_room:
  assumes "alloc_ok alloc" and "the_ok s c" and "m_is_encrypted (m_crypt c) \<longrightarrow> keyed s"
    and "expects s (m_crypt c) (pend c) stream ms s2 cr2 rest"
  shows "\<exists>s' c' ms' left. socket_reads turn_on body handler alloc s c stream counts = Some (Inr (s', c', ms', NO_SHUTDOWN, left)) \<and>
    the_ok s' c'"
  using assms(2-)
proof (induction counts arbitrary: s c stream ms)
  case (Cons n counts)
  let ?d = "take (min n (nat (room c))) stream" and ?x = "drop (min n (nat (room c))) stream"
  have room: "0 < room c" by (rule room_left [OF Cons.prems(1)])
  show ?case
  proof (cases "?d = []")
    case True
    then have "conn_read turn_on body handler alloc s c Try_Again = Some (Inr (s, c, [], NO_SHUTDOWN))"
      using room by (simp add: conn_read_def)
    with Cons.IH [OF Cons.prems] True show ?thesis by (auto simp del: take_eq_Nil)
  next
    case False
    have "int (length ?d) \<le> room c" using room by simp
    moreover have "expects s (m_crypt c) (pend c) (?d @ ?x) ms s2 cr2 rest" using Cons.prems(3) by simp
    ultimately obtain s' c' ms1 ms2 where st:
      "conn_read turn_on body handler alloc s c (Data ?d) = Some (Inr (s', c', ms1, NO_SHUTDOWN))"
      "the_ok s' c'" "m_is_encrypted (m_crypt c') \<longrightarrow> keyed s'" "expects s' (m_crypt c') (pend c') ?x ms2 s2 cr2 rest"
      using expects_step [OF assms(1) Cons.prems(1,2) _ False] by metis
    have "drop (length ?d) stream = ?x" by (simp add: min_def)
    with Cons.IH [OF st(2,3,4)] st(1) False show ?thesis by (auto simp del: take_eq_Nil)
  qed
qed simp

lemma socket_reads_all:
  assumes "alloc_ok alloc" and "the_ok s c" and "m_is_encrypted (m_crypt c) \<longrightarrow> keyed s"
    and "expects s (m_crypt c) (pend c) stream ms s2 cr2 rest"
  shows "\<exists>s' c' ms' left. socket_reads turn_on body handler alloc s c stream counts = Some (Inr (s', c', ms', NO_SHUTDOWN, left)) \<and>
      Sublist.prefix ms' ms \<and> suffix left stream \<and>
      (left = [] \<longrightarrow> ms' = ms \<and> s' = s2 \<and> m_crypt c' = cr2 \<and> pend c' = rest) \<and>
      (0 \<notin> set counts \<and> length stream \<le> length counts \<longrightarrow> left = [])"
proof -
  from step_room [OF assms, of counts] obtain s' c' ms' left where
    r: "socket_reads turn_on body handler alloc s c stream counts = Some (Inr (s', c', ms', NO_SHUTDOWN, left))" by blast
  from socket_reads_ok [OF assms(1-4), of counts] show ?thesis unfolding r by auto
qed

end

section \<open>A message of length 0\<close>

text \<open>
  The clear bytes make a message of length 0, and handling it changes no_bytes: \<open>m_read_off\<close> stays
  where it is.
\<close>

definition stuck ::
  "('s \<Rightarrow> bool) \<Rightarrow> ('s \<Rightarrow> byte list \<Rightarrow> framed res) \<Rightarrow>
   ('s \<Rightarrow> msg_kind \<Rightarrow> byte list \<Rightarrow> 's \<times> byte list option \<times> reason_t) \<Rightarrow> 's \<Rightarrow> connection \<Rightarrow> bool" where
  "stuck turn_on body handler s c \<longleftrightarrow> buffers_ok c \<and> m_bigbuf c = None \<and> m_read_off c < m_read_fill c \<and>
     open_crypt turn_on s (m_crypt c) (pend c) = Inr (m_crypt c, pend c) \<and>
     (\<exists>k. body s (pend c) = Inr (Framed k 0) \<and> handler s k [] = (s, None, NO_SHUTDOWN))"

lemma put_pend:
  assumes "buffers_ok c"
  shows "put (unat (m_read_off c)) (pend c) (cbuf c) = Inr (cbuf c)"
proof -
  have l: "unat (m_read_off c) \<le> unat (m_read_fill c)" "unat (m_read_fill c) \<le> length (cbuf c)"
    using assms by (simp_all add: buffers_ok_def)
  let ?n = "unat (m_read_fill c) - unat (m_read_off c)"
  have "take (unat (m_read_off c)) (cbuf c) @ pend c @ drop (unat (m_read_off c) + ?n) (cbuf c) = cbuf c"
    using append_take_drop_id [of ?n "drop (unat (m_read_off c)) (cbuf c)"] by (simp add: pend_def add.commute)
  then show ?thesis using l by (simp add: put_def length_pend [OF assms])
qed

lemma stuck_hangs:
  assumes "stuck turn_on body handler s c"
  shows "read_loop turn_on body handler alloc s c msgs = None"
proof (rule ccontr)
  assume "read_loop turn_on body handler alloc s c msgs \<noteq> None"
  then obtain y where "read_loop turn_on body handler alloc s c msgs = Some y" by blast
  then have "\<not> stuck turn_on body handler s c"
  proof (rule read_loop.raw_induct [where P = "\<lambda>t b h a s c m y. \<not> stuck t b h s c", rotated], goal_cases)
    case (1 f turn_on body handler alloc s c msgs y)
    note ih = 1(1) and turn = 1(2)
    show "\<not> stuck turn_on body handler s c"
    proof
      assume st: "stuck turn_on body handler s c"
      then have ok: "buffers_ok c" "m_bigbuf c = None" "m_read_off c < m_read_fill c"
        "open_crypt turn_on s (m_crypt c) (pend c) = Inr (m_crypt c, pend c)" by (auto simp: stuck_def)
      obtain k where k: "body s (pend c) = Inr (Framed k 0)" "handler s k [] = (s, None, NO_SHUTDOWN)"
        using st by (auto simp: stuck_def)
      have same: "set_cbuf (cbuf c) c\<lparr>m_crypt := m_crypt c\<rparr> = c" "c\<lparr>m_crypt := m_crypt c\<rparr> = c" "c\<lparr>m_read_off := m_read_off c\<rparr> = c"
        using ok(2) by (simp_all add: set_cbuf_def cbuf_def)
      have "f turn_on body handler alloc s c (msgs @ [(k, [])]) = Some y"
        using turn unfolding slice_pend [OF ok(1)] sum.case ok(4) prod.case put_pend [OF ok(1)] Let_def same k(1)
        by (simp add: k(2) apply_key_def same ok)
      from ih [OF this] st show False by blast
    qed
  qed
  with assms show False by simp
qed

lemma conn_read_hangs:
  assumes "buffers_ok c" and "m_read_off c = 0" and "m_bigbuf c = None" and "d \<noteq> []" and "int (length d) \<le> room c"
    and "arrive (m_crypt c) d = Inr (cr, plain)" and "open_crypt turn_on s cr (pend c @ plain) = Inr (cr, pend c @ plain)"
    and "body s (pend c @ plain) = Inr (Framed k 0)" and "handler s k [] = (s, None, NO_SHUTDOWN)"
  shows "conn_read turn_on body handler alloc s c (Data d) = None"
proof -
  have l: "length plain = length d" using assms(6) by (rule arrive_length)
  then have "int (length plain) \<le> room c" using assms(5) by simp
  from arrived_pend [OF assms(1,2) this, where cr = cr] obtain b where
    b: "put (unat (m_read_fill c)) plain (cbuf c) = Inr b"
      "buffers_ok (set_cbuf b c\<lparr>m_crypt := cr, m_read_fill := m_read_fill c + of_nat (length plain)\<rparr>)"
      "pend (set_cbuf b c\<lparr>m_crypt := cr, m_read_fill := m_read_fill c + of_nat (length plain)\<rparr>) = pend c @ plain" .
  let ?c = "set_cbuf b c\<lparr>m_crypt := cr, m_read_fill := m_read_fill c + of_nat (length d)\<rparr>"
  have "length (pend ?c) > 0" using b(3) assms(4) l by auto
  then have "m_read_off ?c < m_read_fill ?c"
    using length_pend [of ?c] b(2) l by (simp only: word_less_nat_alt zero_less_diff)
  then have "stuck turn_on body handler s ?c"
    using assms(3,7-9) b(2,3) l unfolding stuck_def by simp
  from stuck_hangs [OF this] have "read_loop turn_on body handler alloc s ?c [] = None" .
  moreover have "\<not> room c \<le> 0" using assms(4,5) by (cases d) auto
  ultimately show ?thesis using b(1) by (simp add: conn_read_def assms(6))
qed

section \<open>What an encrypted client receives\<close>

text \<open>
  \<open>write_run k c q sent ms\<close>: encryption began with key \<open>k\<close>, \<open>ms\<close> are the messages that were put at the
  end of the queue since, \<open>q\<close> is the queue, and \<open>sent\<close> are the bytes that \<open>write\<close> has taken.
\<close>

inductive write_run ::
  "rc4_state \<Rightarrow> connection \<Rightarrow> net_message entry list \<Rightarrow> byte list \<Rightarrow> net_message list \<Rightarrow> bool" for k where
  start: "m_is_encrypted (m_crypt c) \<Longrightarrow> m_s2c_rc4 (m_crypt c) = Some k \<Longrightarrow> m_write_fill c = 0 \<Longrightarrow>
    length (m_writebuf c) = BUFSIZE \<Longrightarrow> write_run k c [] [] []"
| enq: "write_run k c q sent ms \<Longrightarrow> msg_ok m \<Longrightarrow> p \<noteq> FRONT \<Longrightarrow> write_run k c (enqueue q m p) sent (ms @ [m])"
| sent: "write_run k c q sent ms \<Longrightarrow> conn_write msg_fill_buffer msg_fill_iovecs msg_written iov_max c q w = Inr (c', q', out, released, r) \<Longrightarrow>
    write_run k c' q' (sent @ out) ms"

definition write_ok :: "rc4_state \<Rightarrow> connection \<Rightarrow> net_message entry list \<Rightarrow> byte list \<Rightarrow> net_message list \<Rightarrow> bool" where
  "write_ok k c q sent ms \<longleftrightarrow> m_is_encrypted (m_crypt c) \<and> length (m_writebuf c) = BUFSIZE \<and>
     unat (m_write_fill c) \<le> BUFSIZE \<and> queue_ok msg_content msg_ok q \<and>
     (\<exists>plain k'. rc4_encrypt k plain = (k', sent @ take (unat (m_write_fill c)) (m_writebuf c)) \<and>
        m_s2c_rc4 (m_crypt c) = Some k' \<and> plain @ pending msg_content q = concat (map msg_content ms))"

text \<open>Filling the buffer.\<close>

definition filled :: "connection \<Rightarrow> byte list \<Rightarrow> connection res" where
  "filled c out =
     (if out \<noteq> []
      then rbind (encrypt (m_crypt c) out) (\<lambda>(cr, out).
           rbind (put (unat (m_write_fill c)) out (m_writebuf c)) (\<lambda>b.
           Inr (c\<lparr>m_crypt := cr, m_writebuf := b, m_write_fill := m_write_fill c + of_nat (length out)\<rparr>)))
      else Inr c)"

lemma filled_ok:
  assumes "write_ok k c q sent ms" and "q_fill_buffer msg_fill_buffer (BUFSIZE - unat (m_write_fill c)) q [] = Inr (out, q', rel)"
  shows "\<exists>c'. filled c out = Inr c' \<and> write_ok k c' q' sent ms"
proof -
  let ?f = "unat (m_write_fill c)"
  have w: "m_is_encrypted (m_crypt c)" "length (m_writebuf c) = BUFSIZE" "?f \<le> BUFSIZE" "queue_ok msg_content msg_ok q"
    using assms(1) by (auto simp: write_ok_def)
  obtain plain k1 where p: "rc4_encrypt k plain = (k1, sent @ take ?f (m_writebuf c))" "m_s2c_rc4 (m_crypt c) = Some k1"
    "plain @ pending msg_content q = concat (map msg_content ms)" using assms(1) by (auto simp: write_ok_def)
  from nm.fill_buffer_spec [OF w(4), of "[]" "BUFSIZE - ?f"] assms(2) have
    q: "out = take (BUFSIZE - ?f) (pending msg_content q)" "queue_ok msg_content msg_ok q'"
      "pending msg_content q' = drop (BUFSIZE - ?f) (pending msg_content q)" by auto
  then have split: "pending msg_content q = out @ pending msg_content q'" by simp
  show ?thesis
  proof (cases "out = []")
    case True
    then have "pending msg_content q = pending msg_content q'" using split by simp
    with w p q(2) True show ?thesis unfolding filled_def write_ok_def by auto
  next
    case False
    obtain k2 out2 where e: "rc4_encrypt k1 out = (k2, out2)" by fastforce
    then have l: "length out2 = length out" by (metis rc4_length snd_conv)
    have le: "?f + length out \<le> BUFSIZE" using q(1) w(3) by simp
    define b where "b = take ?f (m_writebuf c) @ out2 @ drop (?f + length out) (m_writebuf c)"
    have put: "put ?f out2 (m_writebuf c) = Inr b" "length b = BUFSIZE" using le l w(2) by (simp_all add: put_def b_def)
    have f: "unat (m_write_fill c + of_nat (length out)) = ?f + length out"
      using le unat_add_u32 [of "m_write_fill c" "of_nat (length out)"] by (simp add: unat_of_nat_u32)
    let ?c = "c\<lparr>m_crypt := (m_crypt c)\<lparr>m_s2c_rc4 := Some k2\<rparr>, m_writebuf := b,
      m_write_fill := m_write_fill c + of_nat (length out)\<rparr>"
    have en: "encrypt (m_crypt c) out = Inr ((m_crypt c)\<lparr>m_s2c_rc4 := Some k2\<rparr>, out2)"
      unfolding encrypt_def p(2) option.case e prod.case ..
    have c: "filled c out = Inr ?c"
      unfolding filled_def en rbind_Inr prod.case put(1) l using False by (simp only: if_True simp_thms)
    have t: "take (?f + length out) b = take ?f (m_writebuf c) @ out2" using l w(2,3) by (simp add: b_def)
    have "rc4_encrypt k (plain @ out) = (k2, (sent @ take ?f (m_writebuf c)) @ out2)" by (rule rc4_append [OF p(1) e])
    moreover have "(plain @ out) @ pending msg_content q' = concat (map msg_content ms)" using p(3) split by simp
    ultimately have "write_ok k ?c q' sent ms"
      using w(1) put(2) le q(2) f t unfolding write_ok_def by (intro conjI exI [of _ "plain @ out"] exI [of _ k2]) simp_all
    with c show ?thesis by blast
  qed
qed

lemma conn_write_ok:
  assumes "write_ok k c q sent ms"
  shows "\<exists>c' q' out rel r. conn_write msg_fill_buffer msg_fill_iovecs msg_written iov_max c q w = Inr (c', q', out, rel, r) \<and> write_ok k c' q' (sent @ out) ms"
proof -
  have enc: "m_is_encrypted (m_crypt c)" "unat (m_write_fill c) \<le> BUFSIZE" "queue_ok msg_content msg_ok q"
    using assms by (auto simp: write_ok_def)
  from nm.fill_buffer_spec [OF enc(3), of "[]" "BUFSIZE - unat (m_write_fill c)"] obtain out q' rel where
    q: "q_fill_buffer msg_fill_buffer (BUFSIZE - unat (m_write_fill c)) q [] = Inr (out, q', rel)" by auto
  obtain c1 where c1: "filled c out = Inr c1" "write_ok k c1 q' sent ms" using filled_ok [OF assms q] by blast
  let ?f = "unat (m_write_fill c1)"
  have w: "length (m_writebuf c1) = BUFSIZE" "?f \<le> BUFSIZE" using c1(2) by (auto simp: write_ok_def)
  note go = conn_write_def [of msg_fill_buffer msg_fill_iovecs msg_written iov_max c q w, unfolded q rbind_Inr prod.case filled_def [symmetric] c1(1), simplified enc if_True]
  show ?thesis
  proof (cases "m_write_fill c1 > 0")
    case False
    with c1(2) show ?thesis unfolding go by simp
  next
    case True
    have off: "slice 0 ?f (m_writebuf c1) = Inr (take ?f (m_writebuf c1))" using w by (simp add: slice_def)
    show ?thesis
    proof (cases "w (take ?f (m_writebuf c1))")
      case (Wrote n)
      define b where "b = drop n (take ?f (m_writebuf c1)) @ drop (?f - n) (m_writebuf c1)"
      have keep: "write_ok k (c1\<lparr>m_write_fill := 0\<rparr>) q' (sent @ take n (take ?f (m_writebuf c1))) ms" if "?f \<le> n"
        using c1(2) that unfolding write_ok_def by simp
      show ?thesis
      proof (cases "n < ?f")
        case False
        then show ?thesis using keep True c1(2) unfolding go off by (auto simp: Wrote off)
      next
        case lt: True
        then have f: "unat (m_write_fill c1 - of_nat n) = ?f - n"
          using w by (simp add: unat_sub_if' unat_of_nat_u32)
        have s: "slice n (?f - n) (m_writebuf c1) = Inr (drop n (take ?f (m_writebuf c1)))"
          using lt w by (simp add: slice_def drop_take)
        have p: "put 0 (drop n (take ?f (m_writebuf c1))) (m_writebuf c1) = Inr b" "length b = BUFSIZE"
          using lt w by (simp_all add: put_def b_def)
        have tb: "take (?f - n) b = drop n (take ?f (m_writebuf c1))" using lt w by (simp add: b_def)
        have t: "take n (take ?f (m_writebuf c1)) @ take (?f - n) b = take ?f (m_writebuf c1)"
          unfolding tb by (rule append_take_drop_id)
        have "write_ok k (c1\<lparr>m_writebuf := b, m_write_fill := m_write_fill c1 - of_nat n\<rparr>) q'
            (sent @ take n (take ?f (m_writebuf c1))) ms"
          using c1(2) p(2) f t w(2) unfolding write_ok_def by simp
        moreover have "conn_write msg_fill_buffer msg_fill_iovecs msg_written iov_max c q w = Inr (c1\<lparr>m_writebuf := b, m_write_fill := m_write_fill c1 - of_nat n\<rparr>,
            q', take n (take ?f (m_writebuf c1)), rel, NO_SHUTDOWN)" if "n \<noteq> 0"
          unfolding go off rbind_Inr Wrote write_result.case Let_def f s p(1) using True lt that by (simp only: if_True if_False simp_thms)
        moreover have "conn_write msg_fill_buffer msg_fill_iovecs msg_written iov_max c q w = Inr (c1, q', [], rel, NO_SHUTDOWN)" if "n = 0"
          unfolding go off using True that by (simp add: Wrote)
        ultimately show ?thesis using c1(2) by (metis append_Nil2)
      qed
    qed (use True c1(2) in \<open>simp_all add: go off\<close>)
  qed
qed

lemma write_run_ok: "write_run k c q sent ms \<Longrightarrow> write_ok k c q sent ms"
proof (induction rule: write_run.induct)
  case (start c)
  then show ?case by (simp add: write_ok_def)
next
  case (enq c q sent ms m p)
  then show ?case using nm.queue_ok_Entry [of m] by (auto simp: write_ok_def enqueue_def Entry_def)
next
  case (sent c q bytes ms iov_max w c' q' out released r)
  with conn_write_ok [OF sent.IH, of iov_max w] show ?case by auto
qed

text \<open>
  C2: After encryption began, what a client has received decrypts to a prefix of the messages
  enqueued for it, in order, and to all of them once the queue and the write buffer are empty,
  whatever write returned; and every turn of the write side succeeds inside its buffer.
\<close>

theorem encrypted_stream:
  assumes "write_run k c q sent ms"
  shows "Sublist.prefix (snd (rc4_encrypt k sent)) (concat (map msg_content ms)) \<and>
    (q = [] \<and> m_write_fill c = 0 \<longrightarrow> snd (rc4_encrypt k sent) = concat (map msg_content ms)) \<and>
    (\<exists>c' q' out rel r. conn_write msg_fill_buffer msg_fill_iovecs msg_written iov_max c q w = Inr (c', q', out, rel, r))"
proof -
  note ok = write_run_ok [OF assms]
  obtain plain k' where p: "rc4_encrypt k plain = (k', sent @ take (unat (m_write_fill c)) (m_writebuf c))"
    "plain @ pending msg_content q = concat (map msg_content ms)" using ok by (auto simp: write_ok_def)
  have "snd (rc4_encrypt k (sent @ take (unat (m_write_fill c)) (m_writebuf c))) = plain"
    using rc4_decrypt_lem [of k plain] p(1) by simp
  then have d: "snd (rc4_encrypt k sent) @ snd (rc4_encrypt (fst (rc4_encrypt k sent)) (take (unat (m_write_fill c)) (m_writebuf c))) = plain"
    by (simp add: rc4_encrypt_append split_beta Let_def)
  then have "Sublist.prefix (snd (rc4_encrypt k sent)) plain" by (metis prefixI)
  then have "Sublist.prefix (snd (rc4_encrypt k sent)) (concat (map msg_content ms))" unfolding p(2) [symmetric] by simp
  moreover have "snd (rc4_encrypt k sent) = concat (map msg_content ms)" if "q = []" "m_write_fill c = 0"
    using that d p(2) by (simp add: rc4_rec)
  ultimately show ?thesis using conn_write_ok [OF ok, of iov_max w] by blast
qed

theorem encrypted_stream_witness:
  "\<exists>k c q. write_run k c q [] [AuthPingMessage [1, 2, 3]] \<and>
     (\<exists>c' q' out rel r. conn_write msg_fill_buffer msg_fill_iovecs msg_written 1024 c q (\<lambda>_. Wrote 2) = Inr (c', q', out, rel, r))"
proof -
  define k where "k = \<lparr>S = all_bytes, idx_i = 0, idx_j = 0\<rparr>"
  define c where "c = (new_connection (\<lambda>n. replicate n 0))\<lparr>m_crypt := \<lparr>m_is_encrypted = True, m_c2s_rc4 = Some k, m_s2c_rc4 = Some k\<rparr>\<rparr>"
  have "write_run k c [] [] []" by (rule write_run.start) (simp_all add: c_def new_connection_def)
  moreover have "msg_ok (AuthPingMessage [1, 2, 3])" by (simp add: msg_ok_def msg_content_def)
  ultimately have run: "write_run k c (enqueue [] (AuthPingMessage [1, 2, 3]) NORMAL) [] [AuthPingMessage [1, 2, 3]]"
    using write_run.enq [of k c "[]" "[]" "[]" "AuthPingMessage [1, 2, 3]" NORMAL] by simp
  with encrypted_stream [OF run, of 1024 "\<lambda>_. Wrote 2"] show ?thesis by blast
qed

end
