(* ===== verification/Client_Session.thy ===== *)
theory Client_Session
  imports Connection Propagate_Buffer
begin

text \<open>
  The connections of the auth, game and gatekeeper servers from the first byte on: negotiation,
  nonce, and then the encrypted messages (\<open>make_if_enough\<close> of \<open>AuthConnection\<close>, \<open>GameConnection\<close> and
  \<open>GatekeeperConnection\<close>, and the first part of their servers' \<open>message_read\<close>), and the file server's,
  which stay in the clear.

  The normal processing after the nonce is an argument: it gets the session and the message and tells
  the new queue and state of the server, which later state the connection enters, if any, and the
  reason to close it.  \<open>dh\<close> is \<open>DH_compute_key\<close> and \<open>rnd\<close> what \<open>get_random_data\<close> gives.

  Every server is a \<open>client_class\<close>, so what a client sends is received as \<open>parse\<close> says,
  wherever TCP cuts it.
\<close>

abbreviation (input) NEGOTIATION_DONE :: nat where "NEGOTIATION_DONE \<equiv> 1"
abbreviation (input) NONCE_DONE :: nat where "NONCE_DONE \<equiv> 2"

record 'v session =
  m_state :: nat
  m_msg_queue :: "net_message entry list"
  m_server :: 'v

section \<open>Making messages\<close>

definition turn_on :: "'v session \<Rightarrow> bool" where
  "turn_on s \<longleftrightarrow> m_state s = NONCE_DONE"

definition nonce_make :: "byte list \<Rightarrow> framed res" where
  "nonce_make buf =
     (if length buf < 2 then Inr (Incomplete (-1))
      else rbind (get8 buf 0) (\<lambda>b0.
        if b0 \<noteq> 0x00 then Inr (Framed Unknown (len_of_buf buf))
        else rbind (NegotiationMessage_make (drop 1 buf) 0x00) (\<lambda>v.
          case v of Incomplete w \<Rightarrow> Inr (Incomplete w)
          | Framed k n \<Rightarrow> Inr (Framed k (int (NegotiationMessage_message_len 0x00 (nat n)))))))"

definition client_body :: "nat \<Rightarrow> (byte list \<Rightarrow> framed res) \<Rightarrow> 'v session \<Rightarrow> byte list \<Rightarrow> framed res" where
  "client_body type mk s buf =
     (if m_state s < NEGOTIATION_DONE then NegotiationMessage_make buf type
      else if m_state s < NONCE_DONE then nonce_make buf
      else mk buf)"

definition file_body :: "'v session \<Rightarrow> byte list \<Rightarrow> framed res" where
  "file_body s buf =
     (if m_state s < NEGOTIATION_DONE then NegotiationMessage_make buf 0x10 else FileClientMessage_make buf)"

section \<open>The start of a session\<close>

definition setup_rc4_key ::
  "(byte list \<Rightarrow> byte list option) \<Rightarrow> byte list \<Rightarrow> byte list \<Rightarrow> 'v session \<Rightarrow> 'v session \<times> byte list option \<times> reason_t" where
  "setup_rc4_key dh rnd inbuf s =
     (case dh (rev inbuf) of
        None \<Rightarrow> (s, None, INTERNAL_ERROR)
      | Some dkey \<Rightarrow>
          let finalkey = take 7 (rev dkey @ replicate (7 - length dkey) 0);
              session_key = take 7 rnd
          in (s\<lparr>m_msg_queue := enqueue (m_msg_queue s) (nonce_new session_key) NORMAL\<rparr>,
              Some (map2 (XOR) session_key finalkey), NO_SHUTDOWN))"

type_synonym 'v normal =
  "'v session \<Rightarrow> msg_kind \<Rightarrow> byte list \<Rightarrow> net_message entry list \<times> 'v \<times> nat option \<times> reason_t"

definition run_normal :: "'v normal \<Rightarrow> 'v session \<Rightarrow> msg_kind \<Rightarrow> byte list \<Rightarrow> 'v session \<times> byte list option \<times> reason_t" where
  "run_normal normal s k m =
     (case normal s k m of (q, v, st, r) \<Rightarrow>
        (\<lparr>m_state = (case st of None \<Rightarrow> m_state s | Some n \<Rightarrow> NONCE_DONE + 1 + n), m_msg_queue = q, m_server = v\<rparr>, None, r))"

definition client_message_read ::
  "(byte list \<Rightarrow> byte list option) \<Rightarrow> byte list \<Rightarrow> 'v normal \<Rightarrow> 'v session \<Rightarrow> msg_kind \<Rightarrow> byte list \<Rightarrow>
   'v session \<times> byte list option \<times> reason_t" where
  "client_message_read dh rnd normal s k m =
     (if m_state s < NEGOTIATION_DONE
      then if k = Unknown then (s, None, PROTOCOL_ERROR) else (s\<lparr>m_state := NEGOTIATION_DONE\<rparr>, None, NO_SHUTDOWN)
      else if m_state s < NONCE_DONE
      then if k = Unknown then (s, None, PROTOCOL_ERROR)
           else if NegotiationMessage_check_useable 0x00 (length m - 1)
           then (case setup_rc4_key dh rnd (drop 2 m) s of (s', key, key_okay) \<Rightarrow>
                   if key_okay \<noteq> NO_SHUTDOWN then (s', key, key_okay)
                   else (s'\<lparr>m_state := NONCE_DONE\<rparr>, key, NO_SHUTDOWN))
           else (s, None, PROTOCOL_ERROR)
      else run_normal normal s k m)"

definition file_message_read :: "'v normal \<Rightarrow> 'v session \<Rightarrow> msg_kind \<Rightarrow> byte list \<Rightarrow> 'v session \<times> byte list option \<times> reason_t" where
  "file_message_read normal s k m =
     (if m_state s < NEGOTIATION_DONE
      then if k = Unknown then (s, None, PROTOCOL_ERROR) else (s\<lparr>m_state := NEGOTIATION_DONE\<rparr>, None, NO_SHUTDOWN)
      else run_normal normal s k m)"

section \<open>The servers provide what the receive loop needs\<close>

definition keyed :: "'v session \<Rightarrow> bool" where
  "keyed s \<longleftrightarrow> NONCE_DONE \<le> m_state s"

definition client_handled :: "(byte list \<Rightarrow> bool) \<Rightarrow> 'v session \<Rightarrow> byte list \<Rightarrow> bool" where
  "client_handled handled s buf \<longleftrightarrow>
     (if m_state s < NEGOTIATION_DONE then True
      else if m_state s < NONCE_DONE then buf = [] \<or> hd buf = 0 else handled buf)"

lemma setup_cases:
  "setup_rc4_key dh rnd inbuf s = (s', key, r) \<Longrightarrow> m_state s' = m_state s"
  by (auto simp: setup_rc4_key_def Let_def split: option.splits)

lemma read_keyed:
  assumes "client_message_read dh rnd normal s k m = (s', key, r)"
  shows "(\<exists>x. key = Some x) \<longrightarrow> \<not> keyed s" and "keyed s \<longrightarrow> keyed s'"
  using assms by (auto simp: client_message_read_def keyed_def run_normal_def split: if_splits prod.splits option.splits)

lemma verdict_nonce:
  assumes "(buf @ tail = [] \<or> hd (buf @ tail) = 0)"
  shows "verdict buf tail (nonce_make buf) (nonce_make (buf @ tail))"
proof (cases "length buf < 2")
  case True
  then show ?thesis by (simp add: nonce_make_def verdict_incomplete)
next
  case False
  then have b0: "get8 buf 0 = Inr 0" "get8 (buf @ tail) 0 = Inr 0" and d: "drop 1 (buf @ tail) = drop 1 buf @ tail"
    using assms by (cases buf; simp add: get8_def)+
  have v: "verdict (drop 1 buf) tail (NegotiationMessage_make (drop 1 buf) 0) (NegotiationMessage_make (drop 1 buf @ tail) 0)"
    by (rule verdict_negotiation) (simp add: negotiation_types_def)
  show ?thesis
  proof (cases "NegotiationMessage_make (drop 1 buf) 0")
    case (Inl e)
    with v False show ?thesis by (simp add: nonce_make_def b0 d verdict_def)
  next
    case (Inr f)
    show ?thesis
    proof (cases f)
      case (Incomplete w)
      with Inr False show ?thesis by (simp add: nonce_make_def b0 verdict_incomplete)
    next
      case (Framed k n)
      with v Inr have "n \<le> int (length buf) - 1" "NegotiationMessage_make (drop 1 buf @ tail) 0 = Inr f"
        using False by (auto simp: verdict_def)
      with Framed Inr False show ?thesis by (simp add: nonce_make_def b0 d verdict_def NegotiationMessage_message_len_def)
    qed
  qed
qed

lemma small_want:
  "NegotiationMessage_make buf type = Inr (Incomplete w) \<Longrightarrow> w = -1"
  "nonce_make buf = Inr (Incomplete w) \<Longrightarrow> w = -1"
  by (auto simp: nonce_make_def NegotiationMessage_make_def Let_def res_simps split: if_splits framed.splits)

text \<open>Only vault messages can be larger than the read buffer, and their length does not change when more arrives.\<close>

definition wants_kept :: "(byte list \<Rightarrow> framed res) \<Rightarrow> (byte list \<Rightarrow> bool) \<Rightarrow> bool" where
  "wants_kept mk handled \<longleftrightarrow> (\<forall>buf tail w. handled (buf @ tail) \<longrightarrow> mk buf = Inr (Incomplete w) \<longrightarrow> int BUFSIZE < w \<longrightarrow>
     w < 2 ^ 31 \<and> int (length buf) < w \<and>
     (\<exists>k. mk (buf @ tail) = (if int (length (buf @ tail)) < w then Inr (Incomplete w) else Inr (Framed k w))))"

lemma wants_small: "(\<And>buf w. mk buf = Inr (Incomplete w) \<Longrightarrow> w \<le> int BUFSIZE) \<Longrightarrow> wants_kept mk handled"
  by (force simp: wants_kept_def)

lemma game_wants: "wants_kept GameMessage_make handled"
  by (rule wants_small)
    (auto simp: GameMessage_make_def GameJoinRequest_make_def PropagateBufferMessage_make_def GameMgrMessage_make_def
      fixed_make_def overlong_def Let_def res_simps split: if_splits)

lemma gatekeeper_wants: "wants_kept GatekeeperClientMessage_make handled"
  by (rule wants_small) (auto simp: GatekeeperClientMessage_make_def Let_def res_simps split: if_splits)

lemma file_wants: "wants_kept FileClientMessage_make handled"
  by (rule wants_small) (auto simp: FileClientMessage_make_def Let_def res_simps split: if_splits)

lemma small_auth_wants:
  "AuthClientLoginMessage_make buf = Inr (Incomplete w) \<Longrightarrow> w \<le> int BUFSIZE"
  "AuthClientChangePassMessage_make buf = Inr (Incomplete w) \<Longrightarrow> w \<le> int BUFSIZE"
  "AuthClientFileMessage_make buf = Inr (Incomplete w) \<Longrightarrow> w \<le> int BUFSIZE"
  "AuthClientLogMessage_make buf = Inr (Incomplete w) \<Longrightarrow> w \<le> int BUFSIZE"
  "AuthClientPlayerCreateMessage_make buf = Inr (Incomplete w) \<Longrightarrow> w \<le> int BUFSIZE"
  "AuthClientAgeRequestMessage_make buf = Inr (Incomplete w) \<Longrightarrow> w \<le> int BUFSIZE"
  "friend_invite_make buf = Inr (Incomplete w) \<Longrightarrow> w \<le> int BUFSIZE"
  by (auto simp: AuthClientLoginMessage_make_def AuthClientChangePassMessage_make_def AuthClientFileMessage_make_def
      AuthClientLogMessage_make_def AuthClientPlayerCreateMessage_make_def AuthClientAgeRequestMessage_make_def
      friend_invite_make_def enough_def overlong_def Let_def res_simps split: if_splits)

lemma vault_wants:
  assumes "AuthClientVaultMessage_make buf = Inr (Incomplete w)" and "int BUFSIZE < w" and "2 \<le> length buf"
  shows "w < 2 ^ 31 \<and> int (length buf) < w \<and> (\<exists>k. AuthClientVaultMessage_make (buf @ tail) =
    (if int (length (buf @ tail)) < w then Inr (Incomplete w) else Inr (Framed k w)))"
proof -
  obtain ty where ty: "read16 buf 0 = Inr ty" using assms(1) by (auto simp: AuthClientVaultMessage_make_def res_simps)
  then have ty2: "read16 (buf @ tail) 0 = Inr ty" using assms(3) by (simp add: read16_append)
  obtain tot where tot: "vault_total buf (unat ty) = Inr tot" "\<not> tot > 600 * 1024" "enough buf (Vault (unat ty)) tot = Inr (Incomplete w)"
    using assms(1) ty by (auto simp: AuthClientVaultMessage_make_def res_simps overlong_def split: if_splits)
  then have w: "w = tot" "int (length buf) < tot" using assms(2) by (auto simp: enough_def split: if_splits)
  then have "vault_total (buf @ tail) (unat ty) = Inr tot"
    using length_kept_vault [of buf "unat ty" tail] tot(1) assms(2) by (auto simp: length_kept_def)
  then have "AuthClientVaultMessage_make (buf @ tail) = enough (buf @ tail) (Vault (unat ty)) tot"
    using tot(2) ty2 by (simp add: AuthClientVaultMessage_make_def)
  then show ?thesis using w tot(2) assms(2) by (simp add: enough_def)
qed

lemma auth_wants: "wants_kept AuthClientMessage_make handled"
  unfolding wants_kept_def
proof (intro allI impI)
  fix buf tail w
  assume m: "AuthClientMessage_make buf = Inr (Incomplete w)" and w: "int BUFSIZE < w"
  then have l: "2 \<le> length buf" by (auto simp: AuthClientMessage_make_def split: if_splits)
  then obtain ty where ty: "read16 buf 0 = Inr ty" using m by (auto simp: AuthClientMessage_make_def res_simps split: if_splits)
  then have ty2: "read16 (buf @ tail) 0 = Inr ty" using l by (simp add: read16_append)
  have v: "AuthClientMessage_make buf = AuthClientVaultMessage_make buf \<and> AuthClientMessage_make (buf @ tail) = AuthClientVaultMessage_make (buf @ tail)"
  proof (rule ccontr)
    assume "\<not> ?thesis"
    then have "w \<le> int BUFSIZE"
      using m ty ty2 l small_auth_wants [of buf w]
      by (auto simp: AuthClientMessage_make_def fixed_make_def Let_def vault_types_def split: if_splits)
    with w show False by simp
  qed
  then show "w < 2 ^ 31 \<and> int (length buf) < w \<and> (\<exists>k. AuthClientMessage_make (buf @ tail) =
    (if int (length (buf @ tail)) < w then Inr (Incomplete w) else Inr (Framed k w)))"
    using vault_wants [of buf w tail] m w l by simp
qed

lemma client_class_intro:
  assumes f: "framer mk handled" and p: "\<And>buf tail. handled (buf @ tail) \<Longrightarrow> handled buf" and w: "wants_kept mk handled"
    and t: "type \<in> set negotiation_types"
  shows "client_class (turn_on :: 'v session \<Rightarrow> bool) (client_body type mk) (client_message_read dh rnd normal) (client_handled handled) keyed"
proof (rule client_class.intro)
  fix s :: "'v session"
  show "framer (client_body type mk s) (client_handled handled s)"
  proof (cases "m_state s < NONCE_DONE")
    case True
    have n: "verdict buf tail (NegotiationMessage_make buf type) (NegotiationMessage_make (buf @ tail) type)" for buf tail
      by (rule verdict_negotiation [OF t])
    show ?thesis
      by (rule framer_intro) (use True n verdict_nonce in \<open>auto simp: client_body_def client_handled_def\<close>)
  next
    case False
    then have "client_body type mk s = mk" "client_handled handled s = handled"
      by (auto simp: client_body_def client_handled_def fun_eq_iff)
    with f show ?thesis by simp
  qed
next
  fix s :: "'v session" and buf tail
  assume "client_handled handled s (buf @ tail)"
  then show "client_handled handled s buf" using p by (cases buf) (auto simp: client_handled_def split: if_splits)
next
  fix s :: "'v session" and buf tail w
  assume "client_handled handled s (buf @ tail)" "client_body type mk s buf = Inr (Incomplete w)" "int BUFSIZE < w"
  then show "w < 2 ^ 31 \<and> int (length buf) < w \<and> (\<exists>k. client_body type mk s (buf @ tail) =
      (if int (length (buf @ tail)) < w then Inr (Incomplete w) else Inr (Framed k w)))"
    using w unfolding wants_kept_def client_body_def client_handled_def
    by (cases "m_state s < NONCE_DONE") (auto dest: small_want split: if_splits)
qed ((blast dest: read_keyed)+, simp add: turn_on_def keyed_def)


lemma handled_prefix:
  "auth_handled (buf @ tail) \<Longrightarrow> auth_handled buf" "game_handled (buf @ tail) \<Longrightarrow> game_handled buf"
  "gatekeeper_handled (buf @ tail) \<Longrightarrow> gatekeeper_handled buf"
proof -
  have r: "read16 (buf @ tail) 0 = Inr v" if "read16 buf 0 = Inr v" for v
    using that read16_append [of 0 buf tail] by (cases "2 \<le> length buf") (auto simp: read16_Inr)
  then show "auth_handled (buf @ tail) \<Longrightarrow> auth_handled buf" "game_handled (buf @ tail) \<Longrightarrow> game_handled buf"
    "gatekeeper_handled (buf @ tail) \<Longrightarrow> gatekeeper_handled buf"
    by (cases "read16 buf 0"; simp add: auth_handled_def game_handled_def gatekeeper_handled_def)+
qed

interpretation auth_conn: client_class turn_on "client_body 0x0a AuthClientMessage_make"
  "client_message_read dh rnd normal" "client_handled auth_handled" keyed for dh rnd normal
  by (rule client_class_intro [OF auth_framer.framer_axioms handled_prefix(1) auth_wants])
    (simp_all add: negotiation_types_def)

interpretation game_conn: client_class turn_on "client_body 0x0b GameMessage_make"
  "client_message_read dh rnd normal" "client_handled game_handled" keyed for dh rnd normal
  by (rule client_class_intro [OF game_framer.framer_axioms handled_prefix(2) game_wants])
    (simp_all add: negotiation_types_def)

interpretation gatekeeper_conn: client_class turn_on "client_body 0x16 GatekeeperClientMessage_make"
  "client_message_read dh rnd normal" "client_handled gatekeeper_handled" keyed for dh rnd normal
  by (rule client_class_intro [OF gatekeeper_framer.framer_axioms handled_prefix(3) gatekeeper_wants])
    (simp_all add: negotiation_types_def)

interpretation file_conn: client_class "\<lambda>_. False" file_body "file_message_read normal" "\<lambda>_ _. True" "\<lambda>_. False" for normal
proof (rule client_class.intro)
  fix s :: "'v session"
  have n: "verdict buf tail (NegotiationMessage_make buf 0x10) (NegotiationMessage_make (buf @ tail) 0x10)" for buf tail
    by (rule verdict_negotiation) (simp add: negotiation_types_def)
  show "framer (file_body s) (\<lambda>_. True)"
    by (rule framer_intro) (use n verdict_file_client in \<open>auto simp: file_body_def\<close>)
next
  fix s :: "'v session" and buf tail w
  assume "file_body s buf = Inr (Incomplete w)" "int BUFSIZE < w"
  then show "w < 2 ^ 31 \<and> int (length buf) < w \<and> (\<exists>k. file_body s (buf @ tail) =
      (if int (length (buf @ tail)) < w then Inr (Incomplete w) else Inr (Framed k w)))"
    by (auto simp: file_body_def FileClientMessage_make_def Let_def res_simps dest: small_want split: if_splits)
qed simp_all

section \<open>Sessions\<close>

definition new_session :: "'v \<Rightarrow> 'v session" where
  "new_session v = \<lparr>m_state = 0, m_msg_queue = [], m_server = v\<rparr>"

text \<open>What the server is to receive from a client that sends \<open>stream\<close> on a new connection.\<close>

abbreviation auth_session where
  "auth_session dh rnd normal v \<equiv> parse turn_on (client_body 0x0a AuthClientMessage_make)
     (client_message_read dh rnd normal) (client_handled auth_handled) (new_session v) new_crypt"

abbreviation game_session where
  "game_session dh rnd normal v \<equiv> parse turn_on (client_body 0x0b GameMessage_make)
     (client_message_read dh rnd normal) (client_handled game_handled) (new_session v) new_crypt"

lemma new_connection_ok:
  assumes "alloc_ok alloc"
  shows "conn_ok t body handled s (new_connection alloc)" "pend (new_connection alloc) = []"
    "m_crypt (new_connection alloc) = new_crypt" "\<not> m_is_encrypted new_crypt"
  using assms by (simp_all add: conn_ok_def buffers_ok_def big_wait_def new_connection_def cbuf_def alloc_ok_def
      pend_def new_crypt_def)

text \<open>
  C3: The auth server's receive loop implements its specification from a client's first byte on:
  if negotiation, nonce, the start of encryption and the encrypted messages parse as given, then
  however read cuts the stream the loop ends and delivers just these messages, in order; the
  only other outcome is a protocol error when the read buffer is full.
\<close>

theorem auth_session_received:
  assumes "alloc_ok alloc" and "stream \<noteq> []" and "auth_session dh rnd normal v stream ms s2 cr2 rest NO_SHUTDOWN"
  shows "\<exists>s' c' ms' r left. socket_reads turn_on (client_body 0x0a AuthClientMessage_make)
      (client_message_read dh rnd normal) alloc (new_session v) (new_connection alloc) stream counts =
      Some (Inr (s', c', ms', r, left)) \<and>
    Sublist.prefix ms' ms \<and> suffix left stream \<and> (r = NO_SHUTDOWN \<or> r = PROTOCOL_ERROR \<and> room c' \<le> 0) \<and>
    (r = NO_SHUTDOWN \<and> left = [] \<longrightarrow> ms' = ms \<and> s' = s2 \<and> m_crypt c' = cr2 \<and> pend c' = rest) \<and>
    (r = NO_SHUTDOWN \<and> 0 \<notin> set counts \<and> length stream \<le> length counts \<longrightarrow> left = [])"
proof (rule auth_conn.socket_reads_ok [OF assms(1) new_connection_ok(1) [OF assms(1)]])
  note c = new_connection_ok(2-4) [OF assms(1)]
  show "m_is_encrypted (m_crypt (new_connection alloc)) \<longrightarrow> keyed (new_session v)" using c by simp
  show "auth_conn.expects dh rnd normal (new_session v) (m_crypt (new_connection alloc)) (pend (new_connection alloc)) stream ms s2 cr2 rest"
    using c assms(2,3) by (simp add: auth_conn.expects_def arrive_def)
qed


text \<open>A client that negotiates and sends a nonce.\<close>

definition sample_start :: "byte list" where
  "sample_start = [5, 0, 0, 0, 4, 0, 0, 0] @ [0, 3, 7]"

lemma sample_parse:
  assumes "type = 0x0a \<or> type = 0x0b"
  shows "\<exists>s2 cr2. parse turn_on (client_body type mk)
     (client_message_read (\<lambda>_. Some (replicate 64 1)) (replicate 7 2) normal) (client_handled handled) (new_session v) new_crypt
     sample_start [(Negotiation type, [5, 0, 0, 0, 4, 0, 0, 0]), (Negotiation 0, [0, 3, 7])] s2 cr2 [] NO_SHUTDOWN \<and>
     m_state s2 = NONCE_DONE"
proof -
  let ?h = "client_message_read (\<lambda>_. Some (replicate 64 1)) (replicate 7 2) normal"
  let ?s1 = "(new_session v)\<lparr>m_state := NEGOTIATION_DONE\<rparr>"
  let ?key = "map2 (XOR) (take 7 (replicate 7 2)) (take 7 (rev (replicate 64 1) @ replicate (7 - length (replicate 64 (1 :: byte))) 0)) :: byte list"
  let ?s2 = "?s1\<lparr>m_msg_queue := enqueue (m_msg_queue ?s1) (nonce_new (take 7 (replicate 7 2))) NORMAL, m_state := NONCE_DONE\<rparr>"
  have "length ?key = 7" by simp
  then obtain st where "rc4_init_key ?key 7 = Inr st" using rc4_init_key_ok_lem [of 7 ?key] by auto
  then have key: "apply_key (Some ?key) new_crypt = Inr (new_crypt\<lparr>m_c2s_rc4 := Some st, m_s2c_rc4 := Some st\<rparr>)"
    by (simp add: apply_key_def set_rc4_key_def)
  have eq: "sample_start = [5, 0, 0, 0] @ bytes32 4 @ [0, 3, 7]" by (simp add: sample_start_def bytes32_def)
  have "read32 sample_start (length [5, 0, 0, 0 :: byte]) = Inr 4" unfolding eq read32_at read32_bytes32 ..
  then have r4: "read32 sample_start 4 = Inr 4" by (simp add: numeral_eq_Suc)
  have g0: "get8 sample_start 0 = Inr 5" and len: "length sample_start = 11" by (simp_all add: sample_start_def get8_def)
  have b1: "client_body type mk (new_session v) sample_start = Inr (Framed (Negotiation type) 8)"
    using assms by (auto simp: client_body_def new_session_def NegotiationMessage_make_def g0 len r4 Let_def)
  have b2: "client_body type mk ?s1 [0, 3, 7] = Inr (Framed (Negotiation 0) 3)"
    by (simp add: client_body_def new_session_def nonce_make_def NegotiationMessage_make_def get8_def
        NegotiationMessage_message_len_def)
  have "parse turn_on (client_body type mk) ?h (client_handled handled) ?s1 new_crypt [0, 3, 7]
      [(Negotiation 0, [0, 3, 7])] ?s2 (new_crypt\<lparr>m_c2s_rc4 := Some st, m_s2c_rc4 := Some st\<rparr>) [] NO_SHUTDOWN"
    by (rule parse.last [where n = 3 and cr' = new_crypt and key = "Some ?key"])
      (use b2 key in \<open>simp_all add: open_crypt_def turn_on_def new_session_def client_handled_def client_message_read_def
        NegotiationMessage_check_useable_def setup_rc4_key_def Let_def\<close>)
  then have "parse turn_on (client_body type mk) ?h (client_handled handled) (new_session v) new_crypt sample_start
      ((Negotiation type, take (nat 8) sample_start) # [(Negotiation 0, [0, 3, 7])]) ?s2
      (new_crypt\<lparr>m_c2s_rc4 := Some st, m_s2c_rc4 := Some st\<rparr>) [] NO_SHUTDOWN"
    by (intro parse.again [where cr' = new_crypt and buf' = sample_start and key = None and ?s1.0 = ?s1 and ?cr1.0 = new_crypt])
      (use b1 in \<open>simp_all add: open_crypt_def turn_on_def new_session_def client_handled_def client_message_read_def
        apply_key_def sample_start_def\<close>)
  then have "parse turn_on (client_body type mk) ?h (client_handled handled) (new_session v) new_crypt sample_start
      [(Negotiation type, [5, 0, 0, 0, 4, 0, 0, 0]), (Negotiation 0, [0, 3, 7])] ?s2
      (new_crypt\<lparr>m_c2s_rc4 := Some st, m_s2c_rc4 := Some st\<rparr>) [] NO_SHUTDOWN"
    by (simp add: sample_start_def)
  moreover have "m_state ?s2 = NONCE_DONE" by (simp add: new_session_def)
  ultimately show ?thesis by blast
qed

theorem auth_session_received_witness:
  "\<exists>s' c' ms' r left. socket_reads turn_on (client_body 0x0a AuthClientMessage_make)
      (client_message_read (\<lambda>_. Some (replicate 64 1)) (replicate 7 2) (\<lambda>s k m. (m_msg_queue s, (), None, NO_SHUTDOWN)))
      (\<lambda>n. replicate n 0xCC) (new_session ()) (new_connection (\<lambda>n. replicate n 0xCC)) sample_start [4, 2, 9] =
      Some (Inr (s', c', ms', r, left)) \<and>
    Sublist.prefix ms' [(Negotiation 0x0a, [5, 0, 0, 0, 4, 0, 0, 0]), (Negotiation 0, [0, 3, 7])]"
proof -
  obtain s2 cr2 where "auth_session (\<lambda>_. Some (replicate 64 1)) (replicate 7 2) (\<lambda>s k m. (m_msg_queue s, (), None, NO_SHUTDOWN)) ()
      sample_start [(Negotiation 0x0a, [5, 0, 0, 0, 4, 0, 0, 0]), (Negotiation 0, [0, 3, 7])] s2 cr2 [] NO_SHUTDOWN"
    using sample_parse [OF disjI1 [OF refl], where mk = AuthClientMessage_make and handled = auth_handled and v = "()" and
      normal = "\<lambda>s k m. (m_msg_queue s, (), None, NO_SHUTDOWN)"] by blast
  from auth_session_received [OF _ _ this, of "\<lambda>n. replicate n 0xCC" "[4, 2, 9]"] show ?thesis
    by (force simp: alloc_ok_def sample_start_def)
qed


section \<open>A game client can keep its server busy for ever\<close>

text \<open>
  The first case of \<open>GameServer::message_read\<close> for propagate messages; \<open>dispatch\<close> is everything else.
\<close>

definition drop_unhandled :: "'v normal \<Rightarrow> 'v normal" where
  "drop_unhandled dispatch s k m =
     (case k of
        PropagateBuffer subtype \<Rightarrow>
          if get_propagate_handler subtype = ph_no_handler then (m_msg_queue s, m_server s, None, NO_SHUTDOWN)
          else dispatch s k m
      | _ \<Rightarrow> dispatch s k m)"

definition zero_length :: "u16 \<Rightarrow> byte list \<Rightarrow> byte list" where
  "zero_length subtype rest = bytes16 2 @ bytes16 subtype @ bytes16 0 @ bytes32 0xFFFFFFF6 @ rest"

lemma zero_length_framed: "GameMessage_make (zero_length subtype rest) = Inr (Framed (PropagateBuffer subtype) 0)"
proof -
  have r: "read16 (zero_length subtype rest) 0 = Inr 2" by (simp only: zero_length_def read16_bytes16)
  have r2: "read16 (zero_length subtype rest) 2 = Inr subtype"
    using read16_at [of "bytes16 2" "bytes16 subtype @ bytes16 0 @ bytes32 0xFFFFFFF6 @ rest"] by (simp add: zero_length_def)
  have r6: "read32 (zero_length subtype rest) 6 = Inr 0xFFFFFFF6"
    using read32_at [of "bytes16 2 @ bytes16 subtype @ bytes16 0" "bytes32 0xFFFFFFF6 @ rest"]
    by (simp add: zero_length_def)
  have "length (zero_length subtype rest) \<ge> 10" by (simp add: zero_length_def)
  moreover have "s32 (0xFFFFFFF6 + 10) = 0" by (simp add: s32_def)
  ultimately show ?thesis using r r2 r6
    by (simp add: GameMessage_make_def PropagateBufferMessage_make_def)
qed

text \<open>
  C33: A game client that sends a propagate message without a handler whose length field is
  0xFFFFFFF6 makes the receive loop of its game server run for ever: the message has length 0
  and is framed again and again.
\<close>

theorem zero_length_hangs:
  assumes "get_propagate_handler subtype = ph_no_handler" and "NONCE_DONE < m_state s"
    and "conn_ok turn_on (client_body 0x0b GameMessage_make) handled s c" and "m_bigbuf c = None" and "pend c = []"
    and "arrive (m_crypt c) d = Inr (cr, zero_length subtype rest)" and "int (length d) \<le> room c"
  shows "conn_read turn_on (client_body 0x0b GameMessage_make) (client_message_read dh rnd (drop_unhandled dispatch))
    alloc s c (Data d) = None"
proof (rule conn_read_hangs)
  show "client_body 0x0b GameMessage_make s (pend c @ zero_length subtype rest) = Inr (Framed (PropagateBuffer subtype) 0)"
    using assms(2,5) by (simp add: client_body_def zero_length_framed)
  show "client_message_read dh rnd (drop_unhandled dispatch) s (PropagateBuffer subtype) [] = (s, None, NO_SHUTDOWN)"
    using assms(1,2) by (simp add: client_message_read_def run_normal_def drop_unhandled_def)
  show "d \<noteq> []" using arrive_length [OF assms(6)] by (auto simp: zero_length_def)
  show "open_crypt turn_on s cr (pend c @ zero_length subtype rest) = Inr (cr, pend c @ zero_length subtype rest)"
    using assms(2) by (simp add: open_crypt_def turn_on_def)
qed (use assms in \<open>auto simp: conn_ok_def\<close>)

theorem zero_length_hangs_witness:
  "\<exists>(s :: unit session) c d. conn_read turn_on (client_body 0x0b GameMessage_make)
     (client_message_read (\<lambda>_. None) [] (drop_unhandled (\<lambda>s k m. (m_msg_queue s, (), None, PROTOCOL_ERROR))))
     (\<lambda>n. replicate n 0) s c (Data d) = None"
proof -
  define k where "k = \<lparr>S = all_bytes, idx_i = 0, idx_j = 0\<rparr>"
  define c where "c = (new_connection (\<lambda>n. replicate n 0))\<lparr>m_crypt := \<lparr>m_is_encrypted = True, m_c2s_rc4 = Some k, m_s2c_rc4 = Some k\<rparr>\<rparr>"
  define s where "s = \<lparr>m_state = 4, m_msg_queue = [], m_server = ()\<rparr>"
  define d where "d = snd (rc4_encrypt k (zero_length 0 []))"
  have ok: "conn_ok turn_on (client_body 0x0b GameMessage_make) (\<lambda>_ _. True) s c"
    by (simp add: conn_ok_def buffers_ok_def big_wait_def c_def new_connection_def cbuf_def pend_def)
  have p: "pend c = []" by (simp add: pend_def c_def new_connection_def)
  have a: "arrive (m_crypt c) d = Inr ((m_crypt c)\<lparr>m_c2s_rc4 := Some (fst (rc4_encrypt k (zero_length 0 [])))\<rparr>, zero_length 0 [])"
    by (simp add: arrive_def decrypt_def c_def d_def rc4_decrypt_lem)
  have r: "int (length d) \<le> room c"
    by (simp add: d_def zero_length_def room_def c_def new_connection_def cbuf_def)
  show ?thesis
    by (intro exI) (rule zero_length_hangs [OF _ _ ok _ p a r]; simp add: get_propagate_handler_def s_def c_def new_connection_def)
qed
end
