(* ===== verification/Heek.thy ===== *)
theory Heek
  imports Game_Mgr Wide_Name
begin

text \<open>
  \<open>HeekGameMgr\<close> of \<open>GameState.cc\<close>: rock, paper, scissors for up to five players at a table.

  The players who ever sat are objects (\<open>Sitter\<close>) in \<open>m_all\<close>; the seats point to some of them.  So
  the state has a memory of sitters with addresses; an address that was freed has none, and using
  it is a fault.  The server's timers are part of the state too.

  A round: the first choice starts the countdown, all choices or the timer stop it, the owner's
  client or a timer reports that the animation is over, then the round is decided.  A third light
  of one kind makes a player a winner of the game; if there are several, they play on in sudden
  death.  Everyone who takes part gives up a point at the beginning, and the winner takes them.

  Choices are -1 (none) or 0 to 2, \<open>char\<close> numbers are bytes read with \<open>sint\<close>.
\<close>

datatype game_state_t = IDLE | IN_GAME | COUNTDOWN | STOP_WAIT | ANIM_WAIT | WINNER | WIN_WAIT

fun state_num :: "game_state_t \<Rightarrow> nat" where
  "state_num IDLE = 0"
| "state_num IN_GAME = 1"
| "state_num COUNTDOWN = 2"
| "state_num STOP_WAIT = 3"
| "state_num ANIM_WAIT = 4"
| "state_num WINNER = 5"
| "state_num WIN_WAIT = 6"

lemma state_num_inject: "state_num a = state_num b \<Longrightarrow> a = b"
  by (cases a; cases b) simp_all

instantiation game_state_t :: linorder
begin

definition less_game_state_t :: "game_state_t \<Rightarrow> game_state_t \<Rightarrow> bool" where
  "less_game_state_t a b = (state_num a < state_num b)"

definition less_eq_game_state_t :: "game_state_t \<Rightarrow> game_state_t \<Rightarrow> bool" where
  "less_eq_game_state_t a b = (state_num a \<le> state_num b)"

instance
  by standard (auto simp: less_game_state_t_def less_eq_game_state_t_def intro: state_num_inject)

end

lemmas state_order = less_game_state_t_def less_eq_game_state_t_def

record sitter =
  m_ki :: kinum
  m_score :: u32
  m_choice :: int
  m_wins :: "byte list"
  s_current_game :: u32
  m_pending_winner :: bool

record heek = game_mgr +
  m_all :: "nat list"
  m_state :: game_state_t
  m_current_game :: u32
  m_point_pool :: u32
  m_sitting :: "nat option list"
  m_sitting_ct :: nat
  m_choice_ct :: nat
  m_pending_winner_ct :: nat
  m_cleanup :: int
  m_timer :: "nat option"
  memory :: "nat \<Rightarrow> sitter option"
  next_addr :: nat
  server_timers :: "unit timer_queue"

definition HeekGameMgr :: "u32 \<Rightarrow> heek" where
  "HeekGameMgr gid =
     \<lparr>m_gameid = gid, m_owner = 0, m_players = [], m_setups = [], m_all = [], m_state = IDLE, m_current_game = 0,
      m_point_pool = 0, m_sitting = replicate 5 None, m_sitting_ct = 0, m_choice_ct = 0, m_pending_winner_ct = 0,
      m_cleanup = -1, m_timer = None, memory = Map.empty, next_addr = 0,
      server_timers = \<lparr>tq_next = 0, tq_pending = []\<rparr>\<rparr>"

definition Sitter :: "kinum \<Rightarrow> u32 \<Rightarrow> sitter" where
  "Sitter player score =
     \<lparr>m_ki = player, m_score = score, m_choice = -1, m_wins = [0, 0, 0], s_current_game = 0, m_pending_winner = False\<rparr>"

definition reset_wins :: "sitter \<Rightarrow> sitter" where
  "reset_wins s = s\<lparr>m_wins := [0, 0, 0], m_pending_winner := False\<rparr>"

section \<open>Memory, timers, seats\<close>

definition sitter_at :: "nat \<Rightarrow> heek \<Rightarrow> sitter res" where
  "sitter_at a g = (case memory g a of None \<Rightarrow> Inl Use_After_Free | Some s \<Rightarrow> Inr s)"

definition update_sitter :: "nat \<Rightarrow> (sitter \<Rightarrow> sitter) \<Rightarrow> heek \<Rightarrow> heek res" where
  "update_sitter a f g = rbind (sitter_at a g) (\<lambda>s. Inr (g\<lparr>memory := (memory g)(a \<mapsto> f s)\<rparr>))"

definition start_timer :: "heek \<Rightarrow> heek" where
  "start_timer g = (case set_timer () (server_timers g) of (t, q) \<Rightarrow> g\<lparr>m_timer := Some t, server_timers := q\<rparr>)"

definition stop_timer :: "heek \<Rightarrow> heek res" where
  "stop_timer g = rbind (cancel_timer (m_timer g) (server_timers g)) (\<lambda>q. Inr (g\<lparr>m_timer := None, server_timers := q\<rparr>))"

text \<open>\<open>for (i = 0; i < 5; i++) if (m_sitting[i])\<close>; the body gets the pointer.\<close>

fun for_seats :: "(nat \<Rightarrow> 's \<Rightarrow> ('s \<times> out list) res) \<Rightarrow> nat option list \<Rightarrow> 's \<Rightarrow> ('s \<times> out list) res" where
  "for_seats body [] s = Inr (s, [])"
| "for_seats body (None # seats) s = for_seats body seats s"
| "for_seats body (Some a # seats) s = chain (body a s) (for_seats body seats)"

fun find_seat :: "kinum \<Rightarrow> nat \<Rightarrow> nat option list \<Rightarrow> heek \<Rightarrow> nat option res" where
  "find_seat player i [] g = Inr None"
| "find_seat player i (None # seats) g = find_seat player (i + 1) seats g"
| "find_seat player i (Some a # seats) g =
     rbind (sitter_at a g) (\<lambda>s. if m_ki s = player then Inr (Some i) else find_seat player (i + 1) seats g)"

definition get_player_index :: "kinum \<Rightarrow> heek \<Rightarrow> nat option res" where
  "get_player_index player g = find_seat player 0 (m_sitting g) g"

fun find_sitter :: "kinum \<Rightarrow> nat list \<Rightarrow> heek \<Rightarrow> nat option res" where
  "find_sitter player [] g = Inr None"
| "find_sitter player (a # as) g =
     rbind (sitter_at a g) (\<lambda>s. if m_ki s = player then Inr (Some a) else find_sitter player as g)"

definition tell_all_sitters :: "srv_msg \<Rightarrow> heek \<Rightarrow> (heek \<times> out list) res" where
  "tell_all_sitters msg g =
     for_seats (\<lambda>a g. rbind (sitter_at a g) (\<lambda>s. Inr (g, [Send (m_ki s) msg]))) (m_sitting g) g"

definition reset_game :: "heek \<Rightarrow> heek" where
  "reset_game g = g\<lparr>m_current_game := m_current_game g + 1, m_point_pool := 0\<rparr>"

definition reset_choices :: "heek \<Rightarrow> (heek \<times> out list) res" where
  "reset_choices g =
     for_seats (\<lambda>a g. rbind (update_sitter a (\<lambda>s. s\<lparr>m_choice := -1\<rparr>) g) (\<lambda>g. Inr (g, []))) (m_sitting g)
       (g\<lparr>m_choice_ct := 0\<rparr>)"

definition send_drop :: "heek \<Rightarrow> heek \<times> out list" where
  "send_drop g =
     (if m_cleanup g \<ge> 0 \<and> m_owner g \<noteq> 0
      then (g\<lparr>m_cleanup := -1\<rparr>,
            [Send (m_owner g) (GameMgr_OneByte_Message (m_gameid g) Srv2Cli_Heek_Drop (of_int (m_cleanup g)))])
      else (g, []))"

definition countdown_done :: "heek \<Rightarrow> heek \<times> out list" where
  "countdown_done g =
     (start_timer (g\<lparr>m_state := STOP_WAIT\<rparr>),
      [Send (m_owner g) (GameMgr_OneByte_Message (m_gameid g) Srv2Cli_Heek_CountdownState 1)])"

definition countdown_idle :: "heek \<Rightarrow> (heek \<times> out list) res" where
  "countdown_idle g =
     chain (Inr (g\<lparr>m_state := IN_GAME\<rparr>,
                 [Send (m_owner g) (GameMgr_OneByte_Message (m_gameid g) Srv2Cli_Heek_CountdownState 2)])) (\<lambda>g.
       if m_sitting_ct g > 1
       then tell_all_sitters (GameMgr_OneByte_Message (m_gameid g) Srv2Cli_Heek_InterfaceState 1) g
       else Inr (g, []))"

section \<open>A round\<close>

definition count_choices :: "heek \<Rightarrow> (nat \<times> nat \<times> nat) res" where
  "count_choices g =
     rbind (for_seats (\<lambda>a (r, p, s). rbind (sitter_at a g) (\<lambda>x.
              Inr (if m_choice x = 0 then (r + 1, p, s) else if m_choice x = 1 then (r, p + 1, s)
                   else if m_choice x = 2 then (r, p, s + 1) else (r, p, s), [])))
            (m_sitting g) (0, 0, 0)) (\<lambda>(counts, _). Inr counts)"

definition round_total :: "nat \<times> nat \<times> nat \<Rightarrow> int \<Rightarrow> int" where
  "round_total = (\<lambda>(rocks, papers, scissors) choice.
     if choice = 0 then int scissors - int papers
     else if choice = 1 then int rocks - int scissors
     else if choice = 2 then int papers - int rocks
     else -5)"

definition best_total :: "nat \<times> nat \<times> nat \<Rightarrow> heek \<Rightarrow> int res" where
  "best_total counts g =
     rbind (for_seats (\<lambda>a m. rbind (sitter_at a g) (\<lambda>x.
              Inr (if m_choice x \<in> {0, 1, 2} then max m (round_total counts (m_choice x)) else m, [])))
            (m_sitting g) (-5)) (\<lambda>(m, _). Inr m)"

text \<open>The loop that tells who has won and lost; the number counts those with three lights.\<close>

definition award_seat :: "nat \<times> nat \<times> nat \<Rightarrow> int \<Rightarrow> nat \<Rightarrow> heek \<times> nat \<Rightarrow> ((heek \<times> nat) \<times> out list) res" where
  "award_seat counts best a = (\<lambda>(g, game_winners).
     rbind (sitter_at a g) (\<lambda>x.
       if m_choice x < 0 then Inr ((g, game_winners), [])
       else let total = round_total counts (m_choice x);
                wins = (total > 0 \<and> total = best);
                told = [Send (m_ki x) (GameMgr_Heek_WinLose_Message (m_gameid g) wins (of_int (m_choice x)))]
            in if \<not> wins then Inr ((g, game_winners), told)
               else let choice = nat (m_choice x)
                    in if \<not> choice < length (m_wins x) then Inl Out_Of_Bounds
                       else let w = m_wins x ! choice + 1
                            in rbind (update_sitter a (\<lambda>x. x\<lparr>m_wins := (m_wins x)[choice := w]\<rparr>) g) (\<lambda>g.
                               if sint w > 2
                               then rbind (if m_pending_winner_ct g = 0
                                           then update_sitter a (\<lambda>x. x\<lparr>m_pending_winner := True\<rparr>) g else Inr g) (\<lambda>g.
                                    Inr ((g, game_winners + 1), told))
                               else Inr ((g, game_winners),
                                      told @ [Send (m_ki x) (GameMgr_Heek_Lights_Message (m_gameid g)
                                                (of_nat (2 * choice) + w - 1) 0)]))))"

definition wins_total :: "sitter \<Rightarrow> int" where
  "wins_total x = sint (m_wins x ! 0 + m_wins x ! 1 + m_wins x ! 2)"

definition best_wins :: "heek \<Rightarrow> int res" where
  "best_wins g =
     rbind (for_seats (\<lambda>a m. rbind (sitter_at a g) (\<lambda>x.
              Inr (if m_pending_winner x then max m (wins_total x) else m, []))) (m_sitting g) 0) (\<lambda>(m, _). Inr m)"

definition prune_seat :: "int \<Rightarrow> nat \<Rightarrow> heek \<times> nat \<Rightarrow> ((heek \<times> nat) \<times> out list) res" where
  "prune_seat best a = (\<lambda>(g, game_winners).
     rbind (sitter_at a g) (\<lambda>x.
       if \<not> m_pending_winner x then Inr ((g, game_winners), [])
       else if wins_total x = best then Inr ((g, game_winners + 1), [])
       else if m_pending_winner_ct g = 1 then Inr ((g, game_winners), [])
       else rbind (update_sitter a (\<lambda>x. x\<lparr>m_pending_winner := False\<rparr>) g) (\<lambda>g.
              Inr ((g\<lparr>m_pending_winner_ct := m_pending_winner_ct g - 1\<rparr>, game_winners), []))))"

definition settle :: "heek \<times> nat \<Rightarrow> ((heek \<times> nat) \<times> out list) res" where
  "settle = (\<lambda>(g, game_winners).
     if game_winners = 1 \<and> m_pending_winner_ct g = 0 then Inr ((g, game_winners), [])
     else if game_winners > 0 \<or> m_pending_winner_ct g > 0
     then rbind (best_wins g) (\<lambda>best. for_seats (prune_seat best) (m_sitting g) (g, 0))
     else Inr ((g, game_winners), []))"

fun first_pending :: "nat option list \<Rightarrow> heek \<Rightarrow> nat option res" where
  "first_pending [] g = Inr None"
| "first_pending (None # seats) g = first_pending seats g"
| "first_pending (Some a # seats) g =
     rbind (sitter_at a g) (\<lambda>x. if m_pending_winner x then Inr (Some a) else first_pending seats g)"

definition pay_winner :: "heek \<Rightarrow> (heek \<times> out list) res" where
  "pay_winner g =
     rbind (first_pending (m_sitting g) g) (\<lambda>found.
       case found of
         None \<Rightarrow> Inr (g, [])
       | Some a \<Rightarrow>
           rbind (sitter_at a g) (\<lambda>x.
           rbind (update_sitter a (\<lambda>x. x\<lparr>m_score := m_score x + m_point_pool g\<rparr>) g) (\<lambda>g.
             let light = of_int (2 * m_choice x)
             in Inr (g\<lparr>m_point_pool := 0\<rparr>,
                  [Send (m_ki x) (GameMgr_Heek_Lights_Message (m_gameid g) light 2),
                   Send (m_ki x) (GameMgr_Heek_Lights_Message (m_gameid g) (light + 1) 2)]))))"

definition conclude :: "heek \<times> nat \<Rightarrow> ((heek \<times> game_state_t) \<times> out list) res" where
  "conclude = (\<lambda>(g, game_winners).
     if m_pending_winner_ct g = 0 \<and> game_winners > 1
     then Inr ((g\<lparr>m_pending_winner_ct := game_winners\<rparr>, ANIM_WAIT), [])
     else if m_pending_winner_ct g > 1 then Inr ((g, ANIM_WAIT), [])
     else if game_winners = 1
     then chain (pay_winner (g\<lparr>m_pending_winner_ct := 0\<rparr>)) (\<lambda>g. Inr ((g, WINNER), []))
     else Inr ((g, ANIM_WAIT), []))"

definition decide :: "heek \<Rightarrow> ((heek \<times> game_state_t) \<times> out list) res" where
  "decide g =
     rbind (count_choices g) (\<lambda>counts. case counts of (rocks, papers, scissors) \<Rightarrow>
       if rocks + papers + scissors \<le> 1 then Inr ((g, IN_GAME), [])
       else rbind (best_total counts g) (\<lambda>best.
            chain (for_seats (award_seat counts best) (m_sitting g) (g, 0)) (\<lambda>s. chain (settle s) conclude)))"

definition handle_round :: "heek \<Rightarrow> (heek \<times> out list) res" where
  "handle_round g =
     chain (tell_all_sitters (GameMgr_OneByte_Message (m_gameid g) Srv2Cli_Heek_InterfaceState 0) g) (\<lambda>g.
     chain (decide g) (\<lambda>(g, next_state).
       if next_state = ANIM_WAIT \<or> next_state = WINNER then Inr (start_timer (g\<lparr>m_state := next_state\<rparr>), [])
       else countdown_idle g))"

definition winner_seat :: "nat \<Rightarrow> heek \<Rightarrow> (heek \<times> out list) res" where
  "winner_seat a g =
     rbind (sitter_at a g) (\<lambda>x.
     rbind (if m_pending_winner x then update_sitter a (\<lambda>x. x\<lparr>m_pending_winner := False\<rparr>) g else Inr g) (\<lambda>g.
       Inr (g, (if m_pending_winner x
                then [Send (m_owner g) (GameMgr_OneByte_Message (m_gameid g) Srv2Cli_Heek_GameWin (of_int (m_choice x)))]
                else []) @
               (if s_current_game x = m_current_game g
                then [Send (m_ki x) (GameMgr_Heek_PointUpdate_Message (m_gameid g) True (m_score x) 1)] else []))))"

definition handle_winner :: "heek \<Rightarrow> (heek \<times> out list) res" where
  "handle_winner g =
     chain (for_seats winner_seat (m_sitting g) g) (\<lambda>g. Inr (start_timer (g\<lparr>m_state := WIN_WAIT\<rparr>), []))"

section \<open>Players come and go\<close>

definition forget_choice :: "nat \<Rightarrow> heek \<Rightarrow> heek res" where
  "forget_choice a g =
     rbind (sitter_at a g) (\<lambda>x.
       if m_choice x \<ge> 0
       then update_sitter a (\<lambda>x. x\<lparr>m_choice := -1\<rparr>)
              (if m_state g > IN_GAME \<and> m_choice_ct g > 0 then g\<lparr>m_choice_ct := m_choice_ct g - 1\<rparr> else g)
       else Inr g)"

definition disable_interface :: "nat \<Rightarrow> heek \<Rightarrow> (heek \<times> out list) res" where
  "disable_interface a g =
     (let state = GameMgr_OneByte_Message (m_gameid g) Srv2Cli_Heek_InterfaceState 0
      in if m_state g < ANIM_WAIT
         then if m_sitting_ct g < 2 then Inr (g, [])
              else if m_sitting_ct g = 2 then tell_all_sitters state g
              else rbind (sitter_at a g) (\<lambda>x. Inr (g, [Send (m_ki x) state]))
         else Inr (g, []))"

definition forget_winner :: "nat \<Rightarrow> heek \<Rightarrow> heek res" where
  "forget_winner a g =
     rbind (sitter_at a g) (\<lambda>x.
       if m_pending_winner x
       then rbind (update_sitter a (\<lambda>x. x\<lparr>m_pending_winner := False\<rparr>) g) (\<lambda>g.
            Inr (if m_pending_winner_ct g > 0 then g\<lparr>m_pending_winner_ct := m_pending_winner_ct g - 1\<rparr> else g))
       else Inr g)"

definition handle_departure :: "nat \<Rightarrow> heek \<Rightarrow> (heek \<times> out list) res" where
  "handle_departure position g =
     (case m_sitting g ! position of
        None \<Rightarrow> Inl Null_Pointer
      | Some a \<Rightarrow>
          chain (Inr (if m_sitting_ct g = 1
                      then (let g = reset_game g
                            in if m_state g = COUNTDOWN then countdown_done g else (g\<lparr>m_state := IDLE\<rparr>, []))
                      else (g, []))) (\<lambda>g.
          rbind (forget_choice a g) (\<lambda>g.
          chain (disable_interface a g) (\<lambda>g.
          rbind (forget_winner a g) (\<lambda>g.
          Inr (g\<lparr>m_sitting := (m_sitting g)[position := None],
                 m_sitting_ct := (if m_sitting_ct g > 0 then m_sitting_ct g - 1 else m_sitting_ct g)\<rparr>, []))))))"

definition hk_initialize_game :: "gm_msg \<Rightarrow> kinum \<Rightarrow> heek \<Rightarrow> (bool \<times> heek \<times> out list) res" where
  "hk_initialize_game msg player g =
     (let g = (if m_owner g = 0 then g\<lparr>m_owner := player\<rparr> else g);
          g = add_player player g
      in rbind (send_setup_reply msg player g) (\<lambda>o1.
           let o2 = send_join player g;
               (g, o3) = (if m_cleanup g \<ge> 0 \<and> m_owner g = player then send_drop g else (g, []))
           in Inr (True, g, o1 @ o2 @ o3)))"

text \<open>
  The loop over \<open>m_all\<close> is left after its first turn: \<open>erase\<close> and \<open>break\<close> are not part of the \<open>if\<close>.
\<close>

definition drop_sitter :: "kinum \<Rightarrow> heek \<Rightarrow> heek res" where
  "drop_sitter player g =
     (case m_all g of
        [] \<Rightarrow> Inr g
      | a # as \<Rightarrow>
          rbind (sitter_at a g) (\<lambda>x.
          Inr ((if m_ki x = player then g\<lparr>memory := (memory g)(a := None)\<rparr> else g)\<lparr>m_all := as\<rparr>)))"

definition hk_player_left :: "kinum \<Rightarrow> heek \<Rightarrow> (heek \<times> out list) res" where
  "hk_player_left player g =
     rbind (get_player_index player g) (\<lambda>idx.
       chain (case idx of
           None \<Rightarrow> Inr (g, [])
         | Some i \<Rightarrow>
             let g = g\<lparr>m_cleanup := int i\<rparr>
             in chain (Inr (if player = m_owner g then (g, []) else send_drop g)) (handle_departure i)) (\<lambda>g.
       rbind (drop_sitter player g) (\<lambda>g.
         let (g, o1) = GameMgr_player_left player g;
             (g, o2) = (if m_cleanup g \<ge> 0 \<and> m_owner g \<noteq> 0 then send_drop g else (g, []))
         in Inr (g, o1 @ o2))))"

section \<open>Messages\<close>

text \<open>A name as it was read, not copied, sent in a field of 512 bytes.\<close>

definition heek_welcome ::
  "iconv \<Rightarrow> (nat \<Rightarrow> byte list) \<Rightarrow> u32 \<Rightarrow> u32 \<Rightarrow> u32 \<Rightarrow> uru_string \<Rightarrow> srv_msg res" where
  "heek_welcome conv alloc gid score rank name =
     rbind (send_len conv alloc name False True True) (\<lambda>(off, name).
     rbind (get_str conv alloc name False True True False) (\<lambda>(str, name).
     rbind (slice 0 off str) (\<lambda>text.
       if off \<le> 512
       then Inr (GameMgr_Heek_Welcome_Message gid score rank (text @ replicate (512 - off) 0))
       else Inl Out_Of_Bounds)))"

text \<open>The sitter of a player who sits down, and the score he claims.\<close>

definition this_guy :: "kinum \<Rightarrow> u32 \<Rightarrow> heek \<Rightarrow> (heek \<times> nat) res" where
  "this_guy player score g =
     rbind (find_sitter player (m_all g) g) (\<lambda>found.
       case found of
         None \<Rightarrow>
           Inr (g\<lparr>memory := (memory g)(next_addr g \<mapsto> Sitter player score), m_all := m_all g @ [next_addr g],
                  next_addr := next_addr g + 1\<rparr>, next_addr g)
       | Some a \<Rightarrow>
           rbind (update_sitter a (\<lambda>x.
                let y = (if s_current_game x = m_current_game g \<and> m_score x \<noteq> score then x else x\<lparr>m_score := score\<rparr>);
                    z = (if s_current_game x \<noteq> m_current_game g then reset_wins y else y)
                in if m_choice z \<noteq> -1 then z\<lparr>m_choice := -1\<rparr> else z) g) (\<lambda>g. Inr (g, a)))"

definition enable_others :: "nat \<Rightarrow> heek \<Rightarrow> (heek \<times> out list) res" where
  "enable_others a g =
     (if m_sitting_ct g = 2 \<and> m_state g < COUNTDOWN
      then for_seats (\<lambda>b g.
             if b = a then Inr (g, [])
             else rbind (sitter_at b g) (\<lambda>x.
               Inr (g, [Send (m_ki x) (GameMgr_OneByte_Message (m_gameid g) Srv2Cli_Heek_InterfaceState 1)])))
           (m_sitting g) g
      else Inr (g, []))"

definition play_game :: "iconv \<Rightarrow> (nat \<Rightarrow> byte list) \<Rightarrow> gm_msg \<Rightarrow> kinum \<Rightarrow> heek \<Rightarrow> (heek \<times> out list) res" where
  "play_game conv alloc msg player g =
     (if length (gm_buf msg) < header_len + 5 + 512 then Inl Truncated_Message
      else if m_sitting_ct g \<ge> 5 then Inr (g, [])
      else rbind (get8 (gm_buf msg) header_len) (\<lambda>position.
        if unat position \<ge> 5 then Inl Out_Of_Bounds
        else case m_sitting g ! unat position of
            Some b \<Rightarrow> rbind (sitter_at b g) (\<lambda>_. Inr (g, []))
          | None \<Rightarrow>
              rbind (read32 (gm_buf msg) (header_len + 1)) (\<lambda>score.
              rbind (this_guy player score g) (\<lambda>(g, a).
                let g = g\<lparr>m_sitting_ct := m_sitting_ct g + 1, m_sitting := (m_sitting g)[unat position := Some a]\<rparr>
                in chain (Inr (g, [Send player (GameMgr_Heek_PlayGame_Message (m_gameid g) True (m_sitting_ct g = 1)
                                     (m_sitting_ct g > 1 \<and> m_state g < COUNTDOWN))])) (\<lambda>g.
                   chain (enable_others a g) (\<lambda>g.
                   rbind (UruString_buf (drop (header_len + 5) (gm_buf msg)) 512 False True False) (\<lambda>avatar_name.
                   rbind (sitter_at a g) (\<lambda>x.
                   rbind (heek_welcome conv alloc (m_gameid g) (m_score x) 1 avatar_name) (\<lambda>welcome.
                   tell_all_sitters welcome g)))))))))"

definition start_countdown :: "heek \<Rightarrow> (heek \<times> out list) res" where
  "start_countdown g =
     chain (reset_choices (g\<lparr>m_state := COUNTDOWN\<rparr>)) (\<lambda>g.
       Inr (start_timer g, [Send (m_owner g) (GameMgr_OneByte_Message (m_gameid g) Srv2Cli_Heek_CountdownState 0)]))"

definition join_round :: "nat \<Rightarrow> heek \<Rightarrow> (heek \<times> out list) res" where
  "join_round a g =
     rbind (sitter_at a g) (\<lambda>x.
       if s_current_game x \<noteq> m_current_game g
       then rbind (update_sitter a (\<lambda>x. (reset_wins (x\<lparr>s_current_game := m_current_game g\<rparr>))\<lparr>m_score := m_score x - 1\<rparr>) g) (\<lambda>g.
            Inr (g\<lparr>m_point_pool := m_point_pool g + 1\<rparr>,
                 [Send (m_ki x) (GameMgr_Heek_PointUpdate_Message (m_gameid g) False (m_score x - 1) 1)]))
       else Inr (g, []))"

definition register_choice :: "nat \<Rightarrow> byte \<Rightarrow> heek \<Rightarrow> (heek \<times> out list) res" where
  "register_choice a choice g =
     chain (join_round a g) (\<lambda>g.
     rbind (sitter_at a g) (\<lambda>x.
     rbind (update_sitter a (\<lambda>x. x\<lparr>m_choice := sint choice\<rparr>)
              (if m_choice x < 0 then g\<lparr>m_choice_ct := m_choice_ct g + 1\<rparr> else g)) (\<lambda>g.
       if m_choice_ct g \<ge> m_sitting_ct g
       then rbind (stop_timer g) (\<lambda>g. Inr (countdown_done g))
       else Inr (g, []))))"

definition heek_choose :: "gm_msg \<Rightarrow> kinum \<Rightarrow> heek \<Rightarrow> (heek \<times> out list) res" where
  "heek_choose msg player g =
     (if length (gm_buf msg) < header_len + 1 then Inl Truncated_Message
      else if m_sitting_ct g < 2 then Inr (g, [])
      else rbind (get8 (gm_buf msg) header_len) (\<lambda>choice.
        let g = (if m_state g = IDLE then reset_game (g\<lparr>m_state := IN_GAME\<rparr>) else g)
        in chain (if m_state g = IN_GAME then start_countdown g else Inr (g, [])) (\<lambda>g.
           if m_state g = COUNTDOWN
           then if choice > 2 then Inr (g, [])
                else rbind (get_player_index player g) (\<lambda>idx.
                  case idx of
                    None \<Rightarrow> Inr (g, [])
                  | Some i \<Rightarrow> (case m_sitting g ! i of None \<Rightarrow> Inl Null_Pointer | Some a \<Rightarrow> register_choice a choice g))
           else Inr (g, []))))"

definition seq_finished :: "gm_msg \<Rightarrow> kinum \<Rightarrow> heek \<Rightarrow> (heek \<times> out list) res" where
  "seq_finished msg player g =
     (if length (gm_buf msg) < header_len + 1 then Inl Truncated_Message
      else if player \<noteq> m_owner g then Inr (g, [])
      else rbind (get8 (gm_buf msg) header_len) (\<lambda>seq.
        if seq = 0
        then if m_state g = STOP_WAIT then rbind (stop_timer g) handle_round else Inr (g, [])
        else if seq = 1
        then if m_state g = ANIM_WAIT \<or> m_state g = WINNER
             then rbind (stop_timer g) (\<lambda>g. if m_state g = ANIM_WAIT then countdown_idle g else handle_winner g)
             else Inr (g, [])
        else if seq = 2
        then if m_state g = WIN_WAIT
             then rbind (stop_timer g) (\<lambda>g. chain (countdown_idle g) (\<lambda>g. Inr (g\<lparr>m_state := IDLE\<rparr>, [])))
             else Inr (g, [])
        else Inr (g, [])))"

definition leave_game :: "kinum \<Rightarrow> heek \<Rightarrow> (heek \<times> out list) res" where
  "leave_game player g =
     rbind (get_player_index player g) (\<lambda>idx.
       case idx of
         None \<Rightarrow> Inr (g, [])
       | Some i \<Rightarrow>
           (case m_sitting g ! i of
              None \<Rightarrow> Inl Null_Pointer
            | Some a \<Rightarrow>
                rbind (if m_sitting_ct g = 1 then update_sitter a (\<lambda>x. x\<lparr>m_score := m_score x + m_point_pool g\<rparr>) g
                       else Inr g) (\<lambda>g.
                rbind (sitter_at a g) (\<lambda>x.
                chain (Inr (g, [Send player (GameMgr_Heek_PointUpdate_Message (m_gameid g)
                                  (m_sitting_ct g = 1 \<and> m_point_pool g > 1) (m_score x) 1),
                                Send player (GameMgr_Simple_Message (m_gameid g) Srv2Cli_Heek_Goodbye)]))
                  (handle_departure i)))))"

definition hk_got_message ::
  "iconv \<Rightarrow> (nat \<Rightarrow> byte list) \<Rightarrow> gm_msg \<Rightarrow> kinum \<Rightarrow> heek \<Rightarrow> (bool \<times> heek \<times> out list) res" where
  "hk_got_message conv alloc msg player g =
     (let handled = (\<lambda>(g, os). Inr (True, g, os))
      in if gm_msgtype msg = 3 then rbind (play_game conv alloc msg player g) handled
         else if gm_msgtype msg = 5 then rbind (heek_choose msg player g) handled
         else if gm_msgtype msg = 6 then rbind (seq_finished msg player g) handled
         else if gm_msgtype msg = 4 then rbind (leave_game player g) handled
         else Inr (False, g, []))"

definition hk_handle_timeout :: "heek \<Rightarrow> (heek \<times> out list) res" where
  "hk_handle_timeout g =
     (if m_state g = COUNTDOWN
      then if m_choice_ct g > 1 then Inr (countdown_done g) else countdown_idle g
      else if m_state g = STOP_WAIT then handle_round (g\<lparr>m_timer := None\<rparr>)
      else if m_state g = ANIM_WAIT then countdown_idle (g\<lparr>m_timer := None\<rparr>)
      else if m_state g = WINNER then handle_winner g
      else if m_state g = WIN_WAIT
      then chain (countdown_idle (g\<lparr>m_timer := None\<rparr>)) (\<lambda>g. Inr (g\<lparr>m_state := IDLE\<rparr>, []))
      else Inr (g, []))"

definition hk_fire :: "nat \<Rightarrow> heek \<Rightarrow> (heek \<times> out list) res" where
  "hk_fire i g =
     (case map_of (tq_pending (server_timers g)) i of
        None \<Rightarrow> Inr (g, [])
      | Some _ \<Rightarrow> hk_handle_timeout (g\<lparr>server_timers := expire i (server_timers g)\<rparr>))"

fun hk_step :: "iconv \<Rightarrow> (nat \<Rightarrow> byte list) \<Rightarrow> (unit, nat) mgr_event \<Rightarrow> heek \<Rightarrow> (heek \<times> out list) res" where
  "hk_step conv alloc (Setup_Msg msg player) g = rbind (hk_initialize_game msg player g) (\<lambda>(ok, g', os). Inr (g', os))"
| "hk_step conv alloc (Game_Msg _ msg player) g = rbind (hk_got_message conv alloc msg player g) (\<lambda>(ok, g', os). Inr (g', os))"
| "hk_step conv alloc (Player_Left player) g = hk_player_left player g"
| "hk_step conv alloc (Own_Event i) g = hk_fire i g"

section \<open>What the table keeps\<close>

definition sitter_ok :: "sitter \<Rightarrow> bool" where
  "sitter_ok x \<longleftrightarrow> length (m_wins x) = 3 \<and> m_choice x \<in> {-1, 0, 1, 2}"

definition seated :: "heek \<Rightarrow> nat list" where
  "seated g = List.map_filter (\<lambda>s. s) (m_sitting g)"

definition ki_at :: "heek \<Rightarrow> nat \<Rightarrow> kinum" where
  "ki_at g a = m_ki (the (memory g a))"

text \<open>All points: those the players have and those in the pool.\<close>

definition points :: "heek \<Rightarrow> u32" where
  "points g = (\<Sum>a \<in> dom (memory g). m_score (the (memory g a))) + m_point_pool g"

definition table_ok :: "heek \<Rightarrow> bool" where
  "table_ok g \<longleftrightarrow> roster_ok g \<and> queue_wf (server_timers g) \<and> length (m_sitting g) = 5 \<and>
     set (seated g) \<subseteq> dom (memory g) \<and> set (m_all g) \<subseteq> dom (memory g) \<and> distinct (m_all g) \<and>
     distinct (map (ki_at g) (seated g)) \<and> m_sitting_ct g = length (seated g) \<and>
     (\<forall>x \<in> ran (memory g). sitter_ok x) \<and> dom (memory g) \<subseteq> {..<next_addr g}"

definition timer_ok :: "heek \<Rightarrow> bool" where
  "timer_ok g \<longleftrightarrow> (COUNTDOWN \<le> m_state g \<longrightarrow> m_timer g \<noteq> None \<and> timer_pending (m_timer g) (server_timers g))"

definition pool_ok :: "heek \<Rightarrow> bool" where
  "pool_ok g \<longleftrightarrow> (m_state g \<in> {IDLE, WINNER, WIN_WAIT} \<longrightarrow> m_point_pool g = 0)"

definition hk_inv :: "heek \<Rightarrow> bool" where
  "hk_inv g \<longleftrightarrow> table_ok g \<and> timer_ok g \<and> pool_ok g"

text \<open>Nothing but lights, choices, candidates and the place of the points has changed.\<close>

definition table_view where
  "table_view g = (m_players g, m_owner g, m_gameid g, m_sitting g, m_sitting_ct g, m_all g, next_addr g,
     server_timers g, m_timer g, m_state g, m_current_game g, points g)"

definition kept :: "sitter option \<Rightarrow> sitter option \<Rightarrow> bool" where
  "kept u v \<longleftrightarrow> (u = None \<longleftrightarrow> v = None) \<and>
     (\<forall>x y. u = Some x \<longrightarrow> v = Some y \<longrightarrow> m_ki y = m_ki x \<and> (sitter_ok x \<longrightarrow> sitter_ok y))"

definition same_table :: "heek \<Rightarrow> heek \<Rightarrow> bool" where
  "same_table g g' \<longleftrightarrow> table_view g' = table_view g \<and> (\<forall>a. kept (memory g a) (memory g' a))"

lemma kept_refl [simp]: "kept u u"
  by (simp add: kept_def)

lemma kept_trans: "kept u v \<Longrightarrow> kept v w \<Longrightarrow> kept u w"
  by (cases u; cases v; cases w) (simp_all add: kept_def)

lemma same_refl [simp]: "same_table g g"
  by (simp add: same_table_def)

lemma same_trans: "same_table g g' \<Longrightarrow> same_table g' g'' \<Longrightarrow> same_table g g''"
  unfolding same_table_def using kept_trans by metis

lemma same_dom: "same_table g g' \<Longrightarrow> dom (memory g') = dom (memory g)"
  by (auto simp: same_table_def kept_def dom_def)

lemma same_fields:
  assumes "same_table g g'"
  shows "m_players g' = m_players g" "m_owner g' = m_owner g" "m_gameid g' = m_gameid g" "m_sitting g' = m_sitting g"
    "m_sitting_ct g' = m_sitting_ct g" "m_all g' = m_all g" "next_addr g' = next_addr g"
    "server_timers g' = server_timers g" "m_timer g' = m_timer g" "m_state g' = m_state g"
    "m_current_game g' = m_current_game g" "points g' = points g"
  using assms by (simp_all add: same_table_def table_view_def)

lemma same_seated: "same_table g g' \<Longrightarrow> seated g' = seated g"
  by (simp add: seated_def same_fields)

lemma same_ki:
  assumes "same_table g g'"
  shows "ki_at g' a = ki_at g a"
proof -
  have "kept (memory g a) (memory g' a)" using assms by (simp add: same_table_def)
  then show ?thesis by (cases "memory g a"; cases "memory g' a") (simp_all add: kept_def ki_at_def)
qed

lemma same_ok:
  assumes s: "same_table g g'" and ok: "table_ok g"
  shows "table_ok g'"
proof -
  have "sitter_ok y" if y: "memory g' a = Some y" for a y
  proof -
    have "kept (memory g a) (memory g' a)" using s by (simp add: same_table_def)
    with y obtain x where "memory g a = Some x" "sitter_ok x \<longrightarrow> sitter_ok y" by (auto simp: kept_def)
    with ok show ?thesis by (auto simp: table_ok_def ran_def)
  qed
  then have "\<forall>x \<in> ran (memory g'). sitter_ok x" by (auto simp: ran_def)
  moreover have "map (ki_at g') (seated g) = map (ki_at g) (seated g)" using same_ki [OF s] by simp
  moreover have "roster_ok g' = roster_ok g" using same_fields [OF s] by (simp add: roster_ok_def)
  ultimately show ?thesis
    using ok unfolding table_ok_def same_dom [OF s] same_seated [OF s] same_fields [OF s] by metis
qed

lemma seat_alive:
  assumes "table_ok g" and "Some a \<in> set (m_sitting g)"
  obtains x where "memory g a = Some x" "sitter_at a g = Inr x" "sitter_ok x"
proof -
  have "a \<in> set (seated g)" using assms(2) by (force simp: seated_def List.map_filter_def)
  with assms(1) obtain x where "memory g a = Some x" by (auto simp: table_ok_def)
  with assms(1) that show thesis by (auto simp: table_ok_def sitter_at_def ran_def)
qed

text \<open>Changing a sitter.\<close>

lemma points_update:
  assumes "finite (dom (memory g))" and "memory g a = Some x"
  shows "points (g\<lparr>memory := (memory g)(a \<mapsto> y)\<rparr>) = points g + m_score y - m_score x"
proof -
  let ?f = "\<lambda>b. m_score (the (((memory g)(a \<mapsto> y)) b))"
  have d: "dom ((memory g)(a \<mapsto> y)) = dom (memory g)" using assms(2) by auto
  have a: "a \<in> dom (memory g)" using assms(2) by auto
  have "(\<Sum>b \<in> dom (memory g). ?f b) = ?f a + (\<Sum>b \<in> dom (memory g) - {a}. ?f b)"
    by (rule sum.remove [OF assms(1) a])
  also have "(\<Sum>b \<in> dom (memory g) - {a}. ?f b) = (\<Sum>b \<in> dom (memory g) - {a}. m_score (the (memory g b)))"
    by (rule sum.cong) auto
  also have "\<dots> = (\<Sum>b \<in> dom (memory g). m_score (the (memory g b))) - m_score x"
    using sum.remove [OF assms(1) a, of "\<lambda>b. m_score (the (memory g b))"] assms(2) by simp
  finally show ?thesis by (simp add: points_def d del: dom_fun_upd)
qed

lemma table_finite: "table_ok g \<Longrightarrow> finite (dom (memory g))"
  using finite_subset [of "dom (memory g)" "{..<next_addr g}"] by (simp add: table_ok_def)

lemma update_same:
  assumes "table_ok g" and "memory g a = Some x" and "m_ki (f x) = m_ki x" and "sitter_ok x \<Longrightarrow> sitter_ok (f x)"
    and "m_score (f x) = m_score x"
  shows "\<exists>g'. update_sitter a f g = Inr g' \<and> g' = g\<lparr>memory := (memory g)(a \<mapsto> f x)\<rparr> \<and> same_table g g'"
proof -
  let ?g = "g\<lparr>memory := (memory g)(a \<mapsto> f x)\<rparr>"
  have "update_sitter a f g = Inr ?g" using assms(2) by (simp add: update_sitter_def sitter_at_def)
  moreover have "points ?g = points g"
    using points_update [OF table_finite [OF assms(1)] assms(2), of "f x"] assms(5) by simp
  then have "same_table g ?g" using assms(2-4) by (simp add: same_table_def table_view_def kept_def)
  ultimately show ?thesis by blast
qed

lemma for_seats_fine [fine_intros]:
  assumes "\<And>a s. Some a \<in> set seats \<Longrightarrow> R s \<Longrightarrow> fine (body a s) R" and "R s"
  shows "fine (for_seats body seats s) R"
  using assms
proof (induction body seats s rule: for_seats.induct)
  case (3 body a seats s)
  have "fine (body a s) R" using 3 by simp
  moreover have "fine (for_seats body seats t) R" if "R t" for t using 3 that by simp
  ultimately show ?case by (simp add: fine_chain)
qed simp_all

lemma tell_fine:
  assumes "table_ok g"
  shows "fine (tell_all_sitters msg g) (\<lambda>g'. g' = g)"
  unfolding tell_all_sitters_def
proof (rule for_seats_fine)
  fix a s
  assume "Some a \<in> set (m_sitting g)" "s = g"
  moreover obtain x where "sitter_at a g = Inr x" using seat_alive [OF assms calculation(1)] by metis
  ultimately show "fine (rbind (sitter_at a s) (\<lambda>x. Inr (s, [Send (m_ki x) msg]))) (\<lambda>g'. g' = g)" by simp
qed simp

lemma ki_at_cong: "memory g = memory h \<Longrightarrow> ki_at g = ki_at h"
  by (simp add: ki_at_def fun_eq_iff)

lemma same_update [simp]:
  "same_table g (h\<lparr>m_pending_winner_ct := n\<rparr>) = same_table g h"
  "same_table g (h\<lparr>m_choice_ct := n\<rparr>) = same_table g h"
  "same_table g (h\<lparr>m_cleanup := c\<rparr>) = same_table g h"
  "table_ok (h\<lparr>m_pending_winner_ct := n\<rparr>) = table_ok h" "table_ok (h\<lparr>m_choice_ct := n\<rparr>) = table_ok h"
  "table_ok (h\<lparr>m_cleanup := c\<rparr>) = table_ok h"
  using ki_at_cong [of "h\<lparr>m_pending_winner_ct := n\<rparr>" h] ki_at_cong [of "h\<lparr>m_choice_ct := n\<rparr>" h]
    ki_at_cong [of "h\<lparr>m_cleanup := c\<rparr>" h]
  by (simp_all add: same_table_def table_view_def points_def table_ok_def roster_ok_def seated_def)

lemma seat_reached:
  assumes "table_ok g" and "same_table g h" and "Some a \<in> set (m_sitting g)"
  obtains x where "memory h a = Some x" "sitter_at a h = Inr x" "sitter_ok x" "table_ok h"
proof -
  have "table_ok h" using same_ok [OF assms(2,1)] .
  moreover have "Some a \<in> set (m_sitting h)" using assms(3) same_fields [OF assms(2)] by simp
  ultimately show thesis using seat_alive that by metis
qed

lemma ok_wins: "sitter_ok x \<Longrightarrow> sitter_ok (x\<lparr>m_wins := (m_wins x)[i := w]\<rparr>)"
  "sitter_ok x \<Longrightarrow> sitter_ok (x\<lparr>m_pending_winner := b\<rparr>)" "sitter_ok x \<Longrightarrow> sitter_ok (x\<lparr>m_choice := -1\<rparr>)"
  "sitter_ok x \<Longrightarrow> sitter_ok (reset_wins x)" "sitter_ok x \<Longrightarrow> sitter_ok (x\<lparr>m_score := v\<rparr>)"
  "sitter_ok x \<Longrightarrow> sitter_ok (x\<lparr>s_current_game := v\<rparr>)"
  by (simp_all add: sitter_ok_def reset_wins_def)

text \<open>One turn of a loop that changes the sitter it looks at.\<close>

lemma turn_update:
  assumes "table_ok g" and "same_table g h" and "memory h a = Some x" and "m_ki (f x) = m_ki x"
    and "sitter_ok x \<Longrightarrow> sitter_ok (f x)" and "m_score (f x) = m_score x"
  shows "\<exists>g'. update_sitter a f h = Inr g' \<and> g' = h\<lparr>memory := (memory h)(a \<mapsto> f x)\<rparr> \<and> same_table g g'"
proof -
  have "table_ok h" using assms(1,2) same_ok by blast
  from update_same [OF this assms(3), of f] assms(4-6) same_trans [OF assms(2)] show ?thesis by blast
qed

lemma read_loop_fine:
  assumes "table_ok g" and "Some a \<in> set (m_sitting g)"
  shows "fine (rbind (sitter_at a g) (\<lambda>x. Inr (F x, []))) (\<lambda>_. True)"
proof -
  obtain x where "sitter_at a g = Inr x" using seat_alive [OF assms] by metis
  then show ?thesis by simp
qed

lemma loop_value:
  assumes "table_ok g"
  shows "\<exists>v. rbind (for_seats (\<lambda>a m. rbind (sitter_at a g) (\<lambda>x. Inr (F m x, []))) (m_sitting g) z) (\<lambda>(m, _). Inr m) = Inr v"
proof -
  have "fine (for_seats (\<lambda>a m. rbind (sitter_at a g) (\<lambda>x. Inr (F m x, []))) (m_sitting g) z) (\<lambda>_. True)"
    by (rule for_seats_fine) (use read_loop_fine [OF assms] in blast)+
  then show ?thesis by (elim fineE) simp
qed

lemma award_fine:
  assumes "table_ok g" and "same_table g h" and "Some a \<in> set (m_sitting g)"
  shows "fine (award_seat counts best a (h, w)) (\<lambda>s. same_table g (fst s))"
proof -
  obtain x where x: "memory h a = Some x" "sitter_at a h = Inr x" "sitter_ok x" "table_ok h"
    using seat_reached [OF assms] .
  show ?thesis
  proof (cases "m_choice x < 0 \<or> \<not> (round_total counts (m_choice x) > 0 \<and> round_total counts (m_choice x) = best)")
    case True
    with x assms(2) show ?thesis by (auto simp: award_seat_def Let_def)
  next
    case False
    let ?c = "nat (m_choice x)"
    have c: "?c < length (m_wins x)" using x(3) False by (auto simp: sitter_ok_def)
    let ?f = "\<lambda>x. x\<lparr>m_wins := (m_wins x)[?c := m_wins x ! ?c + 1]\<rparr>"
    let ?h = "h\<lparr>memory := (memory h)(a \<mapsto> x\<lparr>m_wins := (m_wins x)[?c := m_wins x ! ?c + 1]\<rparr>)\<rparr>"
    have u: "update_sitter a (\<lambda>y. y\<lparr>m_wins := (m_wins y)[?c := m_wins x ! ?c + 1]\<rparr>) h = Inr ?h" "same_table g ?h"
      using turn_update [OF assms(1,2) x(1), of "\<lambda>y. y\<lparr>m_wins := (m_wins y)[?c := m_wins x ! ?c + 1]\<rparr>"] ok_wins by auto
    have "\<exists>h2. (if m_pending_winner_ct ?h = 0 then update_sitter a (\<lambda>x. x\<lparr>m_pending_winner := True\<rparr>) ?h else Inr ?h) = Inr h2 \<and>
        same_table g h2"
      using turn_update [OF assms(1) u(2), of a "x\<lparr>m_wins := (m_wins x)[?c := m_wins x ! ?c + 1]\<rparr>" "\<lambda>x. x\<lparr>m_pending_winner := True\<rparr>"]
        ok_wins u(2) by auto
    then obtain h2 where h2: "(if m_pending_winner_ct ?h = 0 then update_sitter a (\<lambda>x. x\<lparr>m_pending_winner := True\<rparr>) ?h else Inr ?h) = Inr h2"
      "same_table g h2" by blast
    show ?thesis
      using False c u(2) h2(2) unfolding award_seat_def prod.case x(2) rbind_Inr Let_def u(1) h2(1) by simp
  qed
qed

lemma prune_fine:
  assumes "table_ok g" and "same_table g h" and "Some a \<in> set (m_sitting g)"
  shows "fine (prune_seat best a (h, w)) (\<lambda>s. same_table g (fst s))"
proof -
  obtain x where x: "memory h a = Some x" "sitter_at a h = Inr x" "sitter_ok x" "table_ok h"
    using seat_reached [OF assms] .
  obtain h2 where "update_sitter a (\<lambda>x. x\<lparr>m_pending_winner := False\<rparr>) h = Inr h2" "same_table g h2"
    using turn_update [OF assms(1,2) x(1), of "\<lambda>x. x\<lparr>m_pending_winner := False\<rparr>"] ok_wins by auto
  with x(2) assms(2) show ?thesis by (simp add: prune_seat_def)
qed

lemma winner_seat_fine:
  assumes "table_ok g" and "same_table g h" and "Some a \<in> set (m_sitting g)"
  shows "fine (winner_seat a h) (\<lambda>g'. same_table g g' \<and> m_point_pool g' = m_point_pool h)"
proof -
  obtain x where x: "memory h a = Some x" "sitter_at a h = Inr x" "sitter_ok x" "table_ok h"
    using seat_reached [OF assms] .
  obtain h2 where "update_sitter a (\<lambda>x. x\<lparr>m_pending_winner := False\<rparr>) h = Inr h2" "same_table g h2"
    "m_point_pool h2 = m_point_pool h"
    using turn_update [OF assms(1,2) x(1), of "\<lambda>x. x\<lparr>m_pending_winner := False\<rparr>"] ok_wins by auto
  with x(2) assms(2) show ?thesis by (simp add: winner_seat_def)
qed

lemma reset_choices_fine:
  assumes "table_ok g"
  shows "fine (reset_choices g) (same_table g)"
  unfolding reset_choices_def
proof (rule for_seats_fine)
  fix a h
  assume a: "Some a \<in> set (m_sitting g)" "same_table g h"
  obtain x where x: "memory h a = Some x" "sitter_at a h = Inr x" "sitter_ok x" "table_ok h"
    using seat_reached [OF assms a(2,1)] .
  obtain h2 where "update_sitter a (\<lambda>s. s\<lparr>m_choice := -1\<rparr>) h = Inr h2" "same_table g h2"
    using turn_update [OF assms a(2) x(1), of "\<lambda>s. s\<lparr>m_choice := -1\<rparr>"] ok_wins by auto
  then show "fine (rbind (update_sitter a (\<lambda>s. s\<lparr>m_choice := -1\<rparr>) h) (\<lambda>g. Inr (g, []))) (same_table g)" by simp
qed (use assms in simp)

section \<open>Deciding a round\<close>

definition has_pending :: "(sitter \<Rightarrow> bool) \<Rightarrow> heek \<Rightarrow> bool" where
  "has_pending P g \<longleftrightarrow> (\<exists>a x. Some a \<in> set (m_sitting g) \<and> memory g a = Some x \<and> m_pending_winner x \<and> P x)"

lemma pending_update:
  assumes "has_pending P g" and "m_sitting h = m_sitting g" and "memory h = (memory g)(a \<mapsto> y)" and "memory g a = Some x"
    and "m_pending_winner x \<Longrightarrow> P x \<Longrightarrow> m_pending_winner y \<and> P y"
  shows "has_pending P h"
proof -
  obtain b z where "Some b \<in> set (m_sitting g)" "memory g b = Some z" "m_pending_winner z" "P z"
    using assms(1) by (auto simp: has_pending_def)
  with assms(2-5) show ?thesis by (cases "b = a") (auto simp: has_pending_def)
qed

lemma award_pending:
  assumes "award_seat counts best a (h, w) = Inr ((h', w'), os)" and "Some a \<in> set (m_sitting h)"
    and "m_pending_winner_ct h = 0 \<and> w > 0 \<longrightarrow> has_pending (\<lambda>_. True) h"
  shows "m_pending_winner_ct h' = m_pending_winner_ct h \<and> m_sitting h' = m_sitting h \<and>
    (m_pending_winner_ct h = 0 \<and> w' > 0 \<longrightarrow> has_pending (\<lambda>_. True) h')"
proof -
  obtain x where x: "memory h a = Some x" "sitter_at a h = Inr x"
    using assms(1) by (auto simp: award_seat_def sitter_at_def res_simps split: option.splits)
  note r = assms(1) [unfolded award_seat_def prod.case x(2) rbind_Inr]
  consider "m_choice x < 0" | "\<not> m_choice x < 0" "\<not> (round_total counts (m_choice x) > 0 \<and> round_total counts (m_choice x) = best)"
    | (won) "\<not> m_choice x < 0" "round_total counts (m_choice x) > 0" "round_total counts (m_choice x) = best" by blast
  then show ?thesis
  proof cases
    case 1
    with r have "h' = h" "w' = w" by simp_all
    with assms(2,3) show ?thesis by simp
  next
    case 2
    then have "h' = h \<and> w' = w" using r by (simp only: Let_def if_True if_False sum.inject prod.inject simp_thms)
    with assms(2,3) show ?thesis by simp
  next
    case won
    define c where "c = nat (m_choice x)"
    define w1 where "w1 = m_wins x ! c + 1"
    define y where "y = x\<lparr>m_wins := (m_wins x)[c := w1]\<rparr>"
    let ?h = "h\<lparr>memory := (memory h)(a \<mapsto> y)\<rparr>"
    have u: "update_sitter a (\<lambda>y. y\<lparr>m_wins := (m_wins y)[c := w1]\<rparr>) h = Inr ?h"
      using x by (simp add: update_sitter_def y_def)
    have c: "c < length (m_wins x)"
      using r won by (simp add: Let_def c_def split: if_splits)
    have p: "update_sitter a (\<lambda>x. x\<lparr>m_pending_winner := True\<rparr>) ?h = Inr (?h\<lparr>memory := (memory h)(a \<mapsto> y\<lparr>m_pending_winner := True\<rparr>)\<rparr>)"
      by (simp add: update_sitter_def sitter_at_def)
    note r = r [unfolded Let_def, folded c_def, folded w1_def, unfolded u rbind_Inr]
    show ?thesis
    proof (cases "sint w1 > 2")
      case True
      let ?k = "?h\<lparr>memory := (memory h)(a \<mapsto> y\<lparr>m_pending_winner := True\<rparr>)\<rparr>"
      have h': "h' = (if m_pending_winner_ct h = 0 then ?k else ?h)" using r won c p True by (simp split: if_splits)
      have "has_pending (\<lambda>_. True) ?k" using assms(2) by (auto simp: has_pending_def)
      then show ?thesis using h' by simp
    next
      case lights: False
      with r won c have h': "h' = ?h" "w' = w" by auto
      moreover have "has_pending (\<lambda>_. True) ?h" if "has_pending (\<lambda>_. True) h"
        by (rule pending_update [OF that _ _ x(1), where y = y]) (simp_all add: y_def)
      ultimately show ?thesis using assms(3) by simp
    qed
  qed
qed

lemma prune_pending:
  assumes "prune_seat best a (h, w) = Inr ((h', w'), os)" and "Some a \<in> set (m_sitting h)"
    and "w > 0 \<longrightarrow> has_pending (\<lambda>x. wins_total x = best) h"
  shows "m_sitting h' = m_sitting h \<and> (w' > 0 \<longrightarrow> has_pending (\<lambda>x. wins_total x = best) h')"
proof -
  obtain x where x: "memory h a = Some x" "sitter_at a h = Inr x"
    using assms(1) by (auto simp: prune_seat_def sitter_at_def res_simps split: option.splits)
  let ?h = "h\<lparr>memory := (memory h)(a \<mapsto> x\<lparr>m_pending_winner := False\<rparr>)\<rparr>"
  have u: "update_sitter a (\<lambda>x. x\<lparr>m_pending_winner := False\<rparr>) h = Inr ?h" using x by (simp add: update_sitter_def)
  note r = assms(1) [unfolded prune_seat_def prod.case x(2) rbind_Inr u]
  consider "\<not> m_pending_winner x" | "m_pending_winner x" "wins_total x = best"
    | "m_pending_winner x" "wins_total x \<noteq> best" by blast
  then show ?thesis
  proof cases
    case 1
    with r assms(3) show ?thesis by simp
  next
    case 2
    with r have "h' = h" by simp
    moreover have "has_pending (\<lambda>x. wins_total x = best) h" using 2 x(1) assms(2) by (auto simp: has_pending_def)
    ultimately show ?thesis by simp
  next
    case 3
    have "has_pending (\<lambda>x. wins_total x = best) h'"
      if "has_pending (\<lambda>x. wins_total x = best) h" "h' = ?h\<lparr>m_pending_winner_ct := m_pending_winner_ct h - 1\<rparr>"
      by (rule pending_update [OF that(1) _ _ x(1), where y = "x\<lparr>m_pending_winner := False\<rparr>"]) (use 3 that(2) in simp_all)
    moreover have "h' = h \<and> w' = w \<or> h' = ?h\<lparr>m_pending_winner_ct := m_pending_winner_ct h - 1\<rparr> \<and> w' = w"
      using r 3 by (simp split: if_splits)
    ultimately show ?thesis using assms(3) by (elim disjE) simp_all
  qed
qed

lemma first_pending_ok:
  assumes "\<And>a. Some a \<in> set seats \<Longrightarrow> memory g a \<noteq> None"
  shows "\<exists>r. first_pending seats g = Inr r \<and>
    (case r of None \<Rightarrow> \<forall>a x. Some a \<in> set seats \<longrightarrow> memory g a = Some x \<longrightarrow> \<not> m_pending_winner x
     | Some a \<Rightarrow> Some a \<in> set seats)"
  using assms
proof (induction seats g rule: first_pending.induct)
  case (3 a seats g)
  then obtain x where x: "memory g a = Some x" by fastforce
  with 3 show ?case by (cases "m_pending_winner x") (auto simp: sitter_at_def split: option.splits)
next
  case (2 seats g)
  then show ?case by (auto split: option.splits)
qed simp

lemma pay_fine:
  assumes "table_ok g"
  shows "fine (pay_winner g) (\<lambda>g'. same_table g g' \<and> (has_pending (\<lambda>_. True) g \<longrightarrow> m_point_pool g' = 0))"
proof -
  have alive: "memory g a \<noteq> None" if "Some a \<in> set (m_sitting g)" for a
    using seat_alive [OF assms that] by (metis option.distinct(1))
  obtain r where r: "first_pending (m_sitting g) g = Inr r"
    "case r of None \<Rightarrow> \<forall>a x. Some a \<in> set (m_sitting g) \<longrightarrow> memory g a = Some x \<longrightarrow> \<not> m_pending_winner x
     | Some a \<Rightarrow> Some a \<in> set (m_sitting g)" using first_pending_ok [of "m_sitting g" g] alive by blast
  show ?thesis
  proof (cases r)
    case None
    with r show ?thesis by (auto simp: pay_winner_def has_pending_def)
  next
    case (Some a)
    with r(2) have "Some a \<in> set (m_sitting g)" by simp
    from seat_alive [OF assms this] obtain x where x: "memory g a = Some x" "sitter_at a g = Inr x" "sitter_ok x" .
    let ?y = "x\<lparr>m_score := m_score x + m_point_pool g\<rparr>"
    let ?h = "g\<lparr>memory := (memory g)(a \<mapsto> ?y)\<rparr>"
    have "points (?h\<lparr>m_point_pool := 0\<rparr>) = points ?h - m_point_pool g" by (simp add: points_def)
    also have "\<dots> = points g" using points_update [OF table_finite [OF assms] x(1), of ?y] by simp
    finally have "same_table g (?h\<lparr>m_point_pool := 0\<rparr>)"
      using x(1) by (simp add: same_table_def table_view_def kept_def sitter_ok_def)
    moreover have "update_sitter a (\<lambda>x. x\<lparr>m_score := m_score x + m_point_pool g\<rparr>) g = Inr ?h"
      using x(2) by (simp add: update_sitter_def)
    ultimately show ?thesis using r(1) Some x(2) by (simp add: pay_winner_def Let_def)
  qed
qed

lemma settle_fine:
  assumes "table_ok g" and "same_table g h" and "m_pending_winner_ct h = 0 \<and> w > 0 \<longrightarrow> has_pending (\<lambda>_. True) h"
  shows "fine (settle (h, w)) (\<lambda>s. same_table g (fst s) \<and> (snd s = 1 \<longrightarrow> has_pending (\<lambda>_. True) (fst s)))"
proof -
  have ok: "table_ok h" using same_ok [OF assms(2,1)] .
  have sit: "m_sitting h = m_sitting g" using same_fields [OF assms(2)] by simp
  show ?thesis
  proof (cases "w = 1 \<and> m_pending_winner_ct h = 0")
    case True
    with assms show ?thesis by (simp add: settle_def)
  next
    case other: False
    show ?thesis
    proof (cases "w > 0 \<or> m_pending_winner_ct h > 0")
      case False
      with assms(2) show ?thesis by (simp add: settle_def)
    next
      case True
      have "\<exists>v. best_wins h = Inr v" unfolding best_wins_def by (rule loop_value [OF ok])
      then obtain best where best: "best_wins h = Inr best" by blast
      let ?R = "\<lambda>s :: heek \<times> nat. same_table g (fst s) \<and> (snd s > 0 \<longrightarrow> has_pending (\<lambda>x. wins_total x = best) (fst s))"
      have "fine (for_seats (prune_seat best) (m_sitting h) (h, 0)) ?R"
      proof (rule for_seats_fine)
        fix a s
        assume a: "Some a \<in> set (m_sitting h)" "?R s"
        obtain h1 w1 where s: "s = (h1, w1)" by (cases s)
        with a sit prune_fine [OF assms(1), of h1 a best w1] obtain h2 w2 os where
          p: "prune_seat best a (h1, w1) = Inr ((h2, w2), os)" "same_table g h2" by (auto elim!: fineE)
        have "Some a \<in> set (m_sitting h1)" using a s sit same_fields [of g h1] by simp
        with prune_pending [OF p(1)] a(2) p s show "fine (prune_seat best a s) ?R" by simp
      qed (use assms(2) in simp)
      moreover have "has_pending (\<lambda>_. True) k" if "has_pending (\<lambda>x. wins_total x = best) k" for k
        using that by (auto simp: has_pending_def)
      ultimately show ?thesis using True other best by (auto simp: settle_def elim!: fine_mono)
    qed
  qed
qed

lemma conclude_fine:
  assumes "table_ok g" and "same_table g h" and "w = 1 \<longrightarrow> has_pending (\<lambda>_. True) h"
  shows "fine (conclude (h, w)) (\<lambda>s. same_table g (fst s) \<and> snd s \<in> {ANIM_WAIT, WINNER} \<and>
    (snd s = WINNER \<longrightarrow> m_point_pool (fst s) = 0))"
proof -
  let ?h = "h\<lparr>m_pending_winner_ct := 0\<rparr>"
  have "table_ok ?h" using same_ok [OF assms(2,1)] by simp
  from pay_fine [OF this] obtain k os where k: "pay_winner ?h = Inr (k, os)" "same_table ?h k"
    "has_pending (\<lambda>_. True) ?h \<longrightarrow> m_point_pool k = 0" by (auto elim!: fineE)
  have "same_table g k" using same_trans [OF _ k(2)] assms(2) by simp
  moreover have "has_pending (\<lambda>_. True) ?h = has_pending (\<lambda>_. True) h" by (simp add: has_pending_def)
  ultimately show ?thesis using assms(2,3) k by (simp add: conclude_def chain_def)
qed

lemma count_fine:
  assumes "table_ok g"
  shows "\<exists>counts. count_choices g = Inr counts"
proof -
  let ?F = "\<lambda>(r, p, s) x. if m_choice x = 0 then (r + 1, p, s) else if m_choice x = 1 then (r, p + 1, s)
    else if m_choice x = 2 then (r, p, s + 1) else (r, p, s)"
  have "count_choices g = rbind (for_seats (\<lambda>a m. rbind (sitter_at a g) (\<lambda>x. Inr (?F m x, []))) (m_sitting g) (0, 0, 0))
      (\<lambda>(m, _). Inr m)"
    unfolding count_choices_def by (simp add: case_prod_unfold)
  then show ?thesis using loop_value [OF assms, of ?F] by simp
qed

lemma decide_fine:
  assumes "table_ok g"
  shows "fine (decide g) (\<lambda>s. same_table g (fst s) \<and> snd s \<in> {IN_GAME, ANIM_WAIT, WINNER} \<and>
    (snd s = WINNER \<longrightarrow> m_point_pool (fst s) = 0))"
proof -
  obtain r p s where counts: "count_choices g = Inr (r, p, s)" using count_fine [OF assms] by auto
  show ?thesis
  proof (cases "r + p + s \<le> 1")
    case True
    with counts show ?thesis by (simp add: decide_def)
  next
    case False
    have "\<exists>v. best_total (r, p, s) g = Inr v" unfolding best_total_def by (rule loop_value [OF assms])
    then obtain best where best: "best_total (r, p, s) g = Inr best" by blast
    let ?R = "\<lambda>s :: heek \<times> nat. same_table g (fst s) \<and> (m_pending_winner_ct (fst s) = 0 \<and> snd s > 0 \<longrightarrow> has_pending (\<lambda>_. True) (fst s))"
    have award: "fine (for_seats (award_seat (r, p, s) best) (m_sitting g) (g, 0)) ?R"
    proof (rule for_seats_fine)
      fix a t
      assume a: "Some a \<in> set (m_sitting g)" "?R t"
      obtain h w where t: "t = (h, w)" by (cases t)
      with a award_fine [OF assms, of h a "(r, p, s)" best w] obtain h2 w2 os where
        h2: "award_seat (r, p, s) best a (h, w) = Inr ((h2, w2), os)" "same_table g h2" by (auto elim!: fineE)
      have "Some a \<in> set (m_sitting h)" using a t same_fields [of g h] by simp
      with award_pending [OF h2(1)] a(2) h2 t show "fine (award_seat (r, p, s) best a t) ?R" by simp
    qed simp
    have "fine (chain (settle t) conclude) (\<lambda>s. same_table g (fst s) \<and> snd s \<in> {IN_GAME, ANIM_WAIT, WINNER} \<and>
        (snd s = WINNER \<longrightarrow> m_point_pool (fst s) = 0))" if t: "?R t" for t
    proof (rule fine_chain)
      show "fine (settle t) (\<lambda>s :: heek \<times> nat. same_table g (fst s) \<and> (snd s = 1 \<longrightarrow> has_pending (\<lambda>_. True) (fst s)))"
        using settle_fine [OF assms, of "fst t" "snd t"] t by simp
    next
      fix u :: "heek \<times> nat"
      assume "same_table g (fst u) \<and> (snd u = 1 \<longrightarrow> has_pending (\<lambda>_. True) (fst u))"
      with conclude_fine [OF assms, of "fst u" "snd u"]
      show "fine (conclude u) (\<lambda>s. same_table g (fst s) \<and> snd s \<in> {IN_GAME, ANIM_WAIT, WINNER} \<and>
        (snd s = WINNER \<longrightarrow> m_point_pool (fst s) = 0))" by (auto elim: fine_mono)
    qed
    with award show ?thesis using counts False best by (simp add: decide_def fine_chain)
  qed
qed

section \<open>From one state to the next\<close>

definition moved :: "heek \<Rightarrow> heek \<Rightarrow> bool" where
  "moved g g' \<longleftrightarrow> table_ok g' \<and> m_sitting g' = m_sitting g \<and> m_all g' = m_all g \<and> ki_at g' = ki_at g \<and>
     points g' = points g"

lemma moved_refl: "table_ok g \<Longrightarrow> moved g g"
  by (simp add: moved_def)

lemma moved_trans: "moved g g' \<Longrightarrow> moved g' g'' \<Longrightarrow> moved g g''"
  by (simp add: moved_def)

lemma same_moved: "table_ok g \<Longrightarrow> same_table g g' \<Longrightarrow> moved g g'"
  using same_ok [of g g'] same_fields [of g g'] same_ki [of g g'] by (simp add: moved_def fun_eq_iff)

lemma table_update [simp]:
  "table_ok (g\<lparr>m_state := st\<rparr>) = table_ok g" "table_ok (g\<lparr>m_timer := t\<rparr>) = table_ok g"
  "table_ok (g\<lparr>m_current_game := n\<rparr>) = table_ok g" "table_ok (g\<lparr>m_point_pool := p\<rparr>) = table_ok g"
  using ki_at_cong [of "g\<lparr>m_state := st\<rparr>" g] ki_at_cong [of "g\<lparr>m_timer := t\<rparr>" g]
    ki_at_cong [of "g\<lparr>m_current_game := n\<rparr>" g] ki_at_cong [of "g\<lparr>m_point_pool := p\<rparr>" g]
  by (simp_all add: table_ok_def roster_ok_def seated_def)

lemma table_timers: "table_ok g \<Longrightarrow> queue_wf q \<Longrightarrow> table_ok (g\<lparr>server_timers := q\<rparr>)"
  using ki_at_cong [of "g\<lparr>server_timers := q\<rparr>" g] by (simp add: table_ok_def roster_ok_def seated_def)

lemma moved_update [simp]:
  "moved g (h\<lparr>m_state := st\<rparr>) = moved g h" "moved g (h\<lparr>m_timer := t\<rparr>) = moved g h"
  "moved g (h\<lparr>m_current_game := n\<rparr>) = moved g h" "moved g (h\<lparr>m_choice_ct := n'\<rparr>) = moved g h"
  "moved g (h\<lparr>m_cleanup := c\<rparr>) = moved g h"
  using ki_at_cong [of "h\<lparr>m_state := st\<rparr>" h] ki_at_cong [of "h\<lparr>m_timer := t\<rparr>" h]
    ki_at_cong [of "h\<lparr>m_current_game := n\<rparr>" h] ki_at_cong [of "h\<lparr>m_choice_ct := n'\<rparr>" h]
    ki_at_cong [of "h\<lparr>m_cleanup := c\<rparr>" h]
  by (simp_all add: moved_def points_def)

lemma moved_timers: "moved g h \<Longrightarrow> queue_wf q \<Longrightarrow> moved g (h\<lparr>server_timers := q\<rparr>)"
  using ki_at_cong [of "h\<lparr>server_timers := q\<rparr>" h] table_timers [of h q] by (simp add: moved_def points_def)

lemma start_fine:
  assumes "moved g h"
  shows "moved g (start_timer (h\<lparr>m_state := st\<rparr>))" "timer_ok (start_timer (h\<lparr>m_state := st\<rparr>))"
    "m_state (start_timer (h\<lparr>m_state := st\<rparr>)) = st" "m_point_pool (start_timer (h\<lparr>m_state := st\<rparr>)) = m_point_pool h"
proof -
  obtain t q where t: "set_timer () (server_timers h) = (t, q)" by fastforce
  have "queue_wf (server_timers h)" using assms by (simp add: moved_def table_ok_def)
  from set_timer_wf [OF t this] have q: "queue_wf q" "timer_pending (Some t) q" by simp_all
  have s: "start_timer (h\<lparr>m_state := st\<rparr>) = h\<lparr>m_state := st, m_timer := Some t, server_timers := q\<rparr>"
    by (simp add: start_timer_def t)
  show "moved g (start_timer (h\<lparr>m_state := st\<rparr>))" unfolding s using moved_timers [OF _ q(1)] assms by simp
  show "timer_ok (start_timer (h\<lparr>m_state := st\<rparr>))" unfolding s using q(2) by (simp add: timer_ok_def)
  show "m_state (start_timer (h\<lparr>m_state := st\<rparr>)) = st" "m_point_pool (start_timer (h\<lparr>m_state := st\<rparr>)) = m_point_pool h"
    unfolding s by simp_all
qed

lemma moved_table: "moved g h \<Longrightarrow> table_ok h"
  by (simp add: moved_def)

lemma idle_fine:
  assumes "moved g h"
  shows "fine (countdown_idle h) (\<lambda>g'. g' = h\<lparr>m_state := IN_GAME\<rparr>)"
proof -
  obtain os where "tell_all_sitters (GameMgr_OneByte_Message (m_gameid h) Srv2Cli_Heek_InterfaceState 1)
      (h\<lparr>m_state := IN_GAME\<rparr>) = Inr (h\<lparr>m_state := IN_GAME\<rparr>, os)"
    using tell_fine [of "h\<lparr>m_state := IN_GAME\<rparr>"] moved_table [OF assms] by (auto elim!: fineE)
  then show ?thesis by (simp add: countdown_idle_def chain_def)
qed

lemma quiet_state: "moved g h \<Longrightarrow> st < COUNTDOWN \<Longrightarrow> (st = IDLE \<longrightarrow> m_point_pool h = 0) \<Longrightarrow>
    moved g (h\<lparr>m_state := st\<rparr>) \<and> hk_inv (h\<lparr>m_state := st\<rparr>)"
  by (auto simp: hk_inv_def timer_ok_def pool_ok_def moved_table state_order)

lemma round_fine:
  assumes "moved g h"
  shows "fine (handle_round h) (\<lambda>g'. hk_inv g' \<and> moved g g' \<and> m_state g' \<in> {IN_GAME, ANIM_WAIT, WINNER})"
proof -
  have ok: "table_ok h" using assms by (rule moved_table)
  obtain o1 where o1: "tell_all_sitters (GameMgr_OneByte_Message (m_gameid h) Srv2Cli_Heek_InterfaceState 0) h = Inr (h, o1)"
    using tell_fine [OF ok] by (auto elim!: fineE)
  obtain k st o2 where k: "decide h = Inr ((k, st), o2)" "same_table h k" "st \<in> {IN_GAME, ANIM_WAIT, WINNER}"
    "st = WINNER \<longrightarrow> m_point_pool k = 0" using decide_fine [OF ok] by (auto elim!: fineE)
  have m: "moved g k" using moved_trans [OF assms same_moved [OF ok k(2)]] .
  show ?thesis
  proof (cases "st = IN_GAME")
    case True
    obtain o3 where "countdown_idle k = Inr (k\<lparr>m_state := IN_GAME\<rparr>, o3)" using idle_fine [OF m] by (auto elim!: fineE)
    with True o1 k quiet_state [OF m, of IN_GAME] show ?thesis by (simp add: handle_round_def chain_def state_order)
  next
    case False
    note s = start_fine [OF m, of st]
    have "hk_inv (start_timer (k\<lparr>m_state := st\<rparr>))"
      using s moved_table [OF s(1)] k(3,4) False by (auto simp: hk_inv_def pool_ok_def)
    then show ?thesis using False o1 k s by (auto simp: handle_round_def chain_def)
  qed
qed

lemma winner_fine:
  assumes "moved g h" and "m_point_pool h = 0"
  shows "fine (handle_winner h) (\<lambda>g'. hk_inv g' \<and> moved g g' \<and> m_state g' = WIN_WAIT)"
proof -
  have ok: "table_ok h" using assms(1) by (rule moved_table)
  have "fine (for_seats winner_seat (m_sitting h) h) (\<lambda>g'. same_table h g' \<and> m_point_pool g' = 0)"
  proof (rule for_seats_fine)
    fix a k
    assume a: "Some a \<in> set (m_sitting h)" "same_table h k \<and> m_point_pool k = 0"
    then have "same_table h k" by simp
    from winner_seat_fine [OF ok this a(1)] a(2)
    show "fine (winner_seat a k) (\<lambda>g'. same_table h g' \<and> m_point_pool g' = 0)" by simp
  qed (use assms(2) in simp)
  then obtain k os where k: "for_seats winner_seat (m_sitting h) h = Inr (k, os)" "same_table h k" "m_point_pool k = 0"
    by (auto elim!: fineE)
  note s = start_fine [OF moved_trans [OF assms(1) same_moved [OF ok k(2)]], of WIN_WAIT]
  have "hk_inv (start_timer (k\<lparr>m_state := WIN_WAIT\<rparr>))" using s moved_table [OF s(1)] k(3) by (auto simp: hk_inv_def pool_ok_def)
  then show ?thesis using k(1) s by (simp add: handle_winner_def chain_def)
qed

text \<open>The two ways a waiting state ends: the owner's client reports, or the timer expires.\<close>

lemma stop_fine:
  assumes "hk_inv g" and "COUNTDOWN \<le> m_state g"
  shows "\<exists>h. stop_timer g = Inr h \<and> moved g h \<and> m_state h = m_state g \<and> m_point_pool h = m_point_pool g \<and>
    m_choice_ct h = m_choice_ct g \<and> m_sitting_ct h = m_sitting_ct g \<and> m_owner h = m_owner g"
proof -
  have ok: "table_ok g" "timer_pending (m_timer g) (server_timers g)" using assms by (simp_all add: hk_inv_def timer_ok_def)
  then have "queue_wf (server_timers g)" by (simp add: table_ok_def)
  from cancel_timer_wf [OF ok(2) this] obtain q where q: "cancel_timer (m_timer g) (server_timers g) = Inr q" "queue_wf q" by blast
  have "moved g (g\<lparr>m_timer := None, server_timers := q\<rparr>)"
    using moved_timers [OF _ q(2), of g "g\<lparr>m_timer := None\<rparr>"] moved_refl [OF ok(1)] by simp
  with q(1) show ?thesis by (simp add: stop_timer_def)
qed

lemma end_of_game_fine:
  assumes "moved g h" and "m_point_pool h = 0"
  shows "fine (chain (countdown_idle h) (\<lambda>g. Inr (g\<lparr>m_state := IDLE\<rparr>, []))) (\<lambda>g'. hk_inv g' \<and> moved g g' \<and> m_state g' = IDLE)"
proof -
  obtain os where "countdown_idle h = Inr (h\<lparr>m_state := IN_GAME\<rparr>, os)" using idle_fine [OF assms(1)] by (auto elim!: fineE)
  moreover have "moved g (h\<lparr>m_state := IDLE\<rparr>) \<and> hk_inv (h\<lparr>m_state := IDLE\<rparr>)"
    using quiet_state [OF assms(1), of IDLE] assms(2) by (simp add: state_order)
  ultimately show ?thesis by (simp add: chain_def)
qed

lemma idle_inv:
  assumes "moved g h"
  shows "fine (countdown_idle h) (\<lambda>g'. hk_inv g' \<and> moved g g' \<and> m_state g' = IN_GAME)"
  using idle_fine [OF assms] quiet_state [OF assms, of IN_GAME] by (auto simp: state_order elim!: fine_mono)

definition next_states :: "game_state_t \<Rightarrow> game_state_t set" where
  "next_states st =
     (case st of
        IDLE \<Rightarrow> {IDLE} | IN_GAME \<Rightarrow> {IN_GAME} | COUNTDOWN \<Rightarrow> {STOP_WAIT, IN_GAME} | STOP_WAIT \<Rightarrow> {IN_GAME, ANIM_WAIT, WINNER}
      | ANIM_WAIT \<Rightarrow> {IN_GAME} | WINNER \<Rightarrow> {WIN_WAIT} | WIN_WAIT \<Rightarrow> {IDLE})"

lemma timeout_fine:
  assumes "moved g h" and "pool_ok h"
  shows "fine (hk_handle_timeout h) (\<lambda>g'. hk_inv g' \<and> moved g g' \<and> m_state g' \<in> next_states (m_state h))"
proof (cases "m_state h")
  case IDLE
  then have "hk_inv h" using assms moved_table [OF assms(1)] by (simp add: hk_inv_def timer_ok_def state_order)
  with IDLE assms show ?thesis by (simp add: hk_handle_timeout_def next_states_def)
next
  case IN_GAME
  then have "hk_inv h" using assms moved_table [OF assms(1)] by (simp add: hk_inv_def timer_ok_def state_order)
  with IN_GAME assms show ?thesis by (simp add: hk_handle_timeout_def next_states_def)
next
  case COUNTDOWN
  note s = start_fine [OF assms(1), of STOP_WAIT]
  have "hk_inv (start_timer (h\<lparr>m_state := STOP_WAIT\<rparr>))" using s moved_table [OF s(1)] by (simp add: hk_inv_def pool_ok_def)
  with COUNTDOWN s idle_inv [OF assms(1)] show ?thesis
    by (auto simp: hk_handle_timeout_def countdown_done_def next_states_def elim!: fine_mono)
next
  case STOP_WAIT
  with round_fine [of g "h\<lparr>m_timer := None\<rparr>"] assms(1) show ?thesis
    by (simp add: hk_handle_timeout_def next_states_def)
next
  case ANIM_WAIT
  with idle_inv [of g "h\<lparr>m_timer := None\<rparr>"] assms(1) show ?thesis
    by (simp add: hk_handle_timeout_def next_states_def)
next
  case WINNER
  with winner_fine [OF assms(1)] assms(2) show ?thesis by (simp add: hk_handle_timeout_def next_states_def pool_ok_def)
next
  case WIN_WAIT
  with end_of_game_fine [of g "h\<lparr>m_timer := None\<rparr>"] assms show ?thesis
    by (simp add: hk_handle_timeout_def next_states_def pool_ok_def)
qed

lemma fire_fine:
  assumes "hk_inv g"
  shows "fine (hk_fire i g) (\<lambda>g'. hk_inv g' \<and> points g' = points g \<and>
    (i \<in> fst ` set (tq_pending (server_timers g)) \<longrightarrow> m_state g' \<in> next_states (m_state g)))"
proof (cases "map_of (tq_pending (server_timers g)) i")
  case None
  then have "i \<notin> fst ` set (tq_pending (server_timers g))" by (simp add: map_of_eq_None_iff)
  with assms show ?thesis unfolding hk_fire_def None option.case by simp
next
  case (Some u)
  let ?h = "g\<lparr>server_timers := expire i (server_timers g)\<rparr>"
  have ok: "table_ok g" "pool_ok g" using assms by (simp_all add: hk_inv_def)
  then have "queue_wf (expire i (server_timers g))" by (intro expire_wf) (simp add: table_ok_def)
  from moved_timers [OF moved_refl [OF ok(1)] this] have "moved g ?h" .
  from timeout_fine [OF this] ok(2) Some show ?thesis
    by (auto simp: hk_fire_def pool_ok_def moved_def elim!: fine_mono)
qed

section \<open>Messages of the players\<close>

lemma find_seat_ok:
  assumes "\<And>a. Some a \<in> set seats \<Longrightarrow> memory g a \<noteq> None"
  shows "\<exists>r. find_seat player i seats g = Inr r \<and>
    (case r of None \<Rightarrow> \<forall>a. Some a \<in> set seats \<longrightarrow> ki_at g a \<noteq> player
     | Some j \<Rightarrow> i \<le> j \<and> j < i + length seats \<and> (\<exists>a. seats ! (j - i) = Some a \<and> ki_at g a = player))"
  using assms
proof (induction player i seats g rule: find_seat.induct)
  case (2 player i seats g)
  then obtain r where r: "find_seat player (i + 1) seats g = Inr r"
    "case r of None \<Rightarrow> \<forall>a. Some a \<in> set seats \<longrightarrow> ki_at g a \<noteq> player
     | Some j \<Rightarrow> i + 1 \<le> j \<and> j < i + 1 + length seats \<and> (\<exists>a. seats ! (j - (i + 1)) = Some a \<and> ki_at g a = player)" by auto
  then show ?case by (cases r) (auto simp: nth_Cons')
next
  case (3 player i a seats g)
  then obtain x where x: "memory g a = Some x" by fastforce
  show ?case
  proof (cases "m_ki x = player")
    case True
    with x show ?thesis by (simp add: sitter_at_def ki_at_def)
  next
    case False
    with 3 x obtain r where r: "find_seat player (i + 1) seats g = Inr r"
      "case r of None \<Rightarrow> \<forall>a. Some a \<in> set seats \<longrightarrow> ki_at g a \<noteq> player
       | Some j \<Rightarrow> i + 1 \<le> j \<and> j < i + 1 + length seats \<and> (\<exists>a. seats ! (j - (i + 1)) = Some a \<and> ki_at g a = player)"
      by (auto simp: sitter_at_def)
    then show ?thesis using x False by (cases r) (auto simp: sitter_at_def ki_at_def nth_Cons')
  qed
qed simp

lemma seat_in: "i < length seats \<Longrightarrow> seats ! i = Some a \<Longrightarrow> Some a \<in> set seats"
  by (metis nth_mem)

lemma player_seat:
  assumes "table_ok g"
  obtains (none) "get_player_index player g = Inr None" "\<forall>a. Some a \<in> set (m_sitting g) \<longrightarrow> ki_at g a \<noteq> player"
  | (seat) i a where "get_player_index player g = Inr (Some i)" "i < 5" "m_sitting g ! i = Some a" "ki_at g a = player"
      "Some a \<in> set (m_sitting g)"
proof -
  have "memory g a \<noteq> None" if "Some a \<in> set (m_sitting g)" for a
    using seat_alive [OF assms that] by (metis option.distinct(1))
  from find_seat_ok [of "m_sitting g" g player 0] this obtain r where
    r: "find_seat player 0 (m_sitting g) g = Inr r"
      "case r of None \<Rightarrow> \<forall>a. Some a \<in> set (m_sitting g) \<longrightarrow> ki_at g a \<noteq> player
       | Some j \<Rightarrow> 0 \<le> j \<and> j < 0 + length (m_sitting g) \<and> (\<exists>a. m_sitting g ! (j - 0) = Some a \<and> ki_at g a = player)" by blast
  have l: "length (m_sitting g) = 5" using assms by (simp add: table_ok_def)
  show thesis
  proof (cases r)
    case None
    with r none show ?thesis by (simp add: get_player_index_def)
  next
    case (Some j)
    with r l obtain a where "j < 5" "m_sitting g ! j = Some a" "ki_at g a = player" by auto
    with seat [of j a] seat_in [of j "m_sitting g" a] l r(1) Some show ?thesis by (simp add: get_player_index_def)
  qed
qed

lemma countdown_fine:
  assumes "table_ok g"
  shows "fine (start_countdown g) (\<lambda>g'. hk_inv g' \<and> moved g g' \<and> m_state g' = COUNTDOWN \<and> m_sitting_ct g' = m_sitting_ct g)"
proof -
  let ?g = "g\<lparr>m_state := COUNTDOWN\<rparr>"
  obtain h os where h: "reset_choices ?g = Inr (h, os)" "same_table ?g h"
    using reset_choices_fine [of ?g] assms by (auto elim!: fineE)
  have m: "moved g h" using moved_trans [OF _ same_moved [OF _ h(2)], of g] moved_refl [OF assms] assms by simp
  have st: "h\<lparr>m_state := COUNTDOWN\<rparr> = h" using same_fields(10) [OF h(2)] by simp
  note s = start_fine [OF m, of COUNTDOWN, unfolded st]
  have "hk_inv (start_timer h)" using s moved_table [OF s(1)] by (simp add: hk_inv_def pool_ok_def)
  moreover have "m_sitting_ct (start_timer h) = m_sitting_ct g"
    using same_fields(5) [OF h(2)] by (simp add: start_timer_def split: prod.splits)
  ultimately show ?thesis using h(1) s by (simp add: start_countdown_def chain_def)
qed

lemma join_fine:
  assumes "table_ok g" and "Some a \<in> set (m_sitting g)"
  shows "fine (join_round a g) (same_table g)"
proof -
  obtain x where x: "memory g a = Some x" "sitter_at a g = Inr x" "sitter_ok x" using seat_alive [OF assms] .
  let ?y = "(reset_wins (x\<lparr>s_current_game := m_current_game g\<rparr>))\<lparr>m_score := m_score x - 1\<rparr>"
  let ?h = "g\<lparr>memory := (memory g)(a \<mapsto> ?y)\<rparr>"
  have u: "update_sitter a (\<lambda>x. (reset_wins (x\<lparr>s_current_game := m_current_game g\<rparr>))\<lparr>m_score := m_score x - 1\<rparr>) g = Inr ?h"
    using x(2) by (simp add: update_sitter_def)
  have "points (?h\<lparr>m_point_pool := m_point_pool ?h + 1\<rparr>) = points ?h + 1" by (simp add: points_def)
  also have "\<dots> = points g" using points_update [OF table_finite [OF assms(1)] x(1), of ?y] by simp
  finally have "same_table g (?h\<lparr>m_point_pool := m_point_pool g + 1\<rparr>)"
    using x(1,3) ok_wins by (simp add: same_table_def table_view_def kept_def reset_wins_def sitter_ok_def)
  then show ?thesis using x(2) u by (simp add: join_round_def)
qed

lemma register_fine:
  assumes "hk_inv g" and "m_state g = COUNTDOWN" and "Some a \<in> set (m_sitting g)" and "\<not> choice > 2"
  shows "fine (register_choice a choice g) (\<lambda>g'. hk_inv g' \<and> moved g g')"
proof -
  have ok: "table_ok g" using assms(1) by (simp add: hk_inv_def)
  obtain h os where h: "join_round a g = Inr (h, os)" "same_table g h" using join_fine [OF ok assms(3)] by (auto elim!: fineE)
  obtain x where x: "memory h a = Some x" "sitter_at a h = Inr x" "sitter_ok x" "table_ok h"
    using seat_reached [OF ok h(2) assms(3)] .
  let ?k = "if m_choice x < 0 then h\<lparr>m_choice_ct := m_choice_ct h + 1\<rparr> else h"
  have k: "same_table g ?k" "memory ?k a = Some x" using h(2) x(1) by simp_all
  have c: "sint choice \<in> {0, 1, 2}"
  proof -
    have "unat choice = 0 \<or> unat choice = 1 \<or> unat choice = 2" using assms(4) by (simp add: word_less_nat_alt) linarith
    then have "choice = 0 \<or> choice = 1 \<or> choice = 2" by (simp add: word_unat_eq_iff)
    then show ?thesis by auto
  qed
  obtain m where m: "update_sitter a (\<lambda>x. x\<lparr>m_choice := sint choice\<rparr>) ?k = Inr m" "same_table g m"
    using turn_update [OF ok k, of "\<lambda>x. x\<lparr>m_choice := sint choice\<rparr>"] c by (auto simp: sitter_ok_def)
  note f = same_fields [OF m(2)]
  have inv: "hk_inv m" using assms(1,2) same_ok [OF m(2) ok] f by (simp add: hk_inv_def timer_ok_def pool_ok_def)
  have mm: "moved g m" using same_moved [OF ok m(2)] .
  obtain n where n: "stop_timer m = Inr n" "moved m n" using stop_fine [OF inv] f(10) assms(2) by auto
  note s = start_fine [OF moved_trans [OF mm n(2)], of STOP_WAIT]
  have "hk_inv (fst (countdown_done n))" using s moved_table [OF s(1)] by (simp add: countdown_done_def hk_inv_def pool_ok_def)
  moreover have "moved g (fst (countdown_done n))" using s by (simp add: countdown_done_def)
  ultimately have "fine (Inr (countdown_done n)) (\<lambda>g'. hk_inv g' \<and> moved g g')" by (auto simp: fine_def countdown_done_def)
  then show ?thesis
    unfolding register_choice_def h(1) chain_def rbind_Inr prod.case x(2) m(1)
    using n(1) inv mm by (auto simp: fine_def)
qed

lemma choose_fine:
  assumes "hk_inv g"
  shows "heek_choose msg player g = Inl Truncated_Message \<or>
    fine (heek_choose msg player g) (\<lambda>g'. hk_inv g' \<and> points g' = points g)"
proof -
  have ok: "table_ok g" using assms by (simp add: hk_inv_def)
  consider "length (gm_buf msg) < header_len + 1" | "\<not> length (gm_buf msg) < header_len + 1" "m_sitting_ct g < 2"
    | (go) "\<not> length (gm_buf msg) < header_len + 1" "\<not> m_sitting_ct g < 2" by blast
  then show ?thesis
  proof cases
    case go
    then obtain c where c: "get8 (gm_buf msg) header_len = Inr c" by (simp add: get8_def)
    define g1 where "g1 = (if m_state g = IDLE then reset_game (g\<lparr>m_state := IN_GAME\<rparr>) else g)"
    have p1: "points g1 = points g"
      using assms by (auto simp: g1_def reset_game_def points_def hk_inv_def pool_ok_def)
    have ok1: "table_ok g1" using ok by (simp add: g1_def reset_game_def)
    have inv1: "hk_inv g1" if "m_state g1 \<noteq> IN_GAME"
      using assms that by (auto simp: g1_def reset_game_def split: if_splits)
    define start where "start = (if m_state g1 = IN_GAME then start_countdown g1 else Inr (g1, []))"
    have "fine start (\<lambda>g'. hk_inv g' \<and> moved g1 g')"
      using countdown_fine [OF ok1] inv1 moved_refl [OF ok1] by (auto simp: start_def elim!: fine_mono)
    then obtain h os where h: "start = Inr (h, os)" "hk_inv h" "moved g1 h" by (auto elim!: fineE)
    have ok2: "table_ok h" using h(2) by (simp add: hk_inv_def)
    have ph: "points h = points g" using h(3) p1 by (simp add: moved_def)
    have rest: "heek_choose msg player g = chain (Inr (h, os)) (\<lambda>g.
           if m_state g = COUNTDOWN
           then if c > 2 then Inr (g, [])
                else rbind (get_player_index player g) (\<lambda>idx.
                  case idx of
                    None \<Rightarrow> Inr (g, [])
                  | Some i \<Rightarrow> (case m_sitting g ! i of None \<Rightarrow> Inl Null_Pointer | Some a \<Rightarrow> register_choice a c g))
           else Inr (g, []))"
      by (simp only: heek_choose_def c rbind_Inr Let_def g1_def [symmetric] start_def [symmetric] h(1) go if_False)
    have "fine (heek_choose msg player g) (\<lambda>g'. hk_inv g' \<and> points g' = points g)"
    proof (cases "m_state h = COUNTDOWN \<and> \<not> c > 2")
      case False
      with h(2) ph show ?thesis by (auto simp: rest chain_def)
    next
      case True
      from ok2 show ?thesis
      proof (cases rule: player_seat [where player = player])
        case none
        with True h(2) ph show ?thesis by (simp add: rest chain_def)
      next
        case (seat i a)
        with True register_fine [OF h(2) _ seat(5), of c] obtain k o2 where
          "register_choice a c h = Inr (k, o2)" "hk_inv k" "moved h k" by (auto elim!: fineE)
        with True seat ph show ?thesis by (simp add: rest chain_def moved_def)
      qed
    qed
    then show ?thesis ..
  qed (use assms in \<open>simp_all add: heek_choose_def\<close>)
qed

lemma seq_fine:
  assumes "hk_inv g"
  shows "seq_finished msg player g = Inl Truncated_Message \<or>
    fine (seq_finished msg player g) (\<lambda>g'. hk_inv g' \<and> points g' = points g)"
proof -
  have pool: "m_state g \<in> {WINNER, WIN_WAIT} \<Longrightarrow> m_point_pool g = 0" using assms by (auto simp: hk_inv_def pool_ok_def)
  have stop: "\<exists>h. stop_timer g = Inr h \<and> moved g h \<and> m_state h = m_state g \<and> m_point_pool h = m_point_pool g"
    if "m_state g \<in> {STOP_WAIT, ANIM_WAIT, WINNER, WIN_WAIT}"
    using stop_fine [OF assms] that by (auto simp: state_order)
  have res: "fine m (\<lambda>g'. hk_inv g' \<and> points g' = points g)"
    if "fine m (\<lambda>g'. hk_inv g' \<and> moved g g' \<and> Q g')" for m :: "(heek \<times> out list) res" and Q
    using that by (auto simp: moved_def elim!: fine_mono)
  consider "length (gm_buf msg) < header_len + 1" | "\<not> length (gm_buf msg) < header_len + 1" "player \<noteq> m_owner g"
    | (go) "\<not> length (gm_buf msg) < header_len + 1" "player = m_owner g" by blast
  then show ?thesis
  proof cases
    case go
    then obtain c where c: "get8 (gm_buf msg) header_len = Inr c" by (simp add: get8_def)
    note unf = seq_finished_def [of msg player g, unfolded c rbind_Inr]
    consider (count) "c = 0" "m_state g = STOP_WAIT" | (anim) "c = 1" "m_state g = ANIM_WAIT"
      | (winner) "c = 1" "m_state g = WINNER" | (win) "c = 2" "m_state g = WIN_WAIT"
      | (none) "\<not> (c = 0 \<and> m_state g = STOP_WAIT)" "\<not> (c = 1 \<and> (m_state g = ANIM_WAIT \<or> m_state g = WINNER))"
        "\<not> (c = 2 \<and> m_state g = WIN_WAIT)" by blast
    then have "fine (seq_finished msg player g) (\<lambda>g'. hk_inv g' \<and> points g' = points g)"
    proof cases
      case count
      with stop obtain h where "stop_timer g = Inr h" "moved g h" by auto
      with res [OF round_fine] count go show ?thesis unfolding unf by simp
    next
      case anim
      with stop obtain h where "stop_timer g = Inr h" "moved g h" "m_state h = ANIM_WAIT" by auto
      with res [OF idle_inv] anim go show ?thesis unfolding unf by simp
    next
      case winner
      with stop pool obtain h where "stop_timer g = Inr h" "moved g h" "m_state h = WINNER" "m_point_pool h = 0" by auto
      with res [OF winner_fine] winner go show ?thesis unfolding unf by simp
    next
      case win
      with stop pool obtain h where "stop_timer g = Inr h" "moved g h" "m_point_pool h = 0" by auto
      with res [OF end_of_game_fine] win go show ?thesis unfolding unf by simp
    next
      case none
      with go assms show ?thesis unfolding unf by auto
    qed
    then show ?thesis ..
  qed (use assms in \<open>simp_all add: seq_finished_def\<close>)
qed

section \<open>Sitting down and getting up\<close>

lemma seated_split:
  assumes "i < length (m_sitting g)"
  shows "\<exists>us vs. seated g = us @ (case m_sitting g ! i of None \<Rightarrow> [] | Some a \<Rightarrow> [a]) @ vs \<and>
    (\<forall>s. List.map_filter (\<lambda>s. s) ((m_sitting g)[i := s]) = us @ (case s of None \<Rightarrow> [] | Some a \<Rightarrow> [a]) @ vs)"
proof (intro exI conjI allI)
  let ?us = "List.map_filter (\<lambda>s. s) (take i (m_sitting g))" and ?vs = "List.map_filter (\<lambda>s. s) (drop (Suc i) (m_sitting g))"
  have app: "List.map_filter (\<lambda>s. s) (xs @ s # ys) = List.map_filter (\<lambda>s. s) xs @ (case s of None \<Rightarrow> [] | Some a \<Rightarrow> [a]) @
      List.map_filter (\<lambda>s. s) ys" for xs :: "nat option list" and s ys
    by (simp add: List.map_filter_def split: option.splits)
  show "seated g = ?us @ (case m_sitting g ! i of None \<Rightarrow> [] | Some a \<Rightarrow> [a]) @ ?vs"
    unfolding seated_def app [symmetric] using id_take_nth_drop [OF assms] by simp
  show "List.map_filter (\<lambda>s. s) ((m_sitting g)[i := s]) = ?us @ (case s of None \<Rightarrow> [] | Some a \<Rightarrow> [a]) @ ?vs" for s
    unfolding app [symmetric] upd_conv_take_nth_drop [OF assms] ..
qed

definition get_up :: "nat \<Rightarrow> heek \<Rightarrow> heek" where
  "get_up i g = g\<lparr>m_sitting := (m_sitting g)[i := None],
     m_sitting_ct := (if m_sitting_ct g > 0 then m_sitting_ct g - 1 else m_sitting_ct g)\<rparr>"

lemma get_up_ok:
  assumes "table_ok g" and "i < 5" and "m_sitting g ! i = Some a"
  shows "table_ok (get_up i g)" "\<And>b. Some b \<in> set (m_sitting (get_up i g)) \<Longrightarrow> ki_at g b \<noteq> ki_at g a"
proof -
  have "i < length (m_sitting g)" using assms(1,2) by (simp add: table_ok_def)
  from seated_split [OF this] assms(3) obtain us vs where
    uv: "seated g = us @ a # vs" "\<forall>s. List.map_filter (\<lambda>s. s) ((m_sitting g)[i := s]) = us @ (case s of None \<Rightarrow> [] | Some a \<Rightarrow> [a]) @ vs"
    by auto
  then have s: "seated (get_up i g) = us @ vs" by (simp add: seated_def get_up_def)
  have k: "ki_at (get_up i g) = ki_at g" by (rule ki_at_cong) (simp add: get_up_def)
  have r: "roster_ok (get_up i g) = roster_ok g" by (simp add: roster_ok_def get_up_def)
  show "table_ok (get_up i g)"
    using assms(1) unfolding table_ok_def s k r uv(1) by (auto simp: get_up_def)
  fix b
  assume "Some b \<in> set (m_sitting (get_up i g))"
  then have "b \<in> set (us @ vs)" unfolding s [symmetric] by (force simp: seated_def List.map_filter_def)
  moreover have "distinct (map (ki_at g) (us @ a # vs))" using assms(1) uv(1) by (simp add: table_ok_def)
  ultimately show "ki_at g b \<noteq> ki_at g a" by (force simp: image_iff)
qed

lemma forget_choice_fine:
  assumes "table_ok g" and "Some a \<in> set (m_sitting g)"
  shows "\<exists>h. forget_choice a g = Inr h \<and> same_table g h \<and> m_point_pool h = m_point_pool g"
proof -
  obtain x where x: "memory g a = Some x" "sitter_at a g = Inr x" "sitter_ok x" using seat_alive [OF assms] .
  let ?g = "if m_state g > IN_GAME \<and> m_choice_ct g > 0 then g\<lparr>m_choice_ct := m_choice_ct g - 1\<rparr> else g"
  have g: "same_table g ?g" "memory ?g a = Some x" using x(1) by simp_all
  obtain h where "update_sitter a (\<lambda>x. x\<lparr>m_choice := -1\<rparr>) ?g = Inr h" "same_table g h" "m_point_pool h = m_point_pool ?g"
    using turn_update [OF assms(1) g, of "\<lambda>x. x\<lparr>m_choice := -1\<rparr>"] ok_wins by auto
  then show ?thesis using x(2) by (auto simp: forget_choice_def)
qed

lemma forget_winner_fine:
  assumes "table_ok g" and "Some a \<in> set (m_sitting g)"
  shows "\<exists>h. forget_winner a g = Inr h \<and> same_table g h \<and> m_point_pool h = m_point_pool g"
proof -
  obtain x where x: "memory g a = Some x" "sitter_at a g = Inr x" "sitter_ok x" using seat_alive [OF assms] .
  obtain h where "update_sitter a (\<lambda>x. x\<lparr>m_pending_winner := False\<rparr>) g = Inr h" "same_table g h" "m_point_pool h = m_point_pool g"
    using turn_update [OF assms(1) same_refl x(1), of "\<lambda>x. x\<lparr>m_pending_winner := False\<rparr>"] ok_wins by auto
  then show ?thesis using x(2) by (simp add: forget_winner_def)
qed

lemma disable_fine:
  assumes "table_ok g" and "Some a \<in> set (m_sitting g)"
  shows "fine (disable_interface a g) (\<lambda>h. h = g)"
proof -
  obtain x where "sitter_at a g = Inr x" using seat_alive [OF assms] .
  then show ?thesis using tell_fine [OF assms(1)] by (simp add: disable_interface_def Let_def)
qed

definition departing :: "heek \<Rightarrow> heek \<times> out list" where
  "departing g =
     (if m_sitting_ct g = 1
      then (let g = reset_game g in if m_state g = COUNTDOWN then countdown_done g else (g\<lparr>m_state := IDLE\<rparr>, []))
      else (g, []))"

lemma departing_ok:
  assumes "hk_inv g" and "departing g = (h, os)"
  shows "hk_inv h \<and> m_sitting h = m_sitting g \<and> m_all h = m_all g \<and> memory h = memory g \<and> m_sitting_ct h = m_sitting_ct g \<and>
    m_owner h = m_owner g \<and> m_cleanup h = m_cleanup g \<and>
    m_point_pool h = (if m_sitting_ct g = 1 then 0 else m_point_pool g)"
proof -
  have ok: "table_ok (reset_game g)" using assms(1) by (simp add: hk_inv_def reset_game_def)
  note s = start_fine [OF moved_refl [OF ok], of STOP_WAIT]
  have "hk_inv (start_timer ((reset_game g)\<lparr>m_state := STOP_WAIT\<rparr>))"
    using s moved_table [OF s(1)] by (simp add: hk_inv_def pool_ok_def)
  moreover have "hk_inv ((reset_game g)\<lparr>m_state := IDLE\<rparr>)"
    using ok by (simp add: hk_inv_def timer_ok_def pool_ok_def reset_game_def state_order)
  ultimately show ?thesis
    using assms by (auto simp: departing_def Let_def countdown_done_def reset_game_def start_timer_def split: if_splits prod.splits)
qed

lemma hk_inv_same: "same_table g h \<Longrightarrow> m_point_pool h = m_point_pool g \<Longrightarrow> hk_inv g \<Longrightarrow> hk_inv h"
  using same_ok [of g h] same_fields [of g h] by (simp add: hk_inv_def timer_ok_def pool_ok_def)

lemma hk_inv_up: "hk_inv g \<Longrightarrow> i < 5 \<Longrightarrow> m_sitting g ! i = Some a \<Longrightarrow> hk_inv (get_up i g)"
  using get_up_ok(1) [of g i a] by (simp add: hk_inv_def timer_ok_def pool_ok_def get_up_def)

lemma departure_fine:
  assumes "hk_inv g" and "i < 5" and "m_sitting g ! i = Some a"
  shows "fine (handle_departure i g) (\<lambda>h. hk_inv h \<and> m_all h = m_all g \<and> (\<forall>b. ki_at h b = ki_at g b) \<and>
    (\<forall>b. Some b \<in> set (m_sitting h) \<longrightarrow> ki_at g b \<noteq> ki_at g a) \<and>
    points h = (if m_sitting_ct g = 1 then points g - m_point_pool g else points g))"
proof -
  have l: "length (m_sitting g) = 5" using assms(1) by (simp add: hk_inv_def table_ok_def)
  have a: "Some a \<in> set (m_sitting g)" using seat_in [of i "m_sitting g" a] assms(2,3) l by simp
  obtain g1 o1 where g1: "departing g = (g1, o1)" by fastforce
  note d = departing_ok [OF assms(1) g1]
  have ok1: "table_ok g1" using d by (simp add: hk_inv_def)
  obtain g2 where g2: "forget_choice a g1 = Inr g2" "same_table g1 g2" "m_point_pool g2 = m_point_pool g1"
    using forget_choice_fine [OF ok1, of a] a d by auto
  have ok2: "table_ok g2" using same_ok [OF g2(2) ok1] .
  have a2: "Some a \<in> set (m_sitting g2)" using a d same_fields(4) [OF g2(2)] by simp
  obtain o2 where o2: "disable_interface a g2 = Inr (g2, o2)" using disable_fine [OF ok2 a2] by (auto elim!: fineE)
  obtain g3 where g3: "forget_winner a g2 = Inr g3" "same_table g2 g3" "m_point_pool g3 = m_point_pool g2"
    using forget_winner_fine [OF ok2 a2] by auto
  have s: "same_table g1 g3" using same_trans [OF g2(2) g3(2)] .
  have inv3: "hk_inv g3" using hk_inv_same [OF s] g2(3) g3(3) d by simp
  have seat3: "m_sitting g3 ! i = Some a" using assms(3) d same_fields(4) [OF s] by simp
  have k: "ki_at g3 = ki_at g" using same_ki [OF s] ki_at_cong [of g1 g] d by (simp add: fun_eq_iff)
  have ku: "ki_at (get_up i g3) = ki_at g3" by (rule ki_at_cong) (simp add: get_up_def)
  have "points (get_up i g3) = points g1" using same_fields(12) [OF s] by (simp add: get_up_def points_def)
  also have "\<dots> = (if m_sitting_ct g = 1 then points g - m_point_pool g else points g)" using d by (simp add: points_def)
  finally have p: "points (get_up i g3) = (if m_sitting_ct g = 1 then points g - m_point_pool g else points g)" .
  have all: "m_all (get_up i g3) = m_all g" using d same_fields(6) [OF s] by (simp add: get_up_def)
  have r: "handle_departure i g = Inr (get_up i g3, o1 @ o2 @ [])"
    unfolding handle_departure_def assms(3) option.case departing_def [symmetric] g1 chain_def rbind_Inr prod.case g2(1) o2 g3(1)
    by (simp add: get_up_def)
  show ?thesis
    unfolding r fine_Inr using hk_inv_up [OF inv3 assms(2) seat3] p all k ku
      get_up_ok(2) [of g3 i a] inv3 assms(2) seat3 by (simp add: hk_inv_def)
qed


lemma leave_fine:
  assumes "hk_inv g"
  shows "fine (leave_game player g) (\<lambda>h. hk_inv h \<and> points h = points g)"
proof -
  have ok: "table_ok g" using assms by (simp add: hk_inv_def)
  from ok show ?thesis
  proof (cases rule: player_seat [where player = player])
    case none
    with assms show ?thesis by (simp add: leave_game_def)
  next
    case (seat i a)
    obtain x where x: "memory g a = Some x" "sitter_at a g = Inr x" "sitter_ok x" using seat_alive [OF ok seat(5)] .
    let ?y = "x\<lparr>m_score := m_score x + m_point_pool g\<rparr>"
    define g1 where "g1 = (if m_sitting_ct g = 1 then g\<lparr>memory := (memory g)(a \<mapsto> ?y)\<rparr> else g)"
    have pay: "(if m_sitting_ct g = 1 then update_sitter a (\<lambda>x. x\<lparr>m_score := m_score x + m_point_pool g\<rparr>) g else Inr g) = Inr g1"
      using x(2) by (simp add: g1_def update_sitter_def)
    have p1: "points g1 = (if m_sitting_ct g = 1 then points g + m_point_pool g else points g)"
      using points_update [OF table_finite [OF ok] x(1), of ?y] by (simp add: g1_def)
    have "points (g1\<lparr>m_point_pool := 0\<rparr>) = points g1 - m_point_pool g" by (simp add: points_def g1_def)
    then have "same_table g (if m_sitting_ct g = 1 then g1\<lparr>m_point_pool := 0\<rparr> else g1)"
      using p1 x(1) ok_wins(5) [of x]
      by (cases "m_sitting_ct g = 1") (simp_all add: g1_def same_table_def table_view_def kept_def)
    from same_ok [OF this ok] have "table_ok g1" by (simp split: if_splits)
    then have inv: "hk_inv g1" using assms by (simp add: g1_def hk_inv_def timer_ok_def pool_ok_def)
    have f: "m_sitting g1 = m_sitting g" "m_point_pool g1 = m_point_pool g" "m_sitting_ct g1 = m_sitting_ct g"
      by (simp_all add: g1_def)
    obtain z where z: "sitter_at a g1 = Inr z"
      using x by (cases "m_sitting_ct g = 1") (simp_all add: g1_def sitter_at_def)
    have "fine (handle_departure i g1) (\<lambda>h. hk_inv h \<and> points h = points g)"
      using departure_fine [OF inv seat(2), of a] seat(3) f p1 by (auto elim!: fine_mono)
    then show ?thesis
      unfolding leave_game_def seat(1,3) rbind_Inr option.case pay z
      by (simp add: fine_chain [where R = "\<lambda>s. s = g1"])
  qed
qed

lemma drop_fine:
  assumes inv: "hk_inv g" and gone: "\<forall>b. Some b \<in> set (m_sitting g) \<longrightarrow> ki_at g b \<noteq> player"
  shows "\<exists>h. drop_sitter player g = Inr h \<and> hk_inv h"
proof (cases "m_all g")
  case Nil
  with inv show ?thesis by (simp add: drop_sitter_def)
next
  case (Cons a as)
  have ok: "table_ok g" using inv by (simp add: hk_inv_def)
  with Cons obtain x where x: "memory g a = Some x" by (auto simp: table_ok_def)
  define h where "h = (if m_ki x = player then g\<lparr>memory := (memory g)(a := None)\<rparr> else g)\<lparr>m_all := as\<rparr>"
  have d: "drop_sitter player g = Inr h" using Cons x by (simp add: drop_sitter_def sitter_at_def h_def)
  have s: "seated h = seated g" by (simp add: seated_def h_def)
  have ns: "a \<notin> set (seated g)" if "m_ki x = player"
    using gone that x by (force simp: seated_def List.map_filter_def ki_at_def)
  have k: "map (ki_at h) (seated g) = map (ki_at g) (seated g)" using ns by (auto simp: h_def ki_at_def)
  have dom: "dom (memory h) = (if m_ki x = player then dom (memory g) - {a} else dom (memory g))" by (simp add: h_def)
  have ran: "ran (memory h) \<subseteq> ran (memory g)" by (auto simp: h_def ran_def split: if_splits)
  have "table_ok h"
    using ok ns ran unfolding table_ok_def s k dom Cons by (auto simp: h_def roster_ok_def)
  then show ?thesis using d inv by (simp add: hk_inv_def timer_ok_def pool_ok_def h_def)
qed

lemma inv_roster:
  assumes "hk_inv g" and "roster_ok (g\<lparr>m_players := ps, m_owner := p\<rparr>)"
  shows "hk_inv (g\<lparr>m_players := ps, m_owner := p\<rparr>)"
proof -
  let ?g = "g\<lparr>m_players := ps, m_owner := p\<rparr>"
  have "ki_at ?g = ki_at g" by (rule ki_at_cong) simp
  moreover have "seated ?g = seated g" by (simp add: seated_def)
  ultimately show ?thesis using assms by (simp add: hk_inv_def table_ok_def timer_ok_def pool_ok_def)
qed

lemma inv_left:
  assumes "hk_inv g" and "GameMgr_player_left player g = (g', os)"
  shows "hk_inv g'"
proof -
  have r: "roster_ok g'" using assms roster_left by (auto simp: hk_inv_def table_ok_def)
  from assms(2) obtain ps p where "g' = g\<lparr>m_players := ps, m_owner := p\<rparr>"
    by (cases rule: left_cases) (auto simp: remove_player_def intro: that [of "m_owner g"])
  with inv_roster [OF assms(1)] r show ?thesis by metis
qed

lemma inv_cleanup [simp]: "hk_inv (g\<lparr>m_cleanup := c\<rparr>) = hk_inv g"
  by (simp add: hk_inv_def timer_ok_def pool_ok_def)

lemma inv_send_drop: "hk_inv g \<Longrightarrow> send_drop g = (h, os) \<Longrightarrow> hk_inv h"
  by (auto simp: send_drop_def split: if_splits)


lemma player_left_fine:
  assumes inv: "hk_inv g"
  shows "fine (hk_player_left player g) hk_inv"
proof -
  have ok: "table_ok g" using inv by (simp add: hk_inv_def)
  have rest: "fine (rbind (drop_sitter player h) (\<lambda>g.
         let (g, o1) = GameMgr_player_left player g;
             (g, o2) = (if m_cleanup g \<ge> 0 \<and> m_owner g \<noteq> 0 then send_drop g else (g, []))
         in Inr (g, o1 @ o2))) hk_inv"
    if h: "hk_inv h" "\<forall>b. Some b \<in> set (m_sitting h) \<longrightarrow> ki_at h b \<noteq> player" for h
  proof -
    obtain h1 where h1: "drop_sitter player h = Inr h1" "hk_inv h1" using drop_fine [OF h] by blast
    obtain h2 o1 where h2: "GameMgr_player_left player h1 = (h2, o1)" by fastforce
    have "hk_inv h2" using inv_left [OF h1(2) h2] .
    with inv_send_drop show ?thesis using h1(1) h2 by (auto simp: fine_def split: prod.splits)
  qed
  from ok show ?thesis
  proof (cases rule: player_seat [where player = player])
    case none
    from rest [OF inv none(2)] none(1) show ?thesis
      by (simp add: hk_player_left_def fine_chain [where R = "\<lambda>s. s = g"])
  next
    case (seat i a)
    let ?g = "g\<lparr>m_cleanup := int i\<rparr>"
    obtain g1 o1 where g1: "(if player = m_owner ?g then (?g, []) else send_drop ?g) = (g1, o1)" by fastforce
    have f: "hk_inv g1 \<and> m_sitting g1 = m_sitting g \<and> memory g1 = memory g"
      using g1 inv by (auto simp: send_drop_def split: if_splits)
    then have k: "ki_at g1 = ki_at g" using ki_at_cong by blast
    have "fine (handle_departure i g1) (\<lambda>h. hk_inv h \<and> (\<forall>b. Some b \<in> set (m_sitting h) \<longrightarrow> ki_at h b \<noteq> player))"
      using departure_fine [of g1 i a] f seat k by (auto elim!: fine_mono)
    then have "fine (chain (Inr (g1, o1)) (handle_departure i))
        (\<lambda>h. hk_inv h \<and> (\<forall>b. Some b \<in> set (m_sitting h) \<longrightarrow> ki_at h b \<noteq> player))"
      by (simp add: fine_chain [where R = "\<lambda>s. s = g1"])
    then show ?thesis
      unfolding hk_player_left_def seat(1) rbind_Inr option.case Let_def g1 by (rule fine_chain) (use rest in \<open>simp add: Let_def\<close>)
  qed
qed

lemma initialize_fine:
  assumes inv: "hk_inv g" and ev: "gm_check_useable msg" "is_setup msg" "player \<noteq> 0"
  shows "\<exists>h os. hk_initialize_game msg player g = Inr (True, h, os) \<and> hk_inv h"
proof -
  define g1 where "g1 = add_player player (if m_owner g = 0 then g\<lparr>m_owner := player\<rparr> else g)"
  have "roster_ok (if m_owner g = 0 then g\<lparr>m_owner := player\<rparr> else g)"
    using inv by (auto simp: roster_ok_def hk_inv_def table_ok_def)
  then have r: "roster_ok g1" unfolding g1_def by (rule roster_add) (use ev in simp_all)
  have "g1 = g\<lparr>m_players := m_players g1, m_owner := m_owner g1\<rparr>" by (simp add: g1_def add_player_def)
  with inv_roster [OF inv, where ps = "m_players g1" and p = "m_owner g1"] r have i: "hk_inv g1" by simp
  obtain o1 where o1: "send_setup_reply msg player g1 = Inr o1"
    using setup_uuid_ok [OF ev(1,2)] by (auto simp: send_setup_reply_def)
  obtain g2 o3 where g2: "(if m_cleanup g1 \<ge> 0 \<and> m_owner g1 = player then send_drop g1 else (g1, [])) = (g2, o3)" by fastforce
  then have "hk_inv g2" using i inv_send_drop by (auto split: if_splits)
  then show ?thesis
    unfolding hk_initialize_game_def Let_def g1_def [symmetric] o1 rbind_Inr g2 prod.case by blast
qed

text \<open>Taking a seat.\<close>

lemma find_sitter_ok:
  assumes "\<forall>a \<in> set as. memory g a \<noteq> None"
  shows "\<exists>r. find_sitter player as g = Inr r \<and> (\<forall>a. r = Some a \<longrightarrow> a \<in> set as \<and> ki_at g a = player)"
  using assms
  by (induction player as g rule: find_sitter.induct) (auto simp: sitter_at_def ki_at_def split: option.splits)

lemma this_guy_fine:
  assumes ok: "table_ok g"
  shows "\<exists>h a. this_guy player score g = Inr (h, a) \<and> table_ok h \<and> a \<in> dom (memory h) \<and> ki_at h a = player \<and>
    (\<forall>b \<in> set (seated g). ki_at h b = ki_at g b) \<and> m_sitting h = m_sitting g \<and> m_sitting_ct h = m_sitting_ct g \<and>
    m_state h = m_state g \<and> m_timer h = m_timer g \<and> server_timers h = server_timers g \<and> m_point_pool h = m_point_pool g"
proof -
  have "\<forall>a \<in> set (m_all g). memory g a \<noteq> None" using ok by (auto simp: table_ok_def)
  then obtain r where r: "find_sitter player (m_all g) g = Inr r" "\<forall>a. r = Some a \<longrightarrow> a \<in> set (m_all g) \<and> ki_at g a = player"
    using find_sitter_ok by blast
  show ?thesis
  proof (cases r)
    case None
    let ?n = "next_addr g"
    define h where "h = g\<lparr>memory := (memory g)(?n \<mapsto> Sitter player score), m_all := m_all g @ [?n], next_addr := ?n + 1\<rparr>"
    have fresh: "?n \<notin> dom (memory g)" using ok by (auto simp: table_ok_def)
    have sub: "set (seated g) \<subseteq> dom (memory g)" "set (m_all g) \<subseteq> dom (memory g)" using ok by (auto simp: table_ok_def)
    then have ns: "?n \<notin> set (seated g)" "?n \<notin> set (m_all g)" using fresh by auto
    have s: "seated h = seated g" by (simp add: seated_def h_def)
    have k: "\<forall>b \<in> set (seated g). ki_at h b = ki_at g b" using ns by (auto simp: h_def ki_at_def)
    then have km: "map (ki_at h) (seated g) = map (ki_at g) (seated g)" by simp
    have ran: "ran (memory h) = insert (Sitter player score) (ran (memory g))" using fresh by (auto simp: h_def)
    have dom: "dom (memory h) = insert ?n (dom (memory g))" by (simp add: h_def)
    have "sitter_ok (Sitter player score)" by (simp add: sitter_ok_def Sitter_def)
    then have "\<forall>x \<in> insert (Sitter player score) (ran (memory g)). sitter_ok x" using ok by (simp add: table_ok_def)
    moreover have "insert ?n (dom (memory g)) \<subseteq> {..<next_addr h}"
      using ok by (fastforce simp: table_ok_def h_def)
    moreover have "roster_ok h = roster_ok g" "server_timers h = server_timers g" "m_sitting h = m_sitting g"
      "m_all h = m_all g @ [?n]" "m_sitting_ct h = m_sitting_ct g" by (simp_all add: h_def roster_ok_def)
    moreover have "set (m_all g @ [?n]) \<subseteq> insert ?n (dom (memory g))" "set (seated g) \<subseteq> insert ?n (dom (memory g))"
      using sub by auto
    moreover have "distinct (m_all g @ [?n])" using ok ns(2) by (simp add: table_ok_def)
    ultimately have "table_ok h" using ok unfolding table_ok_def s km ran dom by simp
    moreover have "ki_at h ?n = player" by (simp add: ki_at_def h_def Sitter_def)
    moreover have "this_guy player score g = Inr (h, ?n)" using r(1) None by (simp add: this_guy_def h_def)
    ultimately show ?thesis using k dom by (auto simp: h_def)
  next
    case (Some a)
    with r(2) have a: "a \<in> set (m_all g)" "ki_at g a = player" by simp_all
    have "set (m_all g) \<subseteq> dom (memory g)" "\<forall>x \<in> ran (memory g). sitter_ok x" using ok by (simp_all add: table_ok_def)
    with a obtain x where x: "memory g a = Some x" "ki_at g a = player" "sitter_ok x" by (meson domD ranI subsetD)
    define f where "f = (\<lambda>x. let y = (if s_current_game x = m_current_game g \<and> m_score x \<noteq> score then x else x\<lparr>m_score := score\<rparr>);
                    z = (if s_current_game x \<noteq> m_current_game g then reset_wins y else y)
                in if m_choice z \<noteq> -1 then z\<lparr>m_choice := -1\<rparr> else z)"
    have fx: "m_ki (f x) = m_ki x" "sitter_ok (f x)" using x(3) by (auto simp: f_def Let_def reset_wins_def sitter_ok_def)
    define h where "h = g\<lparr>memory := (memory g)(a \<mapsto> f x)\<rparr>"
    have k: "ki_at h = ki_at g" using x(1) fx(1) by (auto simp: fun_eq_iff ki_at_def h_def)
    have s: "seated h = seated g" by (simp add: seated_def h_def)
    have dom: "dom (memory h) = dom (memory g)" using x(1) by (auto simp: h_def)
    have ran: "\<forall>y \<in> ran (memory h). sitter_ok y"
      using ok fx(2) by (auto simp: h_def ran_def table_ok_def split: if_splits)
    have "table_ok h" using ok ran unfolding table_ok_def s k dom by (simp add: h_def roster_ok_def)
    moreover have "this_guy player score g = Inr (h, a)"
      using r(1) Some x(1) unfolding this_guy_def f_def [symmetric] by (simp add: update_sitter_def sitter_at_def h_def)
    ultimately show ?thesis using k dom x by (auto simp: h_def)
  qed
qed

lemma sit_ok:
  assumes ok: "table_ok g" and i: "i < 5" "m_sitting g ! i = None" and a: "a \<in> dom (memory g)"
    and new: "\<forall>b \<in> set (seated g). ki_at g b \<noteq> ki_at g a"
  shows "table_ok (g\<lparr>m_sitting_ct := m_sitting_ct g + 1, m_sitting := (m_sitting g)[i := Some a]\<rparr>)" (is "table_ok ?g")
proof -
  have "i < length (m_sitting g)" using ok i(1) by (simp add: table_ok_def)
  from seated_split [OF this] i(2) obtain us vs where
    uv: "seated g = us @ vs" "\<forall>s. List.map_filter (\<lambda>s. s) ((m_sitting g)[i := s]) = us @ (case s of None \<Rightarrow> [] | Some a \<Rightarrow> [a]) @ vs"
    by auto
  then have s: "seated ?g = us @ a # vs" by (simp add: seated_def)
  have k: "ki_at ?g = ki_at g" by (rule ki_at_cong) simp
  have r: "roster_ok ?g = roster_ok g" by (simp add: roster_ok_def)
  have "distinct (map (ki_at g) (us @ a # vs))" using ok new unfolding table_ok_def uv(1) by (auto simp: image_iff)
  moreover have "set (us @ a # vs) \<subseteq> dom (memory g)" "length (us @ a # vs) = m_sitting_ct g + 1"
    using ok a unfolding table_ok_def uv(1) by auto
  ultimately show ?thesis using ok unfolding table_ok_def s k r by simp
qed


definition avatar_text :: "gm_msg \<Rightarrow> byte list" where
  "avatar_text msg = wide_text (take 512 (drop (header_len + 5) (gm_buf msg)))"

lemma heek_welcome_name:
  assumes "header_len + 5 + 512 \<le> length (gm_buf msg)" and "length (avatar_text msg) \<le> 510"
  shows "\<exists>u. UruString_buf (drop (header_len + 5) (gm_buf msg)) 512 False True False = Inr u \<and>
    heek_welcome conv alloc gid score rank u = Inr (GameMgr_Heek_Welcome_Message gid score rank (name_wire (avatar_text msg)))"
proof -
  let ?b = "drop (header_len + 5) (gm_buf msg)" and ?t = "avatar_text msg"
  have "512 \<le> length ?b" using assms(1) by simp
  from uncopied_name [OF this, of conv alloc] obtain u u' where u: "UruString_buf ?b 512 False True False = Inr u"
    "send_len conv alloc u False True True = Inr (length ?t + 2, u)"
    "get_str conv alloc u False True True False = Inr (?t @ [0, 0], u')" by (auto simp: avatar_text_def)
  have s: "slice 0 (length ?t + 2) (?t @ [0, 0]) = Inr (?t @ [0, 0])" by (simp add: slice_def)
  have "length ?t + 2 \<le> 512" using assms(2) by simp
  then have "heek_welcome conv alloc gid score rank u = Inr (GameMgr_Heek_Welcome_Message gid score rank (name_wire ?t))"
    unfolding heek_welcome_def u(2) rbind_Inr prod.case u(3) s using name_wire_null [OF assms(2)] by simp
  with u(1) show ?thesis by blast
qed

definition may_sit :: "gm_msg \<Rightarrow> kinum \<Rightarrow> heek \<Rightarrow> bool" where
  "may_sit msg player g \<longleftrightarrow>
     gm_buf msg ! header_len < 5 \<and> (\<forall>a \<in> set (seated g). ki_at g a \<noteq> player) \<and> length (avatar_text msg) \<le> 510"

lemma enable_fine:
  assumes "table_ok g"
  shows "fine (enable_others a g) (\<lambda>s. s = g)"
proof -
  have "fine (for_seats (\<lambda>b g. if b = a then Inr (g, [])
         else rbind (sitter_at b g) (\<lambda>x.
           Inr (g, [Send (m_ki x) (GameMgr_OneByte_Message (m_gameid g) Srv2Cli_Heek_InterfaceState 1)])))
       (m_sitting g) g) (\<lambda>s. s = g)"
  proof (rule for_seats_fine)
    fix b s
    assume b: "Some b \<in> set (m_sitting g)" and s: "s = g"
    obtain y where "sitter_at b g = Inr y" using seat_alive [OF assms b] .
    then show "fine (if b = a then Inr (s, [])
           else rbind (sitter_at b s) (\<lambda>x.
             Inr (s, [Send (m_ki x) (GameMgr_OneByte_Message (m_gameid s) Srv2Cli_Heek_InterfaceState 1)]))) (\<lambda>s. s = g)"
      unfolding s by simp
  qed simp
  then show ?thesis by (simp add: enable_others_def)
qed

lemma play_fine:
  assumes inv: "hk_inv g" and may: "header_len + 5 + 512 \<le> length (gm_buf msg) \<longrightarrow> may_sit msg player g"
  shows "play_game conv alloc msg player g = Inl Truncated_Message \<or> fine (play_game conv alloc msg player g) hk_inv"
proof -
  have ok: "table_ok g" using inv by (simp add: hk_inv_def)
  let ?p = "gm_buf msg ! header_len"
  consider (short) "length (gm_buf msg) < header_len + 5 + 512"
    | (full) "\<not> length (gm_buf msg) < header_len + 5 + 512" "m_sitting_ct g \<ge> 5"
    | (go) "\<not> length (gm_buf msg) < header_len + 5 + 512" "\<not> m_sitting_ct g \<ge> 5" by blast
  then show ?thesis
  proof cases
    case go
    then have may: "may_sit msg player g" using may by simp
    have p: "get8 (gm_buf msg) header_len = Inr ?p" using go by (simp add: get8_def)
    have p5: "\<not> unat ?p \<ge> 5" using may by (simp add: may_sit_def word_less_nat_alt)
    obtain score where sc: "read32 (gm_buf msg) (header_len + 1) = Inr score" using go by (auto simp: read32_def slice_def)
    show ?thesis
    proof (cases "m_sitting g ! unat ?p")
      case (Some b)
      have "length (m_sitting g) = 5" using ok by (simp add: table_ok_def)
      then obtain x where x: "sitter_at b g = Inr x" using seat_alive [OF ok, of b] seat_in [OF _ Some] p5 by auto
      have "fine (play_game conv alloc msg player g) hk_inv"
        unfolding play_game_def p rbind_Inr Some option.case x using go p5 inv by simp
      then show ?thesis ..
    next
      case None
      obtain h a where h: "this_guy player score g = Inr (h, a)" "table_ok h" "a \<in> dom (memory h)" "ki_at h a = player"
        "\<forall>b \<in> set (seated g). ki_at h b = ki_at g b" and f: "m_sitting h = m_sitting g" "m_sitting_ct h = m_sitting_ct g"
        "m_state h = m_state g" "m_timer h = m_timer g" "server_timers h = server_timers g" "m_point_pool h = m_point_pool g"
        using this_guy_fine [OF ok, of player score] by blast
      define k where "k = h\<lparr>m_sitting_ct := m_sitting_ct h + 1, m_sitting := (m_sitting h)[unat ?p := Some a]\<rparr>"
      have sh: "seated h = seated g" using f(1) by (simp add: seated_def)
      have "\<forall>b \<in> set (seated h). ki_at h b \<noteq> ki_at h a"
        using may h(4,5) unfolding sh by (simp add: may_sit_def)
      from sit_ok [OF h(2) _ _ h(3) this, of "unat ?p"] None f(1) p5 have t: "table_ok k" by (simp add: k_def)
      have i: "hk_inv k" using t inv f by (simp add: k_def hk_inv_def timer_ok_def pool_ok_def)
      obtain x where x: "sitter_at a k = Inr x" using h(3) by (auto simp: k_def sitter_at_def)
      obtain u where u: "UruString_buf (drop (header_len + 5) (gm_buf msg)) 512 False True False = Inr u"
        "heek_welcome conv alloc (m_gameid k) (m_score x) 1 u =
           Inr (GameMgr_Heek_Welcome_Message (m_gameid k) (m_score x) 1 (name_wire (avatar_text msg)))"
        using heek_welcome_name [of msg conv alloc "m_gameid k" "m_score x" 1] go may by (auto simp: may_sit_def)
      have tell: "fine (tell_all_sitters m k) hk_inv" for m
        using tell_fine [OF t, of m] by (rule fine_mono) (use i in simp)
      let ?rest = "\<lambda>g. rbind (UruString_buf (drop (header_len + 5) (gm_buf msg)) 512 False True False) (\<lambda>avatar_name.
             rbind (sitter_at a g) (\<lambda>x.
             rbind (heek_welcome conv alloc (m_gameid g) (m_score x) 1 avatar_name) (\<lambda>welcome.
             tell_all_sitters welcome g)))"
      have "fine (?rest k) hk_inv" unfolding u(1) rbind_Inr x u(2) by (rule tell)
      then have "fine (chain (enable_others a k) ?rest) hk_inv"
        using fine_chain [OF enable_fine [OF t, of a], of ?rest hk_inv] by simp
      then have *: "fine (chain (Inr (k, os)) (\<lambda>g. chain (enable_others a g) ?rest)) hk_inv" for os
        by (simp add: fine_chain [where R = "\<lambda>s. s = k"])
      have "fine (play_game conv alloc msg player g) hk_inv"
        unfolding play_game_def p rbind_Inr sc h(1) prod.case Let_def None option.case k_def [symmetric]
        by (simp only: go p5 if_False *)
      then show ?thesis ..
    qed
  qed (use inv in \<open>simp_all add: play_game_def\<close>)
qed


section \<open>The manager keeps the contract\<close>

definition hk_ok :: "(unit, nat) mgr_event \<Rightarrow> heek \<Rightarrow> bool" where
  "hk_ok ev g \<longleftrightarrow> event_ok ev \<and>
     (case ev of
        Game_Msg _ msg player \<Rightarrow>
          gm_msgtype msg = 3 \<and> header_len + 5 + 512 \<le> length (gm_buf msg) \<longrightarrow> may_sit msg player g
      | _ \<Rightarrow> True)"

lemma new_game_inv: "hk_inv (HeekGameMgr gid)"
  by (simp add: hk_inv_def table_ok_def timer_ok_def pool_ok_def HeekGameMgr_def roster_ok_def queue_wf_def seated_def
      List.map_filter_def state_order)

lemma step_cases:
  assumes "m = Inl Truncated_Message \<or> fine m P"
  shows "rbind (rbind m (\<lambda>(g, os). Inr (True, g, os))) (\<lambda>(b, g', os). Inr (g', os)) = Inl Truncated_Message \<or>
    fine (rbind (rbind m (\<lambda>(g, os). Inr (True, g, os))) (\<lambda>(b, g', os). Inr (g', os))) P"
  using assms by (elim disjE fineE) simp_all

lemma hk_step_fine:
  assumes "hk_inv g" and "hk_ok ev g"
  shows "hk_step conv alloc ev g = Inl Truncated_Message \<or> fine (hk_step conv alloc ev g) hk_inv"
proof (cases ev)
  case (Setup_Msg msg player)
  with assms initialize_fine [of g msg player] show ?thesis by (auto simp: hk_ok_def event_ok_def)
next
  case (Game_Msg u msg player)
  note c = step_cases [of _ hk_inv]
  have play: "gm_msgtype msg = 3 \<Longrightarrow> header_len + 5 + 512 \<le> length (gm_buf msg) \<longrightarrow> may_sit msg player g"
    using assms(2) Game_Msg by (simp add: hk_ok_def)
  consider "gm_msgtype msg = 3" | "gm_msgtype msg = 4" | "gm_msgtype msg = 5" | "gm_msgtype msg = 6"
    | "gm_msgtype msg \<notin> {3, 4, 5, 6}" by blast
  then show ?thesis
  proof cases
    case 1
    with c [OF play_fine [OF assms(1) play [OF 1]]] Game_Msg show ?thesis by (simp add: hk_got_message_def)
  next
    case 2
    have "fine (leave_game player g) hk_inv" using leave_fine [OF assms(1)] by (rule fine_mono) simp
    with c [OF disjI2] Game_Msg 2 show ?thesis by (simp add: hk_got_message_def)
  next
    case 3
    have "heek_choose msg player g = Inl Truncated_Message \<or> fine (heek_choose msg player g) hk_inv"
      using choose_fine [OF assms(1)] fine_mono by blast
    from c [OF this] Game_Msg 3 show ?thesis by (simp add: hk_got_message_def)
  next
    case 4
    have "seq_finished msg player g = Inl Truncated_Message \<or> fine (seq_finished msg player g) hk_inv"
      using seq_fine [OF assms(1)] fine_mono by blast
    from c [OF this] Game_Msg 4 show ?thesis by (simp add: hk_got_message_def)
  next
    case 5
    with Game_Msg assms(1) show ?thesis by (simp add: hk_got_message_def)
  qed
next
  case (Player_Left player)
  with player_left_fine [OF assms(1)] show ?thesis by simp
next
  case (Own_Event i)
  have "fine (hk_fire i g) hk_inv" using fire_fine [OF assms(1)] by (rule fine_mono) simp
  with Own_Event show ?thesis by simp
qed

interpretation heek: game_manager "hk_step conv alloc" hk_inv hk_ok for conv alloc
  by (rule fine_manager) (rule hk_step_fine)

text \<open>Events that bring no points into the game and take none out.\<close>

definition keeps_points :: "(unit, nat) mgr_event \<Rightarrow> bool" where
  "keeps_points ev \<longleftrightarrow> event_ok ev \<and>
     (case ev of Game_Msg _ msg player \<Rightarrow> gm_msgtype msg \<noteq> 3 | Player_Left _ \<Rightarrow> False | _ \<Rightarrow> True)"

lemma initialize_points:
  assumes "hk_initialize_game msg player g = Inr (b, h, os)"
  shows "points h = points g"
proof -
  have "m_point_pool h = m_point_pool g \<and> memory h = memory g"
    using assms by (auto simp: hk_initialize_game_def Let_def add_player_def send_drop_def rbind_eq_Inr split: prod.splits if_splits)
  then show ?thesis by (simp add: points_def)
qed

lemma hk_step_points:
  assumes "hk_inv g \<and> points g = p" and "keeps_points ev"
  shows "hk_step conv alloc ev g = Inl Truncated_Message \<or> fine (hk_step conv alloc ev g) (\<lambda>s. hk_inv s \<and> points s = p)"
proof (cases ev)
  case (Setup_Msg msg player)
  with assms obtain h os where "hk_initialize_game msg player g = Inr (True, h, os)" "hk_inv h"
    using initialize_fine [of g msg player] by (auto simp: keeps_points_def event_ok_def)
  with initialize_points [of msg player g True h os] Setup_Msg assms show ?thesis by simp
next
  case (Game_Msg u msg player)
  let ?P = "\<lambda>s. hk_inv s \<and> points s = p"
  have inv: "hk_inv g" and t: "gm_msgtype msg \<noteq> 3" using assms Game_Msg by (simp_all add: keeps_points_def)
  note c = step_cases [of _ ?P]
  consider "gm_msgtype msg = 4" | "gm_msgtype msg = 5" | "gm_msgtype msg = 6" | "gm_msgtype msg \<notin> {3, 4, 5, 6}"
    using t by blast
  then show ?thesis
  proof cases
    case 1
    have "fine (leave_game player g) ?P" using leave_fine [OF inv] by (rule fine_mono) (use assms in simp)
    with c [OF disjI2] Game_Msg 1 show ?thesis by (simp add: hk_got_message_def)
  next
    case 2
    with c [OF choose_fine [OF inv, of msg player, unfolded conjunct2 [OF assms(1)]]] Game_Msg
    show ?thesis by (simp add: hk_got_message_def)
  next
    case 3
    with c [OF seq_fine [OF inv, of msg player, unfolded conjunct2 [OF assms(1)]]] Game_Msg
    show ?thesis by (simp add: hk_got_message_def)
  next
    case 4
    with Game_Msg assms show ?thesis by (simp add: hk_got_message_def)
  qed
next
  case (Player_Left player)
  with assms show ?thesis by (simp add: keeps_points_def)
next
  case (Own_Event i)
  have "fine (hk_fire i g) (\<lambda>s. hk_inv s \<and> points s = p)" using fire_fine [OF conjunct1 [OF assms(1)]]
    by (rule fine_mono) (use assms(1) in simp)
  with Own_Event show ?thesis by simp
qed

interpretation heek_points: game_manager "hk_step conv alloc" "\<lambda>s. hk_inv s \<and> points s = p" "\<lambda>ev _. keeps_points ev" for conv alloc p
  by (rule fine_manager) (rule hk_step_points)

section \<open>Rounds end\<close>

text \<open>The timer that the manager waits for expires, up to \<open>n\<close> times.\<close>

fun time_passes :: "nat \<Rightarrow> heek \<Rightarrow> (heek \<times> out list) res" where
  "time_passes 0 g = Inr (g, [])"
| "time_passes (Suc n) g =
     (if m_state g < COUNTDOWN then Inr (g, [])
      else case m_timer g of None \<Rightarrow> Inr (g, []) | Some i \<Rightarrow> chain (hk_fire i g) (time_passes n))"

fun waits :: "game_state_t \<Rightarrow> nat" where
  "waits COUNTDOWN = 4"
| "waits STOP_WAIT = 3"
| "waits WINNER = 2"
| "waits WIN_WAIT = 1"
| "waits ANIM_WAIT = 1"
| "waits _ = 0"

lemma next_waits: "st' \<in> next_states st \<Longrightarrow> COUNTDOWN \<le> st \<Longrightarrow> waits st' < waits st"
  by (cases st) (auto simp: next_states_def state_order)

lemma time_fine:
  assumes "hk_inv g" and "waits (m_state g) \<le> n"
  shows "fine (time_passes n g) (\<lambda>g'. hk_inv g' \<and> points g' = points g \<and> m_state g' \<in> {IDLE, IN_GAME})"
  using assms
proof (induction n arbitrary: g)
  case 0
  then show ?case by (cases "m_state g") simp_all
next
  case (Suc n)
  show ?case
  proof (cases "m_state g < COUNTDOWN")
    case True
    with Suc.prems(1) show ?thesis by (cases "m_state g") (simp_all add: state_order)
  next
    case False
    then have c: "COUNTDOWN \<le> m_state g" by simp
    with Suc.prems(1) obtain i where i: "m_timer g = Some i" "i \<in> fst ` set (tq_pending (server_timers g))"
      by (auto simp: hk_inv_def timer_ok_def timer_pending_def)
    have "fine (hk_fire i g) (\<lambda>g'. hk_inv g' \<and> points g' = points g \<and> m_state g' \<in> next_states (m_state g))"
      using fire_fine [OF Suc.prems(1), of i] by (rule fine_mono) (use i(2) in simp)
    then have "fine (chain (hk_fire i g) (time_passes n)) (\<lambda>g'. hk_inv g' \<and> points g' = points g \<and> m_state g' \<in> {IDLE, IN_GAME})"
    proof (rule fine_chain)
      fix s
      assume s: "hk_inv s \<and> points s = points g \<and> m_state s \<in> next_states (m_state g)"
      then have "waits (m_state s) \<le> n" using next_waits [OF _ c] Suc.prems(2) by fastforce
      from Suc.IH [OF _ this] s
      show "fine (time_passes n s) (\<lambda>g'. hk_inv g' \<and> points g' = points g \<and> m_state g' \<in> {IDLE, IN_GAME})" by simp
    qed
    then show ?thesis using False i(1) by simp
  qed
qed


section \<open>Who wins a round\<close>

text \<open>Each against each: rock beats scissors, paper rock, scissors paper.\<close>

definition beats :: "int \<Rightarrow> int \<Rightarrow> bool" where
  "beats c d \<longleftrightarrow> (c, d) \<in> {(0, 2), (1, 0), (2, 1)}"

definition choice_of :: "heek \<Rightarrow> nat \<Rightarrow> int" where
  "choice_of g a = m_choice (the (memory g a))"

definition duels :: "heek \<Rightarrow> nat \<Rightarrow> int" where
  "duels g a = int (length (filter (\<lambda>b. beats (choice_of g a) (choice_of g b)) (seated g))) -
     int (length (filter (\<lambda>b. beats (choice_of g b) (choice_of g a)) (seated g)))"

definition wins_round :: "heek \<Rightarrow> nat \<Rightarrow> bool" where
  "wins_round g a \<longleftrightarrow> 0 \<le> choice_of g a \<and> 0 < duels g a \<and>
     (\<forall>b \<in> set (seated g). 0 \<le> choice_of g b \<longrightarrow> duels g b \<le> duels g a)"

lemma seat_loop:
  assumes "\<And>a. Some a \<in> set seats \<Longrightarrow> memory g a \<noteq> None"
  shows "for_seats (\<lambda>a m. rbind (sitter_at a g) (\<lambda>x. Inr (F m x, []))) seats z =
    Inr (foldl (\<lambda>m a. F m (the (memory g a))) z (List.map_filter (\<lambda>s. s) seats), [])"
  using assms
proof (induction seats arbitrary: z)
  case (Cons s seats)
  show ?case
  proof (cases s)
    case (Some a)
    with Cons.prems obtain x where "memory g a = Some x" by fastforce
    with Some Cons show ?thesis by (simp add: sitter_at_def chain_def List.map_filter_def)
  qed (use Cons in \<open>simp add: List.map_filter_def\<close>)
qed (simp add: List.map_filter_def)

lemma seat_memory: "table_ok g \<Longrightarrow> Some a \<in> set (m_sitting g) \<Longrightarrow> memory g a \<noteq> None"
  by (rule seat_alive, assumption+) simp

lemma seat_loop_ok:
  assumes "table_ok g"
  shows "for_seats (\<lambda>a m. rbind (sitter_at a g) (\<lambda>x. Inr (F m x, []))) (m_sitting g) z =
    Inr (foldl (\<lambda>m a. F m (the (memory g a))) z (seated g), [])"
  unfolding seated_def by (rule seat_loop) (rule seat_memory [OF assms])

lemma count_value:
  assumes "table_ok g"
  shows "count_choices g = Inr (length (filter (\<lambda>a. choice_of g a = 0) (seated g)),
    length (filter (\<lambda>a. choice_of g a = 1) (seated g)), length (filter (\<lambda>a. choice_of g a = 2) (seated g)))"
proof -
  let ?F = "\<lambda>(r, p, s) x. if m_choice x = 0 then (r + 1, p, s) else if m_choice x = 1 then (r, p + 1, s)
                   else if m_choice x = 2 then (r, p, s + 1) else (r, p, s :: nat)"
  have fold: "foldl (\<lambda>m a. ?F m (the (memory g a))) (r, p, s) as =
      (r + length (filter (\<lambda>a. choice_of g a = 0) as), p + length (filter (\<lambda>a. choice_of g a = 1) as),
       s + length (filter (\<lambda>a. choice_of g a = 2) as))" for r p s as
    by (induction as arbitrary: r p s) (auto simp: choice_of_def)
  have body: "(\<lambda>a (r, p, s). rbind (sitter_at a g) (\<lambda>x.
              Inr (if m_choice x = 0 then (r + 1, p, s) else if m_choice x = 1 then (r, p + 1, s)
                   else if m_choice x = 2 then (r, p, s + 1) else (r, p, s), []))) =
      (\<lambda>a m. rbind (sitter_at a g) (\<lambda>x. Inr (?F m x, [])))" by (auto simp: fun_eq_iff)
  show ?thesis
    unfolding count_choices_def body seat_loop_ok [where F = ?F, OF assms] rbind_Inr prod.case fold
    by simp
qed

lemma duels_total:
  assumes "table_ok g" and "count_choices g = Inr counts" and "choice_of g a \<in> {0, 1, 2}"
  shows "round_total counts (choice_of g a) = duels g a"
  using assms(2,3) unfolding count_value [OF assms(1)] by (auto simp: round_total_def duels_def beats_def)

lemma best_fold:
  fixes f :: "'a \<Rightarrow> int"
  shows "z \<le> foldl (\<lambda>m a. if P a then max m (f a) else m) z as \<and>
    (\<forall>a \<in> set as. P a \<longrightarrow> f a \<le> foldl (\<lambda>m a. if P a then max m (f a) else m) z as) \<and>
    (foldl (\<lambda>m a. if P a then max m (f a) else m) z as = z \<or>
     (\<exists>a \<in> set as. P a \<and> f a = foldl (\<lambda>m a. if P a then max m (f a) else m) z as))"
proof (induction as arbitrary: z)
  case (Cons a as)
  from Cons [of "if P a then max z (f a) else z"] show ?case by (auto simp: max_def split: if_splits)
qed simp

lemma seat_choice: "table_ok g \<Longrightarrow> a \<in> set (seated g) \<Longrightarrow> 0 \<le> choice_of g a \<longleftrightarrow> choice_of g a \<in> {0, 1, 2}"
proof -
  assume "table_ok g" "a \<in> set (seated g)"
  then obtain x where "memory g a = Some x" "sitter_ok x" unfolding table_ok_def by (meson domD ranI subsetD)
  then show ?thesis by (auto simp: sitter_ok_def choice_of_def)
qed

lemma wins_round_total:
  assumes ok: "table_ok g" and c: "count_choices g = Inr counts" and b: "best_total counts g = Inr best"
    and a: "a \<in> set (seated g)"
  shows "wins_round g a \<longleftrightarrow> \<not> choice_of g a < 0 \<and> round_total counts (choice_of g a) > 0 \<and> round_total counts (choice_of g a) = best"
proof -
  let ?P = "\<lambda>a. choice_of g a \<in> {0, 1, 2}" and ?f = "\<lambda>a. round_total counts (choice_of g a)"
  let ?best = "foldl (\<lambda>m a. if ?P a then max m (?f a) else m) (-5) (seated g)"
  let ?F = "\<lambda>m x. if m_choice x \<in> {0, 1, 2} then max m (round_total counts (m_choice x)) else m"
  have "best = ?best"
    using b unfolding best_total_def seat_loop_ok [where F = ?F, OF ok] rbind_Inr prod.case choice_of_def
    by simp
  with best_fold [of "-5" ?P ?f "seated g"] have best: "\<forall>b \<in> set (seated g). ?P b \<longrightarrow> ?f b \<le> best"
    "best = -5 \<or> (\<exists>b \<in> set (seated g). ?P b \<and> ?f b = best)" by auto
  have f: "?f b = duels g b" if "?P b" for b using duels_total [OF ok c that] .
  show ?thesis
  proof (cases "?P a")
    case True
    have "wins_round g a \<longleftrightarrow> 0 < ?f a \<and> (\<forall>b \<in> set (seated g). ?P b \<longrightarrow> ?f b \<le> ?f a)"
      using seat_choice [OF ok] True f a by (fastforce simp: wins_round_def)
    with best True a show ?thesis by fastforce
  next
    case False
    with seat_choice [OF ok a] show ?thesis by (simp add: wins_round_def)
  qed
qed


definition new_wins :: "bool \<Rightarrow> sitter \<Rightarrow> byte list" where
  "new_wins won x = (if won then (m_wins x)[nat (m_choice x) := m_wins x ! nat (m_choice x) + 1] else m_wins x)"

definition told :: "u32 \<Rightarrow> bool \<Rightarrow> sitter \<Rightarrow> out" where
  "told gid won x = Send (m_ki x) (GameMgr_Heek_WinLose_Message gid won (of_int (m_choice x)))"

lemma update_Inr: "update_sitter a f g = Inr h \<Longrightarrow> \<exists>x. memory g a = Some x \<and> h = g\<lparr>memory := (memory g)(a \<mapsto> f x)\<rparr>"
  by (auto simp: update_sitter_def sitter_at_def rbind_eq_Inr split: option.splits)

lemma award_step:
  assumes r: "award_seat counts best a (h, w) = Inr ((h', w'), os)" and x: "memory h a = Some x"
  defines "won \<equiv> \<not> m_choice x < 0 \<and> round_total counts (m_choice x) > 0 \<and> round_total counts (m_choice x) = best"
  shows "m_gameid h' = m_gameid h \<and> (\<forall>b. b \<noteq> a \<longrightarrow> memory h' b = memory h b) \<and>
    (\<exists>y. memory h' a = Some y \<and> m_wins y = new_wins won x) \<and> (\<not> m_choice x < 0 \<longrightarrow> told (m_gameid h) won x \<in> set os)"
proof -
  have s: "sitter_at a h = Inr x" using x by (simp add: sitter_at_def)
  note r = r [unfolded award_seat_def prod.case s rbind_Inr Let_def]
  consider "m_choice x < 0" | "\<not> m_choice x < 0" "\<not> won" | (won) "\<not> m_choice x < 0" won by blast
  then show ?thesis
  proof cases
    case 1
    with r x show ?thesis by (simp add: won_def new_wins_def)
  next
    case 2
    then have n: "\<not> (round_total counts (m_choice x) > 0 \<and> round_total counts (m_choice x) = best)" by (simp add: won_def)
    from r 2(1) have "h' = h" "os = [told (m_gameid h) False x]"
      using n by (auto simp: told_def if_not_P [OF n])
    with 2 x show ?thesis by (simp add: new_wins_def)
  next
    case won
    then have n: "round_total counts (m_choice x) > 0 \<and> round_total counts (m_choice x) = best" by (simp add: won_def)
    from r won(1) n x show ?thesis
      unfolding update_sitter_def sitter_at_def
      by (auto simp: new_wins_def told_def won(2) split: if_splits)
  qed
qed

lemma award_loop:
  assumes "for_seats (award_seat counts best) seats (h, w) = Inr ((h', w'), os)"
    and "distinct (List.map_filter (\<lambda>s. s) seats)"
    and "\<And>a. Some a \<in> set seats \<Longrightarrow> memory h a \<noteq> None"
  defines "won \<equiv> \<lambda>x. \<not> m_choice x < 0 \<and> round_total counts (m_choice x) > 0 \<and> round_total counts (m_choice x) = best"
  shows "m_gameid h' = m_gameid h \<and> (\<forall>b. Some b \<notin> set seats \<longrightarrow> memory h' b = memory h b) \<and>
    (\<forall>a x. Some a \<in> set seats \<longrightarrow> memory h a = Some x \<longrightarrow>
      (\<exists>y. memory h' a = Some y \<and> m_wins y = new_wins (won x) x) \<and>
      (\<not> m_choice x < 0 \<longrightarrow> told (m_gameid h) (won x) x \<in> set os))"
  using assms(1-3)
proof (induction seats arbitrary: h w os)
  case (Cons s seats)
  show ?case
  proof (cases s)
    case None
    with Cons show ?thesis by (auto simp: List.map_filter_def)
  next
    case (Some a)
    with Cons.prems(1) obtain h1 w1 o1 o2 where st: "award_seat counts best a (h, w) = Inr ((h1, w1), o1)"
      "for_seats (award_seat counts best) seats (h1, w1) = Inr ((h', w'), o2)" "os = o1 @ o2"
      by (auto simp: chain_def rbind_eq_Inr)
    obtain x where x: "memory h a = Some x" using Cons.prems(3) Some by fastforce
    note aw = award_step [OF st(1) x]
    have d: "distinct (List.map_filter (\<lambda>s. s) seats)" "Some a \<notin> set seats"
      using Cons.prems(2) Some by (force simp: List.map_filter_def)+
    have "memory h1 b \<noteq> None" if "Some b \<in> set seats" for b
      using aw d(2) that Cons.prems(3) [of b] by (cases "b = a") auto
    note ih = Cons.IH [OF st(2) d(1) this]
    have "memory h1 b = memory h b" if "Some b \<in> set seats" for b using aw d(2) that by (cases "b = a") auto
    with ih aw x d(2) Some st(3) show ?thesis by (auto simp: won_def)
  qed
qed simp


text \<open>The steps after the lights leave them alone.\<close>

definition lit :: "heek \<Rightarrow> heek \<Rightarrow> bool" where
  "lit g h \<longleftrightarrow> (\<forall>a. map_option m_wins (memory h a) = map_option m_wins (memory g a))"

lemma lit_trans: "lit g h \<Longrightarrow> lit h k \<Longrightarrow> lit g k"
  by (simp add: lit_def)

lemma lit_memory: "memory h = memory g \<Longrightarrow> lit g h"
  by (simp add: lit_def)

lemma update_lit:
  assumes "update_sitter a f g = Inr h" and "\<And>x. m_wins (f x) = m_wins x"
  shows "lit g h"
  using update_Inr [OF assms(1)] assms(2) by (auto simp: lit_def)

lemma for_seats_keeps:
  assumes "for_seats body seats s = Inr (t, os)" and "P s"
    and "\<And>a u v o1. Some a \<in> set seats \<Longrightarrow> P u \<Longrightarrow> body a u = Inr (v, o1) \<Longrightarrow> P v"
  shows "P t"
  using assms
proof (induction body seats s arbitrary: os rule: for_seats.induct)
  case (3 body a seats s)
  from "3.prems"(1) obtain u o1 o2 where u: "body a s = Inr (u, o1)" "for_seats body seats u = Inr (t, o2)"
    by (auto simp: chain_def rbind_eq_Inr)
  have "P u" using "3.prems"(3) [of a s u o1] "3.prems"(2) u(1) by simp
  moreover have "P z" if "Some b \<in> set seats" "P y" "body b y = Inr (z, o3)" for b y z o3
    using "3.prems"(3) [of b y z o3] that by simp
  ultimately show ?case by (rule "3.IH" [OF u(2)])
qed simp_all

lemma prune_lit:
  assumes "prune_seat best a u = Inr (v, os)"
  shows "lit (fst u) (fst v)"
proof (cases u)
  case (Pair g n)
  from assms obtain x where x: "sitter_at a g = Inr x" unfolding Pair prune_seat_def prod.case by (auto simp: rbind_eq_Inr)
  note r = assms [unfolded Pair prune_seat_def prod.case x rbind_Inr]
  show ?thesis
  proof (cases "m_pending_winner x \<and> wins_total x \<noteq> best \<and> m_pending_winner_ct g \<noteq> 1")
    case True
    with r obtain k where k: "update_sitter a (\<lambda>x. x\<lparr>m_pending_winner := False\<rparr>) g = Inr k"
      "fst v = k\<lparr>m_pending_winner_ct := m_pending_winner_ct k - 1\<rparr>" by (auto simp: rbind_eq_Inr)
    have "lit g k" using update_lit [OF k(1)] by simp
    moreover have "lit k (fst v)" unfolding k(2) by (rule lit_memory) simp
    ultimately show ?thesis using lit_trans Pair by fastforce
  next
    case False
    with r have "fst v = g" by (auto split: if_splits)
    with Pair show ?thesis by (simp add: lit_def)
  qed
qed

lemma settle_lit:
  assumes "settle u = Inr (v, os)"
  shows "lit (fst u) (fst v)"
proof (cases u)
  case (Pair g n)
  show ?thesis
  proof (cases "\<not> (n = 1 \<and> m_pending_winner_ct g = 0) \<and> (n > 0 \<or> m_pending_winner_ct g > 0)")
    case True
    with assms Pair obtain best where "for_seats (prune_seat best) (m_sitting g) (g, 0) = Inr (v, os)"
      by (auto simp: settle_def rbind_eq_Inr)
    then show ?thesis
    proof (rule for_seats_keeps [where P = "\<lambda>s. lit (fst u) (fst s)"])
      show "lit (fst u) (fst (g, 0))" using Pair by (simp add: lit_def)
    next
      fix a s t o1
      assume "lit (fst u) (fst s)" "prune_seat best a s = Inr (t, o1)"
      with prune_lit lit_trans show "lit (fst u) (fst t)" by blast
    qed
  next
    case False
    with assms Pair have "fst v = g" by (auto simp: settle_def split: if_splits)
    with Pair show ?thesis by (simp add: lit_def)
  qed
qed

lemma pay_lit:
  assumes "pay_winner g = Inr (h, os)"
  shows "lit g h"
proof -
  obtain r where r: "first_pending (m_sitting g) g = Inr r" using assms by (auto simp: pay_winner_def rbind_eq_Inr)
  note p = assms [unfolded pay_winner_def r rbind_Inr]
  show ?thesis
  proof (cases r)
    case None
    with p show ?thesis by (simp add: lit_def)
  next
    case (Some a)
    with p obtain k where k: "update_sitter a (\<lambda>x. x\<lparr>m_score := m_score x + m_point_pool g\<rparr>) g = Inr k"
      "h = k\<lparr>m_point_pool := 0\<rparr>" by (auto simp: rbind_eq_Inr Let_def)
    have "lit g k" using update_lit [OF k(1)] by simp
    moreover have "lit k h" unfolding k(2) by (rule lit_memory) simp
    ultimately show ?thesis by (rule lit_trans)
  qed
qed

lemma conclude_lit:
  assumes "conclude u = Inr (v, os)"
  shows "lit (fst u) (fst v)"
proof (cases u)
  case (Pair g n)
  let ?g = "g\<lparr>m_pending_winner_ct := 0\<rparr>"
  show ?thesis
  proof (cases "\<not> (m_pending_winner_ct g = 0 \<and> n > 1) \<and> \<not> m_pending_winner_ct g > 1 \<and> n = 1")
    case True
    with assms Pair obtain o1 where "pay_winner ?g = Inr (fst v, o1)"
      by (auto simp: conclude_def chain_def rbind_eq_Inr)
    from pay_lit [OF this] Pair show ?thesis by (simp add: lit_def)
  next
    case False
    with assms Pair have "memory (fst v) = memory g" by (auto simp: conclude_def split: if_splits)
    with Pair show ?thesis by (simp add: lit_memory)
  qed
qed


definition choosers :: "heek \<Rightarrow> nat" where
  "choosers g = length (filter (\<lambda>a. 0 \<le> choice_of g a) (seated g))"

lemma count_choosers:
  assumes "table_ok g" and "count_choices g = Inr (r, p, s)"
  shows "r + p + s = choosers g"
proof -
  have "length (filter (\<lambda>a. choice_of g a = 0) as) + length (filter (\<lambda>a. choice_of g a = 1) as) +
      length (filter (\<lambda>a. choice_of g a = 2) as) = length (filter (\<lambda>a. 0 \<le> choice_of g a) as)"
    if "\<forall>a \<in> set as. 0 \<le> choice_of g a \<longleftrightarrow> choice_of g a \<in> {0, 1, 2}" for as
    using that by (induction as) auto
  with seat_choice [OF assms(1)] show ?thesis
    using assms(2) unfolding count_value [OF assms(1)] choosers_def by auto
qed

lemma winner_needs_two:
  assumes "wins_round g a" and "a \<in> set (seated g)"
  shows "2 \<le> choosers g"
proof -
  have "filter (\<lambda>b. beats (choice_of g a) (choice_of g b)) (seated g) \<noteq> []"
    using assms(1) by (auto simp: wins_round_def duels_def)
  then obtain b where b: "b \<in> set (seated g)" "beats (choice_of g a) (choice_of g b)"
    by (auto simp: filter_empty_conv)
  then have "a \<noteq> b" "0 \<le> choice_of g a" "0 \<le> choice_of g b" by (auto simp: beats_def)
  with b assms(2) have "{a, b} \<subseteq> set (filter (\<lambda>a. 0 \<le> choice_of g a) (seated g))" by simp
  from card_mono [OF _ this] \<open>a \<noteq> b\<close> have "2 \<le> card (set (filter (\<lambda>a. 0 \<le> choice_of g a) (seated g)))" by simp
  also have "\<dots> \<le> choosers g" unfolding choosers_def by (rule card_length)
  finally show ?thesis .
qed

definition lights_ok :: "heek \<Rightarrow> heek \<Rightarrow> out list \<Rightarrow> bool" where
  "lights_ok g h os \<longleftrightarrow> (\<forall>a \<in> set (seated g).
     m_wins (the (memory h a)) = new_wins (wins_round g a) (the (memory g a)) \<and>
     (0 \<le> choice_of g a \<and> 2 \<le> choosers g \<longrightarrow> told (m_gameid g) (wins_round g a) (the (memory g a)) \<in> set os))"

lemma lights_lit: "lights_ok g h os \<Longrightarrow> lit h k \<Longrightarrow> set os \<subseteq> set os' \<Longrightarrow> set (seated g) \<subseteq> dom (memory h) \<Longrightarrow> lights_ok g k os'"
proof -
  assume a: "lights_ok g h os" "lit h k" "set os \<subseteq> set os'" "set (seated g) \<subseteq> dom (memory h)"
  have "m_wins (the (memory k b)) = m_wins (the (memory h b))" if "b \<in> set (seated g)" for b
  proof -
    have "b \<in> dom (memory h)" using a(4) \<open>b \<in> set (seated g)\<close> by blast
    then obtain x where "memory h b = Some x" by blast
    moreover have "map_option m_wins (memory k b) = map_option m_wins (memory h b)" using a(2) by (simp add: lit_def)
    ultimately show ?thesis by auto
  qed
  then show ?thesis using a(1,3) unfolding lights_ok_def by (simp add: subset_iff)
qed

lemma decide_lights:
  assumes ok: "table_ok g" and r: "decide g = Inr ((h, st), os)"
  shows "lights_ok g h os"
proof -
  obtain r p s where c: "count_choices g = Inr (r, p, s)" using count_fine [OF ok] by auto
  note n = count_choosers [OF ok c]
  show ?thesis
  proof (cases "r + p + s \<le> 1")
    case True
    then have "h = g" using assms(2) c by (simp add: decide_def)
    then show ?thesis using True n winner_needs_two [of g] by (fastforce simp: lights_ok_def new_wins_def)
  next
    case False
    have "\<exists>v. best_total (r, p, s) g = Inr v" unfolding best_total_def by (rule loop_value [OF ok])
    then obtain best where best: "best_total (r, p, s) g = Inr best" by blast
    with assms(2) c False obtain u o1 o2 o3 v where u: "for_seats (award_seat (r, p, s) best) (m_sitting g) (g, 0) = Inr (u, o1)"
      "settle u = Inr (v, o2)" "conclude v = Inr ((h, st), o3)" "os = o1 @ o2 @ o3"
      by (auto simp: decide_def chain_def rbind_eq_Inr)
    obtain g1 w where g1: "u = (g1, w)" by fastforce
    have d: "distinct (List.map_filter (\<lambda>s. s) (m_sitting g))"
      using ok distinct_map unfolding table_ok_def seated_def by blast
    note aw = award_loop [OF u(1) [unfolded g1] d seat_memory [OF ok]]
    have "lights_ok g g1 o1"
      unfolding lights_ok_def
    proof
      fix a
      assume a: "a \<in> set (seated g)"
      then have s: "Some a \<in> set (m_sitting g)" by (auto simp: seated_def List.map_filter_def)
      then obtain x where x: "memory g a = Some x" using seat_memory [OF ok] by fastforce
      have w: "(\<not> m_choice x < 0 \<and> round_total (r, p, s) (m_choice x) > 0 \<and> round_total (r, p, s) (m_choice x) = best) = wins_round g a"
        using wins_round_total [OF ok c best a] x by (simp add: choice_of_def)
      from aw s x show "m_wins (the (memory g1 a)) = new_wins (wins_round g a) (the (memory g a)) \<and>
          (0 \<le> choice_of g a \<and> 2 \<le> choosers g \<longrightarrow> told (m_gameid g) (wins_round g a) (the (memory g a)) \<in> set o1)"
        unfolding w [symmetric] by (fastforce simp: choice_of_def)
    qed
    moreover have "lit g1 h" using settle_lit [OF u(2)] conclude_lit [OF u(3)] lit_trans g1 by auto
    moreover have "set (seated g) \<subseteq> dom (memory g1)"
    proof
      fix a
      assume "a \<in> set (seated g)"
      then have s: "Some a \<in> set (m_sitting g)" by (auto simp: seated_def List.map_filter_def)
      then obtain x where "memory g a = Some x" using seat_memory [OF ok] by fastforce
      with aw s show "a \<in> dom (memory g1)" by blast
    qed
    moreover have "set o1 \<subseteq> set os" using u(4) by auto
    ultimately show ?thesis using lights_lit by blast
  qed
qed

lemma round_lights:
  assumes inv: "hk_inv g"
  shows "\<exists>h os. handle_round g = Inr (h, os) \<and> lights_ok g h os"
proof -
  have ok: "table_ok g" using inv by (simp add: hk_inv_def)
  obtain o1 where o1: "tell_all_sitters (GameMgr_OneByte_Message (m_gameid g) Srv2Cli_Heek_InterfaceState 0) g = Inr (g, o1)"
    using tell_fine [OF ok] by (auto elim!: fineE)
  obtain k st o2 where d: "decide g = Inr ((k, st), o2)" "same_table g k" using decide_fine [OF ok] by (auto elim!: fineE)
  have l: "lights_ok g k o2" using decide_lights [OF ok d(1)] .
  have sub: "set (seated g) \<subseteq> dom (memory k)" using ok same_dom [OF d(2)] by (simp add: table_ok_def)
  have "\<exists>h o3. (if st = ANIM_WAIT \<or> st = WINNER then Inr (start_timer (k\<lparr>m_state := st\<rparr>), []) else countdown_idle k) = Inr (h, o3) \<and>
      memory h = memory k"
    using idle_fine [OF same_moved [OF ok d(2)]] by (auto simp: start_timer_def elim!: fineE split: prod.splits)
  then obtain h o3 where h: "(if st = ANIM_WAIT \<or> st = WINNER then Inr (start_timer (k\<lparr>m_state := st\<rparr>), []) else countdown_idle k) = Inr (h, o3)"
      "memory h = memory k" by blast
  have "handle_round g = Inr (h, o1 @ o2 @ o3)"
    unfolding handle_round_def chain_def o1 rbind_Inr prod.case d(1) h(1) by simp
  moreover have "lights_ok g h (o1 @ o2 @ o3)"
    by (rule lights_lit [OF l lit_memory [OF h(2)] _ sub]) auto
  ultimately show ?thesis by blast
qed


section \<open>Properties\<close>

definition setup_msg :: gm_msg where
  "setup_msg = \<lparr>gm_msgtype = 0, gm_reqid = 1, gm_gameid = 0, gm_buf = replicate 42 0\<rparr>"

definition heek_msg :: "u32 \<Rightarrow> byte list \<Rightarrow> gm_msg" where
  "heek_msg t body = \<lparr>gm_msgtype = t, gm_reqid = 0, gm_gameid = 1, gm_buf = replicate 22 0 @ body\<rparr>"

definition sit_msg :: "byte \<Rightarrow> byte \<Rightarrow> gm_msg" where
  "sit_msg pos score = heek_msg 3 ([pos, score, 0, 0, 0] @ replicate 512 0)"

text \<open>Two players sit down; one chooses rock, the other paper.\<close>

definition sample_round :: "(unit, nat) mgr_event list" where
  "sample_round = [Setup_Msg setup_msg 5, Setup_Msg setup_msg 6, Game_Msg () (sit_msg 0 10) 5, Game_Msg () (sit_msg 1 20) 6,
     Game_Msg () (heek_msg 5 [0]) 5, Game_Msg () (heek_msg 5 [1]) 6]"

lemma sample_round_ok: "ok_run (hk_step (\<lambda>_. None) (\<lambda>n. [])) hk_ok sample_round (HeekGameMgr 1)"
  by code_simp

lemma sample_round_runs: "\<exists>g os. run_events (hk_step (\<lambda>_. None) (\<lambda>n. [])) sample_round (HeekGameMgr 1) = Inr (g, os)"
  using heek.run_safe [OF new_game_inv sample_round_ok] by blast

text \<open>
  C10: From a new Heek game, no sequence of setup messages, sittings, choices, departures and
  timeouts uses a freed sitter or timer or leaves the seats, provided that no player sits down
  on two seats or outside of the table, and that names end with a null.
\<close>

theorem heek_run_safe:
  assumes "ok_run (hk_step conv alloc) hk_ok evs (HeekGameMgr gid)"
  shows "\<exists>g os. run_events (hk_step conv alloc) evs (HeekGameMgr gid) = Inr (g, os) \<and> hk_inv g"
  using heek.run_safe [OF new_game_inv assms] .

theorem heek_run_safe_witness:
  "\<exists>g os. run_events (hk_step (\<lambda>_. None) (\<lambda>n. [])) sample_round (HeekGameMgr 1) = Inr (g, os) \<and> hk_inv g"
  by (rule heek_run_safe [OF sample_round_ok])

text \<open>
  C37: In a Heek game the points of all players and of the pool together stay the same, whatever
  is chosen and whoever wins or gets up, as long as nobody sits down or leaves the age.
\<close>

theorem heek_points_conserved:
  assumes "ok_run (hk_step conv alloc) hk_ok evs (HeekGameMgr gid)"
    and "run_events (hk_step conv alloc) evs (HeekGameMgr gid) = Inr (g, os)" and "list_all keeps_points later"
  shows "\<exists>g' os'. run_events (hk_step conv alloc) later g = Inr (g', os') \<and> points g' = points g"
proof -
  have "hk_inv g" using heek.run_inv [OF new_game_inv assms(1,2)] .
  from heek_points.run_safe [of g "points g", OF _ ok_run_all [OF assms(3)]] this show ?thesis by blast
qed

theorem heek_points_conserved_witness:
  "\<exists>g os g' os'. run_events (hk_step (\<lambda>_. None) (\<lambda>n. [])) sample_round (HeekGameMgr 1) = Inr (g, os) \<and>
     run_events (hk_step (\<lambda>_. None) (\<lambda>n. [])) [Own_Event 1, Game_Msg () (heek_msg 4 []) 6] g = Inr (g', os') \<and>
     points g' = points g"
proof -
  have k: "list_all keeps_points [Own_Event 1, Game_Msg () (heek_msg 4 []) 6]" by code_simp
  obtain g os where g: "run_events (hk_step (\<lambda>_. None) (\<lambda>n. [])) sample_round (HeekGameMgr 1) = Inr (g, os)"
    using sample_round_runs by blast
  from heek_points_conserved [OF sample_round_ok g k] g show ?thesis by blast
qed



text \<open>
  C12: The counting of rocks, papers and scissors decides a round like the duels of each player
  against each other: exactly the players with the best, positive balance of won and lost duels
  get a light of their choice, and all who chose are told so when at least two did.
\<close>

theorem heek_round_lights:
  assumes "ok_run (hk_step conv alloc) hk_ok evs (HeekGameMgr gid)"
    and "run_events (hk_step conv alloc) evs (HeekGameMgr gid) = Inr (g, os)"
  shows "\<exists>h sent. handle_round g = Inr (h, sent) \<and> (\<forall>a \<in> set (seated g).
     m_wins (the (memory h a)) = new_wins (wins_round g a) (the (memory g a)) \<and>
     (0 \<le> choice_of g a \<and> 2 \<le> choosers g \<longrightarrow> told (m_gameid g) (wins_round g a) (the (memory g a)) \<in> set sent))"
  using round_lights [OF heek.run_inv [OF new_game_inv assms]] by (simp add: lights_ok_def)

theorem heek_round_lights_witness:
  "\<exists>g os h sent. run_events (hk_step (\<lambda>_. None) (\<lambda>n. [])) sample_round (HeekGameMgr 1) = Inr (g, os) \<and>
     handle_round g = Inr (h, sent) \<and> (\<forall>a \<in> set (seated g).
     m_wins (the (memory h a)) = new_wins (wins_round g a) (the (memory g a)) \<and>
     (0 \<le> choice_of g a \<and> 2 \<le> choosers g \<longrightarrow> told (m_gameid g) (wins_round g a) (the (memory g a)) \<in> set sent))"
proof -
  obtain g os where g: "run_events (hk_step (\<lambda>_. None) (\<lambda>n. [])) sample_round (HeekGameMgr 1) = Inr (g, os)"
    using sample_round_runs by blast
  from heek_round_lights [OF sample_round_ok g] g show ?thesis by blast
qed

lemma is_fault: "(case m of Inl e' \<Rightarrow> e' = e | Inr _ \<Rightarrow> False) \<Longrightarrow> m = Inl e"
  by (simp split: sum.splits)

text \<open>
  Nothing stops a player from sitting down on a second seat; when he leaves the age his sitter is freed
  while the other seat points to it.
\<close>


text \<open>The number of the seat is not checked.\<close>

theorem seat_number_overruns:
  assumes "header_len + 5 + 512 \<le> length (gm_buf msg)" and "m_sitting_ct g < 5" and "5 \<le> unat (gm_buf msg ! header_len)"
  shows "play_game conv alloc msg player g = Inl Out_Of_Bounds"
proof -
  have p: "get8 (gm_buf msg) header_len = Inr (gm_buf msg ! header_len)" using assms(1) by (simp add: get8_def)
  show ?thesis using assms unfolding play_game_def p rbind_Inr by simp
qed

text \<open>A name that fills its field is written with a null behind the end of the message.\<close>

theorem full_name_overruns:
  assumes "header_len + 5 + 512 \<le> length (gm_buf msg)" and "length (avatar_text msg) = 512"
  shows "\<exists>u. UruString_buf (drop (header_len + 5) (gm_buf msg)) 512 False True False = Inr u \<and>
    heek_welcome conv alloc gid score rank u = Inl Out_Of_Bounds"
proof -
  let ?b = "drop (header_len + 5) (gm_buf msg)" and ?t = "avatar_text msg"
  have "512 \<le> length ?b" using assms(1) by simp
  from uncopied_name [OF this, of conv alloc] obtain u u' where u: "UruString_buf ?b 512 False True False = Inr u"
    "send_len conv alloc u False True True = Inr (length ?t + 2, u)"
    "get_str conv alloc u False True True False = Inr (?t @ [0, 0], u')" by (auto simp: avatar_text_def)
  have s: "slice 0 (length ?t + 2) (?t @ [0, 0]) = Inr (?t @ [0, 0])" by (simp add: slice_def)
  have "heek_welcome conv alloc gid score rank u = Inl Out_Of_Bounds"
    unfolding heek_welcome_def u(2) rbind_Inr prod.case u(3) s using assms(2) by simp
  with u(1) show ?thesis by blast
qed

end
