(* ===== verification/Text_Field.thy ===== *)
theory Text_Field
  imports Wide_Name
begin

text \<open>
  Strings inside of messages between the servers: a field with a length and usually a null, as
  \<open>WRITE_URU_STRING_PTR\<close> writes it and the constructor from a buffer reads it.  A C string of less
  than 4095 bytes, and a name that arrived in wide form, come through unchanged.
\<close>

text \<open>What \<open>WRITE_URU_STRING_PTR(var, true, wide, null, false, ..)\<close> writes.\<close>

definition text_field :: "iconv \<Rightarrow> (nat \<Rightarrow> byte list) \<Rightarrow> bool \<Rightarrow> bool \<Rightarrow> uru_string \<Rightarrow> byte list res" where
  "text_field conv alloc wide null u =
     rbind (send_len conv alloc u True wide null) (\<lambda>(str_len, u).
     rbind (get_str conv alloc u True wide null False) (\<lambda>(str, u). slice 0 str_len str))"

definition text_len :: "iconv \<Rightarrow> (nat \<Rightarrow> byte list) \<Rightarrow> bool \<Rightarrow> bool \<Rightarrow> uru_string \<Rightarrow> nat res" where
  "text_len conv alloc wide null u = rbind (send_len conv alloc u True wide null) (\<lambda>(n, u). Inr n)"

abbreviation C_str :: "byte list \<Rightarrow> uru_string" where
  "C_str t \<equiv> UruString_c (Some t) True"

definition c_ok :: "byte list \<Rightarrow> bool" where
  "c_ok t \<longleftrightarrow> length t < 4095 \<and> 0 \<notin> set t"

definition with_null :: "byte list \<Rightarrow> byte list" where
  "with_null t = bytes16 (of_nat (length t + 1)) @ t @ [0]"

definition no_null :: "byte list \<Rightarrow> byte list" where
  "no_null t = bytes16 (of_nat (length t)) @ t"

lemma length_with_null [simp]: "length (with_null t) = length t + 3" "length (no_null t) = length t + 2"
  by (simp_all add: with_null_def no_null_def)

text \<open>\<open>u\<close> is a string with the text \<open>t\<close>; what follows the null is not part of it.\<close>

definition reads_as :: "uru_string \<Rightarrow> byte list \<Rightarrow> bool" where
  "reads_as u t \<longleftrightarrow> (\<forall>conv alloc. \<exists>r u'. c_str conv alloc u = Inr (t @ [0] @ r, u'))"

lemma text_field_c:
  "text_field conv alloc False True (C_str t) = Inr (with_null t)"
  "text_field conv alloc False False (C_str t) = Inr (no_null t)"
  "text_len conv alloc False True (C_str t) = Inr (length t + 3)"
  "text_len conv alloc False False (C_str t) = Inr (length t + 2)"
  by (simp_all add: text_field_def text_len_def send_len_def get_str_def desired_type_def UruString_c_def empty_string_def deref_def
      convert_def choose_source_def new_text_def slice_def with_null_def no_null_def Let_def)

lemma locate_c:
  assumes "c_ok t" and "buflen < 0 \<or> int (length t + 3) \<le> buflen"
  shows "locate_with_length (with_null t @ rest) buflen False = Inr (2, length t + 1, length t + 3, True)"
proof -
  have l: "length t + 1 < 4096" using assms(1) by (simp add: c_ok_def)
  note w = header_word(1,2) [OF l]
  have r: "read16 (with_null t @ rest) 0 = Inr (of_nat (length t + 1))" by (simp add: with_null_def)
  have g: "get8 (with_null t @ rest) (2 + length t) = Inr 0"
    by (simp add: get8_def with_null_def nth_append)
  have e: "ends_with_null (with_null t @ rest) 10 False (length t + 1) = Inr True"
    unfolding ends_with_null_def using g by (simp del: get8_eq_Inr add_2_eq_Suc add_2_eq_Suc')
  have c: "(0 \<le> buflen \<and> int (2 + (length t + 1)) > buflen) = False" using assms(2) by auto
  show ?thesis
    unfolding locate_with_length_def r rbind_Inr Let_def w if_False c using e by simp
qed

lemma read_c:
  assumes "c_ok t" and "buflen < 0 \<or> int (length t + 3) \<le> buflen"
  shows "\<exists>u. UruString_buf (with_null t @ rest) buflen True False copy = Inr u \<and> m_arrival_len u = length t + 3 \<and> reads_as u t"
proof -
  have l: "UruString_buf (with_null t @ rest) buflen True False copy =
      store_string (with_null t @ rest) True copy (2, length t + 1, length t + 3, True)"
    using locate_c [OF assms] assms(2) unfolding UruString_buf_def by auto
  have s: "slice 2 (length t) (with_null t @ rest) = Inr t" "slice 2 (length t + 1) (with_null t @ rest) = Inr (t @ [0])"
    by (simp_all add: slice_def with_null_def)
  show ?thesis
  proof (cases copy)
    case True
    then show ?thesis
      using s unfolding l
      by (simp add: store_string_def empty_string_def reads_as_def c_str_def make_cstr_def narrow_cstr_def deref_def Let_def
          slice_def del: slice_eq_Inr)
  next
    case False
    then show ?thesis
      unfolding l
      by (simp add: store_string_def empty_string_def reads_as_def c_str_def deref_def Let_def with_null_def)
  qed
qed

lemma read_c_len:
  assumes "c_ok t" and "buflen < 0 \<or> int (length t + 3) \<le> buflen"
    and "UruString_buf (with_null t @ rest) buflen True False copy = Inr u"
  shows "send_len conv alloc u True False True = Inr (length t + 3, u)"
proof -
  have l: "UruString_buf (with_null t @ rest) buflen True False copy =
      store_string (with_null t @ rest) True copy (2, length t + 1, length t + 3, True)"
    using locate_c [OF assms(1,2)] assms(2) unfolding UruString_buf_def by auto
  have s: "slice 2 (length t) (with_null t @ rest) = Inr t" "slice 2 (length t + 1) (with_null t @ rest) = Inr (t @ [0])"
    by (simp_all add: slice_def with_null_def)
  show ?thesis
    using assms(3) s unfolding l
    by (cases copy) (auto simp: store_string_def empty_string_def send_len_def get_str_def desired_type_def deref_def Let_def
        conversion_defs slice_def simp del: slice_eq_Inr)
qed

text \<open>Without the null, as the markers of a game are sent.\<close>

lemma read_no_null:
  assumes "c_ok t" and "buflen < 0 \<or> int (length t + 2) \<le> buflen"
  shows "\<exists>u. UruString_buf (no_null t @ rest) buflen True False copy = Inr u \<and> m_arrival_len u = length t + 2 \<and> reads_as u t"
proof -
  have w: "no_null t = string_wire False t" by (simp add: no_null_def string_wire_def)
  have l: "length t < 4096" "0 \<notin> set t" using assms(1) by (auto simp: c_ok_def)
  note h = header_word(1,2) [OF l(1)]
  have r: "read16 (no_null t @ rest) 0 = Inr (of_nat (length t))" by (simp add: no_null_def)
  have e: "ends_with_null (no_null t @ rest) 10 False (length t) = Inr False"
    using no_end [OF l(2), of False rest] by (simp add: w)
  have c: "(0 \<le> buflen \<and> int (2 + length t) > buflen) = False" using assms(2) by auto
  have "locate_with_length (no_null t @ rest) buflen False = Inr (10, length t, length t + 2, False)"
    unfolding locate_with_length_def r rbind_Inr Let_def h if_False c using e by simp
  then have l: "UruString_buf (no_null t @ rest) buflen True False copy =
      store_string (no_null t @ rest) True copy (10, length t, length t + 2, False)"
    using assms(2) unfolding UruString_buf_def by auto
  have s: "slice 2 (length t) (no_null t @ rest) = Inr t" by (simp add: slice_def no_null_def)
  show ?thesis
    using s unfolding l
    by (cases copy) (simp_all add: store_string_def empty_string_def reads_as_def c_str_def make_cstr_def narrow_cstr_def
        deref_def Let_def pred_size_def del: slice_eq_Inr)
qed

section \<open>Wide text\<close>

definition wide_field :: "byte list \<Rightarrow> byte list" where
  "wide_field t = bytes16 (of_nat (length t div 2 + 1)) @ t @ [0, 0]"

definition wide_ok :: "byte list \<Rightarrow> bool" where
  "wide_ok t \<longleftrightarrow> even (length t) \<and> length t div 2 < 4095"

definition holds_wide :: "uru_string \<Rightarrow> byte list \<Rightarrow> bool" where
  "holds_wide u t \<longleftrightarrow> (\<forall>conv alloc. text_field conv alloc True True u = Inr (wide_field t) \<and>
     text_len conv alloc True True u = Inr (length t + 4))"

lemma length_wide_field [simp]: "length (wide_field t) = length t + 4"
  by (simp add: wide_field_def)

lemma holds_wide_form: "wide_form t u \<Longrightarrow> holds_wide u t"
  by (erule wide_formE)
    (simp_all add: holds_wide_def text_field_def text_len_def send_len_def conversion_defs wide_field_def slice_def)

lemma read_wide:
  assumes "wide_ok t" and "buflen < 0 \<or> int (length t + 4) \<le> buflen"
  shows "\<exists>u. UruString_buf (wide_field t @ rest) buflen True True copy = Inr u \<and> m_arrival_len u = length t + 4 \<and> holds_wide u t"
proof -
  obtain n where n: "length t = 2 * n" using assms(1) by (auto simp: wide_ok_def elim: evenE)
  have l: "n + 1 < 4096" using assms(1) n by (simp add: wide_ok_def)
  note w = header_word(1,2) [OF l]
  have f: "wide_field t = bytes16 (of_nat (n + 1)) @ t @ [0, 0]" using n by (simp add: wide_field_def)
  have r: "read16 (wide_field t @ rest) 0 = Inr (of_nat (n + 1))" by (simp add: f)
  have g: "get8 (wide_field t @ rest) (2 + 2 * n) = Inr 0" "get8 (wide_field t @ rest) (2 + 2 * n + 1) = Inr 0"
    using n by (simp_all add: get8_def f nth_append)
  have e: "ends_with_null (wide_field t @ rest) 11 True (n + 1) = Inr True"
    unfolding ends_with_null_def using g by (simp del: get8_eq_Inr add_2_eq_Suc add_2_eq_Suc')
  have c: "(0 \<le> buflen \<and> int (2 + 2 * (n + 1)) > buflen) = False" using assms(2) n by auto
  have "locate_with_length (wide_field t @ rest) buflen True = Inr (3, n + 1, 2 * n + 4, True)"
    unfolding locate_with_length_def r rbind_Inr Let_def w if_True c if_False using e by simp
  then have loc: "UruString_buf (wide_field t @ rest) buflen True True copy =
      store_string (wide_field t @ rest) True copy (3, n + 1, 2 * n + 4, True)"
    using assms(2) unfolding UruString_buf_def by auto
  have s: "slice 2 (2 * n + 2) (wide_field t @ rest) = Inr (t @ [0, 0])" "slice 0 (2 * n + 4) (wide_field t @ rest) = Inr (wide_field t)"
    using n by (simp_all add: slice_def f)
  have s3: "slice 0 (Suc (Suc (Suc (Suc (n * 2))))) (wide_field t @ rest) = Inr (wide_field t)"
    using n by (simp add: slice_def f mult.commute)
  show ?thesis
  proof (cases copy)
    case True
    have "slice 0 (n * 2) (t @ [0, 0]) = Inr t" using slice_text [of t n "[0, 0]"] n by simp
    with True s n show ?thesis
      unfolding loc by (simp add: store_string_def empty_string_def holds_wide_def text_field_def text_len_def send_len_def
        conversion_defs wide_field_def slice_def del: slice_eq_Inr)
  next
    case False
    with s3 n show ?thesis
      unfolding loc by (simp add: store_string_def empty_string_def holds_wide_def text_field_def text_len_def send_len_def
        get_str_def desired_type_def deref_def Let_def del: slice_eq_Inr)
  qed
qed

end
