(* ===== verification/Backend_Writer.thy ===== *)
theory Backend_Writer
  imports Net_Message Text_Field
begin

text \<open>
  How a \<open>BackendMessage\<close> is written (\<open>BackendMessage.cc\<close>).  The wire form of a message is a header of
  16 bytes and what \<open>fill_type\<close> of its class writes.  Every \<open>fill_type\<close> is a sequence of the macros
  \<open>WRITE_4_BYTES\<close>, \<open>WRITE_2_BYTES\<close>, \<open>WRITE_BUFFER\<close>, \<open>WRITE_URU_STRING_PTR\<close> and \<open>WRITE_1_BYTE\<close>, so it is a list of
  chunks here; the first four differ only in where the bytes come from.  A class that has another
  message or a vault node in it returns what the writer of that one returns: the chunk \<open>Sub\<close>.

  \<open>start_at\<close> says how much was sent before.  The macros' flag \<open>lastvar\<close> is set for the last chunk.
\<close>

datatype chunk = Many "byte list" | One byte | Sub "byte list"

fun chunk_bytes :: "chunk \<Rightarrow> byte list" where
  "chunk_bytes (Many bs) = bs"
| "chunk_bytes (One b) = [b]"
| "chunk_bytes (Sub bs) = bs"

definition content :: "chunk list \<Rightarrow> byte list" where
  "content cs = concat (map chunk_bytes cs)"

lemma content_simps [simp]: "content [] = []" "content (c # cs) = chunk_bytes c @ content cs"
  "content (cs @ ds) = content cs @ content ds"
  by (simp_all add: content_def)

section \<open>The macros\<close>

text \<open>With \<open>iovs\<close>: one vector for each chunk; there are \<open>ct\<close> left.  \<open>sub\<close> is the other writer.\<close>

type_synonym iov_writer = "byte list \<Rightarrow> nat \<Rightarrow> nat \<Rightarrow> byte list list res"
type_synonym buf_writer = "byte list \<Rightarrow> nat \<Rightarrow> nat \<Rightarrow> (byte list \<times> bool) res"

fun fill_iov :: "iov_writer \<Rightarrow> chunk list \<Rightarrow> nat \<Rightarrow> nat \<Rightarrow> byte list list res" where
  "fill_iov sub [] start_at ct = Inr []"
| "fill_iov sub (c # cs) start_at ct =
     (case c of
        Sub bs \<Rightarrow> sub bs start_at ct
      | _ \<Rightarrow>
        (let bs = chunk_bytes c;
             here = (start_at < length bs);
             now = (if here then [drop start_at bs] else []);
             lastvar = (cs = [])
         in if here \<and> ct = 0 then Inl Out_Of_Bounds
            else if \<not> lastvar \<and> length now \<ge> ct then Inr now
            else rbind (fill_iov sub cs (if here then 0 else start_at - length bs) (ct - length now)) (\<lambda>rest.
                 Inr (now @ rest))))"

text \<open>Without: the bytes are copied, there is room for \<open>room\<close> more.  \<open>WRITE_1_BYTE\<close> returns after the last byte.\<close>

fun fill_buf :: "buf_writer \<Rightarrow> chunk list \<Rightarrow> nat \<Rightarrow> nat \<Rightarrow> (byte list \<times> bool) res" where
  "fill_buf sub [] start_at room = Inr ([], True)"
| "fill_buf sub (Sub bs # cs) start_at room = sub bs start_at room"
| "fill_buf sub (Many bs # cs) start_at room =
     (let here = (start_at < length bs);
          now = (if here then take room (drop start_at bs) else []);
          lastvar = (cs = [])
      in if lastvar \<and> here \<and> length now < length bs - start_at then Inr (now, False)
         else if \<not> lastvar \<and> length now \<ge> room then Inr (now, False)
         else rbind (fill_buf sub cs (if here then 0 else start_at - length bs) (room - length now)) (\<lambda>(rest, msg_done).
              Inr (now @ rest, msg_done)))"
| "fill_buf sub (One b # cs) start_at room =
     (let lastvar = (cs = [])
      in if start_at < 1
         then if room = 0 then Inl Out_Of_Bounds
              else if lastvar \<or> room \<le> 1 then Inr ([b], False)
              else rbind (fill_buf sub cs 0 (room - 1)) (\<lambda>(rest, msg_done). Inr (b # rest, msg_done))
         else if \<not> lastvar \<and> room = 0 then Inr ([], False)
         else fill_buf sub cs (start_at - 1) room)"

text \<open>The contract of the other writer, which is the one of a message on a queue.  \<open>Sub\<close> is only the last chunk.\<close>

definition iov_writes :: "iov_writer \<Rightarrow> byte list \<Rightarrow> bool" where
  "iov_writes sub bs \<longleftrightarrow> (\<forall>s ct. 0 < ct \<longrightarrow> (\<exists>iov rest. sub bs s ct = Inr iov \<and> length iov \<le> ct \<and>
     drop s bs = concat iov @ rest \<and> (length iov < ct \<longrightarrow> rest = []) \<and> (s < length bs \<longrightarrow> iov \<noteq> [])))"

definition buf_writes :: "buf_writer \<Rightarrow> byte list \<Rightarrow> bool" where
  "buf_writes sub bs \<longleftrightarrow> (\<forall>s room. 0 < room \<longrightarrow> (\<exists>d. sub bs s room = Inr (take room (drop s bs), d) \<and>
     (d \<longrightarrow> length bs - s \<le> room)))"

fun subs_ok :: "(byte list \<Rightarrow> bool) \<Rightarrow> chunk list \<Rightarrow> bool" where
  "subs_ok P [] = True"
| "subs_ok P (Sub bs # cs) = (cs = [] \<and> P bs)"
| "subs_ok P (c # cs) = subs_ok P cs"

section \<open>The base class\<close>

definition bm_fill_iovecs :: "byte list \<Rightarrow> (nat \<Rightarrow> nat \<Rightarrow> byte list list res) \<Rightarrow> nat \<Rightarrow> nat \<Rightarrow> byte list list res" where
  "bm_fill_iovecs m_header fill_type iov_ct start_at =
     (if start_at < 16
      then if iov_ct = 0 then Inl Out_Of_Bounds
           else if iov_ct \<le> 1 then Inr [drop start_at m_header]
           else rbind (fill_type 0 (iov_ct - 1)) (\<lambda>rest. Inr (drop start_at m_header # rest))
      else if iov_ct = 0 then Inr [] else fill_type (start_at - 16) iov_ct)"

definition bm_written :: "nat \<Rightarrow> nat \<Rightarrow> nat \<Rightarrow> nat \<times> bool" where
  "bm_written message_len byte_ct start_at =
     (if add32 byte_ct start_at \<ge> message_len then (sub64 byte_ct (sub64 message_len start_at), True) else (0, False))"

definition bm_fill_buffer ::
  "byte list \<Rightarrow> nat \<Rightarrow> (nat \<Rightarrow> nat \<Rightarrow> (byte list \<times> bool) res) \<Rightarrow> nat \<Rightarrow> nat \<Rightarrow> (byte list \<times> bool) res" where
  "bm_fill_buffer m_header message_len fill_type len start_at =
     (let head = (if start_at < 16 then take (min len (16 - start_at)) (drop start_at m_header) else []);
          done = (if start_at < 16 then min len (16 - start_at) else 0)
      in if sub64 message_len start_at \<le> done then Inr (head, True)
         else if add32 start_at done = len then Inr (head, False)
         else rbind (fill_type (if start_at > 16 then start_at - 16 else 0) (len - done)) (\<lambda>(rest, msg_done).
              Inr (head @ rest, msg_done)))"

section \<open>What they write\<close>

lemma fill_iov_ok:
  assumes "0 < ct" and "subs_ok (iov_writes sub) cs"
  shows "\<exists>iov rest. fill_iov sub cs s ct = Inr iov \<and> length iov \<le> ct \<and> drop s (content cs) = concat iov @ rest \<and>
    (length iov < ct \<longrightarrow> rest = []) \<and> (s < length (content cs) \<longrightarrow> iov \<noteq> [])"
  using assms
proof (induction cs arbitrary: s ct)
  case (Cons c cs)
  show ?case
  proof (cases "\<exists>bs. c = Sub bs")
    case True
    with Cons.prems show ?thesis by (auto simp: iov_writes_def)
  next
    case False
    let ?bs = "chunk_bytes c"
    have ok: "subs_ok (iov_writes sub) cs" using Cons.prems(2) False by (cases c) auto
    have f: "fill_iov sub (c # cs) s ct =
        (if s < length ?bs \<and> ct = 0 then Inl Out_Of_Bounds
         else if cs \<noteq> [] \<and> length (if s < length ?bs then [drop s ?bs] else []) \<ge> ct
         then Inr (if s < length ?bs then [drop s ?bs] else [])
         else rbind (fill_iov sub cs (if s < length ?bs then 0 else s - length ?bs)
             (ct - length (if s < length ?bs then [drop s ?bs] else []))) (\<lambda>rest.
           Inr ((if s < length ?bs then [drop s ?bs] else []) @ rest)))"
      using False by (cases c) (simp_all add: Let_def)
    show ?thesis
    proof (cases "s < length ?bs")
      case True
      show ?thesis
      proof (cases "cs = [] \<or> ct = 1")
        case True
        with \<open>s < length ?bs\<close> Cons.prems(1) show ?thesis unfolding f by auto
      next
        case ct: False
        with Cons.prems have "0 < ct - 1" by simp
        from Cons.IH [OF this ok, of 0] obtain iov rest where r: "fill_iov sub cs 0 (ct - 1) = Inr iov"
          "length iov \<le> ct - 1" "content cs = concat iov @ rest" "length iov < ct - 1 \<longrightarrow> rest = []" by auto
        have "fill_iov sub (c # cs) s ct = Inr (drop s ?bs # iov)"
          using True ct Cons.prems r(1) unfolding f by auto
        moreover have "length (drop s ?bs # iov) \<le> ct" "length (drop s ?bs # iov) < ct \<longrightarrow> rest = []"
          using r(2,4) ct Cons.prems by auto
        moreover have "drop s (content (c # cs)) = concat (drop s ?bs # iov) @ rest" using True r(3) by simp
        ultimately show ?thesis by (intro exI [of _ "drop s ?bs # iov"] exI [of _ rest]) simp
      qed
    next
      case False
      with Cons.IH [OF Cons.prems(1) ok, of "s - length ?bs"] Cons.prems(1) show ?thesis unfolding f by auto
    qed
  qed
qed simp

text \<open>The chunk \<open>One\<close> at the end leaves \<open>msg_done\<close> false, an empty one that is left over, too.\<close>

lemma fill_buf_ok:
  assumes "0 < room" and "subs_ok (buf_writes sub) cs"
  shows "\<exists>d. fill_buf sub cs s room = Inr (take room (drop s (content cs)), d) \<and>
    (d \<longrightarrow> length (content cs) - s \<le> room)"
  using assms
proof (induction sub cs s room rule: fill_buf.induct)
  case (2 sub bs cs s room)
  then show ?case by (auto simp: buf_writes_def)
next
  case (3 sub bs cs s room)
  show ?case
  proof (cases "s < length bs \<and> room \<le> length bs - s")
    case True
    then show ?thesis
      by (cases "cs = []") (auto simp: Let_def min_def split: if_splits)
  next
    case False
    define now where "now = (if s < length bs then drop s bs else [])"
    define s' where "s' = (if s < length bs then 0 else s - length bs)"
    have l: "length now < room" using False "3.prems"(1) by (auto simp: now_def)
    then have r: "0 < room - length now" by simp
    have f: "fill_buf sub (Many bs # cs) s room =
        rbind (fill_buf sub cs s' (room - length now)) (\<lambda>(rest, msg_done). Inr (now @ rest, msg_done))"
      using l False by (cases "s < length bs") (simp_all add: now_def s'_def Let_def)
    have "\<exists>d. fill_buf sub cs s' (room - length now) = Inr (take (room - length now) (drop s' (content cs)), d) \<and>
      (d \<longrightarrow> length (content cs) - s' \<le> room - length now)"
      using "3.IH" [OF refl refl refl] l r "3.prems"(2)
      by (cases "s < length bs") (auto simp: now_def s'_def Let_def split: if_splits)
    then obtain d where d: "fill_buf sub cs s' (room - length now) = Inr (take (room - length now) (drop s' (content cs)), d)"
      "d \<longrightarrow> length (content cs) - s' \<le> room - length now" by blast
    have "take room (drop s (content (Many bs # cs))) = now @ take (room - length now) (drop s' (content cs))"
      using l by (auto simp: now_def s'_def)
    with f d(1) have "fill_buf sub (Many bs # cs) s room = Inr (take room (drop s (content (Many bs # cs))), d)"
      by (simp only: rbind_Inr prod.case)
    moreover have "d \<longrightarrow> length (content (Many bs # cs)) - s \<le> room"
      using d(2) l by (cases "s < length bs") (auto simp: now_def s'_def)
    ultimately show ?thesis by blast
  qed
next
  case (4 sub b cs s room)
  then have ok: "subs_ok (buf_writes sub) cs" by simp
  show ?case
  proof (cases "s < 1")
    case True
    show ?thesis
    proof (cases "cs = [] \<or> room = 1")
      case True
      with \<open>s < 1\<close> "4.prems" show ?thesis by (auto simp: Let_def take_Cons')
    next
      case False
      with "4.prems" have "0 < room - 1" by simp
      with "4.IH"(1) [OF refl True _ _ _ ok] False obtain d where "fill_buf sub cs 0 (room - 1) = Inr (take (room - 1) (content cs), d)"
        "d \<longrightarrow> length (content cs) \<le> room - 1" by auto
      with True False "4.prems" show ?thesis by (auto simp: Let_def take_Cons')
    qed
  next
    case False
    with "4.IH"(2) [OF refl False _ _ ok] "4.prems" obtain d where
      "fill_buf sub cs (s - 1) room = Inr (take room (drop (s - 1) (content cs)), d)"
      "d \<longrightarrow> length (content cs) - (s - 1) \<le> room" by auto
    with False "4.prems" show ?thesis by (auto simp: Let_def drop_Cons')
  qed
qed auto

theorem bm_fill_iovecs_ok:
  assumes "length m_header = 16" and "0 < iov_ct" and "start_at < 16 + length (content cs)"
    and "subs_ok (iov_writes sub) cs"
  shows "\<exists>iov rest. bm_fill_iovecs m_header (\<lambda>s ct. fill_iov sub cs s ct) iov_ct start_at = Inr iov \<and>
    length iov \<le> iov_ct \<and> iov \<noteq> [] \<and> drop start_at (m_header @ content cs) = concat iov @ rest \<and>
    (length iov < iov_ct \<longrightarrow> rest = [])"
proof (cases "start_at < 16")
  case True
  show ?thesis
  proof (cases "iov_ct = 1")
    case True
    with \<open>start_at < 16\<close> assms(1) show ?thesis by (simp add: bm_fill_iovecs_def)
  next
    case False
    with assms(2) have "0 < iov_ct - 1" by simp
    from fill_iov_ok [OF this assms(4), of 0] obtain iov rest where r: "fill_iov sub cs 0 (iov_ct - 1) = Inr iov"
      "length iov \<le> iov_ct - 1" "content cs = concat iov @ rest" "length iov < iov_ct - 1 \<longrightarrow> rest = []" by auto
    have "bm_fill_iovecs m_header (\<lambda>s ct. fill_iov sub cs s ct) iov_ct start_at = Inr (drop start_at m_header # iov)"
      using True False assms(2) r(1) by (simp add: bm_fill_iovecs_def)
    moreover have "drop start_at (m_header @ content cs) = concat (drop start_at m_header # iov) @ rest"
      using True assms(1) r(3) by simp
    ultimately show ?thesis using r(2,4) assms(2) by (intro exI [of _ "drop start_at m_header # iov"] exI [of _ rest]) auto
  qed
next
  case False
  from fill_iov_ok [OF assms(2,4), of "start_at - 16"] False assms show ?thesis
    by (auto simp: bm_fill_iovecs_def)
qed

theorem bm_written_ok:
  assumes "start_at < mlen" and "mlen < 2 ^ 31" and "n < 2 ^ 31"
  shows "bm_written mlen n start_at = (if n + start_at < mlen then (0, False) else (n + start_at - mlen, True))"
  using assms by (auto simp: bm_written_def)

theorem bm_fill_buffer_fresh:
  assumes "length m_header = 16" and "0 < len" and "16 + length (content cs) < 2 ^ 31" and "subs_ok (buf_writes sub) cs"
  shows "\<exists>msg_done. bm_fill_buffer m_header (16 + length (content cs)) (\<lambda>s room. fill_buf sub cs s room) len 0 =
      Inr (take len (m_header @ content cs), msg_done) \<and> (msg_done \<longrightarrow> 16 + length (content cs) \<le> len)"
proof (cases "len \<le> 16 \<or> content cs = []")
  case True
  then show ?thesis using assms by (auto simp: bm_fill_buffer_def Let_def min_def)
next
  case False
  then have "0 < len - 16" by simp
  from fill_buf_ok [OF this assms(4), of 0] obtain d where "fill_buf sub cs 0 (len - 16) = Inr (take (len - 16) (content cs), d)"
    "d \<longrightarrow> length (content cs) \<le> len - 16" by auto
  with False assms show ?thesis by (auto simp: bm_fill_buffer_def Let_def min_def)
qed

text \<open>
  The check for a full buffer adds \<open>start_at\<close>: with as much room as was sent before, nothing is written.
  With none left after the rest of the header, a first byte is written behind the buffer.
\<close>

theorem fill_buffer_stalls:
  assumes "16 \<le> len" and "len < message_len" and "message_len < 2 ^ 31"
  shows "bm_fill_buffer m_header message_len fill_type len len = Inr ([], False)"
  using assms by (simp add: bm_fill_buffer_def Let_def)

theorem fill_buffer_overruns:
  assumes "length m_header = 16" and "0 < start_at" and "start_at < 16" and "17 + length (content cs) < 2 ^ 31"
  shows "bm_fill_buffer m_header (17 + length (content cs)) (\<lambda>s room. fill_buf sub (One b # cs) s room) (16 - start_at) start_at =
    Inl Out_Of_Bounds"
proof -
  have "sub64 (17 + length (content cs)) start_at = 17 + length (content cs) - start_at" using assms by simp
  moreover have "\<not> 17 + length (content cs) - start_at \<le> 16 - start_at" "16 - start_at \<noteq> 16" using assms by linarith+
  ultimately show ?thesis using assms by (simp add: bm_fill_buffer_def Let_def min_def)
qed

section \<open>Messages\<close>

text \<open>
  Each class has a constructor for a message that will be sent, one for a message that was received,
  and \<open>fill_type\<close>.  Numbers are kept in the order of the wire, which is the machine's.  The buffer given to
  a receiving constructor may go on after the \<open>in_len\<close> bytes of the message.
\<close>

record 'a backend_message =
  m_type :: u32
  m_header :: "byte list"
  m_body :: 'a

definition setup_header :: "u32 \<Rightarrow> u32 \<Rightarrow> u32 \<Rightarrow> nat \<Rightarrow> byte list" where
  "setup_header ty id1 id2 content_len = bytes32 (of_nat (content_len + 16)) @ bytes32 ty @ bytes32 id1 @ bytes32 id2"

definition pre_send :: "u32 \<Rightarrow> u32 \<Rightarrow> u32 \<Rightarrow> nat \<Rightarrow> 'a \<Rightarrow> 'a backend_message" where
  "pre_send ty id1 id2 content_len body = \<lparr>m_type = ty, m_header = setup_header ty id1 id2 content_len, m_body = body\<rparr>"

definition post_receive :: "u32 \<Rightarrow> byte list \<Rightarrow> 'a res \<Rightarrow> 'a backend_message res" where
  "post_receive ty inbuf parse =
     rbind (slice 0 16 inbuf) (\<lambda>header. rbind parse (\<lambda>body. Inr \<lparr>m_type = ty, m_header = header, m_body = body\<rparr>))"

definition FROM_SERVER :: u32 where
  "FROM_SERVER = 0x80000000"

definition server_bit :: "bool \<Rightarrow> u32" where
  "server_bit server = (if server then FROM_SERVER else 0)"

text \<open>
  \<open>arrives m fill read same\<close>: the message \<open>m\<close> is written with the length its header says, and \<open>read\<close> makes of
  these bytes, whatever follows them, a message of the same type with a body that is the \<open>same\<close>.
\<close>

definition arrives ::
  "'a backend_message \<Rightarrow> chunk list res \<Rightarrow> (byte list \<Rightarrow> int \<Rightarrow> 'a backend_message res) \<Rightarrow> ('a \<Rightarrow> 'a \<Rightarrow> bool) \<Rightarrow> bool" where
  "arrives m fill read same \<longleftrightarrow>
     (\<exists>cs id1 id2. fill = Inr cs \<and> m_header m = setup_header (m_type m) id1 id2 (length (content cs)) \<and>
       (\<forall>rest. \<exists>m'. read (m_header m @ content cs @ rest) (16 + int (length (content cs))) = Inr m' \<and>
          m_type m' = m_type m \<and> m_header m' = m_header m \<and> same (m_body m) (m_body m')))"

lemma length_setup_header [simp]: "length (setup_header ty id1 id2 n) = 16"
  by (simp add: setup_header_def)

text \<open>Reading behind the first part of a buffer.\<close>

named_theorems skip "reading behind the first part of a buffer"

lemma skip_read [skip]:
  "length b \<le> k \<Longrightarrow> read32 (b @ xs) k = read32 xs (k - length b)"
  "length b \<le> k \<Longrightarrow> read16 (b @ xs) k = read16 xs (k - length b)"
  "length b \<le> k \<Longrightarrow> get8 (b @ xs) k = get8 xs (k - length b)"
  "length b \<le> k \<Longrightarrow> slice k n (b @ xs) = slice (k - length b) n xs"
  using read32_skip [of b xs "k - length b"] read16_skip [of b xs "k - length b"] get8_skip [of b xs "k - length b"]
    slice_skip [of b "k - length b" n xs]
  by simp_all

lemma skip_byte [skip]:
  "0 < k \<Longrightarrow> read32 (b # xs) k = read32 xs (k - 1)"
  "0 < k \<Longrightarrow> read16 (b # xs) k = read16 xs (k - 1)"
  "0 < k \<Longrightarrow> get8 (b # xs) k = get8 xs (k - 1)"
  "0 < k \<Longrightarrow> slice k n (b # xs) = slice (k - 1) n xs"
  using skip_read(1,2,3) [of "[b]" k xs] skip_read(4) [of "[b]" k n xs] by simp_all

lemma slice_here [skip]: "length b = n \<Longrightarrow> slice 0 n (b @ xs) = Inr b" "length b = n \<Longrightarrow> slice 0 n b = Inr b"
  using slice_prefix [of b xs] by (auto simp: slice_def)

lemma get8_here [skip]: "get8 (b # xs) 0 = Inr b"
  by (simp add: get8_def)

lemma read32_end [simp]: "read32 (bytes32 v) 0 = Inr v"
  using read32_bytes32 [of v "[]"] by simp

lemma read16_end [simp]: "read16 (bytes16 v) 0 = Inr v"
  using read16_bytes16 [of v "[]"] by simp

text \<open>A string is one when the text in it is.\<close>

definition same_text :: "uru_string \<Rightarrow> uru_string \<Rightarrow> bool" where
  "same_text u u' \<longleftrightarrow> (\<exists>t. u = C_str t \<and> reads_as u' t)"

fun same_option :: "('a \<Rightarrow> 'a \<Rightarrow> bool) \<Rightarrow> 'a option \<Rightarrow> 'a option \<Rightarrow> bool" where
  "same_option P None None = True"
| "same_option P (Some x) (Some y) = P x y"
| "same_option P _ _ = False"

lemma copy_c [simp]: "UruString_copy (C_str t) True = Inr (C_str t)"
  by (simp add: UruString_copy_def UruString_c_def empty_string_def deref_def slice_def)

definition same_wide :: "uru_string \<Rightarrow> uru_string \<Rightarrow> bool" where
  "same_wide u u' \<longleftrightarrow> (\<exists>t. holds_wide u t \<and> holds_wide u' t)"

lemma header_type [skip]: "read32 (setup_header ty id1 id2 n @ xs) 4 = Inr ty"
  by (simp add: setup_header_def skip_read)

lemma header_length [skip]: "read32 (setup_header ty id1 id2 n @ xs) 0 = Inr (of_nat (n + 16))"
  by (simp add: setup_header_def)

lemma header_here [skip]: "slice 0 16 (setup_header ty id1 id2 n @ xs) = Inr (setup_header ty id1 id2 n)"
  by (simp add: slice_here)

text \<open>The same for the message that a constructor makes, or not.\<close>

definition delivered ::
  "'a backend_message res \<Rightarrow> (u32 \<Rightarrow> 'a \<Rightarrow> chunk list res) \<Rightarrow> (byte list \<Rightarrow> int \<Rightarrow> 'a backend_message res) \<Rightarrow> ('a \<Rightarrow> 'a \<Rightarrow> bool) \<Rightarrow> bool" where
  "delivered new fill read same \<longleftrightarrow> (\<exists>m. new = Inr m \<and> arrives m (fill (m_type m) (m_body m)) read same)"

text \<open>For a class it remains to read the fields behind the header.\<close>

lemma arrivesI:
  assumes "n = length (content cs)"
    and "\<And>rest. \<exists>body'. read (setup_header ty id1 id2 n @ content cs @ rest) (16 + int n) =
      Inr \<lparr>m_type = ty, m_header = setup_header ty id1 id2 n, m_body = body'\<rparr> \<and> same body body'"
  shows "arrives (pre_send ty id1 id2 n body) (Inr cs) read same"
  using assms unfolding arrives_def by (fastforce simp: pre_send_def)

lemma deliveredI:
  assumes "new = Inr (pre_send ty id1 id2 n body)" and "fill ty body = Inr cs" and "n = length (content cs)"
    and "\<And>rest. \<exists>body'. read (setup_header ty id1 id2 n @ content cs @ rest) (16 + int n) =
      Inr \<lparr>m_type = ty, m_header = setup_header ty id1 id2 n, m_body = body'\<rparr> \<and> same body body'"
  shows "delivered new fill read same"
proof -
  have "arrives (pre_send ty id1 id2 n body) (Inr cs) read same" using assms(3,4) by (rule arrivesI)
  with assms(1,2) show ?thesis by (simp add: delivered_def) (simp add: pre_send_def)
qed

text \<open>\<open>mk\<close> is the part of the factory for a family of classes: which of them reads a message of a type.\<close>

lemma made_arrives:
  assumes "delivered new fill read same" and "new = Inr m" and "m_type m = ty"
    and "mk ty = (\<lambda>buf n. Some (read buf n))"
  shows "\<exists>read. mk (m_type m) = (\<lambda>buf n. Some (read buf n)) \<and> arrives m (fill (m_type m) (m_body m)) read same"
  using assms by (auto simp: delivered_def)

text \<open>The two kinds of strings, with any number of bytes behind them.\<close>

lemma string_at:
  assumes "c_ok t" and "int (length t + 3) \<le> buflen"
  obtains u where "UruString_buf (with_null t @ rest) buflen True False copy = Inr u" "m_arrival_len u = length t + 3"
    "same_text (C_str t) u"
  using read_c [OF assms(1) disjI2 [OF assms(2)], of rest copy] by (auto simp: same_text_def)

lemma wide_at:
  assumes "wide_ok t" and "int (length t + 4) \<le> buflen" and "holds_wide v t"
  obtains u where "UruString_buf (wide_field t @ rest) buflen True True copy = Inr u" "m_arrival_len u = length t + 4"
    "same_wide v u"
  using read_wide [OF assms(1) disjI2 [OF assms(2)], of rest copy] assms(3) by (auto simp: same_wide_def)

end
