(* ===== verification/Backend_Auth.thy ===== *)
theory Backend_Auth
  imports Backend_Writer
begin

text \<open>
  The messages between auth servers and the backend (\<open>BackendMessage.cc\<close>): greeting, login, change of
  the password, creation and deletion of players.
\<close>

datatype auth_body =
    Hello u32
  | KillClient u32 u32
  | AuthAcctLogin_To u32 uru_string "byte list" u32 "(u32 \<times> u32) option"
  | AuthAcctLogin_From u32 u32 "byte list" u32 "uru_string option" "byte list option"
  | AuthKIValidate_To u32 "byte list"
  | AuthKIValidate_From u32 u32
  | AuthPlayerLogout u32
  | AuthChangePassword_To "byte list" u32 uru_string "byte list"
  | AuthChangePassword_From u32 u32
  | VaultPlayerCreate_To u32 "byte list" uru_string uru_string
  | VaultPlayerCreate_From u32 u32 u32 u32 "uru_string option" "uru_string option"
  | VaultPlayerDelete_To u32 u32
  | VaultPlayerDelete_From u32 u32

definition ADMIN_HELLO :: u32 where "ADMIN_HELLO = 0x1000000"
definition ADMIN_KILL_CLIENT :: u32 where "ADMIN_KILL_CLIENT = 0x1000027"
definition AUTH_ACCT_LOGIN :: u32 where "AUTH_ACCT_LOGIN = 0x4000003"
definition AUTH_KI_VALIDATE :: u32 where "AUTH_KI_VALIDATE = 0x4000006"
definition AUTH_PLAYER_LOGOUT :: u32 where "AUTH_PLAYER_LOGOUT = 0x4000017"
definition AUTH_CHANGE_PASSWORD :: u32 where "AUTH_CHANGE_PASSWORD = 0x4000008"
definition VAULT_PLAYER_CREATE :: u32 where "VAULT_PLAYER_CREATE = 0x2000010"
definition VAULT_PLAYER_DELETE :: u32 where "VAULT_PLAYER_DELETE = 0x2000011"

abbreviation (input) AUTH_DISCONNECT :: u32 where "AUTH_DISCONNECT \<equiv> 4"
abbreviation (input) PLAIN_HASH :: u32 where "PLAIN_HASH \<equiv> 0"
abbreviation (input) NO_ERROR :: u32 where "NO_ERROR \<equiv> 0"
abbreviation (input) GUEST_CUSTOMER :: u32 where "GUEST_CUSTOMER \<equiv> 0"

section \<open>Connections\<close>

definition Hello_new :: "u32 \<Rightarrow> u32 \<Rightarrow> u32 \<Rightarrow> bool \<Rightarrow> auth_body backend_message" where
  "Hello_new id1 id2 peer_info to_server =
     pre_send (ADMIN_HELLO OR server_bit (\<not> to_server)) id1 id2 4 (Hello peer_info)"

definition Hello_read :: "byte list \<Rightarrow> int \<Rightarrow> auth_body backend_message res" where
  "Hello_read inbuf in_len =
     rbind (read32 inbuf 4) (\<lambda>ty. post_receive ty inbuf (rbind (read32 inbuf 16) (\<lambda>peer_info. Inr (Hello peer_info))))"

definition Hello_fill :: "u32 \<Rightarrow> chunk list res" where
  "Hello_fill peer_info = Inr [Many (bytes32 peer_info)]"

definition KillClient_new :: "u32 \<Rightarrow> u32 \<Rightarrow> u32 \<Rightarrow> u32 \<Rightarrow> auth_body backend_message" where
  "KillClient_new id1 id2 why player_id =
     pre_send (ADMIN_KILL_CLIENT OR FROM_SERVER) id1 id2 (if why = AUTH_DISCONNECT then 8 else 4) (KillClient why player_id)"

definition KillClient_read :: "byte list \<Rightarrow> int \<Rightarrow> auth_body backend_message res" where
  "KillClient_read inbuf in_len =
     post_receive (ADMIN_KILL_CLIENT OR FROM_SERVER) inbuf
       (rbind (read32 inbuf 16) (\<lambda>reason.
        rbind (if reason = AUTH_DISCONNECT then read32 inbuf 20 else Inr 0) (\<lambda>ki. Inr (KillClient reason ki))))"

definition KillClient_fill :: "u32 \<Rightarrow> u32 \<Rightarrow> chunk list res" where
  "KillClient_fill reason ki =
     Inr (Many (bytes32 reason) # (if reason = AUTH_DISCONNECT then [Many (bytes32 ki)] else []))"

section \<open>Login\<close>

text \<open>The nonces are set only if the password is not sent as a plain hash.\<close>

definition AuthAcctLogin_To_new ::
  "iconv \<Rightarrow> (nat \<Rightarrow> byte list) \<Rightarrow> u32 \<Rightarrow> u32 \<Rightarrow> u32 \<Rightarrow> uru_string \<Rightarrow> byte list \<Rightarrow> u32 \<Rightarrow> u32 \<Rightarrow> u32 \<Rightarrow>
   auth_body backend_message res" where
  "AuthAcctLogin_To_new conv alloc id1 id2 reqid name hash authtype server_nonce client_nonce =
     rbind (UruString_copy name True) (\<lambda>name.
     rbind (slice 0 20 hash) (\<lambda>pwhash.
     rbind (text_len conv alloc True True name) (\<lambda>n.
       Inr (pre_send AUTH_ACCT_LOGIN id1 id2 (28 + n + (if authtype \<noteq> PLAIN_HASH then 8 else 0))
              (AuthAcctLogin_To reqid name pwhash authtype
                 (if authtype \<noteq> PLAIN_HASH then Some (server_nonce, client_nonce) else None))))))"

definition AuthAcctLogin_To_read :: "bool \<Rightarrow> byte list \<Rightarrow> int \<Rightarrow> auth_body backend_message res" where
  "AuthAcctLogin_To_read become_owner inbuf in_len =
     post_receive AUTH_ACCT_LOGIN inbuf
       (rbind (read32 inbuf 16) (\<lambda>reqid.
        rbind (read32 inbuf 20) (\<lambda>authtype.
        rbind (UruString_buf (drop 24 inbuf) (in_len - 24) True True (\<not> become_owner)) (\<lambda>name.
        let read_at = 24 + m_arrival_len name
        in rbind (slice read_at 20 inbuf) (\<lambda>pwhash.
           let read_at = read_at + 20;
               left = in_len - int read_at
           in if authtype \<noteq> PLAIN_HASH \<and> \<not> (0 \<le> left \<and> left < 8)
              then rbind (read32 inbuf read_at) (\<lambda>server.
                   rbind (read32 inbuf (read_at + 4)) (\<lambda>client.
                   Inr (AuthAcctLogin_To reqid name pwhash authtype (Some (server, client)))))
              else Inr (AuthAcctLogin_To reqid name pwhash authtype None))))))"

definition AuthAcctLogin_To_fill ::
  "iconv \<Rightarrow> (nat \<Rightarrow> byte list) \<Rightarrow> u32 \<Rightarrow> uru_string \<Rightarrow> byte list \<Rightarrow> u32 \<Rightarrow> (u32 \<times> u32) option \<Rightarrow> chunk list res" where
  "AuthAcctLogin_To_fill conv alloc reqid name pwhash authtype nonces =
     rbind (text_field conv alloc True True name) (\<lambda>text.
     rbind (if authtype = PLAIN_HASH then Inr []
            else (case nonces of
                None \<Rightarrow> Inl Uninitialized
              | Some (server, client) \<Rightarrow> Inr [Many (bytes32 server), Many (bytes32 client)])) (\<lambda>tail.
       Inr ([Many (bytes32 reqid), Many (bytes32 authtype), Many text, Many pwhash] @ tail)))"

definition AuthAcctLogin_From_new ::
  "iconv \<Rightarrow> (nat \<Rightarrow> byte list) \<Rightarrow> u32 \<Rightarrow> u32 \<Rightarrow> u32 \<Rightarrow> u32 \<Rightarrow> byte list \<Rightarrow> u32 \<Rightarrow> uru_string option \<Rightarrow> byte list \<Rightarrow>
   auth_body backend_message res" where
  "AuthAcctLogin_From_new conv alloc id1 id2 reqid result acct_uuid acct_type dirname p_info =
     (if result = NO_ERROR
      then rbind (slice 0 16 acct_uuid) (\<lambda>uuid.
           rbind (case dirname of None \<Rightarrow> Inl Null_Pointer | Some u \<Rightarrow> text_len conv alloc False True u) (\<lambda>n.
           Inr (pre_send (AUTH_ACCT_LOGIN OR FROM_SERVER) id1 id2 (28 + n + length p_info)
                  (AuthAcctLogin_From reqid result uuid acct_type dirname (if p_info = [] then None else Some p_info)))))
      else Inr (pre_send (AUTH_ACCT_LOGIN OR FROM_SERVER) id1 id2 8
                  (AuthAcctLogin_From reqid result (replicate 16 0) acct_type dirname None)))"

definition AuthAcctLogin_From_read :: "byte list \<Rightarrow> int \<Rightarrow> auth_body backend_message res" where
  "AuthAcctLogin_From_read inbuf in_len =
     post_receive (AUTH_ACCT_LOGIN OR FROM_SERVER) inbuf
       (rbind (read32 inbuf 16) (\<lambda>reqid.
        rbind (read32 inbuf 20) (\<lambda>result.
        if result = NO_ERROR
        then rbind (slice 24 16 inbuf) (\<lambda>uuid.
             rbind (read32 inbuf 40) (\<lambda>acct_type.
             rbind (UruString_buf (drop 44 inbuf) (in_len - 44) True False True) (\<lambda>dirname.
             let buflen = in_len - (44 + int (m_arrival_len dirname))
             in rbind (if buflen > 0
                       then rbind (slice (44 + m_arrival_len dirname) (nat buflen) inbuf) (\<lambda>bs. Inr (Some bs))
                       else Inr None) (\<lambda>p_info.
                Inr (AuthAcctLogin_From reqid result uuid acct_type (Some dirname) p_info)))))
        else Inr (AuthAcctLogin_From reqid result (replicate 16 0) GUEST_CUSTOMER None None))))"

definition AuthAcctLogin_From_fill ::
  "iconv \<Rightarrow> (nat \<Rightarrow> byte list) \<Rightarrow> u32 \<Rightarrow> u32 \<Rightarrow> byte list \<Rightarrow> u32 \<Rightarrow> uru_string option \<Rightarrow> byte list option \<Rightarrow> chunk list res" where
  "AuthAcctLogin_From_fill conv alloc reqid result uuid acct_type dirname p_info =
     (if result \<noteq> NO_ERROR then Inr [Many (bytes32 reqid), Many (bytes32 result)]
      else rbind (case dirname of None \<Rightarrow> Inr [0, 0] | Some u \<Rightarrow> text_field conv alloc False True u) (\<lambda>text.
           Inr [Many (bytes32 reqid), Many (bytes32 result), Many uuid, Many (bytes32 acct_type), Many text,
                Many (case p_info of None \<Rightarrow> [] | Some bs \<Rightarrow> bs)]))"

section \<open>Players\<close>

definition AuthKIValidate_To_new :: "u32 \<Rightarrow> u32 \<Rightarrow> byte list \<Rightarrow> u32 \<Rightarrow> auth_body backend_message res" where
  "AuthKIValidate_To_new id1 id2 acct_uuid kinum =
     rbind (slice 0 16 acct_uuid) (\<lambda>uuid. Inr (pre_send AUTH_KI_VALIDATE id1 id2 20 (AuthKIValidate_To kinum uuid)))"

definition AuthKIValidate_To_read :: "byte list \<Rightarrow> int \<Rightarrow> auth_body backend_message res" where
  "AuthKIValidate_To_read inbuf in_len =
     post_receive AUTH_KI_VALIDATE inbuf
       (rbind (slice 16 16 inbuf) (\<lambda>uuid. rbind (read32 inbuf 32) (\<lambda>kinum. Inr (AuthKIValidate_To kinum uuid))))"

definition AuthKIValidate_To_fill :: "u32 \<Rightarrow> byte list \<Rightarrow> chunk list res" where
  "AuthKIValidate_To_fill kinum uuid = Inr [Many uuid, Many (bytes32 kinum)]"

definition AuthKIValidate_From_new :: "u32 \<Rightarrow> u32 \<Rightarrow> u32 \<Rightarrow> u32 \<Rightarrow> auth_body backend_message" where
  "AuthKIValidate_From_new id1 id2 kinum result =
     pre_send (AUTH_KI_VALIDATE OR FROM_SERVER) id1 id2 8 (AuthKIValidate_From kinum result)"

definition AuthKIValidate_From_read :: "byte list \<Rightarrow> int \<Rightarrow> auth_body backend_message res" where
  "AuthKIValidate_From_read inbuf in_len =
     post_receive (AUTH_KI_VALIDATE OR FROM_SERVER) inbuf
       (rbind (read32 inbuf 16) (\<lambda>kinum. rbind (read32 inbuf 20) (\<lambda>result. Inr (AuthKIValidate_From kinum result))))"

definition AuthKIValidate_From_fill :: "u32 \<Rightarrow> u32 \<Rightarrow> chunk list res" where
  "AuthKIValidate_From_fill kinum result = Inr [Many (bytes32 kinum), Many (bytes32 result)]"

definition AuthPlayerLogout_new :: "u32 \<Rightarrow> u32 \<Rightarrow> u32 \<Rightarrow> auth_body backend_message" where
  "AuthPlayerLogout_new id1 id2 kinum = pre_send AUTH_PLAYER_LOGOUT id1 id2 4 (AuthPlayerLogout kinum)"

definition AuthPlayerLogout_read :: "byte list \<Rightarrow> int \<Rightarrow> auth_body backend_message res" where
  "AuthPlayerLogout_read inbuf in_len =
     post_receive AUTH_PLAYER_LOGOUT inbuf (rbind (read32 inbuf 16) (\<lambda>kinum. Inr (AuthPlayerLogout kinum)))"

definition AuthPlayerLogout_fill :: "u32 \<Rightarrow> chunk list res" where
  "AuthPlayerLogout_fill kinum = Inr [Many (bytes32 kinum)]"

section \<open>Passwords\<close>

definition AuthChangePassword_To_new ::
  "iconv \<Rightarrow> (nat \<Rightarrow> byte list) \<Rightarrow> u32 \<Rightarrow> u32 \<Rightarrow> byte list \<Rightarrow> u32 \<Rightarrow> uru_string \<Rightarrow> byte list \<Rightarrow> auth_body backend_message res" where
  "AuthChangePassword_To_new conv alloc id1 id2 uuid reqid name hash =
     rbind (UruString_copy name True) (\<lambda>name.
     rbind (slice 0 16 uuid) (\<lambda>uuid.
     rbind (slice 0 20 hash) (\<lambda>pwhash.
     rbind (text_len conv alloc False True name) (\<lambda>n.
       Inr (pre_send AUTH_CHANGE_PASSWORD id1 id2 (24 + 16 + n) (AuthChangePassword_To uuid reqid name pwhash))))))"

definition AuthChangePassword_To_read :: "bool \<Rightarrow> byte list \<Rightarrow> int \<Rightarrow> auth_body backend_message res" where
  "AuthChangePassword_To_read become_owner inbuf in_len =
     post_receive AUTH_CHANGE_PASSWORD inbuf
       (rbind (slice 16 16 inbuf) (\<lambda>uuid.
        rbind (read32 inbuf 32) (\<lambda>reqid.
        rbind (UruString_buf (drop 36 inbuf) (in_len - 36) True False (\<not> become_owner)) (\<lambda>name.
        rbind (slice (36 + m_arrival_len name) 20 inbuf) (\<lambda>pwhash.
          Inr (AuthChangePassword_To uuid reqid name pwhash))))))"

definition AuthChangePassword_To_fill ::
  "iconv \<Rightarrow> (nat \<Rightarrow> byte list) \<Rightarrow> byte list \<Rightarrow> u32 \<Rightarrow> uru_string \<Rightarrow> byte list \<Rightarrow> chunk list res" where
  "AuthChangePassword_To_fill conv alloc uuid reqid name pwhash =
     rbind (text_field conv alloc False True name) (\<lambda>text.
       Inr [Many uuid, Many (bytes32 reqid), Many text, Many pwhash])"

definition AuthChangePassword_From_new :: "u32 \<Rightarrow> u32 \<Rightarrow> u32 \<Rightarrow> u32 \<Rightarrow> auth_body backend_message" where
  "AuthChangePassword_From_new id1 id2 reqid result =
     pre_send (AUTH_CHANGE_PASSWORD OR FROM_SERVER) id1 id2 8 (AuthChangePassword_From reqid result)"

definition AuthChangePassword_From_read :: "byte list \<Rightarrow> int \<Rightarrow> auth_body backend_message res" where
  "AuthChangePassword_From_read inbuf in_len =
     post_receive (AUTH_CHANGE_PASSWORD OR FROM_SERVER) inbuf
       (rbind (read32 inbuf 16) (\<lambda>reqid. rbind (read32 inbuf 20) (\<lambda>result. Inr (AuthChangePassword_From reqid result))))"

definition AuthChangePassword_From_fill :: "u32 \<Rightarrow> u32 \<Rightarrow> chunk list res" where
  "AuthChangePassword_From_fill reqid result = Inr [Many (bytes32 reqid), Many (bytes32 result)]"

section \<open>Creating and deleting players\<close>

definition VaultPlayerCreate_To_new ::
  "iconv \<Rightarrow> (nat \<Rightarrow> byte list) \<Rightarrow> u32 \<Rightarrow> u32 \<Rightarrow> u32 \<Rightarrow> byte list \<Rightarrow> uru_string \<Rightarrow> uru_string \<Rightarrow> auth_body backend_message res" where
  "VaultPlayerCreate_To_new conv alloc id1 id2 reqid acct_uuid name gender =
     rbind (UruString_copy name True) (\<lambda>name.
     rbind (UruString_copy gender True) (\<lambda>gender.
     rbind (slice 0 16 acct_uuid) (\<lambda>uuid.
     rbind (text_len conv alloc False True name) (\<lambda>n.
     rbind (text_len conv alloc False True gender) (\<lambda>k.
       Inr (pre_send VAULT_PLAYER_CREATE id1 id2 (20 + n + k) (VaultPlayerCreate_To reqid uuid name gender)))))))"

text \<open>A second string is read only if there are two bytes left.\<close>

definition second_string :: "bool \<Rightarrow> byte list \<Rightarrow> int \<Rightarrow> nat \<Rightarrow> uru_string res" where
  "second_string become_owner inbuf in_len read_at =
     (let left = in_len - int read_at
      in if 0 \<le> left \<and> left < 2 then Inr empty_string
         else UruString_buf (drop read_at inbuf) left True False (\<not> become_owner))"

definition VaultPlayerCreate_To_read :: "bool \<Rightarrow> byte list \<Rightarrow> int \<Rightarrow> auth_body backend_message res" where
  "VaultPlayerCreate_To_read become_owner inbuf in_len =
     post_receive VAULT_PLAYER_CREATE inbuf
       (rbind (read32 inbuf 16) (\<lambda>reqid.
        rbind (slice 20 16 inbuf) (\<lambda>uuid.
        rbind (UruString_buf (drop 36 inbuf) (in_len - 36) True False (\<not> become_owner)) (\<lambda>name.
        rbind (second_string become_owner inbuf in_len (36 + m_arrival_len name)) (\<lambda>gender.
          Inr (VaultPlayerCreate_To reqid uuid name gender))))))"

definition VaultPlayerCreate_To_fill ::
  "iconv \<Rightarrow> (nat \<Rightarrow> byte list) \<Rightarrow> u32 \<Rightarrow> byte list \<Rightarrow> uru_string \<Rightarrow> uru_string \<Rightarrow> chunk list res" where
  "VaultPlayerCreate_To_fill conv alloc reqid uuid name gender =
     rbind (text_field conv alloc False True name) (\<lambda>text1.
     rbind (text_field conv alloc False True gender) (\<lambda>text2.
       Inr [Many (bytes32 reqid), Many uuid, Many text1, Many text2]))"

definition VaultPlayerCreate_From_new ::
  "iconv \<Rightarrow> (nat \<Rightarrow> byte list) \<Rightarrow> u32 \<Rightarrow> u32 \<Rightarrow> u32 \<Rightarrow> u32 \<Rightarrow> u32 \<Rightarrow> u32 \<Rightarrow> uru_string option \<Rightarrow> uru_string option \<Rightarrow>
   auth_body backend_message res" where
  "VaultPlayerCreate_From_new conv alloc id1 id2 reqid result kinum acct_type name gender =
     rbind (if result = NO_ERROR
            then rbind (case name of None \<Rightarrow> Inl Null_Pointer | Some u \<Rightarrow> text_len conv alloc False True u) (\<lambda>n.
                 rbind (case gender of None \<Rightarrow> Inl Null_Pointer | Some u \<Rightarrow> text_len conv alloc False True u) (\<lambda>k.
                 Inr (16 + n + k)))
            else Inr 8) (\<lambda>len.
       Inr (pre_send (VAULT_PLAYER_CREATE OR FROM_SERVER) id1 id2 len
              (VaultPlayerCreate_From reqid result kinum acct_type name gender)))"

definition VaultPlayerCreate_From_read :: "bool \<Rightarrow> byte list \<Rightarrow> int \<Rightarrow> auth_body backend_message res" where
  "VaultPlayerCreate_From_read become_owner inbuf in_len =
     post_receive (VAULT_PLAYER_CREATE OR FROM_SERVER) inbuf
       (rbind (read32 inbuf 16) (\<lambda>reqid.
        rbind (read32 inbuf 20) (\<lambda>result.
        if result = NO_ERROR
        then rbind (read32 inbuf 24) (\<lambda>kinum.
             rbind (read32 inbuf 28) (\<lambda>acct_type.
             rbind (UruString_buf (drop 32 inbuf) (in_len - 32) True False (\<not> become_owner)) (\<lambda>name.
             rbind (second_string become_owner inbuf in_len (32 + m_arrival_len name)) (\<lambda>gender.
               Inr (VaultPlayerCreate_From reqid result kinum acct_type (Some name) (Some gender))))))
        else Inr (VaultPlayerCreate_From reqid result 0 GUEST_CUSTOMER None None))))"

definition VaultPlayerCreate_From_fill ::
  "iconv \<Rightarrow> (nat \<Rightarrow> byte list) \<Rightarrow> u32 \<Rightarrow> u32 \<Rightarrow> u32 \<Rightarrow> u32 \<Rightarrow> uru_string option \<Rightarrow> uru_string option \<Rightarrow> chunk list res" where
  "VaultPlayerCreate_From_fill conv alloc reqid result kinum acct_type name gender =
     (if result \<noteq> NO_ERROR then Inr [Many (bytes32 reqid), Many (bytes32 result)]
      else rbind (case name of None \<Rightarrow> Inr [0, 0] | Some u \<Rightarrow> text_field conv alloc False True u) (\<lambda>text1.
           rbind (case gender of None \<Rightarrow> Inr [0, 0] | Some u \<Rightarrow> text_field conv alloc False True u) (\<lambda>text2.
           Inr [Many (bytes32 reqid), Many (bytes32 result), Many (bytes32 kinum), Many (bytes32 acct_type), Many text1, Many text2])))"

definition VaultPlayerDelete_To_new :: "u32 \<Rightarrow> u32 \<Rightarrow> u32 \<Rightarrow> u32 \<Rightarrow> auth_body backend_message" where
  "VaultPlayerDelete_To_new id1 id2 reqid ki = pre_send VAULT_PLAYER_DELETE id1 id2 8 (VaultPlayerDelete_To reqid ki)"

definition VaultPlayerDelete_To_read :: "byte list \<Rightarrow> int \<Rightarrow> auth_body backend_message res" where
  "VaultPlayerDelete_To_read inbuf in_len =
     post_receive VAULT_PLAYER_DELETE inbuf
       (rbind (read32 inbuf 16) (\<lambda>reqid. rbind (read32 inbuf 20) (\<lambda>kinum. Inr (VaultPlayerDelete_To reqid kinum))))"

definition VaultPlayerDelete_To_fill :: "u32 \<Rightarrow> u32 \<Rightarrow> chunk list res" where
  "VaultPlayerDelete_To_fill reqid kinum = Inr [Many (bytes32 reqid), Many (bytes32 kinum)]"

definition VaultPlayerDelete_From_new :: "u32 \<Rightarrow> u32 \<Rightarrow> u32 \<Rightarrow> u32 \<Rightarrow> auth_body backend_message" where
  "VaultPlayerDelete_From_new id1 id2 reqid result =
     pre_send (VAULT_PLAYER_DELETE OR FROM_SERVER) id1 id2 8 (VaultPlayerDelete_From reqid result)"

definition VaultPlayerDelete_From_read :: "byte list \<Rightarrow> int \<Rightarrow> auth_body backend_message res" where
  "VaultPlayerDelete_From_read inbuf in_len =
     post_receive (VAULT_PLAYER_DELETE OR FROM_SERVER) inbuf
       (rbind (read32 inbuf 16) (\<lambda>reqid. rbind (read32 inbuf 20) (\<lambda>result. Inr (VaultPlayerDelete_From reqid result))))"

definition VaultPlayerDelete_From_fill :: "u32 \<Rightarrow> u32 \<Rightarrow> chunk list res" where
  "VaultPlayerDelete_From_fill reqid result = Inr [Many (bytes32 reqid), Many (bytes32 result)]"

text \<open>The virtual function.\<close>

fun auth_fill :: "iconv \<Rightarrow> (nat \<Rightarrow> byte list) \<Rightarrow> auth_body \<Rightarrow> chunk list res" where
  "auth_fill conv alloc (Hello p) = Hello_fill p"
| "auth_fill conv alloc (KillClient r k) = KillClient_fill r k"
| "auth_fill conv alloc (AuthAcctLogin_To r n h a s) = AuthAcctLogin_To_fill conv alloc r n h a s"
| "auth_fill conv alloc (AuthAcctLogin_From r e u a d p) = AuthAcctLogin_From_fill conv alloc r e u a d p"
| "auth_fill conv alloc (AuthKIValidate_To k u) = AuthKIValidate_To_fill k u"
| "auth_fill conv alloc (AuthKIValidate_From k e) = AuthKIValidate_From_fill k e"
| "auth_fill conv alloc (AuthPlayerLogout k) = AuthPlayerLogout_fill k"
| "auth_fill conv alloc (AuthChangePassword_To u r n h) = AuthChangePassword_To_fill conv alloc u r n h"
| "auth_fill conv alloc (AuthChangePassword_From r e) = AuthChangePassword_From_fill r e"
| "auth_fill conv alloc (VaultPlayerCreate_To r u n g) = VaultPlayerCreate_To_fill conv alloc r u n g"
| "auth_fill conv alloc (VaultPlayerCreate_From r e k a n g) = VaultPlayerCreate_From_fill conv alloc r e k a n g"
| "auth_fill conv alloc (VaultPlayerDelete_To r k) = VaultPlayerDelete_To_fill r k"
| "auth_fill conv alloc (VaultPlayerDelete_From r e) = VaultPlayerDelete_From_fill r e"

section \<open>What is sent arrives\<close>

text \<open>With an error nothing but the result is sent.\<close>

fun same_auth :: "auth_body \<Rightarrow> auth_body \<Rightarrow> bool" where
  "same_auth (AuthAcctLogin_To r n h a s) b = (\<exists>n'. b = AuthAcctLogin_To r n' h a s \<and> same_wide n n')"
| "same_auth (AuthAcctLogin_From r e u a d p) b =
     (\<exists>u' a' d' p'. b = AuthAcctLogin_From r e u' a' d' p' \<and>
        (e = NO_ERROR \<longrightarrow> u' = u \<and> a' = a \<and> p' = p \<and> same_option same_text d d'))"
| "same_auth (AuthChangePassword_To u r n h) b = (\<exists>n'. b = AuthChangePassword_To u r n' h \<and> same_text n n')"
| "same_auth (VaultPlayerCreate_To r u n g) b = (\<exists>n' g'. b = VaultPlayerCreate_To r u n' g' \<and> same_text n n' \<and> same_text g g')"
| "same_auth (VaultPlayerCreate_From r e k a n g) b =
     (\<exists>k' a' n' g'. b = VaultPlayerCreate_From r e k' a' n' g' \<and>
        (e = NO_ERROR \<longrightarrow> k' = k \<and> a' = a \<and> same_option same_text n n' \<and> same_option same_text g g'))"
| "same_auth b b' = (b' = b)"

lemmas auth_fixed = Hello_new_def Hello_fill_def KillClient_new_def KillClient_fill_def
  AuthKIValidate_From_new_def AuthKIValidate_From_fill_def
  AuthPlayerLogout_new_def AuthPlayerLogout_fill_def AuthChangePassword_From_new_def AuthChangePassword_From_fill_def
  VaultPlayerDelete_To_new_def VaultPlayerDelete_To_fill_def VaultPlayerDelete_From_new_def VaultPlayerDelete_From_fill_def
  Hello_read_def KillClient_read_def AuthKIValidate_To_read_def AuthKIValidate_From_read_def
  AuthPlayerLogout_read_def AuthChangePassword_From_read_def VaultPlayerDelete_To_read_def VaultPlayerDelete_From_read_def
  AuthKIValidate_To_new_def AuthKIValidate_To_fill_def

lemma auth_fixed_delivered:
  "delivered (Inr (Hello_new id1 id2 p s)) (\<lambda>_. auth_fill conv alloc) Hello_read same_auth"
  "delivered (Inr (KillClient_new id1 id2 AUTH_DISCONNECT k)) (\<lambda>_. auth_fill conv alloc) KillClient_read same_auth"
  "why \<noteq> AUTH_DISCONNECT \<Longrightarrow> delivered (Inr (KillClient_new id1 id2 why 0)) (\<lambda>_. auth_fill conv alloc) KillClient_read same_auth"
  "length uuid = 16 \<Longrightarrow> delivered (AuthKIValidate_To_new id1 id2 uuid k) (\<lambda>_. auth_fill conv alloc) AuthKIValidate_To_read same_auth"
  "delivered (Inr (AuthKIValidate_From_new id1 id2 k e)) (\<lambda>_. auth_fill conv alloc) AuthKIValidate_From_read same_auth"
  "delivered (Inr (AuthPlayerLogout_new id1 id2 k)) (\<lambda>_. auth_fill conv alloc) AuthPlayerLogout_read same_auth"
  "delivered (Inr (AuthChangePassword_From_new id1 id2 r e)) (\<lambda>_. auth_fill conv alloc) AuthChangePassword_From_read same_auth"
  "delivered (Inr (VaultPlayerDelete_To_new id1 id2 r k)) (\<lambda>_. auth_fill conv alloc) VaultPlayerDelete_To_read same_auth"
  "delivered (Inr (VaultPlayerDelete_From_new id1 id2 r e)) (\<lambda>_. auth_fill conv alloc) VaultPlayerDelete_From_read same_auth"
  by (rule deliveredI, simp add: auth_fixed slice_here, simp add: auth_fixed, simp, simp add: auth_fixed post_receive_def skip)+

lemma password_delivered:
  assumes "length uuid = 16" and "length hash = 20" and "c_ok t"
  shows "delivered (AuthChangePassword_To_new conv alloc id1 id2 uuid r (C_str t) hash)
    (\<lambda>_. auth_fill conv alloc) (AuthChangePassword_To_read own) same_auth"
proof (rule deliveredI)
  fix rest
  obtain u where u: "UruString_buf (with_null t @ hash @ rest) (int (length t) + 23) True False (\<not> own) = Inr u"
    "m_arrival_len u = length t + 3" "same_text (C_str t) u"
    by (rule string_at [OF assms(3), of "int (length t) + 23" "hash @ rest" "\<not> own"]) auto
  show "\<exists>body'. AuthChangePassword_To_read own (setup_header AUTH_CHANGE_PASSWORD id1 id2 (43 + length t) @
      content [Many uuid, Many (bytes32 r), Many (with_null t), Many hash] @ rest) (16 + int (43 + length t)) =
      Inr \<lparr>m_type = AUTH_CHANGE_PASSWORD, m_header = setup_header AUTH_CHANGE_PASSWORD id1 id2 (43 + length t), m_body = body'\<rparr> \<and>
      same_auth (AuthChangePassword_To uuid r (C_str t) hash) body'"
    using assms u by (simp add: AuthChangePassword_To_read_def post_receive_def skip add_ac)
qed (use assms in \<open>simp_all add: AuthChangePassword_To_new_def AuthChangePassword_To_fill_def slice_here text_field_c\<close>)

lemma login_delivered:
  assumes "length hash = 20" and "wide_ok t" and "holds_wide name t" and "UruString_copy name True = Inr name"
  shows "delivered (AuthAcctLogin_To_new conv alloc id1 id2 r name hash ty s c)
    (\<lambda>_. auth_fill conv alloc) (AuthAcctLogin_To_read own) same_auth"
proof (rule deliveredI)
  define nonces where "nonces = (if ty = PLAIN_HASH then [] else [Many (bytes32 s), Many (bytes32 c)])"
  define n where "n = 32 + length t + length (content nonces)"
  note f = assms(3) [unfolded holds_wide_def, rule_format]
  show "AuthAcctLogin_To_new conv alloc id1 id2 r name hash ty s c = Inr (pre_send AUTH_ACCT_LOGIN id1 id2 n
      (AuthAcctLogin_To r name hash ty (if ty = PLAIN_HASH then None else Some (s, c))))"
    using assms(1,4) f by (simp add: AuthAcctLogin_To_new_def slice_here n_def nonces_def)
  show "auth_fill conv alloc (AuthAcctLogin_To r name hash ty (if ty = PLAIN_HASH then None else Some (s, c))) =
      Inr ([Many (bytes32 r), Many (bytes32 ty), Many (wide_field t), Many hash] @ nonces)"
    using f by (simp add: AuthAcctLogin_To_fill_def nonces_def)
  show "n = length (content ([Many (bytes32 r), Many (bytes32 ty), Many (wide_field t), Many hash] @ nonces))"
    using assms(1) by (simp add: n_def)
  fix rest
  obtain u where u: "UruString_buf (wide_field t @ hash @ content nonces @ rest) (int n - 8) True True (\<not> own) = Inr u"
    "m_arrival_len u = length t + 4" "same_wide name u"
    by (rule wide_at [OF assms(2) _ assms(3), of "int n - 8" "hash @ content nonces @ rest" "\<not> own"]) (auto simp: n_def)
  show "\<exists>body'. AuthAcctLogin_To_read own (setup_header AUTH_ACCT_LOGIN id1 id2 n @
      content ([Many (bytes32 r), Many (bytes32 ty), Many (wide_field t), Many hash] @ nonces) @ rest) (16 + int n) =
      Inr \<lparr>m_type = AUTH_ACCT_LOGIN, m_header = setup_header AUTH_ACCT_LOGIN id1 id2 n, m_body = body'\<rparr> \<and>
      same_auth (AuthAcctLogin_To r name hash ty (if ty = PLAIN_HASH then None else Some (s, c))) body'"
    using assms(1) u by (cases "ty = PLAIN_HASH")
      (simp_all add: AuthAcctLogin_To_read_def post_receive_def skip add_ac Let_def n_def nonces_def)
qed

lemma second_string_at:
  assumes "c_ok t" and "in_len = int k + int (length t) + 3" and "drop k inbuf = with_null t @ rest"
  obtains u where "second_string own inbuf in_len k = Inr u" "same_text (C_str t) u"
proof -
  obtain u where "UruString_buf (with_null t @ rest) (int (length t) + 3) True False (\<not> own) = Inr u" "same_text (C_str t) u"
    by (rule string_at [OF assms(1), of "int (length t) + 3" rest "\<not> own"]) auto
  with assms(2,3) that show ?thesis by (simp add: second_string_def Let_def)
qed

lemma login_answer_delivered:
  assumes "length uuid = 16" and "c_ok t" and "e = NO_ERROR"
  shows "delivered (AuthAcctLogin_From_new conv alloc id1 id2 r e uuid a (Some (C_str t)) p)
    (\<lambda>_. auth_fill conv alloc) AuthAcctLogin_From_read same_auth"
proof (rule deliveredI)
  define p_info where "p_info = (if p = [] then None else Some p)"
  show "AuthAcctLogin_From_new conv alloc id1 id2 r e uuid a (Some (C_str t)) p =
      Inr (pre_send (AUTH_ACCT_LOGIN OR FROM_SERVER) id1 id2 (31 + length t + length p)
        (AuthAcctLogin_From r e uuid a (Some (C_str t)) p_info))"
    using assms by (simp add: AuthAcctLogin_From_new_def slice_here text_field_c p_info_def)
  show "auth_fill conv alloc (AuthAcctLogin_From r e uuid a (Some (C_str t)) p_info) =
      Inr [Many (bytes32 r), Many (bytes32 e), Many uuid, Many (bytes32 a), Many (with_null t), Many p]"
    using assms by (auto simp: AuthAcctLogin_From_fill_def text_field_c p_info_def)
  fix rest
  obtain u where u: "UruString_buf (with_null t @ p @ rest) (int (length t) + (int (length p) + 3)) True False True = Inr u"
    "m_arrival_len u = length t + 3" "same_text (C_str t) u"
    by (rule string_at [OF assms(2), of "int (length t) + (int (length p) + 3)" "p @ rest" True]) auto
  show "\<exists>body'. AuthAcctLogin_From_read (setup_header (AUTH_ACCT_LOGIN OR FROM_SERVER) id1 id2 (31 + length t + length p) @
      content [Many (bytes32 r), Many (bytes32 e), Many uuid, Many (bytes32 a), Many (with_null t), Many p] @ rest)
      (16 + int (31 + length t + length p)) =
      Inr \<lparr>m_type = AUTH_ACCT_LOGIN OR FROM_SERVER,
             m_header = setup_header (AUTH_ACCT_LOGIN OR FROM_SERVER) id1 id2 (31 + length t + length p), m_body = body'\<rparr> \<and>
      same_auth (AuthAcctLogin_From r e uuid a (Some (C_str t)) p_info) body'"
    using assms u by (cases "p = []")
      (simp_all add: AuthAcctLogin_From_read_def post_receive_def skip add_ac Let_def p_info_def)
qed (use assms in simp)

lemma player_delivered:
  assumes "length uuid = 16" and "c_ok t" and "c_ok g"
  shows "delivered (VaultPlayerCreate_To_new conv alloc id1 id2 r uuid (C_str t) (C_str g))
    (\<lambda>_. auth_fill conv alloc) (VaultPlayerCreate_To_read own) same_auth"
proof (rule deliveredI)
  fix rest
  let ?c = "[Many (bytes32 r), Many uuid, Many (with_null t), Many (with_null g)]"
  let ?b = "setup_header VAULT_PLAYER_CREATE id1 id2 (26 + length t + length g) @ content ?c @ rest"
  obtain u where u: "UruString_buf (with_null t @ with_null g @ rest) (int (length t) + (int (length g) + 6)) True False (\<not> own) = Inr u"
    "m_arrival_len u = length t + 3" "same_text (C_str t) u"
    by (rule string_at [OF assms(2), of "int (length t) + (int (length g) + 6)" "with_null g @ rest" "\<not> own"]) auto
  obtain v where v: "second_string own ?b (42 + (int (length t) + int (length g))) (39 + length t) = Inr v" "same_text (C_str g) v"
    by (rule second_string_at [OF assms(3), of "42 + (int (length t) + int (length g))" "39 + length t" ?b rest own])
      (use assms(1) in auto)
  show "\<exists>body'. VaultPlayerCreate_To_read own ?b (16 + int (26 + length t + length g)) =
      Inr \<lparr>m_type = VAULT_PLAYER_CREATE, m_header = setup_header VAULT_PLAYER_CREATE id1 id2 (26 + length t + length g),
        m_body = body'\<rparr> \<and> same_auth (VaultPlayerCreate_To r uuid (C_str t) (C_str g)) body'"
    using assms u v by (simp add: VaultPlayerCreate_To_read_def post_receive_def skip add_ac)
qed (use assms in \<open>simp_all add: VaultPlayerCreate_To_new_def VaultPlayerCreate_To_fill_def slice_here text_field_c add_ac\<close>)

lemma created_delivered:
  assumes "c_ok t" and "c_ok g" and "e = NO_ERROR"
  shows "delivered (VaultPlayerCreate_From_new conv alloc id1 id2 r e k a (Some (C_str t)) (Some (C_str g)))
    (\<lambda>_. auth_fill conv alloc) (VaultPlayerCreate_From_read own) same_auth"
proof (rule deliveredI)
  fix rest
  let ?c = "[Many (bytes32 r), Many (bytes32 e), Many (bytes32 k), Many (bytes32 a), Many (with_null t), Many (with_null g)]"
  let ?h = "setup_header (VAULT_PLAYER_CREATE OR FROM_SERVER) id1 id2 (22 + length t + length g)"
  let ?b = "?h @ content ?c @ rest"
  obtain u where u: "UruString_buf (with_null t @ with_null g @ rest) (int (length t) + (int (length g) + 6)) True False (\<not> own) = Inr u"
    "m_arrival_len u = length t + 3" "same_text (C_str t) u"
    by (rule string_at [OF assms(1), of "int (length t) + (int (length g) + 6)" "with_null g @ rest" "\<not> own"]) auto
  obtain v where v: "second_string own ?b (38 + (int (length t) + int (length g))) (35 + length t) = Inr v" "same_text (C_str g) v"
    by (rule second_string_at [OF assms(2), of "38 + (int (length t) + int (length g))" "35 + length t" ?b rest own]) auto
  show "\<exists>body'. VaultPlayerCreate_From_read own ?b (16 + int (22 + length t + length g)) =
      Inr \<lparr>m_type = VAULT_PLAYER_CREATE OR FROM_SERVER, m_header = ?h, m_body = body'\<rparr> \<and>
      same_auth (VaultPlayerCreate_From r e k a (Some (C_str t)) (Some (C_str g))) body'"
    using assms u v by (simp add: VaultPlayerCreate_From_read_def post_receive_def skip add_ac)
qed (use assms in \<open>simp_all add: VaultPlayerCreate_From_new_def VaultPlayerCreate_From_fill_def text_field_c add_ac\<close>)

lemma auth_errors_delivered:
  assumes "e \<noteq> NO_ERROR"
  shows "delivered (AuthAcctLogin_From_new conv alloc id1 id2 r e uuid a d p) (\<lambda>_. auth_fill conv alloc) AuthAcctLogin_From_read same_auth"
    and "delivered (VaultPlayerCreate_From_new conv alloc id1 id2 r e k a n g) (\<lambda>_. auth_fill conv alloc)
      (VaultPlayerCreate_From_read own) same_auth"
  using assms by - (rule deliveredI, simp add: AuthAcctLogin_From_new_def, simp add: AuthAcctLogin_From_fill_def, simp,
      simp add: AuthAcctLogin_From_read_def post_receive_def skip,
    rule deliveredI, simp add: VaultPlayerCreate_From_new_def, simp add: VaultPlayerCreate_From_fill_def, simp,
      simp add: VaultPlayerCreate_From_read_def post_receive_def skip)

section \<open>The factory\<close>

text \<open>The cases of \<open>BackendMessage::make_if_enough\<close> for these classes.\<close>

definition auth_make :: "bool \<Rightarrow> u32 \<Rightarrow> byte list \<Rightarrow> int \<Rightarrow> auth_body backend_message res option" where
  "auth_make own ty buf n =
     (if ty = ADMIN_HELLO \<or> ty = ADMIN_HELLO OR FROM_SERVER then Some (Hello_read buf n)
      else if ty = ADMIN_KILL_CLIENT OR FROM_SERVER then Some (KillClient_read buf n)
      else if ty = AUTH_ACCT_LOGIN then Some (AuthAcctLogin_To_read own buf n)
      else if ty = AUTH_ACCT_LOGIN OR FROM_SERVER then Some (AuthAcctLogin_From_read buf n)
      else if ty = AUTH_KI_VALIDATE then Some (AuthKIValidate_To_read buf n)
      else if ty = AUTH_KI_VALIDATE OR FROM_SERVER then Some (AuthKIValidate_From_read buf n)
      else if ty = AUTH_PLAYER_LOGOUT then Some (AuthPlayerLogout_read buf n)
      else if ty = AUTH_CHANGE_PASSWORD then Some (AuthChangePassword_To_read own buf n)
      else if ty = AUTH_CHANGE_PASSWORD OR FROM_SERVER then Some (AuthChangePassword_From_read buf n)
      else if ty = VAULT_PLAYER_CREATE then Some (VaultPlayerCreate_To_read own buf n)
      else if ty = VAULT_PLAYER_CREATE OR FROM_SERVER then Some (VaultPlayerCreate_From_read own buf n)
      else if ty = VAULT_PLAYER_DELETE then Some (VaultPlayerDelete_To_read buf n)
      else if ty = VAULT_PLAYER_DELETE OR FROM_SERVER then Some (VaultPlayerDelete_From_read buf n)
      else None)"

lemmas auth_types = ADMIN_HELLO_def ADMIN_KILL_CLIENT_def AUTH_ACCT_LOGIN_def AUTH_KI_VALIDATE_def AUTH_PLAYER_LOGOUT_def
  AUTH_CHANGE_PASSWORD_def VAULT_PLAYER_CREATE_def VAULT_PLAYER_DELETE_def FROM_SERVER_def

lemma auth_dispatch:
  "auth_make own ADMIN_HELLO = (\<lambda>buf n. Some (Hello_read buf n))"
  "auth_make own (ADMIN_HELLO OR FROM_SERVER) = (\<lambda>buf n. Some (Hello_read buf n))"
  "auth_make own (ADMIN_KILL_CLIENT OR FROM_SERVER) = (\<lambda>buf n. Some (KillClient_read buf n))"
  "auth_make own AUTH_ACCT_LOGIN = (\<lambda>buf n. Some (AuthAcctLogin_To_read own buf n))"
  "auth_make own (AUTH_ACCT_LOGIN OR FROM_SERVER) = (\<lambda>buf n. Some (AuthAcctLogin_From_read buf n))"
  "auth_make own AUTH_KI_VALIDATE = (\<lambda>buf n. Some (AuthKIValidate_To_read buf n))"
  "auth_make own (AUTH_KI_VALIDATE OR FROM_SERVER) = (\<lambda>buf n. Some (AuthKIValidate_From_read buf n))"
  "auth_make own AUTH_PLAYER_LOGOUT = (\<lambda>buf n. Some (AuthPlayerLogout_read buf n))"
  "auth_make own AUTH_CHANGE_PASSWORD = (\<lambda>buf n. Some (AuthChangePassword_To_read own buf n))"
  "auth_make own (AUTH_CHANGE_PASSWORD OR FROM_SERVER) = (\<lambda>buf n. Some (AuthChangePassword_From_read buf n))"
  "auth_make own VAULT_PLAYER_CREATE = (\<lambda>buf n. Some (VaultPlayerCreate_To_read own buf n))"
  "auth_make own (VAULT_PLAYER_CREATE OR FROM_SERVER) = (\<lambda>buf n. Some (VaultPlayerCreate_From_read own buf n))"
  "auth_make own VAULT_PLAYER_DELETE = (\<lambda>buf n. Some (VaultPlayerDelete_To_read buf n))"
  "auth_make own (VAULT_PLAYER_DELETE OR FROM_SERVER) = (\<lambda>buf n. Some (VaultPlayerDelete_From_read buf n))"
  unfolding auth_make_def by (simp_all add: auth_types)

text \<open>The messages that the servers make, with the texts and lengths they have.\<close>

inductive auth_sent :: "iconv \<Rightarrow> (nat \<Rightarrow> byte list) \<Rightarrow> auth_body backend_message \<Rightarrow> bool" for conv alloc where
  hello: "auth_sent conv alloc (Hello_new id1 id2 p s)"
| kill: "why = AUTH_DISCONNECT \<or> k = 0 \<Longrightarrow> auth_sent conv alloc (KillClient_new id1 id2 why k)"
| login: "AuthAcctLogin_To_new conv alloc id1 id2 r name hash ty s c = Inr m \<Longrightarrow> length hash = 20 \<Longrightarrow> wide_ok t \<Longrightarrow>
    holds_wide name t \<Longrightarrow> UruString_copy name True = Inr name \<Longrightarrow> auth_sent conv alloc m"
| login_answer: "AuthAcctLogin_From_new conv alloc id1 id2 r NO_ERROR uuid a (Some (C_str t)) p = Inr m \<Longrightarrow> length uuid = 16 \<Longrightarrow>
    c_ok t \<Longrightarrow> auth_sent conv alloc m"
| login_error: "AuthAcctLogin_From_new conv alloc id1 id2 r e uuid a d p = Inr m \<Longrightarrow> e \<noteq> NO_ERROR \<Longrightarrow> auth_sent conv alloc m"
| ki: "AuthKIValidate_To_new id1 id2 uuid k = Inr m \<Longrightarrow> length uuid = 16 \<Longrightarrow> auth_sent conv alloc m"
| ki_answer: "auth_sent conv alloc (AuthKIValidate_From_new id1 id2 k e)"
| logout: "auth_sent conv alloc (AuthPlayerLogout_new id1 id2 k)"
| password: "AuthChangePassword_To_new conv alloc id1 id2 uuid r (C_str t) hash = Inr m \<Longrightarrow> length uuid = 16 \<Longrightarrow>
    length hash = 20 \<Longrightarrow> c_ok t \<Longrightarrow> auth_sent conv alloc m"
| password_answer: "auth_sent conv alloc (AuthChangePassword_From_new id1 id2 r e)"
| create: "VaultPlayerCreate_To_new conv alloc id1 id2 r uuid (C_str t) (C_str g) = Inr m \<Longrightarrow> length uuid = 16 \<Longrightarrow>
    c_ok t \<Longrightarrow> c_ok g \<Longrightarrow> auth_sent conv alloc m"
| created: "VaultPlayerCreate_From_new conv alloc id1 id2 r NO_ERROR k a (Some (C_str t)) (Some (C_str g)) = Inr m \<Longrightarrow>
    c_ok t \<Longrightarrow> c_ok g \<Longrightarrow> auth_sent conv alloc m"
| create_error: "VaultPlayerCreate_From_new conv alloc id1 id2 r e k a n g = Inr m \<Longrightarrow> e \<noteq> NO_ERROR \<Longrightarrow> auth_sent conv alloc m"
| delete: "auth_sent conv alloc (VaultPlayerDelete_To_new id1 id2 r k)"
| deleted: "auth_sent conv alloc (VaultPlayerDelete_From_new id1 id2 r e)"

lemma auth_new_types:
  "m_type (Hello_new id1 id2 p s) = ADMIN_HELLO OR server_bit (\<not> s)"
  "m_type (KillClient_new id1 id2 why k) = ADMIN_KILL_CLIENT OR FROM_SERVER"
  "AuthAcctLogin_To_new conv alloc id1 id2 r name hash ty sn c = Inr m \<Longrightarrow> m_type m = AUTH_ACCT_LOGIN"
  "AuthAcctLogin_From_new conv alloc id1 id2 r e uuid a d pi = Inr m \<Longrightarrow> m_type m = AUTH_ACCT_LOGIN OR FROM_SERVER"
  "AuthKIValidate_To_new id1 id2 uuid k = Inr m \<Longrightarrow> m_type m = AUTH_KI_VALIDATE"
  "m_type (AuthKIValidate_From_new id1 id2 k e) = AUTH_KI_VALIDATE OR FROM_SERVER"
  "m_type (AuthPlayerLogout_new id1 id2 k) = AUTH_PLAYER_LOGOUT"
  "AuthChangePassword_To_new conv alloc id1 id2 uuid r nm hash = Inr m \<Longrightarrow> m_type m = AUTH_CHANGE_PASSWORD"
  "m_type (AuthChangePassword_From_new id1 id2 r e) = AUTH_CHANGE_PASSWORD OR FROM_SERVER"
  "VaultPlayerCreate_To_new conv alloc id1 id2 r uuid nm g = Inr m \<Longrightarrow> m_type m = VAULT_PLAYER_CREATE"
  "VaultPlayerCreate_From_new conv alloc id1 id2 r e k a d g' = Inr m \<Longrightarrow> m_type m = VAULT_PLAYER_CREATE OR FROM_SERVER"
  "m_type (VaultPlayerDelete_To_new id1 id2 r k) = VAULT_PLAYER_DELETE"
  "m_type (VaultPlayerDelete_From_new id1 id2 r e) = VAULT_PLAYER_DELETE OR FROM_SERVER"
  by (auto simp: Hello_new_def KillClient_new_def AuthAcctLogin_To_new_def AuthAcctLogin_From_new_def AuthKIValidate_To_new_def
      AuthKIValidate_From_new_def AuthPlayerLogout_new_def AuthChangePassword_To_new_def AuthChangePassword_From_new_def
      VaultPlayerCreate_To_new_def VaultPlayerCreate_From_new_def VaultPlayerDelete_To_new_def VaultPlayerDelete_From_new_def
      pre_send_def rbind_eq_Inr split: if_splits)

lemmas auth_made = made_arrives [where mk = "auth_make own" and fill = "\<lambda>_. auth_fill conv alloc" for conv alloc own]

lemma auth_sent_arrives:
  assumes "auth_sent conv alloc m"
  shows "\<exists>read. auth_make own (m_type m) = (\<lambda>buf n. Some (read buf n)) \<and>
    arrives m (auth_fill conv alloc (m_body m)) read same_auth"
  using assms
proof cases
  case (hello id1 id2 p s)
  have "auth_make own (ADMIN_HELLO OR server_bit (\<not> s)) = (\<lambda>buf n. Some (Hello_read buf n))"
    by (cases s) (simp_all add: server_bit_def auth_dispatch)
  then show ?thesis unfolding hello by (rule auth_made [OF auth_fixed_delivered(1) refl auth_new_types(1)])
next
  case (kill why k id1 id2)
  have "delivered (Inr m) (\<lambda>_. auth_fill conv alloc) KillClient_read same_auth"
    using kill(2) auth_fixed_delivered(2) [of id1 id2 k conv alloc] auth_fixed_delivered(3) [of why id1 id2 conv alloc]
    by (cases "why = AUTH_DISCONNECT") (auto simp: kill(1))
  from auth_made [OF this refl _ auth_dispatch(3)] show ?thesis by (simp add: kill auth_new_types)
next
  case (login id1 id2 r name hash ty s c t)
  note d = login_delivered [OF login(2,3,4,5)]
  show ?thesis by (rule auth_made [OF d login(1) auth_new_types(3) [OF login(1)] auth_dispatch(4)])
next
  case (login_answer id1 id2 r uuid a t p)
  note d = login_answer_delivered [OF login_answer(2,3) refl]
  show ?thesis by (rule auth_made [OF d login_answer(1) auth_new_types(4) [OF login_answer(1)] auth_dispatch(5)])
next
  case (login_error id1 id2 r e uuid a d p)
  note d = auth_errors_delivered(1) [OF login_error(2)]
  show ?thesis by (rule auth_made [OF d login_error(1) auth_new_types(4) [OF login_error(1)] auth_dispatch(5)])
next
  case (ki id1 id2 uuid k)
  note d = auth_fixed_delivered(4) [OF ki(2)]
  show ?thesis by (rule auth_made [OF d ki(1) auth_new_types(5) [OF ki(1)] auth_dispatch(6)])
next
  case (ki_answer id1 id2 k e)
  show ?thesis unfolding ki_answer by (rule auth_made [OF auth_fixed_delivered(5) refl auth_new_types(6) auth_dispatch(7)])
next
  case (logout id1 id2 k)
  show ?thesis unfolding logout by (rule auth_made [OF auth_fixed_delivered(6) refl auth_new_types(7) auth_dispatch(8)])
next
  case (password id1 id2 uuid r t hash)
  note d = password_delivered [OF password(2,3,4)]
  show ?thesis by (rule auth_made [OF d password(1) auth_new_types(8) [OF password(1)] auth_dispatch(9)])
next
  case (password_answer id1 id2 r e)
  show ?thesis unfolding password_answer by (rule auth_made [OF auth_fixed_delivered(7) refl auth_new_types(9) auth_dispatch(10)])
next
  case (create id1 id2 r uuid t g)
  note d = player_delivered [OF create(2,3,4)]
  show ?thesis by (rule auth_made [OF d create(1) auth_new_types(10) [OF create(1)] auth_dispatch(11)])
next
  case (created id1 id2 r k a t g)
  note d = created_delivered [OF created(2,3) refl]
  show ?thesis by (rule auth_made [OF d created(1) auth_new_types(11) [OF created(1)] auth_dispatch(12)])
next
  case (create_error id1 id2 r e k a n g)
  note d = auth_errors_delivered(2) [OF create_error(2)]
  show ?thesis by (rule auth_made [OF d create_error(1) auth_new_types(11) [OF create_error(1)] auth_dispatch(12)])
next
  case (delete id1 id2 r k)
  show ?thesis unfolding delete by (rule auth_made [OF auth_fixed_delivered(8) refl auth_new_types(12) auth_dispatch(13)])
next
  case (deleted id1 id2 r e)
  show ?thesis unfolding deleted by (rule auth_made [OF auth_fixed_delivered(9) refl auth_new_types(13) auth_dispatch(14)])
qed

end
