(* ===== verification/Backend_Track.thy ===== *)
theory Backend_Track
  imports Backend_Writer
begin

text \<open>
  The messages of dispatchers, game servers and the gatekeeper with the backend's tracking
  (\<open>BackendMessage.cc\<close>): where a service is, which ages run, who is in them, and what one age sends to
  another.
\<close>

datatype track_body =
    TrackPing
  | TrackDispatcherHello u32
  | TrackDispatcherBye
  | TrackServiceTypes byte byte byte byte u32 u16 "uru_string option" u32 u32
  | TrackFindService_To u32 u32 byte
  | TrackFindService_From u32 u32 byte byte u32 u32 "uru_string option"
  | TrackGameHello "byte list" u32 u32
  | TrackGameBye_To u32
  | TrackGameBye_From
  | TrackGamePlayerInfo u32 byte
  | TrackMsgForward u32 "byte list" bool
  | TrackSDLUpdate u32 u32 u32 u32 u32 "byte list"
  | TrackNextGameID u32 u32
  | TrackAgeRequest_To u32 "byte list" uru_string
  | TrackAgeRequest_From u32 u32 "byte list"
  | TrackStartAge_From "byte list" uru_string
  | TrackStartAge_To "byte list" u32
  | TrackAddPlayer_From u32 "byte list" uru_string
  | TrackAddPlayer_To u32 u32

definition CLASS_TRACK :: u32 where "CLASS_TRACK = 0x8000000"
definition TRACK_PING :: u32 where "TRACK_PING = 0x8000000"
definition TRACK_DISPATCHER_HELLO :: u32 where "TRACK_DISPATCHER_HELLO = 0x8000001"
definition TRACK_DISPATCHER_BYE :: u32 where "TRACK_DISPATCHER_BYE = 0x8000002"
definition TRACK_GAME_HELLO :: u32 where "TRACK_GAME_HELLO = 0x8000003"
definition TRACK_GAME_BYE :: u32 where "TRACK_GAME_BYE = 0x8000004"
definition TRACK_GAME_PLAYERINFO :: u32 where "TRACK_GAME_PLAYERINFO = 0x8000006"
definition TRACK_INTERAGE_FWD :: u32 where "TRACK_INTERAGE_FWD = 0x8000007"
definition TRACK_SDL_UPDATE :: u32 where "TRACK_SDL_UPDATE = 0x8000008"
definition TRACK_NEXT_GAMEID :: u32 where "TRACK_NEXT_GAMEID = 0x8000009"
definition TRACK_FIND_GAME :: u32 where "TRACK_FIND_GAME = 0x8000010"
definition TRACK_START_GAME :: u32 where "TRACK_START_GAME = 0x8000011"
definition TRACK_ADD_PLAYER :: u32 where "TRACK_ADD_PLAYER = 0x8000012"
definition TRACK_SERVICE_TYPES :: u32 where "TRACK_SERVICE_TYPES = 0x8000013"
definition TRACK_FIND_SERVICE :: u32 where "TRACK_FIND_SERVICE = 0x8000014"

abbreviation (input) ST_NONE :: byte where "ST_NONE \<equiv> 0"
abbreviation (input) ST_HOSTNAME :: byte where "ST_HOSTNAME \<equiv> 1"
abbreviation (input) ST_IPADDR :: byte where "ST_IPADDR \<equiv> 2"

definition flag :: "bool \<Rightarrow> byte" where
  "flag b = (if b then 1 else 0)"

section \<open>Pings and the obsolete greetings\<close>

definition TrackPing_new :: "u32 \<Rightarrow> u32 \<Rightarrow> track_body backend_message" where
  "TrackPing_new id1 id2 = pre_send TRACK_PING id1 id2 0 TrackPing"

definition TrackPing_read :: "byte list \<Rightarrow> int \<Rightarrow> track_body backend_message res" where
  "TrackPing_read inbuf in_len = post_receive TRACK_PING inbuf (Inr TrackPing)"

definition TrackDispatcherHello_read :: "byte list \<Rightarrow> int \<Rightarrow> track_body backend_message res" where
  "TrackDispatcherHello_read inbuf in_len =
     post_receive TRACK_DISPATCHER_HELLO inbuf (rbind (read32 inbuf 16) (\<lambda>restrict. Inr (TrackDispatcherHello restrict)))"

definition TrackDispatcherBye_read :: "byte list \<Rightarrow> int \<Rightarrow> track_body backend_message res" where
  "TrackDispatcherBye_read inbuf in_len = post_receive TRACK_DISPATCHER_BYE inbuf (Inr TrackDispatcherBye)"

section \<open>Services\<close>

definition TrackServiceTypes_new_addr ::
  "u32 \<Rightarrow> u32 \<Rightarrow> bool \<Rightarrow> bool \<Rightarrow> bool \<Rightarrow> u32 \<Rightarrow> u16 \<Rightarrow> track_body backend_message" where
  "TrackServiceTypes_new_addr id1 id2 auth file game ip port =
     pre_send TRACK_SERVICE_TYPES id1 id2 (1 + 1 + 1 + 1 + 4 + 2 + 4 + 4)
       (TrackServiceTypes (flag auth) (flag file) (flag game) ST_IPADDR ip port None 0 0)"

definition TrackServiceTypes_new_name ::
  "iconv \<Rightarrow> (nat \<Rightarrow> byte list) \<Rightarrow> u32 \<Rightarrow> u32 \<Rightarrow> bool \<Rightarrow> bool \<Rightarrow> bool \<Rightarrow> byte list \<Rightarrow> u16 \<Rightarrow> track_body backend_message res" where
  "TrackServiceTypes_new_name conv alloc id1 id2 auth file game resolve_address port =
     (let hostname = C_str resolve_address
      in rbind (text_len conv alloc False True hostname) (\<lambda>n.
         Inr (pre_send TRACK_SERVICE_TYPES id1 id2 (1 + 1 + 1 + 1 + n + 2 + 4 + 4)
           (TrackServiceTypes (flag auth) (flag file) (flag game) ST_HOSTNAME 0 port (Some hostname) 0 0))))"

definition TrackServiceTypes_read :: "bool \<Rightarrow> byte list \<Rightarrow> int \<Rightarrow> track_body backend_message res" where
  "TrackServiceTypes_read become_owner inbuf in_len =
     post_receive TRACK_SERVICE_TYPES inbuf
       (rbind (get8 inbuf 16) (\<lambda>auth. rbind (get8 inbuf 17) (\<lambda>file. rbind (get8 inbuf 18) (\<lambda>game. rbind (get8 inbuf 19) (\<lambda>addrtype.
        rbind (if addrtype = ST_HOSTNAME
               then rbind (UruString_buf (drop 20 inbuf) (in_len - 28) True False (\<not> become_owner)) (\<lambda>name.
                    Inr (0, Some name, 20 + m_arrival_len name))
               else rbind (read32 inbuf 20) (\<lambda>address. Inr (address, None, 24))) (\<lambda>(address, hostname, offset).
        rbind (read16 inbuf offset) (\<lambda>port.
        rbind (read32 inbuf (offset + 2)) (\<lambda>pushes.
        rbind (read32 inbuf (offset + 2 + 4)) (\<lambda>restrict.
          Inr (TrackServiceTypes auth file game addrtype address port hostname pushes restrict))))))))))"

definition TrackServiceTypes_fill ::
  "iconv \<Rightarrow> (nat \<Rightarrow> byte list) \<Rightarrow> byte \<Rightarrow> byte \<Rightarrow> byte \<Rightarrow> byte \<Rightarrow> u32 \<Rightarrow> u16 \<Rightarrow> uru_string option \<Rightarrow> u32 \<Rightarrow> u32 \<Rightarrow> chunk list res" where
  "TrackServiceTypes_fill conv alloc auth file game addrtype address port hostname pushes restrict =
     rbind (if addrtype = ST_HOSTNAME
            then (case hostname of None \<Rightarrow> Inr [0, 0] | Some u \<Rightarrow> text_field conv alloc False True u)
            else Inr (bytes32 address)) (\<lambda>addr.
       Inr [One auth, One file, One game, One addrtype, Many addr, Many (bytes16 port), Many (bytes32 pushes), Many (bytes32 restrict)])"

definition TrackFindService_To_new :: "u32 \<Rightarrow> u32 \<Rightarrow> u32 \<Rightarrow> u32 \<Rightarrow> bool \<Rightarrow> track_body backend_message" where
  "TrackFindService_To_new id1 id2 reqid reqid2 want_file =
     pre_send TRACK_FIND_SERVICE id1 id2 9 (TrackFindService_To reqid reqid2 (flag want_file))"

definition TrackFindService_To_read :: "byte list \<Rightarrow> int \<Rightarrow> track_body backend_message res" where
  "TrackFindService_To_read inbuf in_len =
     post_receive TRACK_FIND_SERVICE inbuf
       (rbind (read32 inbuf 16) (\<lambda>reqid. rbind (read32 inbuf 20) (\<lambda>reqid2. rbind (get8 inbuf 24) (\<lambda>want_file.
          Inr (TrackFindService_To reqid reqid2 want_file)))))"

definition TrackFindService_To_fill :: "u32 \<Rightarrow> u32 \<Rightarrow> byte \<Rightarrow> chunk list res" where
  "TrackFindService_To_fill reqid reqid2 want_file = Inr [Many (bytes32 reqid), Many (bytes32 reqid2), One want_file]"

text \<open>\<open>m_port\<close> has 32 bits here, of which the first two bytes are written.\<close>

definition TrackFindService_From_new_addr ::
  "u32 \<Rightarrow> u32 \<Rightarrow> u32 \<Rightarrow> u32 \<Rightarrow> bool \<Rightarrow> u32 \<Rightarrow> u16 \<Rightarrow> track_body backend_message" where
  "TrackFindService_From_new_addr id1 id2 reqid reqid2 is_file ip port =
     pre_send (TRACK_FIND_SERVICE OR FROM_SERVER) id1 id2 (4 + 4 + 1 + 2 + 1 + 4 + 2)
       (TrackFindService_From reqid reqid2 (flag is_file) ST_IPADDR ip (ucast port) None)"

definition TrackFindService_From_new_name ::
  "iconv \<Rightarrow> (nat \<Rightarrow> byte list) \<Rightarrow> u32 \<Rightarrow> u32 \<Rightarrow> u32 \<Rightarrow> u32 \<Rightarrow> bool \<Rightarrow> byte list \<Rightarrow> u16 \<Rightarrow> track_body backend_message res" where
  "TrackFindService_From_new_name conv alloc id1 id2 reqid reqid2 is_file resolve_address port =
     (let hostname = C_str resolve_address
      in rbind (text_len conv alloc False True hostname) (\<lambda>n.
         Inr (pre_send (TRACK_FIND_SERVICE OR FROM_SERVER) id1 id2 (4 + 4 + 1 + 2 + 1 + n + 2)
           (TrackFindService_From reqid reqid2 (flag is_file) ST_HOSTNAME 0 (ucast port) (Some hostname)))))"

definition TrackFindService_From_new_none :: "u32 \<Rightarrow> u32 \<Rightarrow> u32 \<Rightarrow> u32 \<Rightarrow> bool \<Rightarrow> track_body backend_message" where
  "TrackFindService_From_new_none id1 id2 reqid reqid2 is_file =
     pre_send (TRACK_FIND_SERVICE OR FROM_SERVER) id1 id2 (4 + 4 + 1 + 2 + 1 + 4 + 2)
       (TrackFindService_From reqid reqid2 (flag is_file) ST_NONE 0 0 None)"

definition TrackFindService_From_read ::
  "iconv \<Rightarrow> (nat \<Rightarrow> byte list) \<Rightarrow> bool \<Rightarrow> byte list \<Rightarrow> int \<Rightarrow> track_body backend_message res" where
  "TrackFindService_From_read conv alloc become_owner inbuf in_len =
     post_receive (TRACK_FIND_SERVICE OR FROM_SERVER) inbuf
       (rbind (read32 inbuf 16) (\<lambda>reqid. rbind (read32 inbuf 20) (\<lambda>reqid2.
        rbind (get8 inbuf 24) (\<lambda>is_file. rbind (get8 inbuf 27) (\<lambda>addrtype.
        rbind (if addrtype = ST_HOSTNAME
               then rbind (UruString_buf (drop 28 inbuf) (in_len - 28) True False (\<not> become_owner)) (\<lambda>name.
                    rbind (send_len conv alloc name True False True) (\<lambda>(n, name). Inr (0, Some name, n + 28)))
               else rbind (read32 inbuf 28) (\<lambda>address. Inr (address, None, 32))) (\<lambda>(address, hostname, offset).
        rbind (read16 inbuf offset) (\<lambda>port.
          Inr (TrackFindService_From reqid reqid2 is_file addrtype address (ucast port) hostname))))))))"

definition TrackFindService_From_fill ::
  "iconv \<Rightarrow> (nat \<Rightarrow> byte list) \<Rightarrow> u32 \<Rightarrow> u32 \<Rightarrow> byte \<Rightarrow> byte \<Rightarrow> u32 \<Rightarrow> u32 \<Rightarrow> uru_string option \<Rightarrow> chunk list res" where
  "TrackFindService_From_fill conv alloc reqid reqid2 is_file addrtype address port hostname =
     rbind (if addrtype = ST_HOSTNAME
            then (case hostname of None \<Rightarrow> Inr [0, 0] | Some u \<Rightarrow> text_field conv alloc False True u)
            else Inr (bytes32 address)) (\<lambda>addr.
       Inr [Many (bytes32 reqid), Many (bytes32 reqid2), One is_file, Many [0, 0], One addrtype, Many addr,
            Many (take 2 (bytes32 port))])"

section \<open>Game servers\<close>

definition TrackGameHello_new :: "u32 \<Rightarrow> u32 \<Rightarrow> byte list \<Rightarrow> u32 \<Rightarrow> u32 \<Rightarrow> track_body backend_message res" where
  "TrackGameHello_new id1 id2 uuid server_id ip =
     rbind (slice 0 16 uuid) (\<lambda>uuid. Inr (pre_send TRACK_GAME_HELLO id1 id2 (16 + 8) (TrackGameHello uuid server_id ip)))"

definition TrackGameHello_read :: "byte list \<Rightarrow> int \<Rightarrow> track_body backend_message res" where
  "TrackGameHello_read inbuf in_len =
     post_receive TRACK_GAME_HELLO inbuf
       (rbind (slice 16 16 inbuf) (\<lambda>uuid. rbind (read32 inbuf 32) (\<lambda>sid. rbind (read32 inbuf 36) (\<lambda>ip.
          Inr (TrackGameHello uuid sid ip)))))"

definition TrackGameHello_fill :: "byte list \<Rightarrow> u32 \<Rightarrow> u32 \<Rightarrow> chunk list res" where
  "TrackGameHello_fill uuid sid ip = Inr [Many uuid, Many (bytes32 sid), Many (bytes32 ip)]"

definition TrackGameBye_To_new :: "u32 \<Rightarrow> u32 \<Rightarrow> bool \<Rightarrow> track_body backend_message" where
  "TrackGameBye_To_new id1 id2 final = pre_send TRACK_GAME_BYE id1 id2 4 (TrackGameBye_To (if final then 1 else 0))"

definition TrackGameBye_To_read :: "byte list \<Rightarrow> int \<Rightarrow> track_body backend_message res" where
  "TrackGameBye_To_read inbuf in_len =
     post_receive TRACK_GAME_BYE inbuf (rbind (read32 inbuf 16) (\<lambda>final. Inr (TrackGameBye_To final)))"

definition TrackGameBye_To_fill :: "u32 \<Rightarrow> chunk list res" where
  "TrackGameBye_To_fill final = Inr [Many (bytes32 final)]"

definition TrackGameBye_From_new :: "u32 \<Rightarrow> u32 \<Rightarrow> track_body backend_message" where
  "TrackGameBye_From_new id1 id2 = pre_send (TRACK_GAME_BYE OR FROM_SERVER) id1 id2 0 TrackGameBye_From"

definition TrackGameBye_From_read :: "byte list \<Rightarrow> int \<Rightarrow> track_body backend_message res" where
  "TrackGameBye_From_read inbuf in_len = post_receive (TRACK_GAME_BYE OR FROM_SERVER) inbuf (Inr TrackGameBye_From)"

definition TrackGamePlayerInfo_new :: "u32 \<Rightarrow> u32 \<Rightarrow> u32 \<Rightarrow> bool \<Rightarrow> track_body backend_message" where
  "TrackGamePlayerInfo_new id1 id2 kinum present =
     pre_send TRACK_GAME_PLAYERINFO id1 id2 5 (TrackGamePlayerInfo kinum (flag present))"

definition TrackGamePlayerInfo_read :: "byte list \<Rightarrow> int \<Rightarrow> track_body backend_message res" where
  "TrackGamePlayerInfo_read inbuf in_len =
     post_receive TRACK_GAME_PLAYERINFO inbuf
       (rbind (read32 inbuf 16) (\<lambda>kinum. rbind (get8 inbuf 20) (\<lambda>present. Inr (TrackGamePlayerInfo kinum present))))"

definition TrackGamePlayerInfo_fill :: "u32 \<Rightarrow> byte \<Rightarrow> chunk list res" where
  "TrackGamePlayerInfo_fill kinum present = Inr [Many (bytes32 kinum), Many [present]]"

text \<open>
  A message to the players of other ages.  The backend forwards what it received: then \<open>m_msg\<close> is itself
  such a message, and its first 20 bytes are left out.  The last field says whether \<open>m_msg\<close> writes the bytes,
  or they are in \<open>m_buf\<close>.  Without \<open>become_owner\<close>, \<open>m_total_len - 20\<close> bytes are copied.
\<close>

definition TrackMsgForward_new ::
  "u32 \<Rightarrow> u32 \<Rightarrow> u32 \<Rightarrow> byte list \<Rightarrow> u32 \<Rightarrow> track_body backend_message" where
  "TrackMsgForward_new id1 id2 msg_type msg_bytes recips_at =
     (let server = (msg_type AND CLASS_TRACK \<noteq> 0);
          m_msg_offset = (if server then 20 else 0)
      in pre_send (TRACK_INTERAGE_FWD OR server_bit server) id1 id2 (4 + length msg_bytes - m_msg_offset)
           (TrackMsgForward recips_at (drop m_msg_offset msg_bytes) True))"

definition TrackMsgForward_read :: "u32 \<Rightarrow> byte list \<Rightarrow> int \<Rightarrow> track_body backend_message res" where
  "TrackMsgForward_read msg_type inbuf in_len =
     post_receive msg_type inbuf
       (rbind (read32 inbuf 16) (\<lambda>recip_offset.
        rbind (read32 inbuf 0) (\<lambda>total_len.
        let buflen = sint total_len - 20
        in if buflen < 0 then Inl Out_Of_Bounds
           else rbind (slice 20 (nat buflen) inbuf) (\<lambda>bs. Inr (TrackMsgForward recip_offset bs False)))))"

definition TrackMsgForward_fill :: "u32 \<Rightarrow> byte list \<Rightarrow> bool \<Rightarrow> chunk list res" where
  "TrackMsgForward_fill recip_offset bs by_msg = Inr [Many (bytes32 recip_offset), if by_msg then Sub bs else Many bs]"

text \<open>The length of SDL data is taken from the message: it is not compared with the length of the buffer.\<close>

definition TrackSDLUpdate_new ::
  "u32 \<Rightarrow> u32 \<Rightarrow> u32 \<Rightarrow> u32 \<Rightarrow> u32 \<Rightarrow> byte list \<Rightarrow> u32 \<Rightarrow> track_body backend_message" where
  "TrackSDLUpdate_new id1 id2 from_ki from_id1 from_id2 sdl update_type =
     pre_send (TRACK_SDL_UPDATE OR FROM_SERVER) id1 id2 (20 + length sdl)
       (TrackSDLUpdate from_ki from_id1 from_id2 update_type (of_nat (length sdl)) sdl)"

definition TrackSDLUpdate_read :: "byte list \<Rightarrow> int \<Rightarrow> track_body backend_message res" where
  "TrackSDLUpdate_read inbuf in_len =
     post_receive (TRACK_SDL_UPDATE OR FROM_SERVER) inbuf
       (rbind (read32 inbuf 16) (\<lambda>kinum. rbind (read32 inbuf 20) (\<lambda>from1. rbind (read32 inbuf 24) (\<lambda>from2.
        rbind (read32 inbuf 28) (\<lambda>sdl_type. rbind (read32 inbuf 32) (\<lambda>datalen.
        rbind (slice 36 (unat datalen) inbuf) (\<lambda>sdl. Inr (TrackSDLUpdate kinum from1 from2 sdl_type datalen sdl))))))))"

definition TrackSDLUpdate_fill :: "u32 \<Rightarrow> u32 \<Rightarrow> u32 \<Rightarrow> u32 \<Rightarrow> u32 \<Rightarrow> byte list \<Rightarrow> chunk list res" where
  "TrackSDLUpdate_fill kinum from1 from2 sdl_type datalen sdl =
     Inr [Many (bytes32 kinum), Many (bytes32 from1), Many (bytes32 from2), Many (bytes32 sdl_type), Many (bytes32 datalen), Many sdl]"

definition TrackNextGameID_new :: "u32 \<Rightarrow> u32 \<Rightarrow> bool \<Rightarrow> u32 \<Rightarrow> u32 \<Rightarrow> track_body backend_message" where
  "TrackNextGameID_new id1 id2 server howmany start =
     pre_send (TRACK_NEXT_GAMEID OR server_bit server) id1 id2 (if server then 8 else 4) (TrackNextGameID howmany start)"

definition TrackNextGameID_read :: "u32 \<Rightarrow> byte list \<Rightarrow> int \<Rightarrow> track_body backend_message res" where
  "TrackNextGameID_read msg_type inbuf in_len =
     post_receive msg_type inbuf
       (rbind (read32 inbuf 16) (\<lambda>number.
        rbind (if msg_type AND FROM_SERVER \<noteq> 0 then read32 inbuf 20 else Inr 0) (\<lambda>start. Inr (TrackNextGameID number start))))"

definition TrackNextGameID_fill :: "u32 \<Rightarrow> u32 \<Rightarrow> u32 \<Rightarrow> chunk list res" where
  "TrackNextGameID_fill ty number start =
     Inr (Many (bytes32 number) # (if ty AND FROM_SERVER \<noteq> 0 then [Many (bytes32 start)] else []))"

section \<open>Ages\<close>

definition TrackAgeRequest_To_new ::
  "iconv \<Rightarrow> (nat \<Rightarrow> byte list) \<Rightarrow> u32 \<Rightarrow> u32 \<Rightarrow> u32 \<Rightarrow> uru_string \<Rightarrow> byte list \<Rightarrow> track_body backend_message res" where
  "TrackAgeRequest_To_new conv alloc id1 id2 reqid agename ageuuid =
     rbind (UruString_copy agename True) (\<lambda>filename.
     rbind (slice 0 16 ageuuid) (\<lambda>uuid.
     rbind (text_len conv alloc False True filename) (\<lambda>n.
       Inr (pre_send TRACK_FIND_GAME id1 id2 (4 + 16 + n) (TrackAgeRequest_To reqid uuid filename)))))"

definition TrackAgeRequest_To_read :: "byte list \<Rightarrow> int \<Rightarrow> track_body backend_message res" where
  "TrackAgeRequest_To_read inbuf in_len =
     post_receive TRACK_FIND_GAME inbuf
       (rbind (read32 inbuf 16) (\<lambda>reqid. rbind (slice 20 16 inbuf) (\<lambda>uuid.
        rbind (UruString_buf (drop 36 inbuf) (in_len - 36) True False True) (\<lambda>filename.
          Inr (TrackAgeRequest_To reqid uuid filename)))))"

definition TrackAgeRequest_To_fill ::
  "iconv \<Rightarrow> (nat \<Rightarrow> byte list) \<Rightarrow> u32 \<Rightarrow> byte list \<Rightarrow> uru_string \<Rightarrow> chunk list res" where
  "TrackAgeRequest_To_fill conv alloc reqid uuid filename =
     rbind (text_field conv alloc False True filename) (\<lambda>text. Inr [Many (bytes32 reqid), Many uuid, Many text])"

definition TrackAgeRequest_From_new ::
  "u32 \<Rightarrow> u32 \<Rightarrow> u32 \<Rightarrow> u32 \<Rightarrow> byte list option \<Rightarrow> u32 \<Rightarrow> u32 \<Rightarrow> u32 \<Rightarrow> track_body backend_message res" where
  "TrackAgeRequest_From_new id1 id2 reqid result uuid server_id age_node ip =
     rbind (case uuid of None \<Rightarrow> Inr (replicate 16 0) | Some u \<Rightarrow> slice 0 16 u) (\<lambda>uuid.
       Inr (pre_send (TRACK_FIND_GAME OR FROM_SERVER) id1 id2 (20 + 16)
         (TrackAgeRequest_From reqid result (bytes32 server_id @ uuid @ bytes32 age_node @ bytes32 ip))))"

definition TrackAgeRequest_From_read :: "byte list \<Rightarrow> int \<Rightarrow> track_body backend_message res" where
  "TrackAgeRequest_From_read inbuf in_len =
     post_receive (TRACK_FIND_GAME OR FROM_SERVER) inbuf
       (rbind (read32 inbuf 16) (\<lambda>reqid. rbind (read32 inbuf 20) (\<lambda>result. rbind (slice 24 28 inbuf) (\<lambda>body.
          Inr (TrackAgeRequest_From reqid result body)))))"

definition TrackAgeRequest_From_fill :: "u32 \<Rightarrow> u32 \<Rightarrow> byte list \<Rightarrow> chunk list res" where
  "TrackAgeRequest_From_fill reqid result body = Inr [Many (bytes32 reqid), Many (bytes32 result), Many body]"

definition TrackStartAge_From_new ::
  "iconv \<Rightarrow> (nat \<Rightarrow> byte list) \<Rightarrow> u32 \<Rightarrow> u32 \<Rightarrow> uru_string \<Rightarrow> byte list \<Rightarrow> track_body backend_message res" where
  "TrackStartAge_From_new conv alloc id1 id2 agename ageuuid =
     rbind (slice 0 16 ageuuid) (\<lambda>uuid.
     rbind (text_len conv alloc False True agename) (\<lambda>n.
       Inr (pre_send (TRACK_START_GAME OR FROM_SERVER) id1 id2 (16 + n) (TrackStartAge_From uuid agename))))"

definition TrackStartAge_From_read :: "byte list \<Rightarrow> int \<Rightarrow> track_body backend_message res" where
  "TrackStartAge_From_read inbuf in_len =
     post_receive (TRACK_START_GAME OR FROM_SERVER) inbuf
       (rbind (slice 16 16 inbuf) (\<lambda>uuid.
        rbind (UruString_buf (drop 32 inbuf) (in_len - 32) True False True) (\<lambda>filename. Inr (TrackStartAge_From uuid filename))))"

definition TrackStartAge_From_fill :: "iconv \<Rightarrow> (nat \<Rightarrow> byte list) \<Rightarrow> byte list \<Rightarrow> uru_string \<Rightarrow> chunk list res" where
  "TrackStartAge_From_fill conv alloc uuid filename =
     rbind (text_field conv alloc False True filename) (\<lambda>text. Inr [Many uuid, Many text])"

definition TrackStartAge_To_new :: "u32 \<Rightarrow> u32 \<Rightarrow> byte list \<Rightarrow> u32 \<Rightarrow> track_body backend_message res" where
  "TrackStartAge_To_new id1 id2 ageuuid p =
     rbind (slice 0 16 ageuuid) (\<lambda>uuid. Inr (pre_send TRACK_START_GAME id1 id2 (4 + 16) (TrackStartAge_To uuid p)))"

definition TrackStartAge_To_read :: "byte list \<Rightarrow> int \<Rightarrow> track_body backend_message res" where
  "TrackStartAge_To_read inbuf in_len =
     post_receive TRACK_START_GAME inbuf
       (rbind (read32 inbuf 16) (\<lambda>p. rbind (slice 20 16 inbuf) (\<lambda>uuid. Inr (TrackStartAge_To uuid p))))"

definition TrackStartAge_To_fill :: "byte list \<Rightarrow> u32 \<Rightarrow> chunk list res" where
  "TrackStartAge_To_fill uuid p = Inr [Many (bytes32 p), Many uuid]"

definition TrackAddPlayer_From_new ::
  "iconv \<Rightarrow> (nat \<Rightarrow> byte list) \<Rightarrow> u32 \<Rightarrow> u32 \<Rightarrow> u32 \<Rightarrow> uru_string \<Rightarrow> byte list \<Rightarrow> track_body backend_message res" where
  "TrackAddPlayer_From_new conv alloc id1 id2 kinum player_name uuid =
     rbind (slice 0 16 uuid) (\<lambda>uuid.
     rbind (UruString_copy player_name True) (\<lambda>name.
     rbind (text_len conv alloc False True name) (\<lambda>n.
       Inr (pre_send (TRACK_ADD_PLAYER OR FROM_SERVER) id1 id2 (4 + 16 + n) (TrackAddPlayer_From kinum uuid name)))))"

definition TrackAddPlayer_From_read :: "byte list \<Rightarrow> int \<Rightarrow> track_body backend_message res" where
  "TrackAddPlayer_From_read inbuf in_len =
     post_receive (TRACK_ADD_PLAYER OR FROM_SERVER) inbuf
       (rbind (read32 inbuf 16) (\<lambda>kinum. rbind (slice 20 16 inbuf) (\<lambda>uuid.
        rbind (UruString_buf (drop 36 inbuf) (in_len - 36) True False True) (\<lambda>name. Inr (TrackAddPlayer_From kinum uuid name)))))"

definition TrackAddPlayer_From_fill ::
  "iconv \<Rightarrow> (nat \<Rightarrow> byte list) \<Rightarrow> u32 \<Rightarrow> byte list \<Rightarrow> uru_string \<Rightarrow> chunk list res" where
  "TrackAddPlayer_From_fill conv alloc kinum uuid name =
     rbind (text_field conv alloc False True name) (\<lambda>text. Inr [Many (bytes32 kinum), Many uuid, Many text])"

definition TrackAddPlayer_To_new :: "u32 \<Rightarrow> u32 \<Rightarrow> u32 \<Rightarrow> u32 \<Rightarrow> track_body backend_message" where
  "TrackAddPlayer_To_new id1 id2 kinum result = pre_send TRACK_ADD_PLAYER id1 id2 8 (TrackAddPlayer_To kinum result)"

definition TrackAddPlayer_To_read :: "byte list \<Rightarrow> int \<Rightarrow> track_body backend_message res" where
  "TrackAddPlayer_To_read inbuf in_len =
     post_receive TRACK_ADD_PLAYER inbuf
       (rbind (read32 inbuf 16) (\<lambda>kinum. rbind (read32 inbuf 20) (\<lambda>result. Inr (TrackAddPlayer_To kinum result))))"

definition TrackAddPlayer_To_fill :: "u32 \<Rightarrow> u32 \<Rightarrow> chunk list res" where
  "TrackAddPlayer_To_fill kinum result = Inr [Many (bytes32 kinum), Many (bytes32 result)]"

text \<open>The virtual function; classes without their own write nothing.\<close>

fun track_fill :: "iconv \<Rightarrow> (nat \<Rightarrow> byte list) \<Rightarrow> u32 \<Rightarrow> track_body \<Rightarrow> chunk list res" where
  "track_fill conv alloc ty TrackPing = Inr []"
| "track_fill conv alloc ty (TrackDispatcherHello r) = Inr []"
| "track_fill conv alloc ty TrackDispatcherBye = Inr []"
| "track_fill conv alloc ty (TrackServiceTypes a f g t ip p h pu r) = TrackServiceTypes_fill conv alloc a f g t ip p h pu r"
| "track_fill conv alloc ty (TrackFindService_To r r2 w) = TrackFindService_To_fill r r2 w"
| "track_fill conv alloc ty (TrackFindService_From r r2 f t ip p h) = TrackFindService_From_fill conv alloc r r2 f t ip p h"
| "track_fill conv alloc ty (TrackGameHello u s ip) = TrackGameHello_fill u s ip"
| "track_fill conv alloc ty (TrackGameBye_To f) = TrackGameBye_To_fill f"
| "track_fill conv alloc ty TrackGameBye_From = Inr []"
| "track_fill conv alloc ty (TrackGamePlayerInfo k p) = TrackGamePlayerInfo_fill k p"
| "track_fill conv alloc ty (TrackMsgForward r bs m) = TrackMsgForward_fill r bs m"
| "track_fill conv alloc ty (TrackSDLUpdate k f1 f2 t l sdl) = TrackSDLUpdate_fill k f1 f2 t l sdl"
| "track_fill conv alloc ty (TrackNextGameID n s) = TrackNextGameID_fill ty n s"
| "track_fill conv alloc ty (TrackAgeRequest_To r u f) = TrackAgeRequest_To_fill conv alloc r u f"
| "track_fill conv alloc ty (TrackAgeRequest_From r e b) = TrackAgeRequest_From_fill r e b"
| "track_fill conv alloc ty (TrackStartAge_From u f) = TrackStartAge_From_fill conv alloc u f"
| "track_fill conv alloc ty (TrackStartAge_To u p) = TrackStartAge_To_fill u p"
| "track_fill conv alloc ty (TrackAddPlayer_From k u n) = TrackAddPlayer_From_fill conv alloc k u n"
| "track_fill conv alloc ty (TrackAddPlayer_To k e) = TrackAddPlayer_To_fill k e"

section \<open>What is sent arrives\<close>

text \<open>A forwarded message is in the buffer of the receiver.\<close>

fun same_track :: "track_body \<Rightarrow> track_body \<Rightarrow> bool" where
  "same_track (TrackServiceTypes a f g t ip p h pu r) b =
     (\<exists>h'. b = TrackServiceTypes a f g t ip p h' pu r \<and> same_option same_text h h')"
| "same_track (TrackFindService_From r r2 f t ip p h) b =
     (\<exists>h'. b = TrackFindService_From r r2 f t ip p h' \<and> same_option same_text h h')"
| "same_track (TrackMsgForward r bs m) b = (b = TrackMsgForward r bs False)"
| "same_track (TrackAgeRequest_To r u n) b = (\<exists>n'. b = TrackAgeRequest_To r u n' \<and> same_text n n')"
| "same_track (TrackStartAge_From u n) b = (\<exists>n'. b = TrackStartAge_From u n' \<and> same_text n n')"
| "same_track (TrackAddPlayer_From k u n) b = (\<exists>n'. b = TrackAddPlayer_From k u n' \<and> same_text n n')"
| "same_track b b' = (b' = b)"

lemma wide_port: "ucast (ucast (p :: u16) :: u32) = p" "take 2 (bytes32 (ucast p)) = bytes16 p"
proof -
  show "ucast (ucast p :: u32) = p" by (rule bit_word_eqI) (simp add: bit_simps)
  show "take 2 (bytes32 (ucast p)) = bytes16 p"
    unfolding bytes32_def bytes16_def by (auto intro!: bit_word_eqI simp: bit_simps)
qed

lemma no_port: "take 2 (bytes32 0) = bytes16 0"
  using wide_port(2) [of 0] by simp

lemmas track_fixed = TrackPing_new_def TrackPing_read_def TrackServiceTypes_new_addr_def TrackServiceTypes_read_def
  TrackServiceTypes_fill_def TrackFindService_To_new_def TrackFindService_To_read_def TrackFindService_To_fill_def
  TrackFindService_From_new_addr_def TrackFindService_From_new_none_def TrackFindService_From_read_def
  TrackFindService_From_fill_def TrackGameHello_new_def TrackGameHello_read_def TrackGameHello_fill_def
  TrackGameBye_To_new_def TrackGameBye_To_read_def TrackGameBye_To_fill_def TrackGameBye_From_new_def
  TrackGameBye_From_read_def TrackGamePlayerInfo_new_def TrackGamePlayerInfo_read_def TrackGamePlayerInfo_fill_def
  TrackNextGameID_new_def TrackNextGameID_read_def TrackNextGameID_fill_def
  TrackAgeRequest_From_new_def TrackAgeRequest_From_read_def TrackAgeRequest_From_fill_def
  TrackStartAge_To_new_def TrackStartAge_To_read_def TrackStartAge_To_fill_def
  TrackAddPlayer_To_new_def TrackAddPlayer_To_read_def TrackAddPlayer_To_fill_def

lemma track_types: "TRACK_NEXT_GAMEID AND FROM_SERVER = 0" "(TRACK_NEXT_GAMEID OR FROM_SERVER) AND FROM_SERVER = FROM_SERVER"
  "FROM_SERVER \<noteq> 0"
  by (simp_all add: TRACK_NEXT_GAMEID_def FROM_SERVER_def)

lemma track_fixed_delivered:
  "delivered (Inr (TrackPing_new id1 id2)) (track_fill conv alloc) TrackPing_read same_track"
  "delivered (Inr (TrackServiceTypes_new_addr id1 id2 a f g ip p)) (track_fill conv alloc) (TrackServiceTypes_read own) same_track"
  "delivered (Inr (TrackFindService_To_new id1 id2 r r2 w)) (track_fill conv alloc) TrackFindService_To_read same_track"
  "delivered (Inr (TrackFindService_From_new_addr id1 id2 r r2 f ip p)) (track_fill conv alloc)
    (TrackFindService_From_read conv alloc own) same_track"
  "delivered (Inr (TrackFindService_From_new_none id1 id2 r r2 f)) (track_fill conv alloc)
    (TrackFindService_From_read conv alloc own) same_track"
  "length uuid = 16 \<Longrightarrow> delivered (TrackGameHello_new id1 id2 uuid s ip) (track_fill conv alloc) TrackGameHello_read same_track"
  "delivered (Inr (TrackGameBye_To_new id1 id2 final)) (track_fill conv alloc) TrackGameBye_To_read same_track"
  "delivered (Inr (TrackGameBye_From_new id1 id2)) (track_fill conv alloc) TrackGameBye_From_read same_track"
  "delivered (Inr (TrackGamePlayerInfo_new id1 id2 k b)) (track_fill conv alloc) TrackGamePlayerInfo_read same_track"
  "delivered (Inr (TrackNextGameID_new id1 id2 True n st)) (track_fill conv alloc)
    (TrackNextGameID_read (TRACK_NEXT_GAMEID OR FROM_SERVER)) same_track"
  "delivered (Inr (TrackNextGameID_new id1 id2 False n 0)) (track_fill conv alloc)
    (TrackNextGameID_read TRACK_NEXT_GAMEID) same_track"
  "length uuid = 16 \<Longrightarrow> delivered (TrackStartAge_To_new id1 id2 uuid pr) (track_fill conv alloc) TrackStartAge_To_read same_track"
  "delivered (Inr (TrackAddPlayer_To_new id1 id2 k e)) (track_fill conv alloc) TrackAddPlayer_To_read same_track"
  by (rule deliveredI, simp add: track_fixed slice_here server_bit_def, simp add: track_fixed track_types wide_port no_port, simp,
      simp add: track_fixed post_receive_def skip track_types wide_port no_port)+

lemma age_answer_delivered:
  "length uuid = 16 \<Longrightarrow> delivered (TrackAgeRequest_From_new id1 id2 r e (Some uuid) s n ip) (track_fill conv alloc)
    TrackAgeRequest_From_read same_track"
  "delivered (TrackAgeRequest_From_new id1 id2 r e None s n ip) (track_fill conv alloc) TrackAgeRequest_From_read same_track"
  by (rule deliveredI, simp add: track_fixed slice_here, simp add: track_fixed, simp,
      simp add: track_fixed post_receive_def skip slice_def)+

lemma sint_small: "n < 2 ^ 31 \<Longrightarrow> sint (word_of_nat n :: u32) = int n"
  by (simp add: signed_of_nat signed_take_bit_int_eq_self)

lemma forward_delivered:
  assumes "length bs < 2 ^ 30" and "ty AND CLASS_TRACK \<noteq> 0 \<longrightarrow> 20 \<le> length bs"
  shows "delivered (Inr (TrackMsgForward_new id1 id2 ty bs at)) (track_fill conv alloc)
    (TrackMsgForward_read (TRACK_INTERAGE_FWD OR server_bit (ty AND CLASS_TRACK \<noteq> 0))) same_track"
proof (rule deliveredI)
  let ?o = "if ty AND CLASS_TRACK \<noteq> 0 then 20 else 0"
  let ?n = "4 + length bs - ?o" and ?t = "TRACK_INTERAGE_FWD OR server_bit (ty AND CLASS_TRACK \<noteq> 0)"
  show "Inr (TrackMsgForward_new id1 id2 ty bs at) = Inr (pre_send ?t id1 id2 ?n (TrackMsgForward at (drop ?o bs) True))"
    by (simp add: TrackMsgForward_new_def Let_def)
  show "track_fill conv alloc ?t (TrackMsgForward at (drop ?o bs) True) = Inr [Many (bytes32 at), Sub (drop ?o bs)]"
    by (simp add: TrackMsgForward_fill_def)
  show n: "?n = length (content [Many (bytes32 at), Sub (drop ?o bs)])" using assms(2) by simp
  fix rest
  have s: "sint (word_of_nat (?n + 16) :: u32) = int (length (drop ?o bs)) + 20"
    using assms(2) sint_small [of "length (drop ?o bs) + 20"] assms(1) by (auto simp: add.commute)
  show "\<exists>body'. TrackMsgForward_read ?t (setup_header ?t id1 id2 ?n @ content [Many (bytes32 at), Sub (drop ?o bs)] @ rest)
      (16 + int ?n) = Inr \<lparr>m_type = ?t, m_header = setup_header ?t id1 id2 ?n, m_body = body'\<rparr> \<and>
      same_track (TrackMsgForward at (drop ?o bs) True) body'"
    using s by (simp add: TrackMsgForward_read_def post_receive_def skip Let_def header_length del: length_drop)
qed

lemma sdl_delivered:
  assumes "length sdl < 2 ^ 32"
  shows "delivered (Inr (TrackSDLUpdate_new id1 id2 k f1 f2 sdl t)) (track_fill conv alloc) TrackSDLUpdate_read same_track"
  by (rule deliveredI, simp add: TrackSDLUpdate_new_def, simp add: TrackSDLUpdate_fill_def, simp,
      use assms in \<open>simp add: TrackSDLUpdate_read_def post_receive_def skip unat_of_nat\<close>)

lemma age_request_delivered:
  assumes "length uuid = 16" and "c_ok t"
  shows "delivered (TrackAgeRequest_To_new conv alloc id1 id2 r (C_str t) uuid) (track_fill conv alloc) TrackAgeRequest_To_read same_track"
proof (rule deliveredI)
  fix rest
  obtain u where u: "UruString_buf (with_null t @ rest) (int (length t) + 3) True False True = Inr u" "same_text (C_str t) u"
    by (rule string_at [OF assms(2), of "int (length t) + 3" rest True]) auto
  show "\<exists>body'. TrackAgeRequest_To_read (setup_header TRACK_FIND_GAME id1 id2 (23 + length t) @
      content [Many (bytes32 r), Many uuid, Many (with_null t)] @ rest) (16 + int (23 + length t)) =
      Inr \<lparr>m_type = TRACK_FIND_GAME, m_header = setup_header TRACK_FIND_GAME id1 id2 (23 + length t), m_body = body'\<rparr> \<and>
      same_track (TrackAgeRequest_To r uuid (C_str t)) body'"
    using assms u by (simp add: TrackAgeRequest_To_read_def post_receive_def skip add_ac)
qed (use assms in \<open>simp_all add: TrackAgeRequest_To_new_def TrackAgeRequest_To_fill_def slice_here text_field_c\<close>)

lemma start_age_delivered:
  assumes "length uuid = 16" and "c_ok t"
  shows "delivered (TrackStartAge_From_new conv alloc id1 id2 (C_str t) uuid) (track_fill conv alloc) TrackStartAge_From_read same_track"
proof (rule deliveredI)
  fix rest
  let ?h = "setup_header (TRACK_START_GAME OR FROM_SERVER) id1 id2 (19 + length t)"
  obtain u where u: "UruString_buf (with_null t @ rest) (int (length t) + 3) True False True = Inr u" "same_text (C_str t) u"
    by (rule string_at [OF assms(2), of "int (length t) + 3" rest True]) auto
  show "\<exists>body'. TrackStartAge_From_read (?h @ content [Many uuid, Many (with_null t)] @ rest) (16 + int (19 + length t)) =
      Inr \<lparr>m_type = TRACK_START_GAME OR FROM_SERVER, m_header = ?h, m_body = body'\<rparr> \<and>
      same_track (TrackStartAge_From uuid (C_str t)) body'"
    using assms u by (simp add: TrackStartAge_From_read_def post_receive_def skip add_ac)
qed (use assms in \<open>simp_all add: TrackStartAge_From_new_def TrackStartAge_From_fill_def slice_here text_field_c\<close>)

lemma add_player_delivered:
  assumes "length uuid = 16" and "c_ok t"
  shows "delivered (TrackAddPlayer_From_new conv alloc id1 id2 k (C_str t) uuid) (track_fill conv alloc) TrackAddPlayer_From_read same_track"
proof (rule deliveredI)
  fix rest
  let ?h = "setup_header (TRACK_ADD_PLAYER OR FROM_SERVER) id1 id2 (23 + length t)"
  obtain u where u: "UruString_buf (with_null t @ rest) (int (length t) + 3) True False True = Inr u" "same_text (C_str t) u"
    by (rule string_at [OF assms(2), of "int (length t) + 3" rest True]) auto
  show "\<exists>body'. TrackAddPlayer_From_read (?h @ content [Many (bytes32 k), Many uuid, Many (with_null t)] @ rest)
      (16 + int (23 + length t)) =
      Inr \<lparr>m_type = TRACK_ADD_PLAYER OR FROM_SERVER, m_header = ?h, m_body = body'\<rparr> \<and>
      same_track (TrackAddPlayer_From k uuid (C_str t)) body'"
    using assms u by (simp add: TrackAddPlayer_From_read_def post_receive_def skip add_ac)
qed (use assms in \<open>simp_all add: TrackAddPlayer_From_new_def TrackAddPlayer_From_fill_def slice_here text_field_c\<close>)

lemma service_name_delivered:
  assumes "c_ok t"
  shows "delivered (TrackServiceTypes_new_name conv alloc id1 id2 a f g t p) (track_fill conv alloc)
    (TrackServiceTypes_read own) same_track"
proof (rule deliveredI)
  fix rest
  let ?c = "[One (flag a), One (flag f), One (flag g), One ST_HOSTNAME, Many (with_null t), Many (bytes16 p), Many (bytes32 0), Many (bytes32 0)]"
  obtain u where u: "UruString_buf (with_null t @ bytes16 p @ bytes32 0 @ bytes32 0 @ rest) (int (length t) + 5) True False (\<not> own) = Inr u"
    "m_arrival_len u = length t + 3" "same_text (C_str t) u"
    by (rule string_at [OF assms(1), of "int (length t) + 5" "bytes16 p @ bytes32 0 @ bytes32 0 @ rest" "\<not> own"]) auto
  show "\<exists>body'. TrackServiceTypes_read own (setup_header TRACK_SERVICE_TYPES id1 id2 (17 + length t) @ content ?c @ rest)
      (16 + int (17 + length t)) =
      Inr \<lparr>m_type = TRACK_SERVICE_TYPES, m_header = setup_header TRACK_SERVICE_TYPES id1 id2 (17 + length t), m_body = body'\<rparr> \<and>
      same_track (TrackServiceTypes (flag a) (flag f) (flag g) ST_HOSTNAME 0 p (Some (C_str t)) 0 0) body'"
    using u by (simp add: TrackServiceTypes_read_def post_receive_def skip add_ac)
qed (simp_all add: TrackServiceTypes_new_name_def TrackServiceTypes_fill_def text_field_c)

lemma find_name_delivered:
  assumes "c_ok t"
  shows "delivered (TrackFindService_From_new_name conv alloc id1 id2 r r2 f t p) (track_fill conv alloc)
    (TrackFindService_From_read conv alloc own) same_track"
proof (rule deliveredI)
  fix rest
  let ?c = "[Many (bytes32 r), Many (bytes32 r2), One (flag f), Many [0, 0], One ST_HOSTNAME, Many (with_null t), Many (bytes16 p)]"
  let ?h = "setup_header (TRACK_FIND_SERVICE OR FROM_SERVER) id1 id2 (17 + length t)"
  obtain u where u: "UruString_buf (with_null t @ bytes16 p @ rest) (int (length t) + 5) True False (\<not> own) = Inr u" "same_text (C_str t) u"
    by (rule string_at [OF assms(1), of "int (length t) + 5" "bytes16 p @ rest" "\<not> own"]) auto
  have l: "send_len conv alloc u True False True = Inr (length t + 3, u)"
    by (rule read_c_len [OF assms _ u(1)]) simp
  show "\<exists>body'. TrackFindService_From_read conv alloc own (?h @ content ?c @ rest) (16 + int (17 + length t)) =
      Inr \<lparr>m_type = TRACK_FIND_SERVICE OR FROM_SERVER, m_header = ?h, m_body = body'\<rparr> \<and>
      same_track (TrackFindService_From r r2 (flag f) ST_HOSTNAME 0 (ucast p) (Some (C_str t))) body'"
    using u l by (simp add: TrackFindService_From_read_def post_receive_def skip add_ac)
qed (simp_all add: TrackFindService_From_new_name_def TrackFindService_From_fill_def text_field_c wide_port)

section \<open>The factory\<close>

text \<open>The cases of \<open>BackendMessage::make_if_enough\<close> for these classes.\<close>

definition track_make ::
  "iconv \<Rightarrow> (nat \<Rightarrow> byte list) \<Rightarrow> bool \<Rightarrow> u32 \<Rightarrow> byte list \<Rightarrow> int \<Rightarrow> track_body backend_message res option" where
  "track_make conv alloc own ty buf n =
     (if ty = TRACK_PING then Some (TrackPing_read buf n)
      else if ty = TRACK_DISPATCHER_HELLO then Some (TrackDispatcherHello_read buf n)
      else if ty = TRACK_DISPATCHER_BYE then Some (TrackDispatcherBye_read buf n)
      else if ty = TRACK_SERVICE_TYPES then Some (TrackServiceTypes_read own buf n)
      else if ty = TRACK_FIND_SERVICE then Some (TrackFindService_To_read buf n)
      else if ty = TRACK_FIND_SERVICE OR FROM_SERVER then Some (TrackFindService_From_read conv alloc own buf n)
      else if ty = TRACK_GAME_HELLO then Some (TrackGameHello_read buf n)
      else if ty = TRACK_GAME_BYE then Some (TrackGameBye_To_read buf n)
      else if ty = TRACK_GAME_BYE OR FROM_SERVER then Some (TrackGameBye_From_read buf n)
      else if ty = TRACK_GAME_PLAYERINFO then Some (TrackGamePlayerInfo_read buf n)
      else if ty = TRACK_FIND_GAME then Some (TrackAgeRequest_To_read buf n)
      else if ty = TRACK_FIND_GAME OR FROM_SERVER then Some (TrackAgeRequest_From_read buf n)
      else if ty = TRACK_INTERAGE_FWD \<or> ty = TRACK_INTERAGE_FWD OR FROM_SERVER then Some (TrackMsgForward_read ty buf n)
      else if ty = TRACK_SDL_UPDATE OR FROM_SERVER then Some (TrackSDLUpdate_read buf n)
      else if ty = TRACK_NEXT_GAMEID \<or> ty = TRACK_NEXT_GAMEID OR FROM_SERVER then Some (TrackNextGameID_read ty buf n)
      else if ty = TRACK_START_GAME OR FROM_SERVER then Some (TrackStartAge_From_read buf n)
      else if ty = TRACK_START_GAME then Some (TrackStartAge_To_read buf n)
      else if ty = TRACK_ADD_PLAYER OR FROM_SERVER then Some (TrackAddPlayer_From_read buf n)
      else if ty = TRACK_ADD_PLAYER then Some (TrackAddPlayer_To_read buf n)
      else None)"

lemmas track_codes = TRACK_PING_def TRACK_DISPATCHER_HELLO_def TRACK_DISPATCHER_BYE_def TRACK_GAME_HELLO_def TRACK_GAME_BYE_def
  TRACK_GAME_PLAYERINFO_def TRACK_INTERAGE_FWD_def TRACK_SDL_UPDATE_def TRACK_NEXT_GAMEID_def TRACK_FIND_GAME_def
  TRACK_START_GAME_def TRACK_ADD_PLAYER_def TRACK_SERVICE_TYPES_def TRACK_FIND_SERVICE_def FROM_SERVER_def

lemma track_dispatch:
  "track_make conv alloc own TRACK_PING = (\<lambda>buf n. Some (TrackPing_read buf n))"
  "track_make conv alloc own TRACK_SERVICE_TYPES = (\<lambda>buf n. Some (TrackServiceTypes_read own buf n))"
  "track_make conv alloc own TRACK_FIND_SERVICE = (\<lambda>buf n. Some (TrackFindService_To_read buf n))"
  "track_make conv alloc own (TRACK_FIND_SERVICE OR FROM_SERVER) = (\<lambda>buf n. Some (TrackFindService_From_read conv alloc own buf n))"
  "track_make conv alloc own TRACK_GAME_HELLO = (\<lambda>buf n. Some (TrackGameHello_read buf n))"
  "track_make conv alloc own TRACK_GAME_BYE = (\<lambda>buf n. Some (TrackGameBye_To_read buf n))"
  "track_make conv alloc own (TRACK_GAME_BYE OR FROM_SERVER) = (\<lambda>buf n. Some (TrackGameBye_From_read buf n))"
  "track_make conv alloc own TRACK_GAME_PLAYERINFO = (\<lambda>buf n. Some (TrackGamePlayerInfo_read buf n))"
  "track_make conv alloc own TRACK_FIND_GAME = (\<lambda>buf n. Some (TrackAgeRequest_To_read buf n))"
  "track_make conv alloc own (TRACK_FIND_GAME OR FROM_SERVER) = (\<lambda>buf n. Some (TrackAgeRequest_From_read buf n))"
  "track_make conv alloc own (TRACK_INTERAGE_FWD OR server_bit b) =
    (\<lambda>buf n. Some (TrackMsgForward_read (TRACK_INTERAGE_FWD OR server_bit b) buf n))"
  "track_make conv alloc own (TRACK_SDL_UPDATE OR FROM_SERVER) = (\<lambda>buf n. Some (TrackSDLUpdate_read buf n))"
  "track_make conv alloc own TRACK_NEXT_GAMEID = (\<lambda>buf n. Some (TrackNextGameID_read TRACK_NEXT_GAMEID buf n))"
  "track_make conv alloc own (TRACK_NEXT_GAMEID OR FROM_SERVER) =
    (\<lambda>buf n. Some (TrackNextGameID_read (TRACK_NEXT_GAMEID OR FROM_SERVER) buf n))"
  "track_make conv alloc own (TRACK_START_GAME OR FROM_SERVER) = (\<lambda>buf n. Some (TrackStartAge_From_read buf n))"
  "track_make conv alloc own TRACK_START_GAME = (\<lambda>buf n. Some (TrackStartAge_To_read buf n))"
  "track_make conv alloc own (TRACK_ADD_PLAYER OR FROM_SERVER) = (\<lambda>buf n. Some (TrackAddPlayer_From_read buf n))"
  "track_make conv alloc own TRACK_ADD_PLAYER = (\<lambda>buf n. Some (TrackAddPlayer_To_read buf n))"
  unfolding track_make_def by (simp_all add: track_codes server_bit_def)

inductive track_sent :: "iconv \<Rightarrow> (nat \<Rightarrow> byte list) \<Rightarrow> track_body backend_message \<Rightarrow> bool" for conv alloc where
  ping: "track_sent conv alloc (TrackPing_new id1 id2)"
| services: "track_sent conv alloc (TrackServiceTypes_new_addr id1 id2 a f g ip p)"
| services_name: "TrackServiceTypes_new_name conv alloc id1 id2 a f g t p = Inr m \<Longrightarrow> c_ok t \<Longrightarrow> track_sent conv alloc m"
| find: "track_sent conv alloc (TrackFindService_To_new id1 id2 r r2 w)"
| found: "track_sent conv alloc (TrackFindService_From_new_addr id1 id2 r r2 f ip p)"
| found_name: "TrackFindService_From_new_name conv alloc id1 id2 r r2 f t p = Inr m \<Longrightarrow> c_ok t \<Longrightarrow> track_sent conv alloc m"
| found_none: "track_sent conv alloc (TrackFindService_From_new_none id1 id2 r r2 f)"
| game: "TrackGameHello_new id1 id2 uuid s ip = Inr m \<Longrightarrow> length uuid = 16 \<Longrightarrow> track_sent conv alloc m"
| bye: "track_sent conv alloc (TrackGameBye_To_new id1 id2 final)"
| bye_answer: "track_sent conv alloc (TrackGameBye_From_new id1 id2)"
| player: "track_sent conv alloc (TrackGamePlayerInfo_new id1 id2 k b)"
| forward: "length bs < 2 ^ 30 \<Longrightarrow> ty AND CLASS_TRACK \<noteq> 0 \<longrightarrow> 20 \<le> length bs \<Longrightarrow>
    track_sent conv alloc (TrackMsgForward_new id1 id2 ty bs at)"
| sdl: "length sdl < 2 ^ 32 \<Longrightarrow> track_sent conv alloc (TrackSDLUpdate_new id1 id2 k f1 f2 sdl t)"
| ids: "track_sent conv alloc (TrackNextGameID_new id1 id2 False n 0)"
| ids_answer: "track_sent conv alloc (TrackNextGameID_new id1 id2 True n st)"
| age: "TrackAgeRequest_To_new conv alloc id1 id2 r (C_str t) uuid = Inr m \<Longrightarrow> length uuid = 16 \<Longrightarrow> c_ok t \<Longrightarrow> track_sent conv alloc m"
| age_answer: "TrackAgeRequest_From_new id1 id2 r e uuid s n ip = Inr m \<Longrightarrow> uuid = None \<or> (\<exists>u. uuid = Some u \<and> length u = 16) \<Longrightarrow>
    track_sent conv alloc m"
| start: "TrackStartAge_From_new conv alloc id1 id2 (C_str t) uuid = Inr m \<Longrightarrow> length uuid = 16 \<Longrightarrow> c_ok t \<Longrightarrow> track_sent conv alloc m"
| no_start: "TrackStartAge_To_new id1 id2 uuid pr = Inr m \<Longrightarrow> length uuid = 16 \<Longrightarrow> track_sent conv alloc m"
| add: "TrackAddPlayer_From_new conv alloc id1 id2 k (C_str t) uuid = Inr m \<Longrightarrow> length uuid = 16 \<Longrightarrow> c_ok t \<Longrightarrow> track_sent conv alloc m"
| added: "track_sent conv alloc (TrackAddPlayer_To_new id1 id2 k e)"

lemma track_new_types:
  "m_type (TrackPing_new id1 id2) = TRACK_PING"
  "m_type (TrackServiceTypes_new_addr id1 id2 a f g ip p) = TRACK_SERVICE_TYPES"
  "TrackServiceTypes_new_name conv alloc id1 id2 a f g t p = Inr m \<Longrightarrow> m_type m = TRACK_SERVICE_TYPES"
  "m_type (TrackFindService_To_new id1 id2 r r2 w) = TRACK_FIND_SERVICE"
  "m_type (TrackFindService_From_new_addr id1 id2 r r2 f ip p) = TRACK_FIND_SERVICE OR FROM_SERVER"
  "TrackFindService_From_new_name conv alloc id1 id2 r r2 f t p = Inr m \<Longrightarrow> m_type m = TRACK_FIND_SERVICE OR FROM_SERVER"
  "m_type (TrackFindService_From_new_none id1 id2 r r2 f) = TRACK_FIND_SERVICE OR FROM_SERVER"
  "TrackGameHello_new id1 id2 uuid s ip = Inr m \<Longrightarrow> m_type m = TRACK_GAME_HELLO"
  "m_type (TrackGameBye_To_new id1 id2 final) = TRACK_GAME_BYE"
  "m_type (TrackGameBye_From_new id1 id2) = TRACK_GAME_BYE OR FROM_SERVER"
  "m_type (TrackGamePlayerInfo_new id1 id2 k b) = TRACK_GAME_PLAYERINFO"
  "m_type (TrackMsgForward_new id1 id2 ty bs at) = TRACK_INTERAGE_FWD OR server_bit (ty AND CLASS_TRACK \<noteq> 0)"
  "m_type (TrackSDLUpdate_new id1 id2 k f1 f2 sdl t') = TRACK_SDL_UPDATE OR FROM_SERVER"
  "m_type (TrackNextGameID_new id1 id2 False n st) = TRACK_NEXT_GAMEID"
  "m_type (TrackNextGameID_new id1 id2 True n st) = TRACK_NEXT_GAMEID OR FROM_SERVER"
  "TrackAgeRequest_To_new conv alloc id1 id2 r nm uuid = Inr m \<Longrightarrow> m_type m = TRACK_FIND_GAME"
  "TrackAgeRequest_From_new id1 id2 r e u s n ip = Inr m \<Longrightarrow> m_type m = TRACK_FIND_GAME OR FROM_SERVER"
  "TrackStartAge_From_new conv alloc id1 id2 nm uuid = Inr m \<Longrightarrow> m_type m = TRACK_START_GAME OR FROM_SERVER"
  "TrackStartAge_To_new id1 id2 uuid pr = Inr m \<Longrightarrow> m_type m = TRACK_START_GAME"
  "TrackAddPlayer_From_new conv alloc id1 id2 k nm uuid = Inr m \<Longrightarrow> m_type m = TRACK_ADD_PLAYER OR FROM_SERVER"
  "m_type (TrackAddPlayer_To_new id1 id2 k e) = TRACK_ADD_PLAYER"
  by (auto simp: track_fixed TrackServiceTypes_new_name_def TrackFindService_From_new_name_def TrackMsgForward_new_def
      TrackSDLUpdate_new_def TrackAgeRequest_To_new_def TrackStartAge_From_new_def TrackAddPlayer_From_new_def
      pre_send_def server_bit_def Let_def rbind_eq_Inr)

lemmas track_made = made_arrives [where mk = "track_make conv alloc own" and fill = "track_fill conv alloc" for conv alloc own]

lemma track_sent_arrives:
  assumes "track_sent conv alloc m"
  shows "\<exists>read. track_make conv alloc own (m_type m) = (\<lambda>buf n. Some (read buf n)) \<and>
    arrives m (track_fill conv alloc (m_type m) (m_body m)) read same_track"
  using assms
proof cases
  case (ping id1 id2)
  show ?thesis unfolding ping by (rule track_made [OF track_fixed_delivered(1) refl track_new_types(1) track_dispatch(1)])
next
  case (services id1 id2 a f g ip p)
  show ?thesis unfolding services by (rule track_made [OF track_fixed_delivered(2) refl track_new_types(2) track_dispatch(2)])
next
  case (services_name id1 id2 a f g t p)
  note d = service_name_delivered [OF services_name(2)]
  show ?thesis by (rule track_made [OF d services_name(1) track_new_types(3) [OF services_name(1)] track_dispatch(2)])
next
  case (find id1 id2 r r2 w)
  show ?thesis unfolding find by (rule track_made [OF track_fixed_delivered(3) refl track_new_types(4) track_dispatch(3)])
next
  case (found id1 id2 r r2 f ip p)
  show ?thesis unfolding found by (rule track_made [OF track_fixed_delivered(4) refl track_new_types(5) track_dispatch(4)])
next
  case (found_name id1 id2 r r2 f t p)
  note d = find_name_delivered [OF found_name(2)]
  show ?thesis by (rule track_made [OF d found_name(1) track_new_types(6) [OF found_name(1)] track_dispatch(4)])
next
  case (found_none id1 id2 r r2 f)
  show ?thesis unfolding found_none by (rule track_made [OF track_fixed_delivered(5) refl track_new_types(7) track_dispatch(4)])
next
  case (game id1 id2 uuid s ip)
  note d = track_fixed_delivered(6) [OF game(2)]
  show ?thesis by (rule track_made [OF d game(1) track_new_types(8) [OF game(1)] track_dispatch(5)])
next
  case (bye id1 id2 final)
  show ?thesis unfolding bye by (rule track_made [OF track_fixed_delivered(7) refl track_new_types(9) track_dispatch(6)])
next
  case (bye_answer id1 id2)
  show ?thesis unfolding bye_answer by (rule track_made [OF track_fixed_delivered(8) refl track_new_types(10) track_dispatch(7)])
next
  case (player id1 id2 k b)
  show ?thesis unfolding player by (rule track_made [OF track_fixed_delivered(9) refl track_new_types(11) track_dispatch(8)])
next
  case (forward bs ty id1 id2 at)
  note d = forward_delivered [OF forward(2,3)]
  show ?thesis unfolding forward(1) by (rule track_made [OF d refl track_new_types(12) track_dispatch(11)])
next
  case (sdl sdl id1 id2 k f1 f2 t)
  note d = sdl_delivered [OF sdl(2)]
  show ?thesis unfolding sdl(1) by (rule track_made [OF d refl track_new_types(13) track_dispatch(12)])
next
  case (ids id1 id2 n)
  show ?thesis unfolding ids by (rule track_made [OF track_fixed_delivered(11) refl track_new_types(14) track_dispatch(13)])
next
  case (ids_answer id1 id2 n st)
  show ?thesis unfolding ids_answer by (rule track_made [OF track_fixed_delivered(10) refl track_new_types(15) track_dispatch(14)])
next
  case (age id1 id2 r t uuid)
  note d = age_request_delivered [OF age(2,3)]
  show ?thesis by (rule track_made [OF d age(1) track_new_types(16) [OF age(1)] track_dispatch(9)])
next
  case (age_answer id1 id2 r e uuid s n ip)
  have d: "delivered (TrackAgeRequest_From_new id1 id2 r e uuid s n ip) (track_fill conv alloc) TrackAgeRequest_From_read same_track"
    using age_answer(2) age_answer_delivered by auto
  show ?thesis by (rule track_made [OF d age_answer(1) track_new_types(17) [OF age_answer(1)] track_dispatch(10)])
next
  case (start id1 id2 t uuid)
  note d = start_age_delivered [OF start(2,3)]
  show ?thesis by (rule track_made [OF d start(1) track_new_types(18) [OF start(1)] track_dispatch(15)])
next
  case (no_start id1 id2 uuid pr)
  note d = track_fixed_delivered(12) [OF no_start(2)]
  show ?thesis by (rule track_made [OF d no_start(1) track_new_types(19) [OF no_start(1)] track_dispatch(16)])
next
  case (add id1 id2 k t uuid)
  note d = add_player_delivered [OF add(2,3)]
  show ?thesis by (rule track_made [OF d add(1) track_new_types(20) [OF add(1)] track_dispatch(17)])
next
  case (added id1 id2 k e)
  show ?thesis unfolding added by (rule track_made [OF track_fixed_delivered(13) refl track_new_types(21) track_dispatch(18)])
qed

end
