(* ===== verification/Backend_Marker.thy ===== *)
theory Backend_Marker
  imports Backend_Writer
begin

text \<open>
  The messages of marker games between game servers and the backend (\<open>BackendMessage.cc\<close>).  The lists of
  markers are built marker by marker and read the same way.  A \<open>double\<close> is its eight bytes: they are only
  passed on.
\<close>

record marker_data =
  md_x :: "byte list"
  md_y :: "byte list"
  md_z :: "byte list"
  md_number :: u32

record marker_info =
  mi_data :: marker_data
  info_size :: nat
  markername :: uru_string
  mi_agename :: uru_string

text \<open>Where the receiver is in a list: \<open>m_bufp\<close> with the rest of the buffer behind it, and the strings there.\<close>

record marker_cursor =
  m_index :: nat
  m_bufp :: "byte list"
  mc_name :: uru_string
  mc_agename :: uru_string

datatype marker_body =
    MarkerGetGame u32 u32 byte byte "byte list" uru_string
  | MarkerAdd u32 u32 marker_data uru_string uru_string
  | MarkersAll u32 u32 u32 nat "marker_info list"
  | MarkersAll_received u32 u32 u32 marker_cursor
  | MarkersCaptured u32 u32 u32 "(u32 \<times> u32) list"
  | MarkersCaptured_received u32 u32 u32 "byte list"
  | MarkerGameRename u32 u32 uru_string
  | MarkerGameDelete u32 u32
  | MarkerGameRenameMarker u32 u32 u32 uru_string
  | MarkerGameDeleteMarker u32 u32 u32
  | MarkerGameCaptureMarker u32 u32 u32 u32 u32
  | MarkerGameStop u32 u32 u32

definition MARKER_DUMP :: u32 where "MARKER_DUMP = 0x0800000"
definition MARKER_STATE :: u32 where "MARKER_STATE = 0x0800003"
definition MARKER_NEWGAME :: u32 where "MARKER_NEWGAME = 0x0800004"
definition MARKER_GAME_STOP :: u32 where "MARKER_GAME_STOP = 0x0800009"
definition MARKER_GAME_RENAME :: u32 where "MARKER_GAME_RENAME = 0x080000B"
definition MARKER_GAME_DELETE :: u32 where "MARKER_GAME_DELETE = 0x080000D"
definition MARKER_ADD :: u32 where "MARKER_ADD = 0x080000E"
definition MARKER_DELETE :: u32 where "MARKER_DELETE = 0x080000F"
definition MARKER_RENAME :: u32 where "MARKER_RENAME = 0x0800010"
definition MARKER_CAPTURE :: u32 where "MARKER_CAPTURE = 0x0800011"

text \<open>The base class reads the two ids; \<open>change_to_server\<close> turns a request into the answer.\<close>

definition Marker_read :: "u32 \<Rightarrow> byte list \<Rightarrow> (u32 \<Rightarrow> u32 \<Rightarrow> marker_body res) \<Rightarrow> marker_body backend_message res" where
  "Marker_read msg_type inbuf parse =
     post_receive msg_type inbuf (rbind (read32 inbuf 16) (\<lambda>requester. rbind (read32 inbuf 20) (\<lambda>localid. parse requester localid)))"

definition change_to_server :: "'a backend_message \<Rightarrow> 'a backend_message" where
  "change_to_server m =
     (let ty = m_type m OR FROM_SERVER
      in m\<lparr>m_type := ty, m_header := take 4 (m_header m) @ bytes32 ty @ drop 8 (m_header m)\<rparr>)"

section \<open>A game\<close>

text \<open>Without a name, the message has an empty string.\<close>

definition MarkerGetGame_new ::
  "iconv \<Rightarrow> (nat \<Rightarrow> byte list) \<Rightarrow> u32 \<Rightarrow> u32 \<Rightarrow> bool \<Rightarrow> u32 \<Rightarrow> bool \<Rightarrow> u32 \<Rightarrow> byte \<Rightarrow> byte list option \<Rightarrow> uru_string option \<Rightarrow>
   marker_body backend_message res" where
  "MarkerGetGame_new conv alloc id1 id2 server gameid ex player_or_localid ty uuid name =
     rbind (case uuid of None \<Rightarrow> Inr (replicate 16 0) | Some u \<Rightarrow> slice 0 16 u) (\<lambda>template.
     rbind (case name of None \<Rightarrow> Inr empty_string | Some n \<Rightarrow> UruString_copy n True) (\<lambda>name.
     rbind (text_len conv alloc False True name) (\<lambda>n.
       Inr (pre_send (MARKER_NEWGAME OR server_bit server) id1 id2 (10 + 16 + n)
         (MarkerGetGame gameid player_or_localid (if ex then 1 else 0) ty template name)))))"

definition MarkerGetGame_read :: "bool \<Rightarrow> u32 \<Rightarrow> byte list \<Rightarrow> int \<Rightarrow> marker_body backend_message res" where
  "MarkerGetGame_read become_owner msg_type inbuf in_len =
     Marker_read msg_type inbuf (\<lambda>requester localid.
       rbind (get8 inbuf 24) (\<lambda>ex. rbind (get8 inbuf 25) (\<lambda>game_type. rbind (slice 26 16 inbuf) (\<lambda>template.
       rbind (UruString_buf (drop 42 inbuf) (in_len - 42) True False (\<not> become_owner)) (\<lambda>name.
         Inr (MarkerGetGame requester localid ex game_type template name))))))"

definition MarkerGetGame_fill ::
  "iconv \<Rightarrow> (nat \<Rightarrow> byte list) \<Rightarrow> u32 \<Rightarrow> u32 \<Rightarrow> byte \<Rightarrow> byte \<Rightarrow> byte list \<Rightarrow> uru_string \<Rightarrow> chunk list res" where
  "MarkerGetGame_fill conv alloc requester localid ex game_type template name =
     rbind (text_field conv alloc False True name) (\<lambda>text.
       Inr [Many (bytes32 requester), Many (bytes32 localid), One ex, One game_type, Many template, Many text])"

definition MarkerGameRename_new ::
  "iconv \<Rightarrow> (nat \<Rightarrow> byte list) \<Rightarrow> u32 \<Rightarrow> u32 \<Rightarrow> bool \<Rightarrow> u32 \<Rightarrow> u32 \<Rightarrow> uru_string \<Rightarrow> marker_body backend_message res" where
  "MarkerGameRename_new conv alloc id1 id2 server gameid localid name =
     rbind (UruString_copy name True) (\<lambda>name.
     rbind (text_len conv alloc False True name) (\<lambda>n.
       Inr (pre_send (MARKER_GAME_RENAME OR server_bit server) id1 id2 (8 + n) (MarkerGameRename gameid localid name))))"

definition MarkerGameRename_read :: "bool \<Rightarrow> u32 \<Rightarrow> byte list \<Rightarrow> int \<Rightarrow> marker_body backend_message res" where
  "MarkerGameRename_read become_owner msg_type inbuf in_len =
     Marker_read msg_type inbuf (\<lambda>requester localid.
       rbind (UruString_buf (drop 24 inbuf) (in_len - 24) True False (\<not> become_owner)) (\<lambda>name.
         Inr (MarkerGameRename requester localid name)))"

definition MarkerGameRename_fill :: "iconv \<Rightarrow> (nat \<Rightarrow> byte list) \<Rightarrow> u32 \<Rightarrow> u32 \<Rightarrow> uru_string \<Rightarrow> chunk list res" where
  "MarkerGameRename_fill conv alloc requester localid name =
     rbind (text_field conv alloc False True name) (\<lambda>text. Inr [Many (bytes32 requester), Many (bytes32 localid), Many text])"

definition MarkerGameDelete_new :: "u32 \<Rightarrow> u32 \<Rightarrow> bool \<Rightarrow> u32 \<Rightarrow> u32 \<Rightarrow> marker_body backend_message" where
  "MarkerGameDelete_new id1 id2 server gameid localid =
     pre_send (MARKER_GAME_DELETE OR server_bit server) id1 id2 8 (MarkerGameDelete gameid localid)"

definition MarkerGameDelete_read :: "u32 \<Rightarrow> byte list \<Rightarrow> int \<Rightarrow> marker_body backend_message res" where
  "MarkerGameDelete_read msg_type inbuf in_len =
     Marker_read msg_type inbuf (\<lambda>requester localid. Inr (MarkerGameDelete requester localid))"

definition MarkerGameDelete_fill :: "u32 \<Rightarrow> u32 \<Rightarrow> chunk list res" where
  "MarkerGameDelete_fill requester localid = Inr [Many (bytes32 requester), Many (bytes32 localid)]"

definition MarkerGameStop_new :: "u32 \<Rightarrow> u32 \<Rightarrow> bool \<Rightarrow> u32 \<Rightarrow> u32 \<Rightarrow> u32 \<Rightarrow> marker_body backend_message" where
  "MarkerGameStop_new id1 id2 server gameid localid player =
     pre_send (MARKER_GAME_STOP OR server_bit server) id1 id2 12 (MarkerGameStop gameid localid player)"

definition MarkerGameStop_read :: "u32 \<Rightarrow> byte list \<Rightarrow> int \<Rightarrow> marker_body backend_message res" where
  "MarkerGameStop_read msg_type inbuf in_len =
     Marker_read msg_type inbuf (\<lambda>requester localid.
       rbind (read32 inbuf 24) (\<lambda>player. Inr (MarkerGameStop requester localid player)))"

definition MarkerGameStop_fill :: "u32 \<Rightarrow> u32 \<Rightarrow> u32 \<Rightarrow> chunk list res" where
  "MarkerGameStop_fill requester localid player = Inr [Many (bytes32 requester), Many (bytes32 localid), Many (bytes32 player)]"

section \<open>A marker\<close>

definition data_bytes :: "marker_data \<Rightarrow> byte list" where
  "data_bytes d = md_x d @ md_y d @ md_z d @ bytes32 (md_number d)"

text \<open>The first 28 bytes at the pointer \<open>m_data\<close> or \<open>m_current\<close>.\<close>

definition read_data :: "byte list \<Rightarrow> marker_data res" where
  "read_data b =
     rbind (slice 0 8 b) (\<lambda>x. rbind (slice 8 8 b) (\<lambda>y. rbind (slice 16 8 b) (\<lambda>z. rbind (read32 b 24) (\<lambda>number.
       Inr \<lparr>md_x = x, md_y = y, md_z = z, md_number = number\<rparr>))))"

definition MarkerAdd_new ::
  "iconv \<Rightarrow> (nat \<Rightarrow> byte list) \<Rightarrow> u32 \<Rightarrow> u32 \<Rightarrow> bool \<Rightarrow> u32 \<Rightarrow> u32 \<Rightarrow> byte list \<Rightarrow> byte list \<Rightarrow> byte list \<Rightarrow>
   uru_string \<Rightarrow> uru_string \<Rightarrow> u32 \<Rightarrow> marker_body backend_message res" where
  "MarkerAdd_new conv alloc id1 id2 server gameid localid x y z name age number =
     rbind (UruString_copy name True) (\<lambda>name.
     rbind (UruString_copy age True) (\<lambda>age.
     rbind (text_len conv alloc False True name) (\<lambda>n.
     rbind (text_len conv alloc False True age) (\<lambda>k.
       Inr (pre_send (MARKER_ADD OR server_bit server) id1 id2 (8 + 28 + n + k)
         (MarkerAdd gameid localid \<lparr>md_x = x, md_y = y, md_z = z, md_number = number\<rparr> name age))))))"

definition MarkerAdd_read :: "bool \<Rightarrow> u32 \<Rightarrow> byte list \<Rightarrow> int \<Rightarrow> marker_body backend_message res" where
  "MarkerAdd_read become_owner msg_type inbuf in_len =
     Marker_read msg_type inbuf (\<lambda>requester localid.
       rbind (read_data (drop 24 inbuf)) (\<lambda>data.
       rbind (UruString_buf (drop 52 inbuf) (in_len - (52 + 2)) True False (\<not> become_owner)) (\<lambda>name.
       let off = 52 + m_arrival_len name
       in rbind (UruString_buf (drop off inbuf) (in_len - int off) True False (\<not> become_owner)) (\<lambda>agename.
          Inr (MarkerAdd requester localid data name agename)))))"

definition MarkerAdd_fill ::
  "iconv \<Rightarrow> (nat \<Rightarrow> byte list) \<Rightarrow> u32 \<Rightarrow> u32 \<Rightarrow> marker_data \<Rightarrow> uru_string \<Rightarrow> uru_string \<Rightarrow> chunk list res" where
  "MarkerAdd_fill conv alloc requester localid data name agename =
     rbind (text_field conv alloc False True name) (\<lambda>text1.
     rbind (text_field conv alloc False True agename) (\<lambda>text2.
       Inr [Many (bytes32 requester), Many (bytes32 localid), Many (md_x data), Many (md_y data), Many (md_z data),
            Many (bytes32 (md_number data)), Many text1, Many text2]))"

definition set_number :: "u32 \<Rightarrow> marker_body \<Rightarrow> marker_body" where
  "set_number number b =
     (case b of MarkerAdd r l data n a \<Rightarrow> MarkerAdd r l (data\<lparr>md_number := number\<rparr>) n a | _ \<Rightarrow> b)"

definition clear_id :: "marker_body \<Rightarrow> marker_body" where
  "clear_id b = (case b of MarkerGameDelete r l \<Rightarrow> MarkerGameDelete r 0 | _ \<Rightarrow> b)"

definition MarkerGameRenameMarker_new ::
  "iconv \<Rightarrow> (nat \<Rightarrow> byte list) \<Rightarrow> u32 \<Rightarrow> u32 \<Rightarrow> bool \<Rightarrow> u32 \<Rightarrow> u32 \<Rightarrow> u32 \<Rightarrow> uru_string \<Rightarrow> marker_body backend_message res" where
  "MarkerGameRenameMarker_new conv alloc id1 id2 server gameid localid number name =
     rbind (UruString_copy name True) (\<lambda>name.
     rbind (text_len conv alloc False True name) (\<lambda>n.
       Inr (pre_send (MARKER_RENAME OR server_bit server) id1 id2 (12 + n) (MarkerGameRenameMarker gameid localid number name))))"

definition MarkerGameRenameMarker_read :: "bool \<Rightarrow> u32 \<Rightarrow> byte list \<Rightarrow> int \<Rightarrow> marker_body backend_message res" where
  "MarkerGameRenameMarker_read become_owner msg_type inbuf in_len =
     Marker_read msg_type inbuf (\<lambda>requester localid.
       rbind (read32 inbuf 24) (\<lambda>number.
       rbind (UruString_buf (drop 28 inbuf) (in_len - 28) True False (\<not> become_owner)) (\<lambda>name.
         Inr (MarkerGameRenameMarker requester localid number name))))"

definition MarkerGameRenameMarker_fill ::
  "iconv \<Rightarrow> (nat \<Rightarrow> byte list) \<Rightarrow> u32 \<Rightarrow> u32 \<Rightarrow> u32 \<Rightarrow> uru_string \<Rightarrow> chunk list res" where
  "MarkerGameRenameMarker_fill conv alloc requester localid number name =
     rbind (text_field conv alloc False True name) (\<lambda>text.
       Inr [Many (bytes32 requester), Many (bytes32 localid), Many (bytes32 number), Many text])"

definition MarkerGameDeleteMarker_new :: "u32 \<Rightarrow> u32 \<Rightarrow> bool \<Rightarrow> u32 \<Rightarrow> u32 \<Rightarrow> u32 \<Rightarrow> marker_body backend_message" where
  "MarkerGameDeleteMarker_new id1 id2 server gameid localid number =
     pre_send (MARKER_DELETE OR server_bit server) id1 id2 12 (MarkerGameDeleteMarker gameid localid number)"

definition MarkerGameDeleteMarker_read :: "u32 \<Rightarrow> byte list \<Rightarrow> int \<Rightarrow> marker_body backend_message res" where
  "MarkerGameDeleteMarker_read msg_type inbuf in_len =
     Marker_read msg_type inbuf (\<lambda>requester localid.
       rbind (read32 inbuf 24) (\<lambda>number. Inr (MarkerGameDeleteMarker requester localid number)))"

definition MarkerGameDeleteMarker_fill :: "u32 \<Rightarrow> u32 \<Rightarrow> u32 \<Rightarrow> chunk list res" where
  "MarkerGameDeleteMarker_fill requester localid number =
     Inr [Many (bytes32 requester), Many (bytes32 localid), Many (bytes32 number)]"

definition MarkerGameCaptureMarker_new ::
  "u32 \<Rightarrow> u32 \<Rightarrow> bool \<Rightarrow> u32 \<Rightarrow> u32 \<Rightarrow> u32 \<Rightarrow> u32 \<Rightarrow> u32 \<Rightarrow> marker_body backend_message" where
  "MarkerGameCaptureMarker_new id1 id2 server gameid localid player number newvalue =
     pre_send (MARKER_CAPTURE OR server_bit server) id1 id2 20 (MarkerGameCaptureMarker gameid localid player number newvalue)"

definition MarkerGameCaptureMarker_read :: "u32 \<Rightarrow> byte list \<Rightarrow> int \<Rightarrow> marker_body backend_message res" where
  "MarkerGameCaptureMarker_read msg_type inbuf in_len =
     Marker_read msg_type inbuf (\<lambda>requester localid.
       rbind (read32 inbuf 24) (\<lambda>player. rbind (read32 inbuf 28) (\<lambda>number. rbind (read32 inbuf 32) (\<lambda>val.
         Inr (MarkerGameCaptureMarker requester localid player number val)))))"

definition MarkerGameCaptureMarker_fill :: "u32 \<Rightarrow> u32 \<Rightarrow> u32 \<Rightarrow> u32 \<Rightarrow> u32 \<Rightarrow> chunk list res" where
  "MarkerGameCaptureMarker_fill requester localid player number val =
     Inr [Many (bytes32 requester), Many (bytes32 localid), Many (bytes32 player), Many (bytes32 number), Many (bytes32 val)]"

section \<open>All markers of a game\<close>

text \<open>
  The sender makes room for the number of markers it expects and adds them one by one; a marker beyond
  that is written behind the vector.  \<open>finalize\<close> knows the length.
\<close>

definition MarkersAll_new :: "u32 \<Rightarrow> u32 \<Rightarrow> u32 \<Rightarrow> u32 \<Rightarrow> nat \<Rightarrow> marker_body backend_message" where
  "MarkersAll_new id1 id2 localid gameid num_entries =
     pre_send (MARKER_DUMP OR FROM_SERVER) id1 id2 12 (MarkersAll gameid localid 0 num_entries [])"

definition MarkersAll_add_marker ::
  "iconv \<Rightarrow> (nat \<Rightarrow> byte list) \<Rightarrow> marker_data \<Rightarrow> uru_string \<Rightarrow> uru_string \<Rightarrow>
   marker_body backend_message \<Rightarrow> marker_body backend_message res" where
  "MarkersAll_add_marker conv alloc data name age m =
     (case m_body m of
        MarkersAll r l listlen room ms \<Rightarrow>
          if length ms < room
          then rbind (assign_string empty_string name) (\<lambda>markername.
               rbind (assign_string empty_string age) (\<lambda>agename.
               rbind (text_len conv alloc False False name) (\<lambda>n.
               rbind (text_len conv alloc False False age) (\<lambda>k.
               Inr (m\<lparr>m_body := MarkersAll r l listlen room
                 (ms @ [\<lparr>mi_data = data, info_size = 28 + n + k, markername = markername, mi_agename = agename\<rparr>])\<rparr>)))))
          else Inl Out_Of_Bounds
      | _ \<Rightarrow> Inr m)"

definition MarkersAll_finalize :: "marker_body backend_message \<Rightarrow> marker_body backend_message res" where
  "MarkersAll_finalize m =
     (case m_body m of
        MarkersAll r l listlen room ms \<Rightarrow>
          if 0 < length ms
          then rbind (read32 (m_header m) 8) (\<lambda>id1. rbind (read32 (m_header m) 12) (\<lambda>id2.
               Inr (m\<lparr>m_body := MarkersAll r l (of_nat (length ms)) room ms,
                      m_header := setup_header (m_type m) id1 id2 (12 + sum_list (map info_size ms))\<rparr>)))
          else Inr m
      | _ \<Rightarrow> Inr m)"

fun marker_chunks :: "iconv \<Rightarrow> (nat \<Rightarrow> byte list) \<Rightarrow> marker_info list \<Rightarrow> chunk list res" where
  "marker_chunks conv alloc [] = Inr []"
| "marker_chunks conv alloc (mi # ms) =
     rbind (text_field conv alloc False False (markername mi)) (\<lambda>text1.
     rbind (text_field conv alloc False False (mi_agename mi)) (\<lambda>text2.
     rbind (marker_chunks conv alloc ms) (\<lambda>rest.
       Inr (Many (data_bytes (mi_data mi)) # Many text1 # Many text2 # rest))))"

definition MarkersAll_fill ::
  "iconv \<Rightarrow> (nat \<Rightarrow> byte list) \<Rightarrow> u32 \<Rightarrow> u32 \<Rightarrow> u32 \<Rightarrow> marker_info list \<Rightarrow> chunk list res" where
  "MarkersAll_fill conv alloc requester localid listlen ms =
     rbind (marker_chunks conv alloc ms) (\<lambda>rest.
       Inr (Many (bytes32 requester) # Many (bytes32 localid) # Many (bytes32 listlen) # rest))"

text \<open>The receiver reads the strings of the first marker at once, and of the next ones in \<open>advance_index\<close>.\<close>

definition read_names :: "nat \<Rightarrow> byte list \<Rightarrow> marker_cursor res" where
  "read_names i bufp =
     rbind (if length bufp < 28 then Inl Out_Of_Bounds else UruString_buf (drop 28 bufp) (-1) True False False) (\<lambda>name.
     rbind (if length bufp < 28 + m_arrival_len name then Inl Out_Of_Bounds
            else UruString_buf (drop (28 + m_arrival_len name) bufp) (-1) True False False) (\<lambda>agename.
       Inr \<lparr>m_index = i, m_bufp = bufp, mc_name = name, mc_agename = agename\<rparr>))"

definition MarkersAll_read :: "bool \<Rightarrow> byte list \<Rightarrow> int \<Rightarrow> marker_body backend_message res" where
  "MarkersAll_read become_owner inbuf in_len =
     Marker_read (MARKER_DUMP OR FROM_SERVER) inbuf (\<lambda>requester localid.
       rbind (read32 inbuf 24) (\<lambda>listlen.
       rbind (if become_owner then Inr (drop 28 inbuf)
              else if in_len < 28 then Inl Out_Of_Bounds
              else slice 28 (nat (in_len - 28)) inbuf) (\<lambda>bufp.
       rbind (read_names 0 bufp) (\<lambda>cur. Inr (MarkersAll_received requester localid listlen cur)))))"

definition advance_index :: "u32 \<Rightarrow> marker_cursor \<Rightarrow> marker_cursor res" where
  "advance_index listlen cur =
     (let i = m_index cur + 1
      in if i < unat listlen
         then read_names i (drop (28 + (m_arrival_len (mc_name cur) + m_arrival_len (mc_agename cur))) (m_bufp cur))
         else Inr (cur\<lparr>m_index := i\<rparr>))"

section \<open>The captured markers\<close>

definition MarkersCaptured_new :: "u32 \<Rightarrow> u32 \<Rightarrow> u32 \<Rightarrow> u32 \<Rightarrow> nat \<Rightarrow> marker_body backend_message" where
  "MarkersCaptured_new id1 id2 localid gameid num_entries =
     pre_send (MARKER_STATE OR FROM_SERVER) id1 id2 12 (MarkersCaptured gameid localid (of_nat num_entries) [])"

definition MarkersCaptured_add_marker :: "u32 \<Rightarrow> u32 \<Rightarrow> marker_body backend_message \<Rightarrow> marker_body backend_message" where
  "MarkersCaptured_add_marker number val m =
     (case m_body m of
        MarkersCaptured r l listlen es \<Rightarrow>
          if length es < unat listlen then m\<lparr>m_body := MarkersCaptured r l listlen (es @ [(number, val)])\<rparr> else m
      | _ \<Rightarrow> m)"

definition MarkersCaptured_finalize :: "marker_body backend_message \<Rightarrow> marker_body backend_message res" where
  "MarkersCaptured_finalize m =
     (case m_body m of
        MarkersCaptured r l listlen es \<Rightarrow>
          let m = m\<lparr>m_body := MarkersCaptured r l (of_nat (length es)) es\<rparr>
          in if 0 < length es
             then rbind (read32 (m_header m) 8) (\<lambda>id1. rbind (read32 (m_header m) 12) (\<lambda>id2.
                  Inr (m\<lparr>m_header := setup_header (m_type m) id1 id2 (12 + length es * 8)\<rparr>)))
             else Inr m
      | _ \<Rightarrow> Inr m)"

definition MarkersCaptured_fill :: "u32 \<Rightarrow> u32 \<Rightarrow> u32 \<Rightarrow> (u32 \<times> u32) list \<Rightarrow> chunk list res" where
  "MarkersCaptured_fill requester localid listlen es =
     Inr ([Many (bytes32 requester), Many (bytes32 localid), Many (bytes32 listlen)] @
       (if es = [] then [] else [Many (concat (map (\<lambda>(number, val). bytes32 number @ bytes32 val) es))]))"

definition MarkersCaptured_read :: "byte list \<Rightarrow> int \<Rightarrow> marker_body backend_message res" where
  "MarkersCaptured_read inbuf in_len =
     Marker_read (MARKER_STATE OR FROM_SERVER) inbuf (\<lambda>requester localid.
       rbind (read32 inbuf 24) (\<lambda>listlen. Inr (MarkersCaptured_received requester localid listlen (drop 28 inbuf))))"

text \<open>The virtual function.  On the side of the receiver \<open>m_list\<close> is empty.\<close>

fun marker_fill :: "iconv \<Rightarrow> (nat \<Rightarrow> byte list) \<Rightarrow> marker_body \<Rightarrow> chunk list res" where
  "marker_fill conv alloc (MarkerGetGame r l e t u n) = MarkerGetGame_fill conv alloc r l e t u n"
| "marker_fill conv alloc (MarkerAdd r l d n a) = MarkerAdd_fill conv alloc r l d n a"
| "marker_fill conv alloc (MarkersAll r l len room ms) = MarkersAll_fill conv alloc r l len ms"
| "marker_fill conv alloc (MarkersAll_received r l len c) =
     (if m_index c = 0 then MarkersAll_fill conv alloc r l len [] else Inl Out_Of_Bounds)"
| "marker_fill conv alloc (MarkersCaptured r l len es) = MarkersCaptured_fill r l len es"
| "marker_fill conv alloc (MarkersCaptured_received r l len b) = MarkersCaptured_fill r l len []"
| "marker_fill conv alloc (MarkerGameRename r l n) = MarkerGameRename_fill conv alloc r l n"
| "marker_fill conv alloc (MarkerGameDelete r l) = MarkerGameDelete_fill r l"
| "marker_fill conv alloc (MarkerGameRenameMarker r l k n) = MarkerGameRenameMarker_fill conv alloc r l k n"
| "marker_fill conv alloc (MarkerGameDeleteMarker r l k) = MarkerGameDeleteMarker_fill r l k"
| "marker_fill conv alloc (MarkerGameCaptureMarker r l p k v) = MarkerGameCaptureMarker_fill r l p k v"
| "marker_fill conv alloc (MarkerGameStop r l p) = MarkerGameStop_fill r l p"

section \<open>What is sent arrives\<close>

text \<open>A marker, its bytes, and its entry in the list.\<close>

definition data_ok :: "marker_data \<Rightarrow> bool" where
  "data_ok d \<longleftrightarrow> length (md_x d) = 8 \<and> length (md_y d) = 8 \<and> length (md_z d) = 8"

type_synonym marker = "marker_data \<times> byte list \<times> byte list"

fun marker_ok :: "marker \<Rightarrow> bool" where
  "marker_ok (d, n, a) = (data_ok d \<and> c_ok n \<and> c_ok a)"

fun marker_bytes :: "marker \<Rightarrow> byte list" where
  "marker_bytes (d, n, a) = data_bytes d @ no_null n @ no_null a"

fun marker_entry :: "marker \<Rightarrow> marker_info" where
  "marker_entry (d, n, a) =
     \<lparr>mi_data = d, info_size = 32 + (length n + length a), markername = C_str n, mi_agename = C_str a\<rparr>"

fun captured_bytes :: "u32 \<times> u32 \<Rightarrow> byte list" where
  "captured_bytes (number, val) = bytes32 number @ bytes32 val"

text \<open>What the receiver sees at the cursor, and then at the next ones.\<close>

fun seen_at :: "marker_cursor \<Rightarrow> marker \<Rightarrow> bool" where
  "seen_at c (d, n, a) \<longleftrightarrow> read_data (m_bufp c) = Inr d \<and> reads_as (mc_name c) n \<and> reads_as (mc_agename c) a"

fun lists :: "u32 \<Rightarrow> marker_cursor \<Rightarrow> marker list \<Rightarrow> bool" where
  "lists len c [] = True"
| "lists len c (e # es) = (seen_at c e \<and> (es \<noteq> [] \<longrightarrow> (\<exists>c'. advance_index len c = Inr c' \<and> lists len c' es)))"

text \<open>The receiver of a list can go through the same markers.\<close>

fun same_marker :: "marker_body \<Rightarrow> marker_body \<Rightarrow> bool" where
  "same_marker (MarkerGetGame r l e t u n) b = (\<exists>n'. b = MarkerGetGame r l e t u n' \<and> same_text n n')"
| "same_marker (MarkerAdd r l d n a) b = (\<exists>n' a'. b = MarkerAdd r l d n' a' \<and> same_text n n' \<and> same_text a a')"
| "same_marker (MarkerGameRename r l n) b = (\<exists>n'. b = MarkerGameRename r l n' \<and> same_text n n')"
| "same_marker (MarkerGameRenameMarker r l k n) b = (\<exists>n'. b = MarkerGameRenameMarker r l k n' \<and> same_text n n')"
| "same_marker (MarkersAll r l len room ms) b =
     (\<exists>c es. b = MarkersAll_received r l len c \<and> ms = map marker_entry es \<and> lists len c es)"
| "same_marker (MarkersCaptured r l len es) b =
     (\<exists>rest. b = MarkersCaptured_received r l len (concat (map captured_bytes es) @ rest))"
| "same_marker b b' = (b' = b)"

lemmas marker_fixed = MarkerGameDelete_new_def MarkerGameDelete_read_def MarkerGameDelete_fill_def
  MarkerGameStop_new_def MarkerGameStop_read_def MarkerGameStop_fill_def
  MarkerGameDeleteMarker_new_def MarkerGameDeleteMarker_read_def MarkerGameDeleteMarker_fill_def
  MarkerGameCaptureMarker_new_def MarkerGameCaptureMarker_read_def MarkerGameCaptureMarker_fill_def

lemma marker_fixed_delivered:
  "delivered (Inr (MarkerGameDelete_new id1 id2 s g l)) (\<lambda>_. marker_fill conv alloc)
    (MarkerGameDelete_read (MARKER_GAME_DELETE OR server_bit s)) same_marker"
  "delivered (Inr (MarkerGameStop_new id1 id2 s g l p)) (\<lambda>_. marker_fill conv alloc)
    (MarkerGameStop_read (MARKER_GAME_STOP OR server_bit s)) same_marker"
  "delivered (Inr (MarkerGameDeleteMarker_new id1 id2 s g l k)) (\<lambda>_. marker_fill conv alloc)
    (MarkerGameDeleteMarker_read (MARKER_DELETE OR server_bit s)) same_marker"
  "delivered (Inr (MarkerGameCaptureMarker_new id1 id2 s g l p k v)) (\<lambda>_. marker_fill conv alloc)
    (MarkerGameCaptureMarker_read (MARKER_CAPTURE OR server_bit s)) same_marker"
  by (rule deliveredI, simp add: marker_fixed, simp add: marker_fixed, simp,
      simp add: marker_fixed Marker_read_def post_receive_def skip)+

lemma game_delivered:
  assumes "c_ok t" and "length uuid = 16"
  shows "delivered (MarkerGetGame_new conv alloc id1 id2 s g e l ty (Some uuid) (Some (C_str t))) (\<lambda>_. marker_fill conv alloc)
    (MarkerGetGame_read own (MARKER_NEWGAME OR server_bit s)) same_marker"
proof (rule deliveredI)
  fix rest
  let ?h = "setup_header (MARKER_NEWGAME OR server_bit s) id1 id2 (29 + length t)"
  let ?e = "if e then 1 else 0 :: byte"
  obtain u where u: "UruString_buf (with_null t @ rest) (int (length t) + 3) True False (\<not> own) = Inr u" "same_text (C_str t) u"
    by (rule string_at [OF assms(1), of "int (length t) + 3" rest "\<not> own"]) auto
  show "\<exists>body'. MarkerGetGame_read own (MARKER_NEWGAME OR server_bit s)
      (?h @ content [Many (bytes32 g), Many (bytes32 l), One ?e, One ty, Many uuid, Many (with_null t)] @ rest)
      (16 + int (29 + length t)) =
      Inr \<lparr>m_type = MARKER_NEWGAME OR server_bit s, m_header = ?h, m_body = body'\<rparr> \<and>
      same_marker (MarkerGetGame g l ?e ty uuid (C_str t)) body'"
    using assms u by (simp add: MarkerGetGame_read_def Marker_read_def post_receive_def skip add_ac)
qed (use assms in \<open>simp_all add: MarkerGetGame_new_def MarkerGetGame_fill_def slice_here text_field_c\<close>)

lemma rename_delivered:
  assumes "c_ok t"
  shows "delivered (MarkerGameRename_new conv alloc id1 id2 s g l (C_str t)) (\<lambda>_. marker_fill conv alloc)
    (MarkerGameRename_read own (MARKER_GAME_RENAME OR server_bit s)) same_marker"
proof (rule deliveredI)
  fix rest
  let ?h = "setup_header (MARKER_GAME_RENAME OR server_bit s) id1 id2 (11 + length t)"
  obtain u where u: "UruString_buf (with_null t @ rest) (int (length t) + 3) True False (\<not> own) = Inr u" "same_text (C_str t) u"
    by (rule string_at [OF assms(1), of "int (length t) + 3" rest "\<not> own"]) auto
  show "\<exists>body'. MarkerGameRename_read own (MARKER_GAME_RENAME OR server_bit s)
      (?h @ content [Many (bytes32 g), Many (bytes32 l), Many (with_null t)] @ rest) (16 + int (11 + length t)) =
      Inr \<lparr>m_type = MARKER_GAME_RENAME OR server_bit s, m_header = ?h, m_body = body'\<rparr> \<and>
      same_marker (MarkerGameRename g l (C_str t)) body'"
    using u by (simp add: MarkerGameRename_read_def Marker_read_def post_receive_def skip add_ac)
qed (simp_all add: MarkerGameRename_new_def MarkerGameRename_fill_def text_field_c)

lemma rename_marker_delivered:
  assumes "c_ok t"
  shows "delivered (MarkerGameRenameMarker_new conv alloc id1 id2 s g l k (C_str t)) (\<lambda>_. marker_fill conv alloc)
    (MarkerGameRenameMarker_read own (MARKER_RENAME OR server_bit s)) same_marker"
proof (rule deliveredI)
  fix rest
  let ?h = "setup_header (MARKER_RENAME OR server_bit s) id1 id2 (15 + length t)"
  obtain u where u: "UruString_buf (with_null t @ rest) (int (length t) + 3) True False (\<not> own) = Inr u" "same_text (C_str t) u"
    by (rule string_at [OF assms(1), of "int (length t) + 3" rest "\<not> own"]) auto
  show "\<exists>body'. MarkerGameRenameMarker_read own (MARKER_RENAME OR server_bit s)
      (?h @ content [Many (bytes32 g), Many (bytes32 l), Many (bytes32 k), Many (with_null t)] @ rest) (16 + int (15 + length t)) =
      Inr \<lparr>m_type = MARKER_RENAME OR server_bit s, m_header = ?h, m_body = body'\<rparr> \<and>
      same_marker (MarkerGameRenameMarker g l k (C_str t)) body'"
    using u by (simp add: MarkerGameRenameMarker_read_def Marker_read_def post_receive_def skip add_ac)
qed (simp_all add: MarkerGameRenameMarker_new_def MarkerGameRenameMarker_fill_def text_field_c)

lemma length_data_bytes: "data_ok d \<Longrightarrow> length (data_bytes d) = 28"
  by (simp add: data_ok_def data_bytes_def)

lemma read_data_bytes: "data_ok d \<Longrightarrow> read_data (data_bytes d @ rest) = Inr d"
  by (simp add: data_ok_def data_bytes_def read_data_def skip)

lemma data_eta: "\<lparr>md_x = md_x d, md_y = md_y d, md_z = md_z d, md_number = md_number d\<rparr> = d"
  by (cases d) simp

lemma marker_delivered:
  assumes "c_ok t" and "c_ok a" and "data_ok d"
  shows "delivered (MarkerAdd_new conv alloc id1 id2 s g l (md_x d) (md_y d) (md_z d) (C_str t) (C_str a) (md_number d))
    (\<lambda>_. marker_fill conv alloc) (MarkerAdd_read own (MARKER_ADD OR server_bit s)) same_marker"
proof (rule deliveredI)
  fix rest
  let ?h = "setup_header (MARKER_ADD OR server_bit s) id1 id2 (42 + (length t + length a))"
  let ?c = "[Many (bytes32 g), Many (bytes32 l), Many (md_x d), Many (md_y d), Many (md_z d), Many (bytes32 (md_number d)),
    Many (with_null t), Many (with_null a)]"
  obtain u where u: "UruString_buf (with_null t @ with_null a @ rest) (int (length t) + int (length a) + 4) True False (\<not> own) = Inr u"
    "m_arrival_len u = length t + 3" "same_text (C_str t) u"
    by (rule string_at [OF assms(1), of "int (length t) + int (length a) + 4" "with_null a @ rest" "\<not> own"]) auto
  obtain v where v: "UruString_buf (with_null a @ rest) (int (length a) + 3) True False (\<not> own) = Inr v" "same_text (C_str a) v"
    by (rule string_at [OF assms(2), of "int (length a) + 3" rest "\<not> own"]) auto
  have r: "read_data (md_x d @ md_y d @ md_z d @ bytes32 (md_number d) @ with_null t @ with_null a @ rest) = Inr d"
    using read_data_bytes [OF assms(3)] by (simp add: data_bytes_def)
  show "\<exists>body'. MarkerAdd_read own (MARKER_ADD OR server_bit s) (?h @ content ?c @ rest) (16 + int (42 + (length t + length a))) =
      Inr \<lparr>m_type = MARKER_ADD OR server_bit s, m_header = ?h, m_body = body'\<rparr> \<and>
      same_marker (MarkerAdd g l d (C_str t) (C_str a)) body'"
    using assms(3) u v r by (simp add: MarkerAdd_read_def Marker_read_def post_receive_def skip data_ok_def Let_def add_ac)
qed (use assms in \<open>simp_all add: MarkerAdd_new_def MarkerAdd_fill_def text_field_c data_ok_def data_eta\<close>)

section \<open>The list of markers arrives\<close>

fun add_markers ::
  "iconv \<Rightarrow> (nat \<Rightarrow> byte list) \<Rightarrow> marker list \<Rightarrow> marker_body backend_message \<Rightarrow> marker_body backend_message res" where
  "add_markers conv alloc [] m = Inr m"
| "add_markers conv alloc ((d, n, a) # es) m =
     rbind (MarkersAll_add_marker conv alloc d (C_str n) (C_str a) m) (add_markers conv alloc es)"

lemma assign_c: "assign_string empty_string (C_str t) = Inr (C_str t)"
  by (simp add: assign_string_def UruString_c_def empty_string_def free_strings_def deref_def slice_def Let_def)

lemma add_markers_ok:
  assumes "length ms + length es \<le> room"
  shows "add_markers conv alloc es \<lparr>m_type = ty, m_header = h, m_body = MarkersAll r l len room ms\<rparr> =
    Inr \<lparr>m_type = ty, m_header = h, m_body = MarkersAll r l len room (ms @ map marker_entry es)\<rparr>"
  using assms
proof (induction es arbitrary: ms)
  case (Cons e es)
  then show ?case
    by (cases e) (simp add: MarkersAll_add_marker_def assign_c text_field_c add_ac)
qed simp

lemma entries_size: "list_all marker_ok es \<Longrightarrow> sum_list (map info_size (map marker_entry es)) = length (concat (map marker_bytes es))"
proof (induction es)
  case (Cons e es)
  then show ?case by (cases e) (simp add: length_data_bytes)
qed simp

lemma marker_chunks_ok:
  "\<exists>cs. marker_chunks conv alloc (map marker_entry es) = Inr cs \<and> content cs = concat (map marker_bytes es)"
proof (induction es)
  case (Cons e es)
  then show ?case by (cases e) (auto simp: text_field_c)
qed simp

lemma names_here:
  assumes "marker_ok (d, n, a)" and "bufp = marker_bytes (d, n, a) @ rest"
  obtains c where "read_names i bufp = Inr c" "seen_at c (d, n, a)" "m_index c = i" "m_bufp c = bufp"
    "28 + (m_arrival_len (mc_name c) + m_arrival_len (mc_agename c)) = length (marker_bytes (d, n, a))"
proof -
  have l: "length (data_bytes d) = 28" using assms(1) by (simp add: length_data_bytes)
  have ok: "c_ok n" "c_ok a" using assms(1) by auto
  obtain u where u: "UruString_buf (no_null n @ no_null a @ rest) (-1) True False False = Inr u" "m_arrival_len u = length n + 2" "reads_as u n"
    using read_no_null [OF ok(1), of "-1" "no_null a @ rest" False] by auto
  obtain v where v: "UruString_buf (no_null a @ rest) (-1) True False False = Inr v" "m_arrival_len v = length a + 2" "reads_as v a"
    using read_no_null [OF ok(2), of "-1" rest False] by auto
  have d: "drop 28 bufp = no_null n @ no_null a @ rest" "drop (28 + (length n + 2)) bufp = no_null a @ rest"
    using l assms(2) by simp_all
  have "\<not> length bufp < 28" "\<not> length bufp < 28 + (length n + 2)" using l assms(2) by simp_all
  then have "read_names i bufp = Inr \<lparr>m_index = i, m_bufp = bufp, mc_name = u, mc_agename = v\<rparr>"
    unfolding read_names_def d(1) using u(1,2) v(1) d(2) by simp
  moreover have "read_data bufp = Inr d" using assms by (simp add: read_data_bytes)
  ultimately show thesis using that u v l by simp
qed

lemma lists_on:
  assumes "list_all marker_ok (e # es)" and "m_index c + length es < unat len" and "seen_at c e"
    and "m_bufp c = concat (map marker_bytes (e # es)) @ rest"
    and "28 + (m_arrival_len (mc_name c) + m_arrival_len (mc_agename c)) = length (marker_bytes e)"
  shows "lists len c (e # es)"
  using assms
proof (induction es arbitrary: c e)
  case (Cons f es)
  obtain d n a where f: "f = (d, n, a)" by (cases f)
  have ok: "marker_ok (d, n, a)" and r: "drop (length (marker_bytes e)) (m_bufp c) = marker_bytes (d, n, a) @ concat (map marker_bytes es) @ rest"
    using Cons.prems(1,4) f by simp_all
  obtain c' where c': "read_names (m_index c + 1) (drop (length (marker_bytes e)) (m_bufp c)) = Inr c'" "seen_at c' f"
    "m_index c' = m_index c + 1" "m_bufp c' = drop (length (marker_bytes e)) (m_bufp c)"
    "28 + (m_arrival_len (mc_name c') + m_arrival_len (mc_agename c')) = length (marker_bytes f)"
    using names_here [OF ok r, of "m_index c + 1"] unfolding f by blast
  have "advance_index len c = Inr c'"
    using Cons.prems(2) c'(1) unfolding advance_index_def Let_def Cons.prems(5) by simp
  moreover have "lists len c' (f # es)"
    using Cons.prems(1,2) c' f r by (intro Cons.IH) auto
  ultimately show ?case using Cons.prems(3) by simp
qed simp

lemma markers_listed_lem:
  assumes "list_all marker_ok es" and "es \<noteq> []" and "length es \<le> room" and "length es < 2 ^ 32"
  shows "\<exists>m cs. rbind (add_markers conv alloc es (MarkersAll_new id1 id2 l g room)) MarkersAll_finalize = Inr m \<and>
    marker_fill conv alloc (m_body m) = Inr cs \<and> m_type m = MARKER_DUMP OR FROM_SERVER \<and>
    m_body m = MarkersAll g l (of_nat (length es)) room (map marker_entry es) \<and>
    m_header m = setup_header (MARKER_DUMP OR FROM_SERVER) id1 id2 (length (content cs)) \<and>
    (\<forall>own rest. \<exists>c. MarkersAll_read own (m_header m @ content cs @ rest) (16 + int (length (content cs))) =
       Inr \<lparr>m_type = MARKER_DUMP OR FROM_SERVER, m_header = m_header m, m_body = MarkersAll_received g l (of_nat (length es)) c\<rparr> \<and>
       lists (of_nat (length es)) c es)"
proof -
  let ?ty = "MARKER_DUMP OR FROM_SERVER" and ?b = "concat (map marker_bytes es)" and ?len = "of_nat (length es) :: u32"
  let ?h = "setup_header ?ty id1 id2 (12 + length ?b)"
  let ?m = "\<lparr>m_type = ?ty, m_header = ?h, m_body = MarkersAll g l ?len room (map marker_entry es)\<rparr>"
  have "rbind (add_markers conv alloc es (MarkersAll_new id1 id2 l g room)) MarkersAll_finalize = Inr ?m"
    using assms(2,3) entries_size [OF assms(1)]
    by (simp add: MarkersAll_new_def pre_send_def add_markers_ok MarkersAll_finalize_def setup_header_def skip del: map_map)
  moreover obtain cs where cs: "marker_chunks conv alloc (map marker_entry es) = Inr cs" "content cs = ?b"
    using marker_chunks_ok by blast
  moreover define ds where "ds = Many (bytes32 g) # Many (bytes32 l) # Many (bytes32 ?len) # cs"
  moreover have fill: "marker_fill conv alloc (m_body ?m) = Inr ds"
    using cs(1) by (simp add: MarkersAll_fill_def ds_def)
  moreover have len: "length (content ds) = 12 + length ?b" using cs(2) by (simp add: ds_def)
  moreover have "\<exists>c. MarkersAll_read own (?h @ content ds @ rest) (16 + int (length (content ds))) =
       Inr \<lparr>m_type = ?ty, m_header = ?h, m_body = MarkersAll_received g l ?len c\<rparr> \<and> lists ?len c es" for own rest
  proof -
    obtain d n a es' where es: "es = (d, n, a) # es'" using assms(2) by (cases es) auto
    have ok: "marker_ok (d, n, a)" using assms(1) es by simp
    define rest' where "rest' = (if own then rest else [])"
    have b: "?b @ rest' = marker_bytes (d, n, a) @ concat (map marker_bytes es') @ rest'" by (simp add: es)
    obtain c where c: "read_names 0 (?b @ rest') = Inr c" "seen_at c (d, n, a)" "m_index c = 0" "m_bufp c = ?b @ rest'"
      "28 + (m_arrival_len (mc_name c) + m_arrival_len (mc_agename c)) = length (marker_bytes (d, n, a))"
      using names_here [OF ok b, of 0] by blast
    have u: "unat ?len = length es" using assms(4) by (simp add: unat_of_nat)
    have "lists ?len c ((d, n, a) # es')"
      by (rule lists_on [where rest = rest']) (use assms(1) c u in \<open>simp_all add: es\<close>)
    moreover have "MarkersAll_read own (?h @ content ds @ rest) (16 + int (length (content ds))) =
        Inr \<lparr>m_type = ?ty, m_header = ?h, m_body = MarkersAll_received g l ?len c\<rparr>"
      using c(1) cs(2) len unfolding rest'_def
      by (cases own) (simp_all add: ds_def MarkersAll_read_def Marker_read_def post_receive_def skip nat_add_distrib)
    ultimately show ?thesis using es by blast
  qed
  ultimately show ?thesis by (intro exI [of _ ?m] exI [of _ ds]) simp
qed



lemma markers_delivered:
  assumes "list_all marker_ok es" and "es \<noteq> []" and "length es \<le> room" and "length es < 2 ^ 32"
  shows "delivered (rbind (add_markers conv alloc es (MarkersAll_new id1 id2 l g room)) MarkersAll_finalize)
    (\<lambda>_. marker_fill conv alloc) (MarkersAll_read own) same_marker"
proof -
  obtain m cs where m: "rbind (add_markers conv alloc es (MarkersAll_new id1 id2 l g room)) MarkersAll_finalize = Inr m"
    "marker_fill conv alloc (m_body m) = Inr cs" "m_type m = MARKER_DUMP OR FROM_SERVER"
    "m_body m = MarkersAll g l (of_nat (length es)) room (map marker_entry es)"
    "m_header m = setup_header (MARKER_DUMP OR FROM_SERVER) id1 id2 (length (content cs))"
    and r: "\<And>own rest. \<exists>c. MarkersAll_read own (m_header m @ content cs @ rest) (16 + int (length (content cs))) =
       Inr \<lparr>m_type = MARKER_DUMP OR FROM_SERVER, m_header = m_header m, m_body = MarkersAll_received g l (of_nat (length es)) c\<rparr> \<and>
       lists (of_nat (length es)) c es"
    using markers_listed_lem [OF assms, of conv alloc id1 id2 l g] by blast
  have "same_marker (m_body m) (MarkersAll_received g l (of_nat (length es)) c)" if "lists (of_nat (length es)) c es" for c
    using that by (auto simp: m(4))
  then have "arrives m (marker_fill conv alloc (m_body m)) (MarkersAll_read own) same_marker"
    unfolding arrives_def m(2,3) using m(5) r by fastforce
  then show ?thesis unfolding m(1) by (auto simp: delivered_def)
qed

text \<open>Without markers the receiver looks for the strings of the first one behind its buffer.\<close>

theorem no_markers_overread:
  assumes "marker_fill conv alloc (m_body (MarkersAll_new id1 id2 l g room)) = Inr cs"
  shows "MarkersAll_read False (m_header (MarkersAll_new id1 id2 l g room) @ content cs @ rest) (16 + int (length (content cs))) =
    Inl Out_Of_Bounds"
  using assms by (auto simp: MarkersAll_new_def pre_send_def MarkersAll_fill_def MarkersAll_read_def Marker_read_def
      post_receive_def read_names_def skip slice_def)

text \<open>One marker more than was expected is written behind the vector.\<close>

theorem marker_too_many:
  assumes "length es = room"
  shows "rbind (add_markers conv alloc es (MarkersAll_new id1 id2 l g room)) (MarkersAll_add_marker conv alloc d n a) = Inl Out_Of_Bounds"
  using add_markers_ok [of "[]" es room conv alloc] assms by (simp add: MarkersAll_new_def pre_send_def MarkersAll_add_marker_def)

text \<open>A game without a name: the string has two bytes, but three are sent.\<close>

theorem game_without_name_overreads:
  "\<exists>m. MarkerGetGame_new conv alloc id1 id2 s g e l ty uuid None = Inr m \<and> marker_fill conv alloc (m_body m) = Inl Out_Of_Bounds"
  if "\<forall>u. uuid = Some u \<longrightarrow> length u = 16"
proof -
  have "text_len conv alloc False True empty_string = Inr 3" "text_field conv alloc False True empty_string = Inl Out_Of_Bounds"
    by (simp_all add: text_field_def text_len_def send_len_def get_str_def desired_type_def empty_string_def deref_def
        convert_def choose_source_def new_text_def slice_def bytes16_def pred_size_def Let_def)
  then show ?thesis using that
    by (cases uuid) (simp_all add: MarkerGetGame_new_def MarkerGetGame_fill_def slice_here pre_send_def)
qed

section \<open>The captured markers arrive\<close>

definition add_captured :: "(u32 \<times> u32) list \<Rightarrow> marker_body backend_message \<Rightarrow> marker_body backend_message" where
  "add_captured es m = foldl (\<lambda>m (number, val). MarkersCaptured_add_marker number val m) m es"

lemma add_captured_ok:
  "add_captured es \<lparr>m_type = ty, m_header = h, m_body = MarkersCaptured r l len ms\<rparr> =
    \<lparr>m_type = ty, m_header = h, m_body = MarkersCaptured r l len (ms @ take (unat len - length ms) es)\<rparr>"
proof (induction es arbitrary: ms)
  case (Cons e es)
  show ?case
  proof (cases "length ms < unat len")
    case True
    then have "unat len - length ms = Suc (unat len - length (ms @ [e]))" by simp
    with True Cons.IH [of "ms @ [e]"] show ?thesis
      by (cases e) (simp add: add_captured_def MarkersCaptured_add_marker_def)
  next
    case False
    with Cons.IH [of ms] show ?thesis by (cases e) (simp add: add_captured_def MarkersCaptured_add_marker_def)
  qed
qed (simp add: add_captured_def)

lemma length_captured: "length (concat (map captured_bytes es)) = 8 * length es"
  by (induction es) auto

text \<open>At most as many are sent as were announced, and the number says how many.\<close>

lemma captured_listed_lem:
  assumes "n < 2 ^ 32"
  shows "\<exists>m cs. MarkersCaptured_finalize (add_captured es (MarkersCaptured_new id1 id2 l g n)) = Inr m \<and>
    marker_fill conv alloc (m_body m) = Inr cs \<and> m_type m = MARKER_STATE OR FROM_SERVER \<and>
    m_body m = MarkersCaptured g l (of_nat (min n (length es))) (take n es) \<and>
    m_header m = setup_header (MARKER_STATE OR FROM_SERVER) id1 id2 (length (content cs)) \<and>
    (\<forall>rest. MarkersCaptured_read (m_header m @ content cs @ rest) (16 + int (length (content cs))) =
       Inr \<lparr>m_type = MARKER_STATE OR FROM_SERVER, m_header = m_header m,
         m_body = MarkersCaptured_received g l (of_nat (min n (length es))) (concat (map captured_bytes (take n es)) @ rest)\<rparr>)"
proof -
  let ?ty = "MARKER_STATE OR FROM_SERVER" and ?es = "take n es"
  let ?h = "setup_header ?ty id1 id2 (12 + 8 * length ?es)"
  let ?m = "\<lparr>m_type = ?ty, m_header = ?h, m_body = MarkersCaptured g l (of_nat (length ?es)) ?es\<rparr>"
  let ?cs = "[Many (bytes32 g), Many (bytes32 l), Many (bytes32 (of_nat (length ?es)))] @
    (if ?es = [] then [] else [Many (concat (map captured_bytes ?es))])"
  have u: "unat (of_nat n :: u32) = n" using assms by (simp add: unat_of_nat)
  have f: "(\<lambda>(number, val). bytes32 number @ bytes32 val) = captured_bytes" by (auto simp: fun_eq_iff)
  have fin: "MarkersCaptured_finalize (add_captured es (MarkersCaptured_new id1 id2 l g n)) = Inr ?m"
    by (cases "?es = []") (auto simp: MarkersCaptured_new_def pre_send_def add_captured_ok u MarkersCaptured_finalize_def
        Let_def setup_header_def skip mult.commute)
  have fill: "marker_fill conv alloc (m_body ?m) = Inr ?cs" by (simp add: MarkersCaptured_fill_def f)
  have c: "content ?cs = bytes32 g @ bytes32 l @ bytes32 (of_nat (length ?es)) @ concat (map captured_bytes ?es)"
    by simp
  have read: "MarkersCaptured_read (?h @ content ?cs @ rest) (16 + int (length (content ?cs))) =
       Inr \<lparr>m_type = ?ty, m_header = ?h,
         m_body = MarkersCaptured_received g l (of_nat (length ?es)) (concat (map captured_bytes ?es) @ rest)\<rparr>" for rest
    unfolding c by (simp add: MarkersCaptured_read_def Marker_read_def post_receive_def skip del: length_take)
  have len: "length (content ?cs) = 12 + 8 * length ?es" unfolding c by (simp add: length_captured del: length_take)
  have n: "min n (length es) = length ?es" by (simp add: min.commute)
  have h: "m_header ?m = ?h" by simp
  show ?thesis
    unfolding n
  proof (intro exI conjI allI)
    show "MarkersCaptured_finalize (add_captured es (MarkersCaptured_new id1 id2 l g n)) = Inr ?m" by (rule fin)
    show "marker_fill conv alloc (m_body ?m) = Inr ?cs" by (rule fill)
    show "m_type ?m = ?ty" by simp
    show "m_body ?m = MarkersCaptured g l (of_nat (length ?es)) ?es" by simp
    show "m_header ?m = setup_header ?ty id1 id2 (length (content ?cs))" unfolding h len ..
  qed (unfold h, rule read)
qed

lemma captured_delivered:
  assumes "n < 2 ^ 32"
  shows "delivered (MarkersCaptured_finalize (add_captured es (MarkersCaptured_new id1 id2 l g n)))
    (\<lambda>_. marker_fill conv alloc) MarkersCaptured_read same_marker"
proof -
  obtain m cs where m: "MarkersCaptured_finalize (add_captured es (MarkersCaptured_new id1 id2 l g n)) = Inr m"
    "marker_fill conv alloc (m_body m) = Inr cs" "m_type m = MARKER_STATE OR FROM_SERVER"
    "m_body m = MarkersCaptured g l (of_nat (min n (length es))) (take n es)"
    "m_header m = setup_header (MARKER_STATE OR FROM_SERVER) id1 id2 (length (content cs))"
    and r: "\<And>rest. MarkersCaptured_read (m_header m @ content cs @ rest) (16 + int (length (content cs))) =
       Inr \<lparr>m_type = MARKER_STATE OR FROM_SERVER, m_header = m_header m,
         m_body = MarkersCaptured_received g l (of_nat (min n (length es))) (concat (map captured_bytes (take n es)) @ rest)\<rparr>"
    using captured_listed_lem [OF assms, of es id1 id2 l g conv alloc] by blast
  have "same_marker (m_body m)
      (MarkersCaptured_received g l (of_nat (min n (length es))) (concat (map captured_bytes (take n es)) @ rest))" for rest
    by (auto simp: m(4))
  then have "arrives m (marker_fill conv alloc (m_body m)) MarkersCaptured_read same_marker"
    unfolding arrives_def m(2,3) using m(5) r by fastforce
  then show ?thesis unfolding m(1) by (auto simp: delivered_def)
qed

text \<open>A request that is sent back keeps its content.\<close>

lemma changed_header:
  "m_header m = setup_header (m_type m) id1 id2 n \<Longrightarrow>
   m_header (change_to_server m) = setup_header (m_type m OR FROM_SERVER) id1 id2 n \<and>
   m_body (change_to_server m) = m_body m"
  by (simp add: change_to_server_def setup_header_def Let_def)

section \<open>The factory\<close>

text \<open>The cases of \<open>BackendMessage::make_if_enough\<close> for these classes.\<close>

definition marker_make :: "bool \<Rightarrow> u32 \<Rightarrow> byte list \<Rightarrow> int \<Rightarrow> marker_body backend_message res option" where
  "marker_make own ty buf n =
     (if ty = MARKER_NEWGAME \<or> ty = MARKER_NEWGAME OR FROM_SERVER then Some (MarkerGetGame_read own ty buf n)
      else if ty = MARKER_ADD \<or> ty = MARKER_ADD OR FROM_SERVER then Some (MarkerAdd_read own ty buf n)
      else if ty = MARKER_DUMP OR FROM_SERVER then Some (MarkersAll_read own buf n)
      else if ty = MARKER_STATE OR FROM_SERVER then Some (MarkersCaptured_read buf n)
      else if ty = MARKER_GAME_RENAME \<or> ty = MARKER_GAME_RENAME OR FROM_SERVER then Some (MarkerGameRename_read own ty buf n)
      else if ty = MARKER_GAME_DELETE \<or> ty = MARKER_GAME_DELETE OR FROM_SERVER then Some (MarkerGameDelete_read ty buf n)
      else if ty = MARKER_RENAME \<or> ty = MARKER_RENAME OR FROM_SERVER then Some (MarkerGameRenameMarker_read own ty buf n)
      else if ty = MARKER_DELETE \<or> ty = MARKER_DELETE OR FROM_SERVER then Some (MarkerGameDeleteMarker_read ty buf n)
      else if ty = MARKER_CAPTURE \<or> ty = MARKER_CAPTURE OR FROM_SERVER then Some (MarkerGameCaptureMarker_read ty buf n)
      else if ty = MARKER_GAME_STOP \<or> ty = MARKER_GAME_STOP OR FROM_SERVER then Some (MarkerGameStop_read ty buf n)
      else None)"

lemmas marker_codes = MARKER_DUMP_def MARKER_STATE_def MARKER_NEWGAME_def MARKER_GAME_STOP_def MARKER_GAME_RENAME_def
  MARKER_GAME_DELETE_def MARKER_ADD_def MARKER_DELETE_def MARKER_RENAME_def MARKER_CAPTURE_def FROM_SERVER_def

lemma marker_dispatch:
  "marker_make own (MARKER_NEWGAME OR server_bit s) = (\<lambda>buf n. Some (MarkerGetGame_read own (MARKER_NEWGAME OR server_bit s) buf n))"
  "marker_make own (MARKER_ADD OR server_bit s) = (\<lambda>buf n. Some (MarkerAdd_read own (MARKER_ADD OR server_bit s) buf n))"
  "marker_make own (MARKER_DUMP OR FROM_SERVER) = (\<lambda>buf n. Some (MarkersAll_read own buf n))"
  "marker_make own (MARKER_STATE OR FROM_SERVER) = (\<lambda>buf n. Some (MarkersCaptured_read buf n))"
  "marker_make own (MARKER_GAME_RENAME OR server_bit s) =
    (\<lambda>buf n. Some (MarkerGameRename_read own (MARKER_GAME_RENAME OR server_bit s) buf n))"
  "marker_make own (MARKER_GAME_DELETE OR server_bit s) =
    (\<lambda>buf n. Some (MarkerGameDelete_read (MARKER_GAME_DELETE OR server_bit s) buf n))"
  "marker_make own (MARKER_RENAME OR server_bit s) =
    (\<lambda>buf n. Some (MarkerGameRenameMarker_read own (MARKER_RENAME OR server_bit s) buf n))"
  "marker_make own (MARKER_DELETE OR server_bit s) =
    (\<lambda>buf n. Some (MarkerGameDeleteMarker_read (MARKER_DELETE OR server_bit s) buf n))"
  "marker_make own (MARKER_CAPTURE OR server_bit s) =
    (\<lambda>buf n. Some (MarkerGameCaptureMarker_read (MARKER_CAPTURE OR server_bit s) buf n))"
  "marker_make own (MARKER_GAME_STOP OR server_bit s) =
    (\<lambda>buf n. Some (MarkerGameStop_read (MARKER_GAME_STOP OR server_bit s) buf n))"
  unfolding marker_make_def by (simp_all add: marker_codes server_bit_def)

inductive marker_sent :: "iconv \<Rightarrow> (nat \<Rightarrow> byte list) \<Rightarrow> marker_body backend_message \<Rightarrow> bool" for conv alloc where
  game: "MarkerGetGame_new conv alloc id1 id2 s g e l ty (Some uuid) (Some (C_str t)) = Inr m \<Longrightarrow> length uuid = 16 \<Longrightarrow> c_ok t \<Longrightarrow>
    marker_sent conv alloc m"
| add: "MarkerAdd_new conv alloc id1 id2 s g l (md_x d) (md_y d) (md_z d) (C_str t) (C_str a) (md_number d) = Inr m \<Longrightarrow>
    marker_ok (d, t, a) \<Longrightarrow> marker_sent conv alloc m"
| all: "rbind (add_markers conv alloc es (MarkersAll_new id1 id2 l g room)) MarkersAll_finalize = Inr m \<Longrightarrow> list_all marker_ok es \<Longrightarrow>
    es \<noteq> [] \<Longrightarrow> length es \<le> room \<Longrightarrow> length es < 2 ^ 32 \<Longrightarrow> marker_sent conv alloc m"
| captured: "MarkersCaptured_finalize (add_captured cs (MarkersCaptured_new id1 id2 l g n)) = Inr m \<Longrightarrow> n < 2 ^ 32 \<Longrightarrow>
    marker_sent conv alloc m"
| rename: "MarkerGameRename_new conv alloc id1 id2 s g l (C_str t) = Inr m \<Longrightarrow> c_ok t \<Longrightarrow> marker_sent conv alloc m"
| delete: "marker_sent conv alloc (MarkerGameDelete_new id1 id2 s g l)"
| rename_marker: "MarkerGameRenameMarker_new conv alloc id1 id2 s g l k (C_str t) = Inr m \<Longrightarrow> c_ok t \<Longrightarrow> marker_sent conv alloc m"
| delete_marker: "marker_sent conv alloc (MarkerGameDeleteMarker_new id1 id2 s g l k)"
| capture: "marker_sent conv alloc (MarkerGameCaptureMarker_new id1 id2 s g l p k v)"
| stop: "marker_sent conv alloc (MarkerGameStop_new id1 id2 s g l p)"

lemma marker_new_types:
  "MarkerGetGame_new conv alloc id1 id2 s g e l ty u n = Inr m \<Longrightarrow> m_type m = MARKER_NEWGAME OR server_bit s"
  "MarkerAdd_new conv alloc id1 id2 s g l x y z n' a k = Inr m \<Longrightarrow> m_type m = MARKER_ADD OR server_bit s"
  "MarkerGameRename_new conv alloc id1 id2 s g l n' = Inr m \<Longrightarrow> m_type m = MARKER_GAME_RENAME OR server_bit s"
  "m_type (MarkerGameDelete_new id1 id2 s g l) = MARKER_GAME_DELETE OR server_bit s"
  "MarkerGameRenameMarker_new conv alloc id1 id2 s g l k n' = Inr m \<Longrightarrow> m_type m = MARKER_RENAME OR server_bit s"
  "m_type (MarkerGameDeleteMarker_new id1 id2 s g l k) = MARKER_DELETE OR server_bit s"
  "m_type (MarkerGameCaptureMarker_new id1 id2 s g l p k v) = MARKER_CAPTURE OR server_bit s"
  "m_type (MarkerGameStop_new id1 id2 s g l p) = MARKER_GAME_STOP OR server_bit s"
  by (auto simp: MarkerGetGame_new_def MarkerAdd_new_def MarkerGameRename_new_def MarkerGameRenameMarker_new_def marker_fixed
      pre_send_def rbind_eq_Inr)

lemma finalize_types:
  "MarkersAll_finalize m = Inr m' \<Longrightarrow> m_type m' = m_type m"
  "MarkersCaptured_finalize m = Inr m' \<Longrightarrow> m_type m' = m_type m"
  by (auto simp: MarkersAll_finalize_def MarkersCaptured_finalize_def Let_def rbind_eq_Inr split: marker_body.splits if_splits)

lemmas marker_made =
  made_arrives [where mk = "marker_make own" and fill = "\<lambda>_. marker_fill conv alloc" and same = same_marker for conv alloc own]

lemma marker_sent_arrives:
  assumes "marker_sent conv alloc m"
  shows "\<exists>read. marker_make own (m_type m) = (\<lambda>buf n. Some (read buf n)) \<and>
    arrives m (marker_fill conv alloc (m_body m)) read same_marker"
  using assms
proof cases
  case (game id1 id2 s g e l ty uuid t)
  note d = game_delivered [OF game(3,2)]
  show ?thesis by (rule marker_made [OF d game(1) marker_new_types(1) [OF game(1)] marker_dispatch(1)])
next
  case (add id1 id2 s g l d t a)
  have "c_ok t" "c_ok a" "data_ok d" using add(2) by simp_all
  note d = marker_delivered [OF this]
  show ?thesis by (rule marker_made [OF d add(1) marker_new_types(2) [OF add(1)] marker_dispatch(2)])
next
  case (all es id1 id2 l g room)
  note d = markers_delivered [OF all(2,3,4,5)]
  have "m_type m = MARKER_DUMP OR FROM_SERVER"
    using all(1) add_markers_ok [of "[]" es room conv alloc] all(4) finalize_types(1)
    by (auto simp: rbind_eq_Inr MarkersAll_new_def pre_send_def)
  then show ?thesis by (rule marker_made [OF d all(1) _ marker_dispatch(3)])
next
  case (captured cs id1 id2 l g n)
  note d = captured_delivered [OF captured(2)]
  have "m_type m = MARKER_STATE OR FROM_SERVER"
    using finalize_types(2) [OF captured(1)] by (simp add: MarkersCaptured_new_def pre_send_def add_captured_ok)
  then show ?thesis by (rule marker_made [OF d captured(1) _ marker_dispatch(4)])
next
  case (rename id1 id2 s g l t)
  note d = rename_delivered [OF rename(2)]
  show ?thesis by (rule marker_made [OF d rename(1) marker_new_types(3) [OF rename(1)] marker_dispatch(5)])
next
  case (delete id1 id2 s g l)
  show ?thesis unfolding delete by (rule marker_made [OF marker_fixed_delivered(1) refl marker_new_types(4) marker_dispatch(6)])
next
  case (rename_marker id1 id2 s g l k t)
  note d = rename_marker_delivered [OF rename_marker(2)]
  show ?thesis by (rule marker_made [OF d rename_marker(1) marker_new_types(5) [OF rename_marker(1)] marker_dispatch(7)])
next
  case (delete_marker id1 id2 s g l k)
  show ?thesis unfolding delete_marker by (rule marker_made [OF marker_fixed_delivered(3) refl marker_new_types(6) marker_dispatch(8)])
next
  case (capture id1 id2 s g l p k v)
  show ?thesis unfolding capture by (rule marker_made [OF marker_fixed_delivered(4) refl marker_new_types(7) marker_dispatch(9)])
next
  case (stop id1 id2 s g l p)
  show ?thesis unfolding stop by (rule marker_made [OF marker_fixed_delivered(2) refl marker_new_types(8) marker_dispatch(10)])
qed

end
