(* ===== verification/Backend_Vault.thy ===== *)
theory Backend_Vault
  imports Backend_Writer Vault_Node
begin

text \<open>
  The vault messages (\<open>BackendMessage.cc\<close>).  The auth server passes on what a client sends, with the header
  of a backend message in front; the backend takes it apart and answers with messages that the auth
  server passes on to the client.
\<close>

text \<open>
  What \<open>VaultPassthrough_BackendMessage\<close> keeps.  With \<open>become_owner\<close> \<open>m_buf\<close> is the buffer that was read,
  with the header in it, and \<open>m_vault_offset\<close> is 16; otherwise it is a copy of the client's message.
\<close>

record vault_buf =
  m_vault_offset :: nat
  m_msgtype :: u16
  m_buf :: "byte list"
  m_buflen :: nat

datatype vault_body =
    VaultPassthrough vault_buf
  | VaultFetchRefs_To u16 u32 u32
  | VaultNode_To u16 u32 u32 "byte list" vault_node
  | VaultNodeFetch_To u16 u32 u32
  | VaultNodeFetch_From u32 u32 "vault_node option"
  | VaultRefChange_To u16 u32 u32 u32 u32
  | VaultInitAge_To u16 u32 "byte list" "byte list" uru_string uru_string uru_string uru_string u32 u32
  | VaultAgeList_To u16 u32 uru_string
  | VaultNodeSend u16 u32 u32
  | VaultSetAgePublic u16 u32 byte
  | VaultScoreGet_To u16 u32 u32 uru_string
  | VaultScoreGet_From u32 u32 u32 u32 "byte list option"
  | VaultScoreCreate u16 u32 u32 uru_string u32 u32
  | VaultScoreAddPoints u16 u32 u32 u32
  | VaultScoreXferPoints u16 u32 u32 u32 u32

definition VAULT_PASSTHRU :: u32 where "VAULT_PASSTHRU = 0x2000000"
definition VAULT_CREATENODE :: u32 where "VAULT_CREATENODE = 0x2000017"
definition VAULT_FETCH :: u32 where "VAULT_FETCH = 0x2000018"
definition VAULT_FETCHREFS :: u32 where "VAULT_FETCHREFS = 0x200001D"
definition VAULT_INIT_AGE :: u32 where "VAULT_INIT_AGE = 0x200001E"
definition VAULT_FINDNODE :: u32 where "VAULT_FINDNODE = 0x200001F"
definition VAULT_SAVENODE :: u32 where "VAULT_SAVENODE = 0x2000020"
definition VAULT_ADDREF :: u32 where "VAULT_ADDREF = 0x2000021"
definition VAULT_REMOVEREF :: u32 where "VAULT_REMOVEREF = 0x2000022"
definition VAULT_AGE_LIST :: u32 where "VAULT_AGE_LIST = 0x2000028"
definition VAULT_SCORE_CREATE :: u32 where "VAULT_SCORE_CREATE = 0x2000029"
definition VAULT_SCORE_GET :: u32 where "VAULT_SCORE_GET = 0x200002B"
definition VAULT_SCORE_ADD :: u32 where "VAULT_SCORE_ADD = 0x200002C"
definition VAULT_SCORE_XFER :: u32 where "VAULT_SCORE_XFER = 0x200002D"
definition VAULT_SENDNODE :: u32 where "VAULT_SENDNODE = 0x2008001"
definition VAULT_SET_AGE_PUBLIC :: u32 where "VAULT_SET_AGE_PUBLIC = 0x2008002"

abbreviation (input) Cli2Auth_VaultNodeCreate :: u16 where "Cli2Auth_VaultNodeCreate \<equiv> 0x19"
abbreviation (input) Cli2Auth_VaultNodeFetch :: u16 where "Cli2Auth_VaultNodeFetch \<equiv> 0x1A"
abbreviation (input) Cli2Auth_VaultNodeSave :: u16 where "Cli2Auth_VaultNodeSave \<equiv> 0x1B"
abbreviation (input) Cli2Auth_VaultNodeAdd :: u16 where "Cli2Auth_VaultNodeAdd \<equiv> 0x1D"
abbreviation (input) Cli2Auth_VaultNodeRemove :: u16 where "Cli2Auth_VaultNodeRemove \<equiv> 0x1E"
abbreviation (input) Cli2Auth_VaultFetchNodeRefs :: u16 where "Cli2Auth_VaultFetchNodeRefs \<equiv> 0x1F"
abbreviation (input) Cli2Auth_VaultInitAgeRequest :: u16 where "Cli2Auth_VaultInitAgeRequest \<equiv> 0x20"
abbreviation (input) Cli2Auth_VaultNodeFind :: u16 where "Cli2Auth_VaultNodeFind \<equiv> 0x21"
abbreviation (input) Cli2Auth_VaultSendNode :: u16 where "Cli2Auth_VaultSendNode \<equiv> 0x23"
abbreviation (input) Cli2Auth_GetPublicAgeList :: u16 where "Cli2Auth_GetPublicAgeList \<equiv> 0x29"
abbreviation (input) Cli2Auth_SetAgePublic :: u16 where "Cli2Auth_SetAgePublic \<equiv> 0x2A"
abbreviation (input) Cli2Auth_ScoreCreate :: u16 where "Cli2Auth_ScoreCreate \<equiv> 0x2E"
abbreviation (input) Cli2Auth_ScoreGetScores :: u16 where "Cli2Auth_ScoreGetScores \<equiv> 0x30"
abbreviation (input) Cli2Auth_ScoreAddPoints :: u16 where "Cli2Auth_ScoreAddPoints \<equiv> 0x31"
abbreviation (input) Cli2Auth_ScoreTransferPoints :: u16 where "Cli2Auth_ScoreTransferPoints \<equiv> 0x32"
abbreviation (input) Auth2Cli_VaultNodeFetched :: u16 where "Auth2Cli_VaultNodeFetched \<equiv> 0x18"
abbreviation (input) Auth2Cli_ScoreGetScoresReply :: u16 where "Auth2Cli_ScoreGetScoresReply \<equiv> 0x2B"

section \<open>The base class\<close>

definition VaultPassthrough_new :: "u32 \<Rightarrow> u32 \<Rightarrow> byte list \<Rightarrow> bool \<Rightarrow> vault_body backend_message" where
  "VaultPassthrough_new id1 id2 inbuf to_server =
     pre_send (VAULT_PASSTHRU OR server_bit (\<not> to_server)) id1 id2 (length inbuf)
       (VaultPassthrough \<lparr>m_vault_offset = 0, m_msgtype = (if 2 \<le> length inbuf then le16 inbuf else 0),
          m_buf = inbuf, m_buflen = length inbuf\<rparr>)"

text \<open>
  The copy that both receiving constructors make.  They differ in where the type is read: the public one
  forgets the offset.  \<open>m_buflen\<close> is unsigned, and so large for a message shorter than its header.
\<close>

definition vault_copy :: "bool \<Rightarrow> (nat \<Rightarrow> nat) \<Rightarrow> byte list \<Rightarrow> int \<Rightarrow> vault_buf res" where
  "vault_copy become_owner type_at inbuf in_len =
     (let offset = (if become_owner then 16 else 0);
          buflen = nat ((in_len - 16) mod 2 ^ 64)
      in rbind (if become_owner then Inr inbuf else slice 16 buflen inbuf) (\<lambda>buf.
         rbind (if 2 \<le> buflen then read16 buf (type_at offset) else Inr 0) (\<lambda>msgtype.
         Inr \<lparr>m_vault_offset = offset, m_msgtype = msgtype, m_buf = buf, m_buflen = buflen\<rparr>)))"

definition VaultPassthrough_read :: "bool \<Rightarrow> bool \<Rightarrow> byte list \<Rightarrow> int \<Rightarrow> vault_body backend_message res" where
  "VaultPassthrough_read to_server become_owner inbuf in_len =
     post_receive (VAULT_PASSTHRU OR server_bit (\<not> to_server)) inbuf
       (rbind (vault_copy become_owner (\<lambda>_. 0) inbuf in_len) (\<lambda>v. Inr (VaultPassthrough v)))"

definition VaultPassthrough_fill :: "vault_buf \<Rightarrow> chunk list res" where
  "VaultPassthrough_fill v = rbind (slice (m_vault_offset v) (m_buflen v) (m_buf v)) (\<lambda>bs. Inr [Many bs])"

definition passthrough_reqid :: "vault_buf \<Rightarrow> u32 res" where
  "passthrough_reqid v = read32 (m_buf v) (2 + m_vault_offset v)"

definition Vault_read ::
  "bool \<Rightarrow> byte list \<Rightarrow> int \<Rightarrow> (vault_buf \<Rightarrow> (u32 \<times> vault_body) res) \<Rightarrow> vault_body backend_message res" where
  "Vault_read become_owner inbuf in_len parse =
     rbind (slice 0 16 inbuf) (\<lambda>header.
     rbind (vault_copy become_owner (\<lambda>offset. offset) inbuf in_len) (\<lambda>v.
     rbind (parse v) (\<lambda>(ty, body). Inr \<lparr>m_type = ty, m_header = header, m_body = body\<rparr>)))"

section \<open>Nodes\<close>

text \<open>Those that keep nothing of the buffer have it read in place.\<close>

definition VaultFetchRefs_To_read :: "byte list \<Rightarrow> int \<Rightarrow> vault_body backend_message res" where
  "VaultFetchRefs_To_read inbuf in_len =
     Vault_read True inbuf in_len (\<lambda>v.
       rbind (read32 (m_buf v) (m_vault_offset v + 2)) (\<lambda>reqid.
       rbind (read32 (m_buf v) (m_vault_offset v + 6)) (\<lambda>node.
         Inr (VAULT_FETCHREFS, VaultFetchRefs_To (m_msgtype v) reqid node))))"

definition VaultFetchRefs_To_fill :: "u16 \<Rightarrow> u32 \<Rightarrow> u32 \<Rightarrow> chunk list res" where
  "VaultFetchRefs_To_fill msgtype reqid node = Inr [Many (bytes16 msgtype), Many (bytes32 reqid), Many (bytes32 node)]"

text \<open>The node is read without \<open>m_vault_offset\<close>.\<close>

definition VaultNode_To_read :: "bool \<Rightarrow> byte list \<Rightarrow> int \<Rightarrow> vault_body backend_message res" where
  "VaultNode_To_read become_owner inbuf in_len =
     Vault_read become_owner inbuf in_len (\<lambda>v.
       let ty = (if m_msgtype v = Cli2Auth_VaultNodeFind then VAULT_FINDNODE
                 else if m_msgtype v = Cli2Auth_VaultNodeSave then VAULT_SAVENODE
                 else if m_msgtype v = Cli2Auth_VaultNodeCreate then VAULT_CREATENODE
                 else VAULT_PASSTHRU)
       in rbind (read32 (m_buf v) (m_vault_offset v + 2)) (\<lambda>reqid.
          rbind (if ty = VAULT_SAVENODE
                 then rbind (read32 (m_buf v) (m_vault_offset v + 6)) (\<lambda>nid.
                      rbind (slice (m_vault_offset v + 10) 16 (m_buf v)) (\<lambda>uuid. Inr (nid, uuid, 26)))
                 else Inr (0, replicate 16 0, 6)) (\<lambda>(nid, uuid, off).
          rbind (VaultNode_parse (drop off (m_buf v)) False) (\<lambda>node.
            Inr (ty, VaultNode_To (m_msgtype v) reqid nid uuid node)))))"

definition VaultNode_To_fill :: "u32 \<Rightarrow> u16 \<Rightarrow> u32 \<Rightarrow> u32 \<Rightarrow> byte list \<Rightarrow> vault_node \<Rightarrow> chunk list res" where
  "VaultNode_To_fill ty msgtype reqid nid uuid node =
     Inr ([Many (bytes16 msgtype), Many (bytes32 reqid)] @
       (if ty = VAULT_SAVENODE then [Many (bytes32 nid), Many uuid] else []) @ [Sub (node_message node)])"

definition VaultNodeFetch_To_read :: "byte list \<Rightarrow> int \<Rightarrow> vault_body backend_message res" where
  "VaultNodeFetch_To_read inbuf in_len =
     Vault_read True inbuf in_len (\<lambda>v.
       rbind (read32 (m_buf v) (m_vault_offset v + 2)) (\<lambda>reqid.
       rbind (read32 (m_buf v) (m_vault_offset v + 6)) (\<lambda>node.
         Inr (VAULT_FETCH, VaultNodeFetch_To (m_msgtype v) reqid node))))"

definition VaultNodeFetch_To_fill :: "u16 \<Rightarrow> u32 \<Rightarrow> u32 \<Rightarrow> chunk list res" where
  "VaultNodeFetch_To_fill msgtype reqid node = Inr [Many (bytes16 msgtype), Many (bytes32 reqid), Many (bytes32 node)]"

definition VaultNodeFetch_From_new ::
  "u32 \<Rightarrow> u32 \<Rightarrow> u32 \<Rightarrow> u32 \<Rightarrow> vault_node option \<Rightarrow> vault_body backend_message res" where
  "VaultNodeFetch_From_new id1 id2 reqid result node =
     (let make = (\<lambda>n. pre_send (VAULT_PASSTHRU OR FROM_SERVER) id1 id2 n (VaultNodeFetch_From reqid result node))
      in if result = 0
         then (case node of None \<Rightarrow> Inl Null_Pointer | Some nd \<Rightarrow> Inr (make (10 + unat (message_len nd))))
         else Inr (make 14))"

definition VaultNodeFetch_From_fill :: "u32 \<Rightarrow> u32 \<Rightarrow> vault_node option \<Rightarrow> chunk list res" where
  "VaultNodeFetch_From_fill reqid result node =
     rbind (if result = 0 then (case node of None \<Rightarrow> Inl Null_Pointer | Some nd \<Rightarrow> Inr (Sub (node_message nd)))
            else Inr (Many (bytes32 0))) (\<lambda>last.
       Inr [Many (bytes16 Auth2Cli_VaultNodeFetched), Many (bytes32 reqid), Many (bytes32 result), last])"

definition VaultRefChange_To_read :: "byte list \<Rightarrow> int \<Rightarrow> vault_body backend_message res" where
  "VaultRefChange_To_read inbuf in_len =
     Vault_read True inbuf in_len (\<lambda>v.
       let is_add = (m_msgtype v = Cli2Auth_VaultNodeAdd);
           off = m_vault_offset v + 2
       in rbind (read32 (m_buf v) off) (\<lambda>reqid.
          rbind (read32 (m_buf v) (off + 4)) (\<lambda>parent.
          rbind (read32 (m_buf v) (off + 8)) (\<lambda>child.
          rbind (if is_add then read32 (m_buf v) (off + 12) else Inr 0) (\<lambda>owner.
            Inr (if is_add then VAULT_ADDREF else VAULT_REMOVEREF, VaultRefChange_To (m_msgtype v) reqid parent child owner))))))"

definition VaultRefChange_To_fill :: "u16 \<Rightarrow> u32 \<Rightarrow> u32 \<Rightarrow> u32 \<Rightarrow> u32 \<Rightarrow> chunk list res" where
  "VaultRefChange_To_fill msgtype reqid parent child owner =
     Inr ([Many (bytes16 msgtype), Many (bytes32 reqid), Many (bytes32 parent), Many (bytes32 child)] @
       (if msgtype = Cli2Auth_VaultNodeAdd then [Many (bytes32 owner)] else []))"

text \<open>What is written has the two numbers in the other order.\<close>

definition VaultNodeSend_read :: "byte list \<Rightarrow> int \<Rightarrow> vault_body backend_message res" where
  "VaultNodeSend_read inbuf in_len =
     Vault_read True inbuf in_len (\<lambda>v.
       rbind (read32 (m_buf v) (m_vault_offset v + 2)) (\<lambda>nodeid.
       rbind (read32 (m_buf v) (m_vault_offset v + 6)) (\<lambda>player.
         Inr (VAULT_SENDNODE, VaultNodeSend (m_msgtype v) player nodeid))))"

definition VaultNodeSend_fill :: "u16 \<Rightarrow> u32 \<Rightarrow> u32 \<Rightarrow> chunk list res" where
  "VaultNodeSend_fill msgtype player nodeid = Inr [Many (bytes16 msgtype), Many (bytes32 player), Many (bytes32 nodeid)]"

section \<open>Ages\<close>

text \<open>The strings of a new age are read without a bound, one after the other.\<close>

definition next_wide :: "byte list \<Rightarrow> nat \<Rightarrow> (uru_string \<times> nat) res" where
  "next_wide buf off = rbind (UruString_buf (drop off buf) (-1) True True False) (\<lambda>u. Inr (u, off + m_arrival_len u))"

definition VaultInitAge_To_read :: "bool \<Rightarrow> byte list \<Rightarrow> int \<Rightarrow> vault_body backend_message res" where
  "VaultInitAge_To_read become_owner inbuf in_len =
     Vault_read become_owner inbuf in_len (\<lambda>v.
       let off = m_vault_offset v + 2
       in rbind (read32 (m_buf v) off) (\<lambda>reqid.
          rbind (slice (off + 4) 16 (m_buf v)) (\<lambda>createuuid.
          rbind (slice (off + 20) 16 (m_buf v)) (\<lambda>parentuuid.
          rbind (next_wide (m_buf v) (off + 36)) (\<lambda>(filename, off).
          rbind (next_wide (m_buf v) off) (\<lambda>(inst, off).
          rbind (next_wide (m_buf v) off) (\<lambda>(username, off).
          rbind (next_wide (m_buf v) off) (\<lambda>(dispname, off).
          rbind (read32 (m_buf v) off) (\<lambda>unk.
          rbind (read32 (m_buf v) (off + 4)) (\<lambda>nid.
            Inr (VAULT_INIT_AGE,
              VaultInitAge_To (m_msgtype v) reqid createuuid parentuuid filename inst username dispname unk nid)))))))))))"

definition no_null_field :: "iconv \<Rightarrow> (nat \<Rightarrow> byte list) \<Rightarrow> uru_string \<Rightarrow> chunk res" where
  "no_null_field conv alloc u = rbind (text_field conv alloc True False u) (\<lambda>bs. Inr (Many bs))"

definition VaultInitAge_To_fill ::
  "iconv \<Rightarrow> (nat \<Rightarrow> byte list) \<Rightarrow> u16 \<Rightarrow> u32 \<Rightarrow> byte list \<Rightarrow> byte list \<Rightarrow> uru_string \<Rightarrow> uru_string \<Rightarrow> uru_string \<Rightarrow> uru_string \<Rightarrow>
   u32 \<Rightarrow> u32 \<Rightarrow> chunk list res" where
  "VaultInitAge_To_fill conv alloc msgtype reqid createuuid parentuuid filename inst username dispname unk nid =
     rbind (no_null_field conv alloc filename) (\<lambda>c1. rbind (no_null_field conv alloc inst) (\<lambda>c2.
     rbind (no_null_field conv alloc username) (\<lambda>c3. rbind (no_null_field conv alloc dispname) (\<lambda>c4.
       Inr [Many (bytes16 msgtype), Many (bytes32 reqid), Many createuuid, Many parentuuid, c1, c2, c3, c4,
            Many (bytes32 unk), Many (bytes32 nid)]))))"

text \<open>
  The bound for a string counts from the start of the message that was read, header and all, also where
  \<open>m_buf\<close> is the copy without the header.
\<close>

definition VaultAgeList_To_read :: "bool \<Rightarrow> byte list \<Rightarrow> int \<Rightarrow> vault_body backend_message res" where
  "VaultAgeList_To_read become_owner inbuf in_len =
     Vault_read become_owner inbuf in_len (\<lambda>v.
       let off = m_vault_offset v + 6
       in rbind (read32 (m_buf v) (m_vault_offset v + 2)) (\<lambda>reqid.
          rbind (UruString_buf (drop off (m_buf v)) (in_len - int off) True True False) (\<lambda>filename.
            Inr (VAULT_AGE_LIST, VaultAgeList_To (m_msgtype v) reqid filename))))"

definition VaultAgeList_To_fill :: "iconv \<Rightarrow> (nat \<Rightarrow> byte list) \<Rightarrow> u16 \<Rightarrow> u32 \<Rightarrow> uru_string \<Rightarrow> chunk list res" where
  "VaultAgeList_To_fill conv alloc msgtype reqid filename =
     rbind (no_null_field conv alloc filename) (\<lambda>c. Inr [Many (bytes16 msgtype), Many (bytes32 reqid), c])"

definition VaultSetAgePublic_read :: "byte list \<Rightarrow> int \<Rightarrow> vault_body backend_message res" where
  "VaultSetAgePublic_read inbuf in_len =
     Vault_read True inbuf in_len (\<lambda>v.
       rbind (read32 (m_buf v) (m_vault_offset v + 2)) (\<lambda>nodeid.
       rbind (get8 (m_buf v) (m_vault_offset v + 6)) (\<lambda>pub.
         Inr (VAULT_SET_AGE_PUBLIC, VaultSetAgePublic (m_msgtype v) nodeid pub))))"

definition VaultSetAgePublic_fill :: "u16 \<Rightarrow> u32 \<Rightarrow> byte \<Rightarrow> chunk list res" where
  "VaultSetAgePublic_fill msgtype nodeid pub = Inr [Many (bytes16 msgtype), Many (bytes32 nodeid), Many [pub]]"

section \<open>Scores\<close>

definition VaultScoreGet_To_read :: "bool \<Rightarrow> byte list \<Rightarrow> int \<Rightarrow> vault_body backend_message res" where
  "VaultScoreGet_To_read become_owner inbuf in_len =
     Vault_read become_owner inbuf in_len (\<lambda>v.
       let off = m_vault_offset v + 10
       in rbind (read32 (m_buf v) (m_vault_offset v + 2)) (\<lambda>reqid.
          rbind (read32 (m_buf v) (m_vault_offset v + 6)) (\<lambda>holder.
          rbind (UruString_buf (drop off (m_buf v)) (in_len - int off) True True False) (\<lambda>name.
            Inr (VAULT_SCORE_GET, VaultScoreGet_To (m_msgtype v) reqid holder name)))))"

definition VaultScoreGet_To_fill :: "iconv \<Rightarrow> (nat \<Rightarrow> byte list) \<Rightarrow> u16 \<Rightarrow> u32 \<Rightarrow> u32 \<Rightarrow> uru_string \<Rightarrow> chunk list res" where
  "VaultScoreGet_To_fill conv alloc msgtype reqid holder name =
     rbind (text_field conv alloc True True name) (\<lambda>text.
       Inr [Many (bytes16 msgtype), Many (bytes32 reqid), Many (bytes32 holder), Many text])"

definition VaultScoreGet_From_new_error :: "u32 \<Rightarrow> u32 \<Rightarrow> u32 \<Rightarrow> u32 \<Rightarrow> vault_body backend_message" where
  "VaultScoreGet_From_new_error id1 id2 reqid result =
     pre_send (VAULT_PASSTHRU OR FROM_SERVER) id1 id2 18 (VaultScoreGet_From reqid result 0 0 None)"

definition VaultScoreGet_From_new ::
  "iconv \<Rightarrow> (nat \<Rightarrow> byte list) \<Rightarrow> u32 \<Rightarrow> u32 \<Rightarrow> u32 \<Rightarrow> u32 \<Rightarrow> u32 \<Rightarrow> u32 \<Rightarrow> u32 \<Rightarrow> u32 \<Rightarrow> u32 \<Rightarrow> uru_string \<Rightarrow>
   vault_body backend_message res" where
  "VaultScoreGet_From_new conv alloc id1 id2 reqid result score_id holder create_time ty score_value score_name =
     rbind (send_len conv alloc score_name False True True) (\<lambda>(slen, score_name).
     rbind (get_str conv alloc score_name False True True False) (\<lambda>(str, _).
     rbind (slice 0 slen str) (\<lambda>text.
       let buf = bytes32 score_id @ bytes32 holder @ bytes32 create_time @ bytes32 ty @ bytes32 score_value @
                 bytes32 (of_nat slen) @ text
       in Inr (pre_send (VAULT_PASSTHRU OR FROM_SERVER) id1 id2 (18 + (24 + slen))
                (VaultScoreGet_From reqid result 1 (of_nat (24 + slen)) (Some buf))))))"

text \<open>Without a buffer, the length that is sent is 0.\<close>

definition VaultScoreGet_From_fill :: "u32 \<Rightarrow> u32 \<Rightarrow> u32 \<Rightarrow> u32 \<Rightarrow> byte list option \<Rightarrow> chunk list res" where
  "VaultScoreGet_From_fill reqid result code msglen buf =
     Inr ([Many (bytes16 Auth2Cli_ScoreGetScoresReply), Many (bytes32 reqid), Many (bytes32 result), Many (bytes32 code),
           Many (bytes32 (if buf = None then 0 else msglen))] @ (case buf of None \<Rightarrow> [] | Some bs \<Rightarrow> [Many bs]))"

text \<open>The offset of the two numbers behind the name has \<open>m_vault_offset\<close> in it twice.\<close>

definition VaultScoreCreate_read :: "bool \<Rightarrow> byte list \<Rightarrow> int \<Rightarrow> vault_body backend_message res" where
  "VaultScoreCreate_read become_owner inbuf in_len =
     Vault_read become_owner inbuf in_len (\<lambda>v.
       let off = m_vault_offset v + 10
       in rbind (read32 (m_buf v) (m_vault_offset v + 2)) (\<lambda>reqid.
          rbind (read32 (m_buf v) (m_vault_offset v + 6)) (\<lambda>holder.
          rbind (UruString_buf (drop off (m_buf v)) (in_len - int off) True True False) (\<lambda>name.
          let off = off + m_arrival_len name
          in rbind (read32 (m_buf v) (m_vault_offset v + off)) (\<lambda>ty.
             rbind (read32 (m_buf v) (m_vault_offset v + (off + 4))) (\<lambda>val.
               Inr (VAULT_SCORE_CREATE, VaultScoreCreate (m_msgtype v) reqid holder name ty val)))))))"

definition VaultScoreCreate_fill ::
  "iconv \<Rightarrow> (nat \<Rightarrow> byte list) \<Rightarrow> u16 \<Rightarrow> u32 \<Rightarrow> u32 \<Rightarrow> uru_string \<Rightarrow> u32 \<Rightarrow> u32 \<Rightarrow> chunk list res" where
  "VaultScoreCreate_fill conv alloc msgtype reqid holder name ty val =
     rbind (text_field conv alloc True True name) (\<lambda>text.
       Inr [Many (bytes16 msgtype), Many (bytes32 reqid), Many (bytes32 holder), Many text, Many (bytes32 ty), Many (bytes32 val)])"

definition VaultScoreAddPoints_read :: "bool \<Rightarrow> byte list \<Rightarrow> int \<Rightarrow> vault_body backend_message res" where
  "VaultScoreAddPoints_read become_owner inbuf in_len =
     Vault_read become_owner inbuf in_len (\<lambda>v.
       rbind (read32 (m_buf v) (m_vault_offset v + 2)) (\<lambda>reqid.
       rbind (read32 (m_buf v) (m_vault_offset v + 6)) (\<lambda>scoreid.
       rbind (read32 (m_buf v) (m_vault_offset v + 10)) (\<lambda>delta.
         Inr (VAULT_SCORE_ADD, VaultScoreAddPoints (m_msgtype v) reqid scoreid delta)))))"

definition VaultScoreAddPoints_fill :: "u16 \<Rightarrow> u32 \<Rightarrow> u32 \<Rightarrow> u32 \<Rightarrow> chunk list res" where
  "VaultScoreAddPoints_fill msgtype reqid scoreid delta =
     Inr [Many (bytes16 msgtype), Many (bytes32 reqid), Many (bytes32 scoreid), Many (bytes32 delta)]"

definition VaultScoreXferPoints_read :: "bool \<Rightarrow> byte list \<Rightarrow> int \<Rightarrow> vault_body backend_message res" where
  "VaultScoreXferPoints_read become_owner inbuf in_len =
     Vault_read become_owner inbuf in_len (\<lambda>v.
       rbind (read32 (m_buf v) (m_vault_offset v + 2)) (\<lambda>reqid.
       rbind (read32 (m_buf v) (m_vault_offset v + 6)) (\<lambda>scoreid.
       rbind (read32 (m_buf v) (m_vault_offset v + 10)) (\<lambda>destid.
       rbind (read32 (m_buf v) (m_vault_offset v + 14)) (\<lambda>delta.
         Inr (VAULT_SCORE_XFER, VaultScoreXferPoints (m_msgtype v) reqid scoreid destid delta))))))"

definition VaultScoreXferPoints_fill :: "u16 \<Rightarrow> u32 \<Rightarrow> u32 \<Rightarrow> u32 \<Rightarrow> u32 \<Rightarrow> chunk list res" where
  "VaultScoreXferPoints_fill msgtype reqid scoreid destid delta =
     Inr [Many (bytes16 msgtype), Many (bytes32 reqid), Many (bytes32 scoreid), Many (bytes32 destid), Many (bytes32 delta)]"

section \<open>The factory\<close>

text \<open>\<open>VaultPassthrough_BackendMessage::make_if_enough\<close>: \<open>None\<close> for a type it does not know.  \<open>len\<close> bytes are there.\<close>

definition VaultPassthrough_make :: "bool \<Rightarrow> byte list \<Rightarrow> int \<Rightarrow> vault_body backend_message option res" where
  "VaultPassthrough_make become_owner buf want_len =
     (if length buf < 18 then Inr None
      else rbind (read16 buf 16) (\<lambda>msgtype.
        let some = (\<lambda>r. rbind r (\<lambda>m. Inr (Some m)))
        in if msgtype = Cli2Auth_VaultFetchNodeRefs then some (VaultFetchRefs_To_read buf want_len)
           else if msgtype \<in> {Cli2Auth_VaultNodeFind, Cli2Auth_VaultNodeSave, Cli2Auth_VaultNodeCreate}
           then some (VaultNode_To_read become_owner buf want_len)
           else if msgtype = Cli2Auth_VaultNodeFetch then some (VaultNodeFetch_To_read buf want_len)
           else if msgtype \<in> {Cli2Auth_VaultNodeAdd, Cli2Auth_VaultNodeRemove} then some (VaultRefChange_To_read buf want_len)
           else if msgtype = Cli2Auth_VaultInitAgeRequest then some (VaultInitAge_To_read become_owner buf want_len)
           else if msgtype = Cli2Auth_GetPublicAgeList then some (VaultAgeList_To_read become_owner buf want_len)
           else if msgtype = Cli2Auth_VaultSendNode then some (VaultNodeSend_read buf want_len)
           else if msgtype = Cli2Auth_SetAgePublic then some (VaultSetAgePublic_read buf want_len)
           else if msgtype = Cli2Auth_ScoreGetScores then some (VaultScoreGet_To_read become_owner buf want_len)
           else if msgtype = Cli2Auth_ScoreCreate then some (VaultScoreCreate_read become_owner buf want_len)
           else if msgtype = Cli2Auth_ScoreAddPoints then some (VaultScoreAddPoints_read become_owner buf want_len)
           else if msgtype = Cli2Auth_ScoreTransferPoints then some (VaultScoreXferPoints_read become_owner buf want_len)
           else Inr None))"

text \<open>The virtual function.\<close>

fun vault_fill :: "iconv \<Rightarrow> (nat \<Rightarrow> byte list) \<Rightarrow> u32 \<Rightarrow> vault_body \<Rightarrow> chunk list res" where
  "vault_fill conv alloc ty (VaultPassthrough v) = VaultPassthrough_fill v"
| "vault_fill conv alloc ty (VaultFetchRefs_To t r n) = VaultFetchRefs_To_fill t r n"
| "vault_fill conv alloc ty (VaultNode_To t r i u n) = VaultNode_To_fill ty t r i u n"
| "vault_fill conv alloc ty (VaultNodeFetch_To t r n) = VaultNodeFetch_To_fill t r n"
| "vault_fill conv alloc ty (VaultNodeFetch_From r e n) = VaultNodeFetch_From_fill r e n"
| "vault_fill conv alloc ty (VaultRefChange_To t r p c own) = VaultRefChange_To_fill t r p c own"
| "vault_fill conv alloc ty (VaultInitAge_To t r c p f i u d k n) = VaultInitAge_To_fill conv alloc t r c p f i u d k n"
| "vault_fill conv alloc ty (VaultAgeList_To t r f) = VaultAgeList_To_fill conv alloc t r f"
| "vault_fill conv alloc ty (VaultNodeSend t p n) = VaultNodeSend_fill t p n"
| "vault_fill conv alloc ty (VaultSetAgePublic t n p) = VaultSetAgePublic_fill t n p"
| "vault_fill conv alloc ty (VaultScoreGet_To t r h n) = VaultScoreGet_To_fill conv alloc t r h n"
| "vault_fill conv alloc ty (VaultScoreGet_From r e c l b) = VaultScoreGet_From_fill r e c l b"
| "vault_fill conv alloc ty (VaultScoreCreate t r h n k v) = VaultScoreCreate_fill conv alloc t r h n k v"
| "vault_fill conv alloc ty (VaultScoreAddPoints t r s d) = VaultScoreAddPoints_fill t r s d"
| "vault_fill conv alloc ty (VaultScoreXferPoints t r s e d) = VaultScoreXferPoints_fill t r s e d"

section \<open>What a client asks arrives at the backend\<close>

text \<open>The requests of a client that have no text, as the client sends them.\<close>

datatype request =
    Fetch_Refs u32 u32
  | Fetch u32 u32
  | Add_Ref u32 u32 u32 u32
  | Remove_Ref u32 u32 u32
  | Send u32 u32
  | Set_Public u32 byte
  | Add_Points u32 u32 u32
  | Transfer u32 u32 u32 u32

fun client_bytes :: "request \<Rightarrow> byte list" where
  "client_bytes (Fetch_Refs r n) = bytes16 Cli2Auth_VaultFetchNodeRefs @ bytes32 r @ bytes32 n"
| "client_bytes (Fetch r n) = bytes16 Cli2Auth_VaultNodeFetch @ bytes32 r @ bytes32 n"
| "client_bytes (Add_Ref r p c u) = bytes16 Cli2Auth_VaultNodeAdd @ bytes32 r @ bytes32 p @ bytes32 c @ bytes32 u"
| "client_bytes (Remove_Ref r p c) = bytes16 Cli2Auth_VaultNodeRemove @ bytes32 r @ bytes32 p @ bytes32 c"
| "client_bytes (Send n p) = bytes16 Cli2Auth_VaultSendNode @ bytes32 n @ bytes32 p"
| "client_bytes (Set_Public n b) = bytes16 Cli2Auth_SetAgePublic @ bytes32 n @ [b]"
| "client_bytes (Add_Points r s d) = bytes16 Cli2Auth_ScoreAddPoints @ bytes32 r @ bytes32 s @ bytes32 d"
| "client_bytes (Transfer r s e d) = bytes16 Cli2Auth_ScoreTransferPoints @ bytes32 r @ bytes32 s @ bytes32 e @ bytes32 d"

fun requested :: "request \<Rightarrow> u32 \<times> vault_body" where
  "requested (Fetch_Refs r n) = (VAULT_FETCHREFS, VaultFetchRefs_To Cli2Auth_VaultFetchNodeRefs r n)"
| "requested (Fetch r n) = (VAULT_FETCH, VaultNodeFetch_To Cli2Auth_VaultNodeFetch r n)"
| "requested (Add_Ref r p c u) = (VAULT_ADDREF, VaultRefChange_To Cli2Auth_VaultNodeAdd r p c u)"
| "requested (Remove_Ref r p c) = (VAULT_REMOVEREF, VaultRefChange_To Cli2Auth_VaultNodeRemove r p c 0)"
| "requested (Send n p) = (VAULT_SENDNODE, VaultNodeSend Cli2Auth_VaultSendNode p n)"
| "requested (Set_Public n b) = (VAULT_SET_AGE_PUBLIC, VaultSetAgePublic Cli2Auth_SetAgePublic n b)"
| "requested (Add_Points r s d) = (VAULT_SCORE_ADD, VaultScoreAddPoints Cli2Auth_ScoreAddPoints r s d)"
| "requested (Transfer r s e d) = (VAULT_SCORE_XFER, VaultScoreXferPoints Cli2Auth_ScoreTransferPoints r s e d)"

text \<open>A message as the auth server passes it on.\<close>

definition passed :: "u32 \<Rightarrow> u32 \<Rightarrow> bool \<Rightarrow> byte list \<Rightarrow> byte list" where
  "passed id1 id2 to_server cm = setup_header (VAULT_PASSTHRU OR server_bit (\<not> to_server)) id1 id2 (length cm) @ cm"

lemma passed_is_sent:
  "m_header (VaultPassthrough_new id1 id2 cm to_server) @ content [Many cm] = passed id1 id2 to_server cm"
  "vault_fill conv alloc ty (m_body (VaultPassthrough_new id1 id2 cm to_server)) = Inr [Many cm]"
  by (simp_all add: VaultPassthrough_new_def pre_send_def passed_def VaultPassthrough_fill_def slice_def)

lemma large_mod: "(n :: nat) < 2 ^ 31 \<Longrightarrow> nat (int n mod 2 ^ 64) = n"
  by simp

lemma vault_copy_passed:
  assumes "length cm < 2 ^ 31"
  shows "vault_copy own type_at (passed id1 id2 s cm @ rest) (16 + int (length cm)) =
    (let buf = if own then passed id1 id2 s cm @ rest else cm
     in rbind (if 2 \<le> length cm then read16 buf (type_at (if own then 16 else 0)) else Inr 0) (\<lambda>t.
        Inr \<lparr>m_vault_offset = (if own then 16 else 0), m_msgtype = t, m_buf = buf, m_buflen = length cm\<rparr>))"
  using large_mod [OF assms]
  by (cases own) (simp_all add: vault_copy_def passed_def Let_def skip del: power_numeral)

lemma Vault_read_passed:
  assumes "length cm < 2 ^ 31" and "2 \<le> length cm"
  shows "Vault_read own (passed id1 id2 s cm @ rest) (16 + int (length cm)) parse =
    rbind (read16 cm 0) (\<lambda>t.
    rbind (parse \<lparr>m_vault_offset = (if own then 16 else 0), m_msgtype = t,
        m_buf = (if own then passed id1 id2 s cm @ rest else cm), m_buflen = length cm\<rparr>) (\<lambda>(ty, body).
    Inr \<lparr>m_type = ty, m_header = take 16 (passed id1 id2 s cm), m_body = body\<rparr>))"
proof -
  have h: "slice 0 16 (passed id1 id2 s cm @ rest) = Inr (take 16 (passed id1 id2 s cm))" by (simp add: passed_def skip)
  obtain t where t: "read16 cm 0 = Inr t" using assms(2) by (simp add: read16_def slice_def)
  have "read16 (passed id1 id2 s cm @ rest) 16 = read16 cm 0"
    using assms(2) by (simp add: passed_def skip read16_def slice_def)
  then have "read16 (if own then passed id1 id2 s cm @ rest else cm) (if own then 16 else 0) = Inr t" using t by simp
  then show ?thesis
    unfolding Vault_read_def h t vault_copy_passed [OF assms(1)] Let_def rbind_Inr if_P [OF assms(2)] by simp
qed

lemmas vault_reads = VaultFetchRefs_To_read_def VaultNodeFetch_To_read_def VaultRefChange_To_read_def VaultNodeSend_read_def
  VaultSetAgePublic_read_def VaultScoreAddPoints_read_def VaultScoreXferPoints_read_def

lemma client_size: "10 \<le> length (client_bytes q) \<or> length (client_bytes q) = 7" "length (client_bytes q) \<le> 18"
  by (cases q; simp)+

lemma request_arrives_lem:
  "VaultPassthrough_make own (passed id1 id2 True (client_bytes q) @ rest) (16 + int (length (client_bytes q))) =
   Inr (Some \<lparr>m_type = fst (requested q), m_header = take 16 (passed id1 id2 True (client_bytes q)), m_body = snd (requested q)\<rparr>)"
proof -
  let ?b = "client_bytes q"
  have l: "length ?b < 2 ^ 31" "2 \<le> length ?b" using client_size [of q] by auto
  have t: "read16 (passed id1 id2 True ?b @ rest) 16 = read16 ?b 0"
    using l(2) by (simp add: passed_def skip read16_def slice_def)
  have n: "\<not> length (passed id1 id2 True ?b @ rest) < 18" using l(2) by (simp add: passed_def)
  have r: "read16 ?b 0 = Inr (le16 ?b)" using l(2) by (simp add: read16_def slice_def) (cases q; simp add: bytes16_def)
  note read = Vault_read_passed [OF l, of _ id1 id2 True rest, unfolded r rbind_Inr]
  show ?thesis
    unfolding VaultPassthrough_make_def if_not_P [OF n] t r rbind_Inr Let_def vault_reads read
    by (cases own; cases q) (simp_all add: skip passed_def)
qed

theorem request_arrives:
  "VaultPassthrough_make own (passed id1 id2 True (client_bytes q) @ rest) (16 + int (length (client_bytes q))) =
   Inr (Some \<lparr>m_type = fst (requested q), m_header = take 16 (passed id1 id2 True (client_bytes q)), m_body = snd (requested q)\<rparr>)"
  by (rule request_arrives_lem)

text \<open>Requests with text: without \<open>become_owner\<close>, as the backend reads them.\<close>

lemma make_passed:
  assumes "length cm < 2 ^ 31" and "2 \<le> length cm"
  shows "read16 (passed id1 id2 s cm @ rest) 16 = read16 cm 0" "\<not> length (passed id1 id2 s cm @ rest) < 18"
  using assms(2) by (simp_all add: passed_def skip read16_def slice_def)

lemma vault_dispatch:
  assumes "read16 buf 16 = Inr ty" and "\<not> length buf < 18"
  shows "ty = Cli2Auth_GetPublicAgeList \<Longrightarrow>
      VaultPassthrough_make own buf n = rbind (VaultAgeList_To_read own buf n) (\<lambda>m. Inr (Some m))"
    and "ty = Cli2Auth_ScoreGetScores \<Longrightarrow>
      VaultPassthrough_make own buf n = rbind (VaultScoreGet_To_read own buf n) (\<lambda>m. Inr (Some m))"
    and "ty = Cli2Auth_ScoreCreate \<Longrightarrow>
      VaultPassthrough_make own buf n = rbind (VaultScoreCreate_read own buf n) (\<lambda>m. Inr (Some m))"
    and "ty = Cli2Auth_VaultInitAgeRequest \<Longrightarrow>
      VaultPassthrough_make own buf n = rbind (VaultInitAge_To_read own buf n) (\<lambda>m. Inr (Some m))"
    and "ty \<in> {Cli2Auth_VaultNodeFind, Cli2Auth_VaultNodeSave, Cli2Auth_VaultNodeCreate} \<Longrightarrow>
      VaultPassthrough_make own buf n = rbind (VaultNode_To_read own buf n) (\<lambda>m. Inr (Some m))"
  using assms by (auto simp: VaultPassthrough_make_def)

lemma wide_here:
  assumes "wide_ok t" and "buflen < 0 \<or> int (length t + 4) \<le> buflen"
  obtains u where "UruString_buf (wide_field t @ rest) buflen True True copy = Inr u" "m_arrival_len u = length t + 4" "holds_wide u t"
  using read_wide [OF assms, of rest copy] by blast

lemma wide_size: "wide_ok t \<Longrightarrow> length t < 8192"
  by (auto simp: wide_ok_def)

theorem age_list_arrives:
  assumes "wide_ok t" and "cm = bytes16 Cli2Auth_GetPublicAgeList @ bytes32 r @ wide_field t"
  shows "\<exists>u. VaultPassthrough_make False (passed id1 id2 True cm @ rest) (16 + int (length cm)) =
    Inr (Some \<lparr>m_type = VAULT_AGE_LIST, m_header = take 16 (passed id1 id2 True cm),
      m_body = VaultAgeList_To Cli2Auth_GetPublicAgeList r u\<rparr>) \<and> holds_wide u t"
proof -
  have l: "length cm < 2 ^ 31" "2 \<le> length cm" using wide_size [OF assms(1)] assms(2) by simp_all
  obtain u where u: "UruString_buf (wide_field t) (int (length t) + 20) True True False = Inr u" "holds_wide u t"
    by (rule wide_here [OF assms(1), of "int (length t) + 20" "[]" False]) auto
  have t: "read16 cm 0 = Inr Cli2Auth_GetPublicAgeList" by (simp add: assms(2))
  note read = Vault_read_passed [OF l, of False id1 id2 True rest, unfolded t rbind_Inr if_False]
  show ?thesis
    unfolding vault_dispatch(1) [OF make_passed(1) [OF l, unfolded t] make_passed(2) [OF l] refl] VaultAgeList_To_read_def read
    using u by (simp add: assms(2) skip add_ac)
qed

theorem score_get_arrives:
  assumes "wide_ok t" and "cm = bytes16 Cli2Auth_ScoreGetScores @ bytes32 r @ bytes32 h @ wide_field t"
  shows "\<exists>u. VaultPassthrough_make False (passed id1 id2 True cm @ rest) (16 + int (length cm)) =
    Inr (Some \<lparr>m_type = VAULT_SCORE_GET, m_header = take 16 (passed id1 id2 True cm),
      m_body = VaultScoreGet_To Cli2Auth_ScoreGetScores r h u\<rparr>) \<and> holds_wide u t"
proof -
  have l: "length cm < 2 ^ 31" "2 \<le> length cm" using wide_size [OF assms(1)] assms(2) by simp_all
  obtain u where u: "UruString_buf (wide_field t) (int (length t) + 20) True True False = Inr u" "holds_wide u t"
    by (rule wide_here [OF assms(1), of "int (length t) + 20" "[]" False]) auto
  have t: "read16 cm 0 = Inr Cli2Auth_ScoreGetScores" by (simp add: assms(2))
  note read = Vault_read_passed [OF l, of False id1 id2 True rest, unfolded t rbind_Inr if_False]
  show ?thesis
    unfolding vault_dispatch(2) [OF make_passed(1) [OF l, unfolded t] make_passed(2) [OF l] refl] VaultScoreGet_To_read_def read
    using u by (simp add: assms(2) skip add_ac)
qed

text \<open>The score of a name.  A receiver that becomes the owner of the buffer reads the two numbers 16 bytes too late.\<close>

lemma score_create_lem:
  assumes "wide_ok t" and "cm = bytes16 Cli2Auth_ScoreCreate @ bytes32 r @ bytes32 h @ wide_field t @ bytes32 k @ bytes32 v"
  shows "\<exists>u. VaultPassthrough_make False (passed id1 id2 True cm @ rest) (16 + int (length cm)) =
    Inr (Some \<lparr>m_type = VAULT_SCORE_CREATE, m_header = take 16 (passed id1 id2 True cm),
      m_body = VaultScoreCreate Cli2Auth_ScoreCreate r h u k v\<rparr>) \<and> holds_wide u t"
    and "VaultPassthrough_make True (passed id1 id2 True cm) (16 + int (length cm)) = Inl Out_Of_Bounds"
proof -
  have l: "length cm < 2 ^ 31" "2 \<le> length cm" using wide_size [OF assms(1)] assms(2) by simp_all
  have t: "read16 cm 0 = Inr Cli2Auth_ScoreCreate" by (simp add: assms(2))
  obtain u where u: "UruString_buf (wide_field t @ bytes32 k @ bytes32 v) (int (length t) + 28) True True False = Inr u"
    "m_arrival_len u = length t + 4" "holds_wide u t"
    by (rule wide_here [OF assms(1), of "int (length t) + 28" "bytes32 k @ bytes32 v" False]) auto
  note read = Vault_read_passed [OF l, of False id1 id2 True rest, unfolded t rbind_Inr if_False]
  show "\<exists>u. VaultPassthrough_make False (passed id1 id2 True cm @ rest) (16 + int (length cm)) =
    Inr (Some \<lparr>m_type = VAULT_SCORE_CREATE, m_header = take 16 (passed id1 id2 True cm),
      m_body = VaultScoreCreate Cli2Auth_ScoreCreate r h u k v\<rparr>) \<and> holds_wide u t"
    unfolding vault_dispatch(3) [OF make_passed(1) [OF l, unfolded t] make_passed(2) [OF l] refl] VaultScoreCreate_read_def read
    using u by (simp add: assms(2) skip add_ac)
  obtain w where w: "UruString_buf (wide_field t @ bytes32 k @ bytes32 v) (int (length t) + 12) True True False = Inr w"
    "m_arrival_len w = length t + 4" "holds_wide w t"
    by (rule wide_here [OF assms(1), of "int (length t) + 12" "bytes32 k @ bytes32 v" False]) auto
  note read = Vault_read_passed [OF l, of True id1 id2 True "[]", unfolded t rbind_Inr if_True append_Nil2]
  have p: "read16 (passed id1 id2 True cm) 16 = read16 cm 0" "\<not> length (passed id1 id2 True cm) < 18"
    using make_passed [OF l, of id1 id2 True "[]"] by simp_all
  have far: "read32 cm (length t + 30) = Inl Out_Of_Bounds"
    by (simp add: read32_Inl assms(2))
  have far': "read32 (passed id1 id2 True cm) (length t + 46) = Inl Out_Of_Bounds"
    using far by (simp add: passed_def skip add.commute)
  show "VaultPassthrough_make True (passed id1 id2 True cm) (16 + int (length cm)) = Inl Out_Of_Bounds"
    unfolding vault_dispatch(3) [OF p(1) [unfolded t] p(2) refl] VaultScoreCreate_read_def read
    using w far' by (simp add: assms(2) passed_def skip add_ac)
qed



text \<open>A node that is found, created or saved.  The owner of the buffer reads the node out of the header.\<close>

definition node_request :: "u16 \<Rightarrow> u32 \<Rightarrow> u32 \<Rightarrow> byte list \<Rightarrow> byte list \<Rightarrow> byte list" where
  "node_request ty r nid uuid node =
     bytes16 ty @ bytes32 r @ (if ty = Cli2Auth_VaultNodeSave then bytes32 nid @ uuid else []) @ node"

definition node_type_of :: "u16 \<Rightarrow> u32" where
  "node_type_of ty = (if ty = Cli2Auth_VaultNodeFind then VAULT_FINDNODE
     else if ty = Cli2Auth_VaultNodeSave then VAULT_SAVENODE else VAULT_CREATENODE)"

theorem node_request_arrives:
  assumes "ty \<in> {Cli2Auth_VaultNodeFind, Cli2Auth_VaultNodeSave, Cli2Auth_VaultNodeCreate}" and "length uuid = 16"
    and "cm = node_request ty r nid uuid node" and "length cm < 2 ^ 31"
  shows "VaultPassthrough_make False (passed id1 id2 True cm @ rest) (16 + int (length cm)) =
    rbind (VaultNode_parse node False) (\<lambda>n.
      Inr (Some \<lparr>m_type = node_type_of ty, m_header = take 16 (passed id1 id2 True cm),
        m_body = (if ty = Cli2Auth_VaultNodeSave then VaultNode_To ty r nid uuid n
          else VaultNode_To ty r 0 (replicate 16 0) n)\<rparr>))"
proof -
  have l: "length cm < 2 ^ 31" "2 \<le> length cm" using assms(3,4) by (simp_all add: node_request_def)
  have t: "read16 cm 0 = Inr ty" by (simp add: assms(3) node_request_def)
  note read = Vault_read_passed [OF l, of False id1 id2 True rest, unfolded t rbind_Inr if_False]
  show ?thesis
    unfolding vault_dispatch(5) [OF make_passed(1) [OF l, unfolded t] make_passed(2) [OF l] assms(1)] VaultNode_To_read_def read
    using assms(1,2) by (auto simp: assms(3) node_request_def node_type_of_def skip VAULT_FINDNODE_def VAULT_SAVENODE_def
        VAULT_CREATENODE_def rbind_assoc)
qed

text \<open>With \<open>become_owner\<close> the bitfields of the node are taken from the two ids of the header.\<close>

theorem node_request_owner:
  assumes "ty \<in> {Cli2Auth_VaultNodeFind, Cli2Auth_VaultNodeCreate}" and "cm = node_request ty r nid uuid node"
    and "length cm < 2 ^ 31"
    and "VaultPassthrough_make True (passed id1 id2 True cm @ rest) (16 + int (length cm)) = Inr (Some m)"
  shows "\<exists>n. m_body m = VaultNode_To ty r 0 (replicate 16 0) n \<and>
    m_bits1 n = le32 (take 4 (drop 2 (bytes32 id1 @ bytes32 id2)))"
proof -
  have l: "length cm < 2 ^ 31" "2 \<le> length cm" using assms(2,3) by (simp_all add: node_request_def)
  have t: "read16 cm 0 = Inr ty" by (simp add: assms(2) node_request_def)
  have ty: "ty \<in> {Cli2Auth_VaultNodeFind, Cli2Auth_VaultNodeSave, Cli2Auth_VaultNodeCreate}" "ty \<noteq> Cli2Auth_VaultNodeSave"
    using assms(1) by auto
  let ?h = "setup_header (VAULT_PASSTHRU OR server_bit False) id1 id2 (length cm)"
  have p: "passed id1 id2 True cm @ rest = ?h @ cm @ rest" by (simp add: passed_def)
  have b: "read32 (drop 6 (?h @ cm @ rest)) 4 = Inr (le32 (take 4 (drop 2 (bytes32 id1 @ bytes32 id2))))"
    by (simp add: setup_header_def read32_def slice_def)
  note read = Vault_read_passed [OF l, of True id1 id2 True rest, unfolded t rbind_Inr if_True]
  have r: "read32 (?h @ cm @ rest) 18 = Inr r" by (simp add: assms(2) node_request_def skip)
  from assms(4) obtain n where n: "VaultNode_parse (drop 6 (?h @ cm @ rest)) False = Inr n" "m_body m = VaultNode_To ty r 0 (replicate 16 0) n"
    unfolding vault_dispatch(5) [OF make_passed(1) [OF l, unfolded t] make_passed(2) [OF l] ty(1)] VaultNode_To_read_def read
    using ty(2) assms(1) r by (auto simp: p rbind_eq_Inr VAULT_FINDNODE_def VAULT_SAVENODE_def VAULT_CREATENODE_def)
  from n(1) have "m_bits1 n = le32 (take 4 (drop 2 (bytes32 id1 @ bytes32 id2)))"
    unfolding VaultNode_parse_def b by (auto simp: rbind_eq_Inr)
  with n(2) show ?thesis by blast
qed

text \<open>A new age has four strings.\<close>

lemma next_wide_here:
  assumes "wide_ok t" and "drop off buf = wide_field t @ rest"
  obtains u where "next_wide buf off = Inr (u, off + (length t + 4))" "holds_wide u t"
proof -
  obtain u where "UruString_buf (wide_field t @ rest) (-1) True True False = Inr u" "m_arrival_len u = length t + 4" "holds_wide u t"
    by (rule wide_here [OF assms(1), of "-1" rest False]) auto
  with assms(2) that show thesis by (simp add: next_wide_def)
qed

definition age_request ::
  "u32 \<Rightarrow> byte list \<Rightarrow> byte list \<Rightarrow> byte list \<Rightarrow> byte list \<Rightarrow> byte list \<Rightarrow> byte list \<Rightarrow> u32 \<Rightarrow> u32 \<Rightarrow> byte list" where
  "age_request r c p t1 t2 t3 t4 unk nid =
     bytes16 Cli2Auth_VaultInitAgeRequest @ bytes32 r @ c @ p @ wide_field t1 @ wide_field t2 @ wide_field t3 @ wide_field t4 @
     bytes32 unk @ bytes32 nid"

theorem init_age_arrives:
  assumes "list_all wide_ok [t1, t2, t3, t4]" and "length c = 16" and "length p = 16"
    and "cm = age_request r c p t1 t2 t3 t4 unk nid"
  shows "\<exists>u1 u2 u3 u4. VaultPassthrough_make own (passed id1 id2 True cm @ rest) (16 + int (length cm)) =
    Inr (Some \<lparr>m_type = VAULT_INIT_AGE, m_header = take 16 (passed id1 id2 True cm),
      m_body = VaultInitAge_To Cli2Auth_VaultInitAgeRequest r c p u1 u2 u3 u4 unk nid\<rparr>) \<and>
    holds_wide u1 t1 \<and> holds_wide u2 t2 \<and> holds_wide u3 t3 \<and> holds_wide u4 t4"
proof -
  have w: "wide_ok t1" "wide_ok t2" "wide_ok t3" "wide_ok t4" using assms(1) by simp_all
  have l: "length cm < 2 ^ 31" "2 \<le> length cm" using w [THEN wide_size] assms(2,3,4) by (simp_all add: age_request_def)
  have t: "read16 cm 0 = Inr Cli2Auth_VaultInitAgeRequest" by (simp add: assms(4) age_request_def)
  define k where "k = (if own then 16 else 0 :: nat)"
  define buf where "buf = (if own then passed id1 id2 True cm @ rest else cm)"
  define end' where "end' = (if own then rest else [])"
  define h where "h = (if own then setup_header (VAULT_PASSTHRU OR server_bit False) id1 id2 (length cm) else [])"
  have lh: "length h = k" by (simp add: h_def k_def)
  have buf: "buf = h @ cm @ end'" by (simp add: buf_def h_def end'_def passed_def)
  let ?tail = "bytes32 unk @ bytes32 nid @ end'"
  obtain u1 where u1: "next_wide buf (k + 38) = Inr (u1, k + 38 + (length t1 + 4))" "holds_wide u1 t1"
    by (rule next_wide_here [OF w(1), of "k + 38" buf "wide_field t2 @ wide_field t3 @ wide_field t4 @ ?tail"])
      (simp_all add: buf lh assms(2,3,4) age_request_def)
  obtain u2 where u2: "next_wide buf (k + 38 + (length t1 + 4)) = Inr (u2, k + 38 + (length t1 + 4) + (length t2 + 4))" "holds_wide u2 t2"
    by (rule next_wide_here [OF w(2), of "k + 38 + (length t1 + 4)" buf "wide_field t3 @ wide_field t4 @ ?tail"])
      (simp_all add: buf lh assms(2,3,4) age_request_def)
  obtain u3 where u3: "next_wide buf (k + 38 + (length t1 + 4) + (length t2 + 4)) =
      Inr (u3, k + 38 + (length t1 + 4) + (length t2 + 4) + (length t3 + 4))" "holds_wide u3 t3"
    by (rule next_wide_here [OF w(3), of "k + 38 + (length t1 + 4) + (length t2 + 4)" buf "wide_field t4 @ ?tail"])
      (simp_all add: buf lh assms(2,3,4) age_request_def)
  define e where "e = k + 38 + (length t1 + 4) + (length t2 + 4) + (length t3 + 4) + (length t4 + 4)"
  obtain u4 where u4: "next_wide buf (k + 38 + (length t1 + 4) + (length t2 + 4) + (length t3 + 4)) = Inr (u4, e)" "holds_wide u4 t4"
    unfolding e_def
    by (rule next_wide_here [OF w(4), of "k + 38 + (length t1 + 4) + (length t2 + 4) + (length t3 + 4)" buf ?tail])
      (simp_all add: buf lh assms(2,3,4) age_request_def)
  have f: "read32 buf (k + 2) = Inr r" "slice (k + 2 + 4) 16 buf = Inr c" "slice (k + 2 + 20) 16 buf = Inr p" "k + 2 + 36 = k + 38"
    "read32 buf e = Inr unk" "read32 buf (e + 4) = Inr nid"
    using lh by (simp_all add: buf assms(2,3,4) age_request_def skip e_def)
  note read = Vault_read_passed [OF l, of own id1 id2 True rest, unfolded t rbind_Inr, folded k_def buf_def]
  have "VaultInitAge_To_read own (passed id1 id2 True cm @ rest) (16 + int (length cm)) =
      Inr \<lparr>m_type = VAULT_INIT_AGE, m_header = take 16 (passed id1 id2 True cm),
        m_body = VaultInitAge_To Cli2Auth_VaultInitAgeRequest r c p u1 u2 u3 u4 unk nid\<rparr>"
    unfolding VaultInitAge_To_read_def read Let_def vault_buf.simps f u1(1) u2(1) u3(1) u4(1) rbind_Inr prod.case ..
  then show ?thesis
    unfolding vault_dispatch(4) [OF make_passed(1) [OF l, unfolded t] make_passed(2) [OF l] refl]
    using u1(2) u2(2) u3(2) u4(2) by simp
qed

section \<open>What the backend answers arrives at the client\<close>

text \<open>
  The auth server keeps the bytes as they are.  Where it becomes the owner of the buffer, the type it
  reads is the low half of the message's length.
\<close>

lemma low_half: "read16 (bytes32 v @ xs) 0 = Inr (ucast v)"
proof -
  have "bytes32 v = bytes16 (ucast v) @ bytes16 (ucast (drop_bit 16 v))"
    unfolding bytes32_def bytes16_def by (auto intro!: bit_word_eqI simp: bit_simps)
  then show ?thesis by simp
qed

lemma narrow_nat: "ucast (of_nat k :: u32) = (of_nat k :: u16)"
  by (rule bit_word_eqI) (simp add: bit_simps)

lemma reply_passed_lem:
  assumes "6 \<le> length cm" and "length cm < 2 ^ 31"
  shows "\<exists>v. VaultPassthrough_read False own (passed id1 id2 False cm @ rest) (16 + int (length cm)) =
      Inr \<lparr>m_type = VAULT_PASSTHRU OR FROM_SERVER, m_header = take 16 (passed id1 id2 False cm), m_body = VaultPassthrough v\<rparr> \<and>
    VaultPassthrough_fill v = Inr [Many cm] \<and> passthrough_reqid v = read32 cm 2 \<and>
    m_msgtype v = (if own then of_nat (length cm + 16) else le16 (take 2 cm))"
proof -
  have h: "slice 0 16 (passed id1 id2 False cm @ rest) = Inr (take 16 (passed id1 id2 False cm))" by (simp add: passed_def skip)
  have o: "read16 (passed id1 id2 False cm @ rest) 0 = Inr (of_nat (length cm + 16))"
    unfolding passed_def setup_header_def append_assoc low_half narrow_nat ..
  have n: "read16 cm 0 = Inr (le16 (take 2 cm))" using assms(1) by (simp add: read16_def slice_def)
  let ?buf = "if own then passed id1 id2 False cm @ rest else cm"
  let ?v = "\<lparr>m_vault_offset = (if own then 16 else 0), m_msgtype = (if own then of_nat (length cm + 16) else le16 (take 2 cm)),
    m_buf = ?buf, m_buflen = length cm\<rparr>"
  have two: "2 \<le> length cm" using assms(1) by simp
  have "vault_copy own (\<lambda>_. 0) (passed id1 id2 False cm @ rest) (16 + int (length cm)) = Inr ?v"
    unfolding vault_copy_passed [OF assms(2)] Let_def if_P [OF two] using o n by (cases own) simp_all
  then have "VaultPassthrough_read False own (passed id1 id2 False cm @ rest) (16 + int (length cm)) =
      Inr \<lparr>m_type = VAULT_PASSTHRU OR FROM_SERVER, m_header = take 16 (passed id1 id2 False cm), m_body = VaultPassthrough ?v\<rparr>"
    unfolding VaultPassthrough_read_def post_receive_def h by (simp add: server_bit_def)
  moreover have "VaultPassthrough_fill ?v = Inr [Many cm]"
    by (cases own) (simp_all add: VaultPassthrough_fill_def passed_def slice_def)
  moreover have "passthrough_reqid ?v = read32 cm 2"
    using assms(1) by (cases own) (simp_all add: passthrough_reqid_def passed_def skip read32_def slice_def)
  ultimately show ?thesis by (intro exI [of _ ?v]) simp
qed

theorem reply_passed:
  assumes "6 \<le> length cm" and "length cm < 2 ^ 31"
  shows "\<exists>v. VaultPassthrough_read False own (passed id1 id2 False cm @ rest) (16 + int (length cm)) =
      Inr \<lparr>m_type = VAULT_PASSTHRU OR FROM_SERVER, m_header = take 16 (passed id1 id2 False cm), m_body = VaultPassthrough v\<rparr> \<and>
    VaultPassthrough_fill v = Inr [Many cm] \<and> passthrough_reqid v = read32 cm 2 \<and>
    m_msgtype v = (if own then of_nat (length cm + 16) else le16 (take 2 cm))"
  using assms by (rule reply_passed_lem)

text \<open>The header of an answer with a node says how long it is.\<close>

lemma node_reply_length:
  assumes "consistent n" and "sent_bits n = m_bits1 n" and "length (node_message n) < 2 ^ 31"
  shows "\<exists>m cs. VaultNodeFetch_From_new id1 id2 r 0 (Some n) = Inr m \<and>
    vault_fill conv alloc (m_type m) (m_body m) = Inr cs \<and>
    content cs = bytes16 Auth2Cli_VaultNodeFetched @ bytes32 r @ bytes32 0 @ node_message n \<and>
    m_header m @ content cs = passed id1 id2 False (content cs)"
proof -
  have "unat (message_len n) = length (node_message n)"
    by (rule node_message_length) (use assms in auto)
  then show ?thesis by (simp add: VaultNodeFetch_From_new_def VaultNodeFetch_From_fill_def pre_send_def passed_def server_bit_def)
qed

lemma score_reply_length:
  assumes "send_len conv alloc u False True True = Inr (length t + 2, u)"
    and "get_str conv alloc u False True True False = Inr (t @ [0, 0], u)" and "length t < 2 ^ 31"
  shows "\<exists>m cs. VaultScoreGet_From_new conv alloc id1 id2 r e s h tm ty v u = Inr m \<and>
    vault_fill conv alloc (m_type m) (m_body m) = Inr cs \<and> m_header m @ content cs = passed id1 id2 False (content cs)"
  using assms by (simp add: VaultScoreGet_From_new_def VaultScoreGet_From_fill_def pre_send_def passed_def slice_def server_bit_def
      Let_def add_ac)

end
