(* ===== verification/Backend_Message.thy ===== *)
theory Backend_Message
  imports Backend_Auth Backend_Track Backend_Marker Backend_Vault Message_Queue
begin

text \<open>
  All messages between the servers and the backend: the factory \<open>BackendMessage::make_if_enough\<close>, the queue
  they are sent from, and the way of a sequence of messages from the one to the other.
\<close>

datatype backend_body = Auth auth_body | Track track_body | Marker marker_body | Vault vault_body

definition lift_message :: "('a \<Rightarrow> backend_body) \<Rightarrow> 'a backend_message \<Rightarrow> backend_body backend_message" where
  "lift_message f m = \<lparr>m_type = m_type m, m_header = m_header m, m_body = f (m_body m)\<rparr>"

lemma lift_simps [simp]:
  "m_type (lift_message f m) = m_type m" "m_header (lift_message f m) = m_header m" "m_body (lift_message f m) = f (m_body m)"
  by (simp_all add: lift_message_def)

section \<open>The factory\<close>

text \<open>
  \<open>NULL\<close> with the length that is wanted, a message with its length, or an \<open>UnknownMessage\<close>.  \<open>want_len\<close> is signed
  and is not compared with the length of a header.
\<close>

datatype made = Waiting int | Made int "backend_body backend_message" | Unknown_Message "byte list"

definition made_by :: "('a \<Rightarrow> backend_body) \<Rightarrow> int \<Rightarrow> 'a backend_message res \<Rightarrow> made res" where
  "made_by f n r = rbind r (\<lambda>m. Inr (Made n (lift_message f m)))"

definition BackendMessage_make :: "iconv \<Rightarrow> (nat \<Rightarrow> byte list) \<Rightarrow> bool \<Rightarrow> byte list \<Rightarrow> made res" where
  "BackendMessage_make conv alloc become_owner buf =
     (if length buf < 4 then Inr (Waiting (-1))
      else rbind (read32 buf 0) (\<lambda>w.
        let want_len = sint w
        in if want_len > int (length buf) then Inr (Waiting want_len)
           else rbind (read32 buf 4) (\<lambda>msg_type.
             case auth_make become_owner msg_type buf want_len of
               Some r \<Rightarrow> made_by Auth want_len r
             | None \<Rightarrow>
             case track_make conv alloc become_owner msg_type buf want_len of
               Some r \<Rightarrow> made_by Track want_len r
             | None \<Rightarrow>
             case marker_make become_owner msg_type buf want_len of
               Some r \<Rightarrow> made_by Marker want_len r
             | None \<Rightarrow>
               if msg_type = VAULT_PASSTHRU OR FROM_SERVER
               then made_by Vault want_len (VaultPassthrough_read False become_owner buf want_len)
               else if msg_type = VAULT_PASSTHRU
               then rbind (VaultPassthrough_make become_owner buf want_len) (\<lambda>r. case r of
                      Some m \<Rightarrow> Inr (Made want_len (lift_message Vault m))
                    | None \<Rightarrow> Inr (Unknown_Message buf))
               else Inr (Unknown_Message buf))))"

text \<open>The virtual function \<open>fill_type\<close>, and the whole message.\<close>

definition bm_fill :: "iconv \<Rightarrow> (nat \<Rightarrow> byte list) \<Rightarrow> backend_body backend_message \<Rightarrow> chunk list res" where
  "bm_fill conv alloc m =
     (case m_body m of
        Auth b \<Rightarrow> auth_fill conv alloc b
      | Track b \<Rightarrow> track_fill conv alloc (m_type m) b
      | Marker b \<Rightarrow> marker_fill conv alloc b
      | Vault b \<Rightarrow> vault_fill conv alloc (m_type m) b)"

definition wire :: "iconv \<Rightarrow> (nat \<Rightarrow> byte list) \<Rightarrow> backend_body backend_message \<Rightarrow> byte list" where
  "wire conv alloc m = (case bm_fill conv alloc m of Inl _ \<Rightarrow> [] | Inr cs \<Rightarrow> m_header m @ content cs)"

section \<open>A message arrives\<close>

inductive sent :: "iconv \<Rightarrow> (nat \<Rightarrow> byte list) \<Rightarrow> backend_body backend_message \<Rightarrow> bool" for conv alloc where
  auth: "auth_sent conv alloc m \<Longrightarrow> sent conv alloc (lift_message Auth m)"
| track: "track_sent conv alloc m \<Longrightarrow> sent conv alloc (lift_message Track m)"
| marker: "marker_sent conv alloc m \<Longrightarrow> sent conv alloc (lift_message Marker m)"
| request: "sent conv alloc (lift_message Vault (VaultPassthrough_new id1 id2 (client_bytes q) True))"
| reply: "6 \<le> length cm \<Longrightarrow> sent conv alloc (lift_message Vault (VaultPassthrough_new id1 id2 cm False))"
| node: "VaultNodeFetch_From_new id1 id2 r 0 (Some n) = Inr m \<Longrightarrow> consistent n \<Longrightarrow> sent_bits n = m_bits1 n \<Longrightarrow>
    length (node_message n) < 2 ^ 31 \<Longrightarrow> sent conv alloc (lift_message Vault m)"

text \<open>A request of a client is another class on its arrival; an answer to one is the bytes for the client.\<close>

definition same_message :: "iconv \<Rightarrow> (nat \<Rightarrow> byte list) \<Rightarrow> backend_body backend_message \<Rightarrow> backend_body backend_message \<Rightarrow> bool" where
  "same_message conv alloc m m' \<longleftrightarrow>
     (case m_body m of
        Auth b \<Rightarrow> m_type m' = m_type m \<and> (\<exists>b'. m_body m' = Auth b' \<and> same_auth b b')
      | Track b \<Rightarrow> m_type m' = m_type m \<and> (\<exists>b'. m_body m' = Track b' \<and> same_track b b')
      | Marker b \<Rightarrow> m_type m' = m_type m \<and> (\<exists>b'. m_body m' = Marker b' \<and> same_marker b b')
      | Vault b \<Rightarrow>
          if m_type m = VAULT_PASSTHRU
          then (\<exists>q. vault_fill conv alloc (m_type m) b = Inr [Many (client_bytes q)] \<and>
                  m_type m' = fst (requested q) \<and> m_body m' = Vault (snd (requested q)))
          else m_type m' = m_type m \<and> (\<exists>cs v. vault_fill conv alloc (m_type m) b = Inr cs \<and>
                  m_body m' = Vault (VaultPassthrough v) \<and> VaultPassthrough_fill v = Inr [Many (content cs)]))"

lemma make_unfold:
  assumes "length cs + 16 < 2 ^ 31"
  shows "BackendMessage_make conv alloc own (setup_header ty id1 id2 (length cs) @ cs @ rest) =
    (let buf = setup_header ty id1 id2 (length cs) @ cs @ rest; n = 16 + int (length cs)
     in case auth_make own ty buf n of Some r \<Rightarrow> made_by Auth n r
        | None \<Rightarrow> case track_make conv alloc own ty buf n of Some r \<Rightarrow> made_by Track n r
        | None \<Rightarrow> case marker_make own ty buf n of Some r \<Rightarrow> made_by Marker n r
        | None \<Rightarrow> if ty = VAULT_PASSTHRU OR FROM_SERVER then made_by Vault n (VaultPassthrough_read False own buf n)
          else if ty = VAULT_PASSTHRU
          then rbind (VaultPassthrough_make own buf n) (\<lambda>r. case r of
                 Some m \<Rightarrow> Inr (Made n (lift_message Vault m)) | None \<Rightarrow> Inr (Unknown_Message buf))
          else Inr (Unknown_Message buf))"
proof -
  let ?buf = "setup_header ty id1 id2 (length cs) @ cs @ rest"
  have w: "read32 ?buf 0 = Inr (of_nat (length cs + 16))" "read32 ?buf 4 = Inr ty" by (rule header_length header_type)+
  have s: "sint (of_nat (length cs + 16) :: u32) = 16 + int (length cs)" using sint_small [OF assms] by simp
  have l: "\<not> length ?buf < 4" "\<not> 16 + int (length cs) > int (length ?buf)" by simp_all
  show ?thesis
    unfolding BackendMessage_make_def w rbind_Inr Let_def s if_not_P [OF l(1)] if_not_P [OF l(2)] ..
qed

text \<open>The families have different bits in their types.\<close>

abbreviation (input) family :: "u32 \<Rightarrow> u32" where "family ty \<equiv> ty AND 0x8800000"

lemma auth_family: "auth_make own ty buf n \<noteq> None \<Longrightarrow> family ty = 0"
  by (auto simp: auth_make_def auth_types split: if_splits)

lemma track_family: "track_make conv alloc own ty buf n \<noteq> None \<Longrightarrow> family ty = 0x8000000"
  by (auto simp: track_make_def track_codes split: if_splits)

lemma marker_family: "marker_make own ty buf n \<noteq> None \<Longrightarrow> family ty = 0x800000"
  by (auto simp: marker_make_def marker_codes split: if_splits)

lemma vault_family: "auth_make own VAULT_PASSTHRU = (\<lambda>buf n. None)" "auth_make own (VAULT_PASSTHRU OR FROM_SERVER) = (\<lambda>buf n. None)"
  "track_make conv alloc own VAULT_PASSTHRU = (\<lambda>buf n. None)" "track_make conv alloc own (VAULT_PASSTHRU OR FROM_SERVER) = (\<lambda>buf n. None)"
  "marker_make own VAULT_PASSTHRU = (\<lambda>buf n. None)" "marker_make own (VAULT_PASSTHRU OR FROM_SERVER) = (\<lambda>buf n. None)"
  "VAULT_PASSTHRU \<noteq> VAULT_PASSTHRU OR FROM_SERVER"
proof -
  show "auth_make own VAULT_PASSTHRU = (\<lambda>buf n. None)" "auth_make own (VAULT_PASSTHRU OR FROM_SERVER) = (\<lambda>buf n. None)"
    unfolding auth_make_def by (simp_all add: auth_types VAULT_PASSTHRU_def)
  have f: "family VAULT_PASSTHRU = 0" "family (VAULT_PASSTHRU OR FROM_SERVER) = 0"
    by (simp_all add: VAULT_PASSTHRU_def FROM_SERVER_def)
  show "track_make conv alloc own VAULT_PASSTHRU = (\<lambda>buf n. None)" "track_make conv alloc own (VAULT_PASSTHRU OR FROM_SERVER) = (\<lambda>buf n. None)"
    using track_family f by (intro ext; fastforce)+
  show "marker_make own VAULT_PASSTHRU = (\<lambda>buf n. None)" "marker_make own (VAULT_PASSTHRU OR FROM_SERVER) = (\<lambda>buf n. None)"
    using marker_family f by (intro ext; fastforce)+
qed (simp add: VAULT_PASSTHRU_def FROM_SERVER_def)

lemma track_not_auth: "track_make conv alloc own ty = (\<lambda>buf n. Some (r buf n)) \<Longrightarrow> auth_make own' ty buf n = None"
  using track_family [of conv alloc own ty buf n] auth_family [of own' ty buf n] by fastforce

lemma marker_not_others: "marker_make own ty = (\<lambda>buf n. Some (r buf n)) \<Longrightarrow>
    auth_make own' ty buf n = None \<and> track_make conv alloc own' ty buf n = None"
  using marker_family [of own ty buf n] track_family [of conv alloc own' ty buf n] auth_family [of own' ty buf n] by fastforce

text \<open>A class of one of the families, then the two kinds of vault messages.\<close>

lemma family_arrives:
  assumes "arrives m fill read same" and "fill = Inr cs"
    and made: "\<And>id1 id2 rest. m_header m = setup_header (m_type m) id1 id2 (length (content cs)) \<Longrightarrow>
      BackendMessage_make conv alloc own (m_header m @ content cs @ rest) =
      made_by f (16 + int (length (content cs))) (read (m_header m @ content cs @ rest) (16 + int (length (content cs))))"
  shows "\<exists>m'. BackendMessage_make conv alloc own (m_header m @ content cs @ rest) =
      Inr (Made (16 + int (length (content cs))) (lift_message f m')) \<and>
    m_type m' = m_type m \<and> m_header m' = m_header m \<and> same (m_body m) (m_body m')"
proof -
  from assms(1,2) obtain id1 id2 m' where h: "m_header m = setup_header (m_type m) id1 id2 (length (content cs))"
    and r: "read (m_header m @ content cs @ rest) (16 + int (length (content cs))) = Inr m'"
      "m_type m' = m_type m \<and> m_header m' = m_header m \<and> same (m_body m) (m_body m')"
    unfolding arrives_def by (metis sum.inject(2))
  from made [OF h] r show ?thesis by (auto simp: made_by_def)
qed

lemma wire_lift: "wire conv alloc (lift_message f m) = (case bm_fill conv alloc (lift_message f m) of Inl _ \<Rightarrow> [] | Inr cs \<Rightarrow> m_header m @ content cs)"
  unfolding wire_def lift_simps ..

lemma vault_wire:
  assumes "m_header m @ content cs = passed id1 id2 s (content cs)" and "vault_fill conv alloc (m_type m) (m_body m) = Inr cs"
  shows "wire conv alloc (lift_message Vault m) = passed id1 id2 s (content cs)"
  using assms by (simp add: wire_lift bm_fill_def)

lemma passed_eqs:
  "passed id1 id2 True cm @ rest = setup_header VAULT_PASSTHRU id1 id2 (length cm) @ cm @ rest"
  "passed id1 id2 False cm @ rest = setup_header (VAULT_PASSTHRU OR FROM_SERVER) id1 id2 (length cm) @ cm @ rest"
  by (simp_all add: passed_def server_bit_def)

lemma passed_make:
  assumes "length cm + 16 < 2 ^ 31"
  shows "BackendMessage_make conv alloc own (passed id1 id2 True cm @ rest) =
      rbind (VaultPassthrough_make own (passed id1 id2 True cm @ rest) (16 + int (length cm))) (\<lambda>r. case r of
        Some m \<Rightarrow> Inr (Made (16 + int (length cm)) (lift_message Vault m)) | None \<Rightarrow> Inr (Unknown_Message (passed id1 id2 True cm @ rest)))"
    and "BackendMessage_make conv alloc own (passed id1 id2 False cm @ rest) =
      made_by Vault (16 + int (length cm)) (VaultPassthrough_read False own (passed id1 id2 False cm @ rest) (16 + int (length cm)))"
  unfolding passed_eqs by (simp_all add: make_unfold [OF assms] Let_def vault_family)

lemma reply_arrives:
  assumes "6 \<le> length cm" and "length cm + 16 < 2 ^ 31"
  shows "\<exists>v. BackendMessage_make conv alloc own (passed id1 id2 False cm @ rest) =
      Inr (Made (16 + int (length cm)) \<lparr>m_type = VAULT_PASSTHRU OR FROM_SERVER, m_header = take 16 (passed id1 id2 False cm),
        m_body = Vault (VaultPassthrough v)\<rparr>) \<and> VaultPassthrough_fill v = Inr [Many cm]"
  using reply_passed_lem [OF assms(1), of own id1 id2 rest] assms(2)
  by (auto simp: passed_make(2) [OF assms(2)] made_by_def lift_message_def)

lemma sent_arrives:
  assumes "sent conv alloc m" and "length (wire conv alloc m) < 2 ^ 31"
  shows "\<exists>m'. BackendMessage_make conv alloc own (wire conv alloc m @ rest) = Inr (Made (int (length (wire conv alloc m))) m') \<and>
    m_header m' = m_header m \<and> same_message conv alloc m m'"
  using assms
proof cases
  case (auth b)
  obtain read where r: "auth_make own (m_type b) = (\<lambda>buf n. Some (read buf n))" "arrives b (auth_fill conv alloc (m_body b)) read same_auth"
    using auth_sent_arrives [OF auth(2)] by blast
  obtain cs id1 id2 where cs: "auth_fill conv alloc (m_body b) = Inr cs" "m_header b = setup_header (m_type b) id1 id2 (length (content cs))"
    using r(2) unfolding arrives_def by blast
  have w: "wire conv alloc (lift_message Auth b) = m_header b @ content cs" using cs(1) by (simp add: wire_lift bm_fill_def)
  have l: "length (content cs) + 16 < 2 ^ 31" using assms(2) cs(2) by (simp add: w auth(1))
  from family_arrives [OF r(2) cs(1), of conv alloc own Auth rest] make_unfold [OF l, of conv alloc own]
  show ?thesis using r(1) cs(2) by (auto simp: w auth(1) same_message_def Let_def)
next
  case (track b)
  obtain read where r: "track_make conv alloc own (m_type b) = (\<lambda>buf n. Some (read buf n))"
    "arrives b (track_fill conv alloc (m_type b) (m_body b)) read same_track"
    using track_sent_arrives [OF track(2)] by blast
  obtain cs id1 id2 where cs: "track_fill conv alloc (m_type b) (m_body b) = Inr cs" "m_header b = setup_header (m_type b) id1 id2 (length (content cs))"
    using r(2) unfolding arrives_def by blast
  have w: "wire conv alloc (lift_message Track b) = m_header b @ content cs" using cs(1) by (simp add: wire_lift bm_fill_def)
  have l: "length (content cs) + 16 < 2 ^ 31" using assms(2) cs(2) by (simp add: w track(1))
  from family_arrives [OF r(2) cs(1), of conv alloc own Track rest] make_unfold [OF l, of conv alloc own]
  show ?thesis using r(1) cs(2) track_not_auth [OF r(1)] by (auto simp: w track(1) same_message_def Let_def)
next
  case (marker b)
  obtain read where r: "marker_make own (m_type b) = (\<lambda>buf n. Some (read buf n))"
    "arrives b (marker_fill conv alloc (m_body b)) read same_marker"
    using marker_sent_arrives [OF marker(2)] by blast
  obtain cs id1 id2 where cs: "marker_fill conv alloc (m_body b) = Inr cs" "m_header b = setup_header (m_type b) id1 id2 (length (content cs))"
    using r(2) unfolding arrives_def by blast
  have w: "wire conv alloc (lift_message Marker b) = m_header b @ content cs" using cs(1) by (simp add: wire_lift bm_fill_def)
  have l: "length (content cs) + 16 < 2 ^ 31" using assms(2) cs(2) by (simp add: w marker(1))
  from family_arrives [OF r(2) cs(1), of conv alloc own Marker rest] make_unfold [OF l, of conv alloc own]
  show ?thesis using r(1) cs(2) marker_not_others [OF r(1)] by (auto simp: w marker(1) same_message_def Let_def)
next
  case (request id1 id2 q)
  let ?b = "client_bytes q"
  have w: "wire conv alloc m = passed id1 id2 True ?b"
    unfolding request using vault_wire [of "VaultPassthrough_new id1 id2 ?b True" "[Many ?b]"] passed_is_sent by simp
  have l: "length ?b + 16 < 2 ^ 31" using client_size(2) [of q] by simp
  have h: "take 16 (passed id1 id2 True ?b) = m_header m"
    by (simp add: request passed_def VaultPassthrough_new_def pre_send_def)
  show ?thesis
    unfolding w passed_make(1) [OF l] request_arrives_lem rbind_Inr h
    by (auto simp: request same_message_def lift_message_def passed_is_sent VaultPassthrough_new_def pre_send_def server_bit_def
        passed_def VaultPassthrough_fill_def slice_def)
next
  case (reply cm id1 id2)
  have w: "wire conv alloc m = passed id1 id2 False cm"
    unfolding reply using vault_wire [of "VaultPassthrough_new id1 id2 cm False" "[Many cm]"] passed_is_sent by simp
  have l: "length cm + 16 < 2 ^ 31" using assms(2) by (simp add: w passed_def)
  have h: "take 16 (passed id1 id2 False cm) = m_header m"
    by (simp add: reply passed_def VaultPassthrough_new_def pre_send_def)
  from reply_arrives [OF reply(2) l, of conv alloc own id1 id2 rest] show ?thesis
    unfolding w h using vault_family(7) passed_is_sent(2) [of conv alloc "m_type m" id1 id2 cm False]
    by (auto simp: reply same_message_def VaultPassthrough_new_def pre_send_def server_bit_def passed_def)
next
  case (node id1 id2 r n b)
  obtain cs where cs: "vault_fill conv alloc (m_type b) (m_body b) = Inr cs" "m_header b @ content cs = passed id1 id2 False (content cs)"
    "6 \<le> length (content cs)"
    using node_reply_length [OF node(3,4,5), of id1 id2 r conv alloc] node(2) by auto
  have ty: "m_type b = VAULT_PASSTHRU OR FROM_SERVER"
    using node(2) by (auto simp: VaultNodeFetch_From_new_def pre_send_def Let_def split: option.splits)
  have w: "wire conv alloc m = passed id1 id2 False (content cs)" unfolding node(1) by (rule vault_wire [OF cs(2,1)])
  have l: "length (content cs) + 16 < 2 ^ 31" using assms(2) by (simp add: w passed_def)
  have "length (m_header b) = 16" using cs(2) by (simp add: passed_def)
  then have h: "take 16 (passed id1 id2 False (content cs)) = m_header m" using cs(2) [symmetric] by (simp add: node(1))
  from reply_arrives [OF cs(3) l, of conv alloc own id1 id2 rest] show ?thesis
    unfolding w h using cs(1) vault_family(7) by (auto simp: node(1) same_message_def ty passed_def)
qed

end
