(* ===== verification/Backend_Class.thy ===== *)
theory Backend_Class
  imports Backend_Message
begin

text \<open>
  The handlers get a \<open>BackendMessage *\<close> and cast it to the class that belongs to the case of the \<open>switch\<close> they are
  in: \<open>handle_auth\<close>, \<open>handle_vault\<close>, \<open>handle_admin\<close>, \<open>handle_track\<close> and \<open>handle_marker\<close> of \<open>backend_all.cc\<close> on the
  type, \<open>message_read\<close> of \<open>AuthServer.cc\<close> and \<open>GameServer.cc\<close> on the type without the bit \<open>FROM_SERVER\<close>, and
  \<open>MarkerGameMgr::process_backend_message\<close> (\<open>GameState.cc\<close>) on the type.  A wrong cast reads memory that the object
  does not have.
\<close>

text \<open>The cases that cast, and for each class those in which a message is taken for one of it.\<close>

definition backend_cases :: "u32 list" where
  "backend_cases = [AUTH_ACCT_LOGIN, AUTH_KI_VALIDATE, AUTH_PLAYER_LOGOUT, AUTH_CHANGE_PASSWORD, VAULT_PLAYER_CREATE,
     VAULT_PLAYER_DELETE, VAULT_FETCHREFS, VAULT_FINDNODE, VAULT_FETCH, VAULT_SAVENODE, VAULT_CREATENODE, VAULT_ADDREF,
     VAULT_REMOVEREF, VAULT_INIT_AGE, VAULT_AGE_LIST, VAULT_SET_AGE_PUBLIC, VAULT_SCORE_GET, VAULT_SCORE_CREATE,
     VAULT_SCORE_ADD, VAULT_SCORE_XFER, VAULT_PASSTHRU, ADMIN_HELLO, TRACK_SERVICE_TYPES, TRACK_FIND_SERVICE,
     TRACK_START_GAME, TRACK_GAME_HELLO, TRACK_GAME_BYE, TRACK_FIND_GAME, TRACK_ADD_PLAYER, TRACK_GAME_PLAYERINFO,
     TRACK_INTERAGE_FWD, TRACK_NEXT_GAMEID, MARKER_NEWGAME, MARKER_ADD, MARKER_GAME_RENAME, MARKER_GAME_DELETE,
     MARKER_RENAME, MARKER_DELETE, MARKER_CAPTURE, MARKER_GAME_STOP]"

fun backend_cast :: "backend_body \<Rightarrow> u32 list" where
  "backend_cast (Auth b) = (case b of
       Hello _ \<Rightarrow> [ADMIN_HELLO]
     | AuthAcctLogin_To _ _ _ _ _ \<Rightarrow> [AUTH_ACCT_LOGIN]
     | AuthKIValidate_To _ _ \<Rightarrow> [AUTH_KI_VALIDATE]
     | AuthPlayerLogout _ \<Rightarrow> [AUTH_PLAYER_LOGOUT]
     | AuthChangePassword_To _ _ _ _ \<Rightarrow> [AUTH_CHANGE_PASSWORD]
     | VaultPlayerCreate_To _ _ _ _ \<Rightarrow> [VAULT_PLAYER_CREATE]
     | VaultPlayerDelete_To _ _ \<Rightarrow> [VAULT_PLAYER_DELETE]
     | _ \<Rightarrow> [])"
| "backend_cast (Track b) = (case b of
       TrackServiceTypes _ _ _ _ _ _ _ _ _ \<Rightarrow> [TRACK_SERVICE_TYPES]
     | TrackFindService_To _ _ _ \<Rightarrow> [TRACK_FIND_SERVICE]
     | TrackStartAge_To _ _ \<Rightarrow> [TRACK_START_GAME]
     | TrackGameHello _ _ _ \<Rightarrow> [TRACK_GAME_HELLO]
     | TrackGameBye_To _ \<Rightarrow> [TRACK_GAME_BYE]
     | TrackAgeRequest_To _ _ _ \<Rightarrow> [TRACK_FIND_GAME]
     | TrackAddPlayer_To _ _ \<Rightarrow> [TRACK_ADD_PLAYER]
     | TrackGamePlayerInfo _ _ \<Rightarrow> [TRACK_GAME_PLAYERINFO]
     | TrackMsgForward _ _ _ \<Rightarrow> [TRACK_INTERAGE_FWD]
     | TrackNextGameID _ _ \<Rightarrow> [TRACK_NEXT_GAMEID]
     | _ \<Rightarrow> [])"
| "backend_cast (Marker b) = (case b of
       MarkerGetGame _ _ _ _ _ _ \<Rightarrow> [MARKER_NEWGAME]
     | MarkerAdd _ _ _ _ _ \<Rightarrow> [MARKER_ADD]
     | MarkerGameRename _ _ _ \<Rightarrow> [MARKER_GAME_RENAME]
     | MarkerGameDelete _ _ \<Rightarrow> [MARKER_GAME_DELETE]
     | MarkerGameRenameMarker _ _ _ _ \<Rightarrow> [MARKER_RENAME]
     | MarkerGameDeleteMarker _ _ _ \<Rightarrow> [MARKER_DELETE]
     | MarkerGameCaptureMarker _ _ _ _ _ \<Rightarrow> [MARKER_CAPTURE]
     | MarkerGameStop _ _ _ \<Rightarrow> [MARKER_GAME_STOP]
     | _ \<Rightarrow> [])"
| "backend_cast (Vault b) = VAULT_PASSTHRU # (case b of
       VaultFetchRefs_To _ _ _ \<Rightarrow> [VAULT_FETCHREFS]
     | VaultNode_To _ _ _ _ _ \<Rightarrow> [VAULT_FINDNODE, VAULT_SAVENODE, VAULT_CREATENODE]
     | VaultNodeFetch_To _ _ _ \<Rightarrow> [VAULT_FETCH]
     | VaultRefChange_To _ _ _ _ _ \<Rightarrow> [VAULT_ADDREF, VAULT_REMOVEREF]
     | VaultInitAge_To _ _ _ _ _ _ _ _ _ _ \<Rightarrow> [VAULT_INIT_AGE]
     | VaultAgeList_To _ _ _ \<Rightarrow> [VAULT_AGE_LIST]
     | VaultSetAgePublic _ _ _ \<Rightarrow> [VAULT_SET_AGE_PUBLIC]
     | VaultScoreGet_To _ _ _ _ \<Rightarrow> [VAULT_SCORE_GET]
     | VaultScoreCreate _ _ _ _ _ _ \<Rightarrow> [VAULT_SCORE_CREATE]
     | VaultScoreAddPoints _ _ _ _ \<Rightarrow> [VAULT_SCORE_ADD]
     | VaultScoreXferPoints _ _ _ _ _ \<Rightarrow> [VAULT_SCORE_XFER]
     | _ \<Rightarrow> [])"

definition auth_cases :: "u32 list" where
  "auth_cases = [ADMIN_HELLO, ADMIN_KILL_CLIENT, AUTH_ACCT_LOGIN, AUTH_KI_VALIDATE, AUTH_CHANGE_PASSWORD, VAULT_PLAYER_CREATE,
     VAULT_PLAYER_DELETE, VAULT_PASSTHRU, TRACK_FIND_GAME]"

fun auth_cast :: "backend_body \<Rightarrow> u32 list" where
  "auth_cast (Auth b) = (case b of
       Hello _ \<Rightarrow> [ADMIN_HELLO]
     | KillClient _ _ \<Rightarrow> [ADMIN_KILL_CLIENT]
     | AuthAcctLogin_From _ _ _ _ _ _ \<Rightarrow> [AUTH_ACCT_LOGIN]
     | AuthKIValidate_From _ _ \<Rightarrow> [AUTH_KI_VALIDATE]
     | AuthChangePassword_From _ _ \<Rightarrow> [AUTH_CHANGE_PASSWORD]
     | VaultPlayerCreate_From _ _ _ _ _ _ \<Rightarrow> [VAULT_PLAYER_CREATE]
     | VaultPlayerDelete_From _ _ \<Rightarrow> [VAULT_PLAYER_DELETE]
     | _ \<Rightarrow> [])"
| "auth_cast (Track b) = (case b of TrackAgeRequest_From _ _ _ \<Rightarrow> [TRACK_FIND_GAME] | _ \<Rightarrow> [])"
| "auth_cast (Marker b) = []"
| "auth_cast (Vault b) = [VAULT_PASSTHRU]"

definition game_cases :: "u32 list" where
  "game_cases = [ADMIN_HELLO, ADMIN_KILL_CLIENT, TRACK_SDL_UPDATE, TRACK_ADD_PLAYER, TRACK_INTERAGE_FWD, TRACK_NEXT_GAMEID]"

fun game_cast :: "backend_body \<Rightarrow> u32 list" where
  "game_cast (Auth b) = (case b of Hello _ \<Rightarrow> [ADMIN_HELLO] | KillClient _ _ \<Rightarrow> [ADMIN_KILL_CLIENT] | _ \<Rightarrow> [])"
| "game_cast (Track b) = (case b of
       TrackSDLUpdate _ _ _ _ _ _ \<Rightarrow> [TRACK_SDL_UPDATE]
     | TrackAddPlayer_From _ _ _ \<Rightarrow> [TRACK_ADD_PLAYER]
     | TrackMsgForward _ _ _ \<Rightarrow> [TRACK_INTERAGE_FWD]
     | TrackNextGameID _ _ \<Rightarrow> [TRACK_NEXT_GAMEID]
     | _ \<Rightarrow> [])"
| "game_cast (Marker b) = []"
| "game_cast (Vault b) = []"

definition marker_cases :: "u32 list" where
  "marker_cases = map (\<lambda>t. t OR FROM_SERVER) [MARKER_NEWGAME, MARKER_DUMP, MARKER_STATE, MARKER_ADD, MARKER_GAME_RENAME,
     MARKER_GAME_DELETE, MARKER_RENAME, MARKER_DELETE, MARKER_CAPTURE]"

fun marker_cast :: "backend_body \<Rightarrow> u32 list" where
  "marker_cast (Marker b) = map (\<lambda>t. t OR FROM_SERVER) (case b of
       MarkerGetGame _ _ _ _ _ _ \<Rightarrow> [MARKER_NEWGAME]
     | MarkersAll _ _ _ _ _ \<Rightarrow> [MARKER_DUMP]
     | MarkersAll_received _ _ _ _ \<Rightarrow> [MARKER_DUMP]
     | MarkersCaptured _ _ _ _ \<Rightarrow> [MARKER_STATE]
     | MarkersCaptured_received _ _ _ _ \<Rightarrow> [MARKER_STATE]
     | MarkerAdd _ _ _ _ _ \<Rightarrow> [MARKER_ADD]
     | MarkerGameRename _ _ _ \<Rightarrow> [MARKER_GAME_RENAME]
     | MarkerGameDelete _ _ \<Rightarrow> [MARKER_GAME_DELETE]
     | MarkerGameRenameMarker _ _ _ _ \<Rightarrow> [MARKER_RENAME]
     | MarkerGameDeleteMarker _ _ _ \<Rightarrow> [MARKER_DELETE]
     | MarkerGameCaptureMarker _ _ _ _ _ \<Rightarrow> [MARKER_CAPTURE]
     | MarkerGameStop _ _ _ \<Rightarrow> [])"
| "marker_cast _ = []"

section \<open>What the factory makes\<close>

lemma auth_body:
  "Hello_read buf n = Inr m \<Longrightarrow> \<exists>x0. m_body m = Hello x0"
  "KillClient_read buf n = Inr m \<Longrightarrow> \<exists>x0 x1. m_body m = KillClient x0 x1"
  "AuthAcctLogin_To_read own buf n = Inr m \<Longrightarrow> \<exists>x0 x1 x2 x3 x4. m_body m = AuthAcctLogin_To x0 x1 x2 x3 x4"
  "AuthAcctLogin_From_read buf n = Inr m \<Longrightarrow> \<exists>x0 x1 x2 x3 x4 x5. m_body m = AuthAcctLogin_From x0 x1 x2 x3 x4 x5"
  "AuthKIValidate_To_read buf n = Inr m \<Longrightarrow> \<exists>x0 x1. m_body m = AuthKIValidate_To x0 x1"
  "AuthKIValidate_From_read buf n = Inr m \<Longrightarrow> \<exists>x0 x1. m_body m = AuthKIValidate_From x0 x1"
  "AuthPlayerLogout_read buf n = Inr m \<Longrightarrow> \<exists>x0. m_body m = AuthPlayerLogout x0"
  "AuthChangePassword_To_read own buf n = Inr m \<Longrightarrow> \<exists>x0 x1 x2 x3. m_body m = AuthChangePassword_To x0 x1 x2 x3"
  "AuthChangePassword_From_read buf n = Inr m \<Longrightarrow> \<exists>x0 x1. m_body m = AuthChangePassword_From x0 x1"
  "VaultPlayerCreate_To_read own buf n = Inr m \<Longrightarrow> \<exists>x0 x1 x2 x3. m_body m = VaultPlayerCreate_To x0 x1 x2 x3"
  "VaultPlayerCreate_From_read own buf n = Inr m \<Longrightarrow> \<exists>x0 x1 x2 x3 x4 x5. m_body m = VaultPlayerCreate_From x0 x1 x2 x3 x4 x5"
  "VaultPlayerDelete_To_read buf n = Inr m \<Longrightarrow> \<exists>x0 x1. m_body m = VaultPlayerDelete_To x0 x1"
  "VaultPlayerDelete_From_read buf n = Inr m \<Longrightarrow> \<exists>x0 x1. m_body m = VaultPlayerDelete_From x0 x1"
  by (auto simp: Hello_read_def KillClient_read_def AuthAcctLogin_To_read_def AuthAcctLogin_From_read_def AuthKIValidate_To_read_def AuthKIValidate_From_read_def AuthPlayerLogout_read_def AuthChangePassword_To_read_def AuthChangePassword_From_read_def VaultPlayerCreate_To_read_def VaultPlayerCreate_From_read_def VaultPlayerDelete_To_read_def VaultPlayerDelete_From_read_def
      post_receive_def res_simps Let_def split: if_splits option.splits prod.splits)

lemma track_body:
  "TrackPing_read buf n = Inr m \<Longrightarrow> m_body m = TrackPing"
  "TrackDispatcherHello_read buf n = Inr m \<Longrightarrow> \<exists>x0. m_body m = TrackDispatcherHello x0"
  "TrackDispatcherBye_read buf n = Inr m \<Longrightarrow> m_body m = TrackDispatcherBye"
  "TrackServiceTypes_read own buf n = Inr m \<Longrightarrow> \<exists>x0 x1 x2 x3 x4 x5 x6 x7 x8. m_body m = TrackServiceTypes x0 x1 x2 x3 x4 x5 x6 x7 x8"
  "TrackFindService_To_read buf n = Inr m \<Longrightarrow> \<exists>x0 x1 x2. m_body m = TrackFindService_To x0 x1 x2"
  "TrackFindService_From_read conv alloc own buf n = Inr m \<Longrightarrow> \<exists>x0 x1 x2 x3 x4 x5 x6. m_body m = TrackFindService_From x0 x1 x2 x3 x4 x5 x6"
  "TrackGameHello_read buf n = Inr m \<Longrightarrow> \<exists>x0 x1 x2. m_body m = TrackGameHello x0 x1 x2"
  "TrackGameBye_To_read buf n = Inr m \<Longrightarrow> \<exists>x0. m_body m = TrackGameBye_To x0"
  "TrackGameBye_From_read buf n = Inr m \<Longrightarrow> m_body m = TrackGameBye_From"
  "TrackGamePlayerInfo_read buf n = Inr m \<Longrightarrow> \<exists>x0 x1. m_body m = TrackGamePlayerInfo x0 x1"
  "TrackMsgForward_read ty buf n = Inr m \<Longrightarrow> \<exists>x0 x1 x2. m_body m = TrackMsgForward x0 x1 x2"
  "TrackSDLUpdate_read buf n = Inr m \<Longrightarrow> \<exists>x0 x1 x2 x3 x4 x5. m_body m = TrackSDLUpdate x0 x1 x2 x3 x4 x5"
  "TrackNextGameID_read ty buf n = Inr m \<Longrightarrow> \<exists>x0 x1. m_body m = TrackNextGameID x0 x1"
  "TrackAgeRequest_To_read buf n = Inr m \<Longrightarrow> \<exists>x0 x1 x2. m_body m = TrackAgeRequest_To x0 x1 x2"
  "TrackAgeRequest_From_read buf n = Inr m \<Longrightarrow> \<exists>x0 x1 x2. m_body m = TrackAgeRequest_From x0 x1 x2"
  "TrackStartAge_From_read buf n = Inr m \<Longrightarrow> \<exists>x0 x1. m_body m = TrackStartAge_From x0 x1"
  "TrackStartAge_To_read buf n = Inr m \<Longrightarrow> \<exists>x0 x1. m_body m = TrackStartAge_To x0 x1"
  "TrackAddPlayer_From_read buf n = Inr m \<Longrightarrow> \<exists>x0 x1 x2. m_body m = TrackAddPlayer_From x0 x1 x2"
  "TrackAddPlayer_To_read buf n = Inr m \<Longrightarrow> \<exists>x0 x1. m_body m = TrackAddPlayer_To x0 x1"
  by (auto simp: TrackPing_read_def TrackDispatcherHello_read_def TrackDispatcherBye_read_def TrackServiceTypes_read_def TrackFindService_To_read_def TrackFindService_From_read_def TrackGameHello_read_def TrackGameBye_To_read_def TrackGameBye_From_read_def TrackGamePlayerInfo_read_def TrackMsgForward_read_def TrackSDLUpdate_read_def TrackNextGameID_read_def TrackAgeRequest_To_read_def TrackAgeRequest_From_read_def TrackStartAge_From_read_def TrackStartAge_To_read_def TrackAddPlayer_From_read_def TrackAddPlayer_To_read_def
      post_receive_def res_simps Let_def split: if_splits option.splits prod.splits)

lemma marker_body:
  "MarkerGetGame_read own ty buf n = Inr m \<Longrightarrow> \<exists>x0 x1 x2 x3 x4 x5. m_body m = MarkerGetGame x0 x1 x2 x3 x4 x5"
  "MarkerAdd_read own ty buf n = Inr m \<Longrightarrow> \<exists>x0 x1 x2 x3 x4. m_body m = MarkerAdd x0 x1 x2 x3 x4"
  "MarkersAll_read own buf n = Inr m \<Longrightarrow> \<exists>x0 x1 x2 x3. m_body m = MarkersAll_received x0 x1 x2 x3"
  "MarkersCaptured_read buf n = Inr m \<Longrightarrow> \<exists>x0 x1 x2 x3. m_body m = MarkersCaptured_received x0 x1 x2 x3"
  "MarkerGameRename_read own ty buf n = Inr m \<Longrightarrow> \<exists>x0 x1 x2. m_body m = MarkerGameRename x0 x1 x2"
  "MarkerGameDelete_read ty buf n = Inr m \<Longrightarrow> \<exists>x0 x1. m_body m = MarkerGameDelete x0 x1"
  "MarkerGameRenameMarker_read own ty buf n = Inr m \<Longrightarrow> \<exists>x0 x1 x2 x3. m_body m = MarkerGameRenameMarker x0 x1 x2 x3"
  "MarkerGameDeleteMarker_read ty buf n = Inr m \<Longrightarrow> \<exists>x0 x1 x2. m_body m = MarkerGameDeleteMarker x0 x1 x2"
  "MarkerGameCaptureMarker_read ty buf n = Inr m \<Longrightarrow> \<exists>x0 x1 x2 x3 x4. m_body m = MarkerGameCaptureMarker x0 x1 x2 x3 x4"
  "MarkerGameStop_read ty buf n = Inr m \<Longrightarrow> \<exists>x0 x1 x2. m_body m = MarkerGameStop x0 x1 x2"
  by (auto simp: MarkerGetGame_read_def MarkerAdd_read_def MarkersAll_read_def MarkersCaptured_read_def MarkerGameRename_read_def MarkerGameDelete_read_def MarkerGameRenameMarker_read_def MarkerGameDeleteMarker_read_def MarkerGameCaptureMarker_read_def MarkerGameStop_read_def Marker_read_def
      post_receive_def res_simps Let_def split: if_splits option.splits prod.splits)

lemma auth_type: "auth_make own ty buf n = Some (Inr m) \<Longrightarrow> read32 buf 4 = Inr ty \<Longrightarrow> m_type m = ty"
  by (auto simp: auth_make_def Hello_read_def KillClient_read_def AuthAcctLogin_To_read_def AuthAcctLogin_From_read_def AuthKIValidate_To_read_def AuthKIValidate_From_read_def AuthPlayerLogout_read_def AuthChangePassword_To_read_def AuthChangePassword_From_read_def VaultPlayerCreate_To_read_def VaultPlayerCreate_From_read_def VaultPlayerDelete_To_read_def VaultPlayerDelete_From_read_def
      post_receive_def res_simps Let_def split: if_splits)

lemma track_type: "track_make conv alloc own ty buf n = Some (Inr m) \<Longrightarrow> read32 buf 4 = Inr ty \<Longrightarrow> m_type m = ty"
  by (auto simp: track_make_def TrackPing_read_def TrackDispatcherHello_read_def TrackDispatcherBye_read_def TrackServiceTypes_read_def TrackFindService_To_read_def TrackFindService_From_read_def TrackGameHello_read_def TrackGameBye_To_read_def TrackGameBye_From_read_def TrackGamePlayerInfo_read_def TrackMsgForward_read_def TrackSDLUpdate_read_def TrackNextGameID_read_def TrackAgeRequest_To_read_def TrackAgeRequest_From_read_def TrackStartAge_From_read_def TrackStartAge_To_read_def TrackAddPlayer_From_read_def TrackAddPlayer_To_read_def
      post_receive_def res_simps Let_def split: if_splits)

lemma marker_type: "marker_make own ty buf n = Some (Inr m) \<Longrightarrow> m_type m = ty"
  by (auto simp: marker_make_def MarkerGetGame_read_def MarkerAdd_read_def MarkersAll_read_def MarkersCaptured_read_def MarkerGameRename_read_def MarkerGameDelete_read_def MarkerGameRenameMarker_read_def MarkerGameDeleteMarker_read_def MarkerGameCaptureMarker_read_def MarkerGameStop_read_def Marker_read_def
      post_receive_def res_simps Let_def split: if_splits)

lemmas vault_read_defs = VaultFetchRefs_To_read_def VaultNode_To_read_def VaultNodeFetch_To_read_def VaultRefChange_To_read_def
  VaultNodeSend_read_def VaultInitAge_To_read_def VaultAgeList_To_read_def VaultSetAgePublic_read_def VaultScoreGet_To_read_def
  VaultScoreCreate_read_def VaultScoreAddPoints_read_def VaultScoreXferPoints_read_def

lemma vault_body:
  "VaultPassthrough_make own buf n = Inr (Some m) \<Longrightarrow> m_type m = VAULT_SENDNODE \<or> m_type m \<in> set (backend_cast (Vault (m_body m)))"
  by (auto simp: VaultPassthrough_make_def vault_read_defs Vault_read_def res_simps Let_def split: if_splits)

lemma passthrough_body:
  "VaultPassthrough_read s own buf n = Inr m \<Longrightarrow> m_type m = VAULT_PASSTHRU OR server_bit (\<not> s) \<and> (\<exists>v. m_body m = VaultPassthrough v)"
  by (auto simp: VaultPassthrough_read_def post_receive_def res_simps)

text \<open>A message and the family it comes from.\<close>

lemma made_by_family:
  assumes "BackendMessage_make conv alloc own buf = Inr (Made n m)"
  obtains (auth) r where "auth_make own (m_type m) buf n = Some (Inr r)" "m = lift_message Auth r"
  | (track) r where "track_make conv alloc own (m_type m) buf n = Some (Inr r)" "m = lift_message Track r"
  | (marker) r where "marker_make own (m_type m) buf n = Some (Inr r)" "m = lift_message Marker r"
  | (vault) r where "VaultPassthrough_make own buf n = Inr (Some r)" "m = lift_message Vault r" "read32 buf 4 = Inr VAULT_PASSTHRU"
  | (reply) v where "m_type m = VAULT_PASSTHRU OR FROM_SERVER" "m_body m = Vault (VaultPassthrough v)"
proof -
  obtain ty where ty: "read32 buf 4 = Inr ty"
    using assms by (auto simp: BackendMessage_make_def res_simps Let_def split: if_splits)
  have made: "\<exists>x. r = Inr x \<and> m = lift_message f x" if "made_by f k r = Inr (Made n m)" for f k and r :: "'a backend_message res"
    using that by (cases r) (auto simp: made_by_def)
  from assms consider (a) r where "auth_make own ty buf n = Some r" "made_by Auth n r = Inr (Made n m)"
    | (t) r where "track_make conv alloc own ty buf n = Some r" "made_by Track n r = Inr (Made n m)"
    | (k) r where "marker_make own ty buf n = Some r" "made_by Marker n r = Inr (Made n m)"
    | (p) "ty = VAULT_PASSTHRU OR FROM_SERVER" "made_by Vault n (VaultPassthrough_read False own buf n) = Inr (Made n m)"
    | (v) r where "ty = VAULT_PASSTHRU" "VaultPassthrough_make own buf n = Inr (Some r)" "m = lift_message Vault r"
    unfolding BackendMessage_make_def Let_def ty rbind_Inr
    by (auto simp: res_simps made_by_def split: if_splits option.splits)
  then show thesis
  proof cases
    case (a r)
    then obtain x where x: "r = Inr x" "m = lift_message Auth x" using made by blast
    then show thesis using auth [of x] a(1) auth_type [OF _ ty] by simp
  next
    case (t r)
    then obtain x where x: "r = Inr x" "m = lift_message Track x" using made by blast
    then show thesis using track [of x] t(1) track_type [OF _ ty] by simp
  next
    case (k r)
    then obtain x where x: "r = Inr x" "m = lift_message Marker x" using made by blast
    then show thesis using marker [of x] k(1) marker_type by simp
  next
    case p
    then obtain x where x: "VaultPassthrough_read False own buf n = Inr x" "m = lift_message Vault x" using made by blast
    then show thesis using reply passthrough_body [OF x(1)] by (auto simp: server_bit_def)
  next
    case (v r)
    then show thesis using vault ty by simp
  qed
qed

section \<open>The casts\<close>

lemmas vault_codes = VAULT_PASSTHRU_def VAULT_CREATENODE_def VAULT_FETCH_def VAULT_FETCHREFS_def VAULT_INIT_AGE_def VAULT_FINDNODE_def VAULT_SAVENODE_def VAULT_ADDREF_def VAULT_REMOVEREF_def VAULT_AGE_LIST_def VAULT_SCORE_CREATE_def VAULT_SCORE_GET_def VAULT_SCORE_ADD_def VAULT_SCORE_XFER_def VAULT_SENDNODE_def VAULT_SET_AGE_PUBLIC_def

lemmas all_codes = auth_types track_codes marker_codes vault_codes

text \<open>The types with which the factory makes a class.\<close>

abbreviation (input) both :: "u32 \<Rightarrow> u32 list" where
  "both ty \<equiv> [ty, ty OR FROM_SERVER]"

fun class_types :: "backend_body \<Rightarrow> u32 list" where
  "class_types (Auth b) = (case b of
       Hello _ \<Rightarrow> both ADMIN_HELLO
     | KillClient _ _ \<Rightarrow> [ADMIN_KILL_CLIENT OR FROM_SERVER]
     | AuthAcctLogin_To _ _ _ _ _ \<Rightarrow> [AUTH_ACCT_LOGIN]
     | AuthAcctLogin_From _ _ _ _ _ _ \<Rightarrow> [AUTH_ACCT_LOGIN OR FROM_SERVER]
     | AuthKIValidate_To _ _ \<Rightarrow> [AUTH_KI_VALIDATE]
     | AuthKIValidate_From _ _ \<Rightarrow> [AUTH_KI_VALIDATE OR FROM_SERVER]
     | AuthPlayerLogout _ \<Rightarrow> [AUTH_PLAYER_LOGOUT]
     | AuthChangePassword_To _ _ _ _ \<Rightarrow> [AUTH_CHANGE_PASSWORD]
     | AuthChangePassword_From _ _ \<Rightarrow> [AUTH_CHANGE_PASSWORD OR FROM_SERVER]
     | VaultPlayerCreate_To _ _ _ _ \<Rightarrow> [VAULT_PLAYER_CREATE]
     | VaultPlayerCreate_From _ _ _ _ _ _ \<Rightarrow> [VAULT_PLAYER_CREATE OR FROM_SERVER]
     | VaultPlayerDelete_To _ _ \<Rightarrow> [VAULT_PLAYER_DELETE]
     | VaultPlayerDelete_From _ _ \<Rightarrow> [VAULT_PLAYER_DELETE OR FROM_SERVER])"
| "class_types (Track b) = (case b of
       TrackPing \<Rightarrow> [TRACK_PING]
     | TrackDispatcherHello _ \<Rightarrow> [TRACK_DISPATCHER_HELLO]
     | TrackDispatcherBye \<Rightarrow> [TRACK_DISPATCHER_BYE]
     | TrackServiceTypes _ _ _ _ _ _ _ _ _ \<Rightarrow> [TRACK_SERVICE_TYPES]
     | TrackFindService_To _ _ _ \<Rightarrow> [TRACK_FIND_SERVICE]
     | TrackFindService_From _ _ _ _ _ _ _ \<Rightarrow> [TRACK_FIND_SERVICE OR FROM_SERVER]
     | TrackGameHello _ _ _ \<Rightarrow> [TRACK_GAME_HELLO]
     | TrackGameBye_To _ \<Rightarrow> [TRACK_GAME_BYE]
     | TrackGameBye_From \<Rightarrow> [TRACK_GAME_BYE OR FROM_SERVER]
     | TrackGamePlayerInfo _ _ \<Rightarrow> [TRACK_GAME_PLAYERINFO]
     | TrackMsgForward _ _ _ \<Rightarrow> both TRACK_INTERAGE_FWD
     | TrackSDLUpdate _ _ _ _ _ _ \<Rightarrow> [TRACK_SDL_UPDATE OR FROM_SERVER]
     | TrackNextGameID _ _ \<Rightarrow> both TRACK_NEXT_GAMEID
     | TrackAgeRequest_To _ _ _ \<Rightarrow> [TRACK_FIND_GAME]
     | TrackAgeRequest_From _ _ _ \<Rightarrow> [TRACK_FIND_GAME OR FROM_SERVER]
     | TrackStartAge_From _ _ \<Rightarrow> [TRACK_START_GAME OR FROM_SERVER]
     | TrackStartAge_To _ _ \<Rightarrow> [TRACK_START_GAME]
     | TrackAddPlayer_From _ _ _ \<Rightarrow> [TRACK_ADD_PLAYER OR FROM_SERVER]
     | TrackAddPlayer_To _ _ \<Rightarrow> [TRACK_ADD_PLAYER])"
| "class_types (Marker b) = (case b of
       MarkerGetGame _ _ _ _ _ _ \<Rightarrow> both MARKER_NEWGAME
     | MarkerAdd _ _ _ _ _ \<Rightarrow> both MARKER_ADD
     | MarkersAll _ _ _ _ _ \<Rightarrow> []
     | MarkersAll_received _ _ _ _ \<Rightarrow> [MARKER_DUMP OR FROM_SERVER]
     | MarkersCaptured _ _ _ _ \<Rightarrow> []
     | MarkersCaptured_received _ _ _ _ \<Rightarrow> [MARKER_STATE OR FROM_SERVER]
     | MarkerGameRename _ _ _ \<Rightarrow> both MARKER_GAME_RENAME
     | MarkerGameDelete _ _ \<Rightarrow> both MARKER_GAME_DELETE
     | MarkerGameRenameMarker _ _ _ _ \<Rightarrow> both MARKER_RENAME
     | MarkerGameDeleteMarker _ _ _ \<Rightarrow> both MARKER_DELETE
     | MarkerGameCaptureMarker _ _ _ _ _ \<Rightarrow> both MARKER_CAPTURE
     | MarkerGameStop _ _ _ \<Rightarrow> both MARKER_GAME_STOP)"
| "class_types (Vault b) = [VAULT_PASSTHRU, VAULT_PASSTHRU OR FROM_SERVER]"

lemma auth_class: "auth_make own ty buf n = Some (Inr r) \<Longrightarrow> ty \<in> set (class_types (Auth (m_body r)))"
  by (auto simp: auth_make_def dest!: auth_body split: if_splits)

lemma track_class: "track_make conv alloc own ty buf n = Some (Inr r) \<Longrightarrow> ty \<in> set (class_types (Track (m_body r)))"
  by (auto simp: track_make_def dest!: track_body split: if_splits)

lemma marker_class: "marker_make own ty buf n = Some (Inr r) \<Longrightarrow> ty \<in> set (class_types (Marker (m_body r)))"
  by (auto simp: marker_make_def dest!: marker_body split: if_splits)

text \<open>A handler that has a case for the type of a message takes it for a class that it has.\<close>

definition cast_right :: "u32 list \<Rightarrow> u32 list \<Rightarrow> u32 \<Rightarrow> bool" where
  "cast_right cases casts ty \<longleftrightarrow> (ty \<in> set cases \<longrightarrow> ty \<in> set casts)"

lemma auth_right:
  assumes "ty \<in> set (class_types (Auth b))"
  shows "cast_right backend_cases (backend_cast (Auth b)) ty"
    and "cast_right marker_cases (marker_cast (Auth b)) ty"
    and "ty AND FROM_SERVER \<noteq> 0 \<Longrightarrow> cast_right auth_cases (auth_cast (Auth b)) (ty AND NOT FROM_SERVER)"
    and "ty AND FROM_SERVER \<noteq> 0 \<Longrightarrow> cast_right game_cases (game_cast (Auth b)) (ty AND NOT FROM_SERVER)"
  using assms unfolding cast_right_def
  by (cases b; auto simp: backend_cases_def marker_cases_def auth_cases_def game_cases_def all_codes)+

lemma track_right:
  assumes "ty \<in> set (class_types (Track b))"
  shows "cast_right backend_cases (backend_cast (Track b)) ty"
    and "cast_right marker_cases (marker_cast (Track b)) ty"
    and "ty AND FROM_SERVER \<noteq> 0 \<Longrightarrow> cast_right auth_cases (auth_cast (Track b)) (ty AND NOT FROM_SERVER)"
    and "ty AND FROM_SERVER \<noteq> 0 \<Longrightarrow> cast_right game_cases (game_cast (Track b)) (ty AND NOT FROM_SERVER)"
  using assms unfolding cast_right_def
  by (cases b; auto simp: backend_cases_def marker_cases_def auth_cases_def game_cases_def all_codes)+

lemma marker_right:
  assumes "ty \<in> set (class_types (Marker b))"
  shows "cast_right backend_cases (backend_cast (Marker b)) ty"
    and "cast_right marker_cases (marker_cast (Marker b)) ty"
    and "ty AND FROM_SERVER \<noteq> 0 \<Longrightarrow> cast_right auth_cases (auth_cast (Marker b)) (ty AND NOT FROM_SERVER)"
    and "ty AND FROM_SERVER \<noteq> 0 \<Longrightarrow> cast_right game_cases (game_cast (Marker b)) (ty AND NOT FROM_SERVER)"
  using assms unfolding cast_right_def
  by (cases b; auto simp: backend_cases_def marker_cases_def auth_cases_def game_cases_def all_codes)+

lemma vault_right:
  assumes "ty = VAULT_SENDNODE \<or> ty \<in> set (backend_cast (Vault b))"
  shows "cast_right backend_cases (backend_cast (Vault b)) ty"
    and "cast_right marker_cases (marker_cast (Vault b)) ty" and "ty AND FROM_SERVER = 0"
proof -
  show "cast_right backend_cases (backend_cast (Vault b)) ty"
    using assms by (auto simp: cast_right_def backend_cases_def all_codes)
  show "cast_right marker_cases (marker_cast (Vault b)) ty" "ty AND FROM_SERVER = 0"
    using assms by (cases b; auto simp: cast_right_def marker_cases_def all_codes)+
qed

lemma reply_right:
  "cast_right backend_cases casts (VAULT_PASSTHRU OR FROM_SERVER)" "cast_right marker_cases casts (VAULT_PASSTHRU OR FROM_SERVER)"
  "cast_right game_cases casts ((VAULT_PASSTHRU OR FROM_SERVER) AND NOT FROM_SERVER)"
  "cast_right auth_cases (auth_cast (Vault b)) ((VAULT_PASSTHRU OR FROM_SERVER) AND NOT FROM_SERVER)"
  by (simp_all add: cast_right_def backend_cases_def marker_cases_def game_cases_def auth_cases_def all_codes)

text \<open>
  C5: No handler takes a message for a class it does not have: whatever bytes arrive, a message
  the factory makes of them is, in each case of the backend's handlers and of the marker games,
  of the class the case casts it to; in the auth and in the game server, if its type has the bit
  of a server.
\<close>

theorem handlers_cast_right:
  assumes "BackendMessage_make conv alloc own buf = Inr (Made n m)"
  shows "cast_right backend_cases (backend_cast (m_body m)) (m_type m) \<and>
    cast_right marker_cases (marker_cast (m_body m)) (m_type m) \<and>
    (m_type m AND FROM_SERVER \<noteq> 0 \<longrightarrow> cast_right auth_cases (auth_cast (m_body m)) (m_type m AND NOT FROM_SERVER) \<and>
      cast_right game_cases (game_cast (m_body m)) (m_type m AND NOT FROM_SERVER))"
  using assms
proof (cases rule: made_by_family)
  case (auth r)
  then have "m_body m = Auth (m_body r)" by simp
  then show ?thesis using auth_right [OF auth_class [OF auth(1)]] by simp
next
  case (track r)
  then have "m_body m = Track (m_body r)" by simp
  then show ?thesis using track_right [OF track_class [OF track(1)]] by simp
next
  case (marker r)
  then have "m_body m = Marker (m_body r)" by simp
  then show ?thesis using marker_right [OF marker_class [OF marker(1)]] by simp
next
  case (vault r)
  then have "m_body m = Vault (m_body r)" "m_type m = m_type r" by simp_all
  then show ?thesis using vault_right [OF vault_body [OF vault(1)]] by simp
next
  case (reply v)
  then show ?thesis using reply_right by simp
qed

theorem handlers_cast_right_witness:
  "\<exists>m. BackendMessage_make (\<lambda>_. None) (\<lambda>n. replicate n 0) False (setup_header AUTH_PLAYER_LOGOUT 1 2 4 @ bytes32 7) = Inr (Made 20 m) \<and>
     m_body m = Auth (AuthPlayerLogout 7) \<and> cast_right backend_cases (backend_cast (m_body m)) (m_type m)"
proof -
  have "BackendMessage_make (\<lambda>_. None) (\<lambda>n. replicate n 0) False (setup_header AUTH_PLAYER_LOGOUT 1 2 4 @ bytes32 7) =
    Inr (Made 20 (lift_message Auth (AuthPlayerLogout_new 1 2 7)))"
    using make_unfold [of "bytes32 7" "\<lambda>_. None" "\<lambda>n. replicate n 0" False AUTH_PLAYER_LOGOUT 1 2 "[]"]
    by (simp add: auth_dispatch AuthPlayerLogout_read_def post_receive_def made_by_def AuthPlayerLogout_new_def pre_send_def Let_def skip)
  from this handlers_cast_right [OF this] show ?thesis by (auto simp: AuthPlayerLogout_new_def pre_send_def)
qed

text \<open>
  Without the bit the auth server is wrong: what another server asks the backend has the type that, with the
  bit, the answer has, and is taken for it.
\<close>

lemma auth_server_misreads:
  "BackendMessage_make conv alloc own (setup_header AUTH_KI_VALIDATE id1 id2 20 @ replicate 16 u @ bytes32 ki) =
     Inr (Made 36 (lift_message Auth (pre_send AUTH_KI_VALIDATE id1 id2 20 (AuthKIValidate_To ki (replicate 16 u)))))"
  "\<not> cast_right auth_cases (auth_cast (Auth (AuthKIValidate_To ki (replicate 16 u)))) (AUTH_KI_VALIDATE AND NOT FROM_SERVER)"
proof -
  show "BackendMessage_make conv alloc own (setup_header AUTH_KI_VALIDATE id1 id2 20 @ replicate 16 u @ bytes32 ki) =
     Inr (Made 36 (lift_message Auth (pre_send AUTH_KI_VALIDATE id1 id2 20 (AuthKIValidate_To ki (replicate 16 u)))))"
    using make_unfold [of "replicate 16 u @ bytes32 ki" conv alloc own AUTH_KI_VALIDATE id1 id2 "[]"]
    by (simp add: auth_dispatch AuthKIValidate_To_read_def post_receive_def made_by_def pre_send_def Let_def skip)
qed (simp add: cast_right_def auth_cases_def all_codes)

end
