(* ===== verification/Backend_Link.thy ===== *)
theory Backend_Link
  imports Backend_Message Client_Session
begin

text \<open>
  A connection between two servers: the messages are queued at one end, written through vectors, and
  read at the other by the loop of \<open>serv_main\<close> with \<open>Server::BackendConnection::make_if_enough\<close>
  (\<open>moss_serv.cc\<close>).  Nothing on it is encrypted.

  \<open>own\<close> is the loop's \<open>become_owner\<close>.  The server's \<open>message_read\<close> is the argument \<open>h\<close>.
\<close>

section \<open>Framing\<close>

definition BackendConnection_make :: "iconv \<Rightarrow> (nat \<Rightarrow> byte list) \<Rightarrow> bool \<Rightarrow> 's \<Rightarrow> byte list \<Rightarrow> framed res" where
  "BackendConnection_make conv alloc own s buf =
     rbind (BackendMessage_make conv alloc own buf) (\<lambda>r. Inr (case r of
       Waiting want_len \<Rightarrow> Incomplete want_len
     | Made n m \<Rightarrow> Framed Backend n
     | Unknown_Message bs \<Rightarrow> Framed Unknown (len_of_buf bs)))"

definition backend_read :: "('s \<Rightarrow> byte list \<Rightarrow> 's \<times> reason_t) \<Rightarrow> 's \<Rightarrow> msg_kind \<Rightarrow> byte list \<Rightarrow> 's \<times> byte list option \<times> reason_t" where
  "backend_read h s k m = (case h s m of (s', r) \<Rightarrow> (s', None, r))"

text \<open>A message whose length fits the number in its header.\<close>

definition sendable :: "iconv \<Rightarrow> (nat \<Rightarrow> byte list) \<Rightarrow> backend_body backend_message \<Rightarrow> bool" where
  "sendable conv alloc m \<longleftrightarrow> sent conv alloc m \<and> length (wire conv alloc m) < 2 ^ 31"

definition stream_of :: "iconv \<Rightarrow> (nat \<Rightarrow> byte list) \<Rightarrow> backend_body backend_message list \<Rightarrow> byte list" where
  "stream_of conv alloc ms = concat (map (wire conv alloc) ms)"

definition in_flight :: "iconv \<Rightarrow> (nat \<Rightarrow> byte list) \<Rightarrow> byte list \<Rightarrow> bool" where
  "in_flight conv alloc buf \<longleftrightarrow> (\<exists>ms. list_all (sendable conv alloc) ms \<and> Sublist.prefix buf (stream_of conv alloc ms))"

lemma in_flight_prefix: "in_flight conv alloc (buf @ tail) \<Longrightarrow> in_flight conv alloc buf"
  unfolding in_flight_def by (meson append_prefixD)

lemma sent_wire:
  assumes "sent conv alloc m"
  obtains ty id1 id2 c where "wire conv alloc m = setup_header ty id1 id2 (length c) @ c"
    "m_header m = setup_header ty id1 id2 (length c)"
proof -
  have lifted: "\<exists>ty id1 id2 c. wire conv alloc (lift_message f b) = setup_header ty id1 id2 (length c) @ c \<and>
      m_header b = setup_header ty id1 id2 (length c)"
    if "bm_fill conv alloc (lift_message f b) = fill" "arrives b fill read same" for f b fill read same
    using that unfolding arrives_def wire_lift by force
  have passed: "\<exists>ty id1 id2 c. wire conv alloc m = setup_header ty id1 id2 (length c) @ c \<and>
      m_header m = setup_header ty id1 id2 (length c)"
    if "wire conv alloc m = passed id1 id2 s cm" "m_header m @ cs = passed id1 id2 s cm" "length (m_header m) = 16"
    for id1 id2 s cm cs
    using that unfolding passed_def by (intro exI [of _ "VAULT_PASSTHRU OR server_bit (\<not> s)"] exI [of _ id1]
      exI [of _ id2] exI [of _ cm]) (auto simp: append_eq_append_conv)
  from assms have "\<exists>ty id1 id2 c. wire conv alloc m = setup_header ty id1 id2 (length c) @ c \<and>
      m_header m = setup_header ty id1 id2 (length c)"
  proof cases
    case (auth b)
    obtain read where "arrives b (auth_fill conv alloc (m_body b)) read same_auth"
      using auth_sent_arrives [OF auth(2)] by blast
    from lifted [of Auth, OF _ this] show ?thesis by (simp add: auth(1) bm_fill_def)
  next
    case (track b)
    obtain read where "arrives b (track_fill conv alloc (m_type b) (m_body b)) read same_track"
      using track_sent_arrives [OF track(2)] by blast
    from lifted [of Track, OF _ this] show ?thesis by (simp add: track(1) bm_fill_def)
  next
    case (marker b)
    obtain read where "arrives b (marker_fill conv alloc (m_body b)) read same_marker"
      using marker_sent_arrives [OF marker(2)] by blast
    from lifted [of Marker, OF _ this] show ?thesis by (simp add: marker(1) bm_fill_def)
  next
    case (request id1 id2 q)
    have "wire conv alloc m = passed id1 id2 True (client_bytes q)"
      unfolding request using vault_wire [of "VaultPassthrough_new id1 id2 (client_bytes q) True" "[Many (client_bytes q)]"] passed_is_sent by simp
    from passed [OF this, of "client_bytes q"] show ?thesis using passed_is_sent(1) [of id1 id2 "client_bytes q" True]
      by (simp add: request) (simp add: VaultPassthrough_new_def pre_send_def)
  next
    case (reply cm id1 id2)
    have "wire conv alloc m = passed id1 id2 False cm"
      unfolding reply using vault_wire [of "VaultPassthrough_new id1 id2 cm False" "[Many cm]"] passed_is_sent by simp
    from passed [OF this, of cm] show ?thesis using passed_is_sent(1) [of id1 id2 cm False]
      by (simp add: reply) (simp add: VaultPassthrough_new_def pre_send_def)
  next
    case (node id1 id2 r n b)
    obtain cs where cs: "vault_fill conv alloc (m_type b) (m_body b) = Inr cs" "m_header b @ content cs = passed id1 id2 False (content cs)"
      using node_reply_length [OF node(3,4,5), of id1 id2 r conv alloc] node(2) by auto
    have "wire conv alloc m = passed id1 id2 False (content cs)" unfolding node(1) by (rule vault_wire [OF cs(2,1)])
    from passed [OF this, of "content cs"] show ?thesis using cs(2) by (auto simp: node(1) passed_def)
  qed
  then show thesis using that by blast
qed

text \<open>A part of the stream begins with a message or is the first part of one.\<close>

lemma in_flight_cases:
  assumes "in_flight conv alloc buf" and "buf \<noteq> []"
  obtains (whole) m rest where "sendable conv alloc m" "buf = wire conv alloc m @ rest" "in_flight conv alloc rest"
  | (part) m where "sendable conv alloc m" "length buf < length (wire conv alloc m)" "buf = take (length buf) (wire conv alloc m)"
proof -
  obtain ms where ms: "list_all (sendable conv alloc) ms" "Sublist.prefix buf (stream_of conv alloc ms)"
    using assms(1) by (auto simp: in_flight_def)
  then obtain m ns where m: "ms = m # ns" using assms(2) by (cases ms) (auto simp: stream_of_def)
  show thesis
  proof (cases "length (wire conv alloc m) \<le> length buf")
    case True
    from ms(2) obtain more where more: "wire conv alloc m @ stream_of conv alloc ns = buf @ more"
      by (auto simp: m stream_of_def Sublist.prefix_def)
    then obtain rest where "buf = wire conv alloc m @ rest" "stream_of conv alloc ns = rest @ more"
      using True by (auto simp: append_eq_append_conv2)
    then show thesis using ms(1) m by (intro whole [of m rest]) (auto simp: in_flight_def Sublist.prefix_def)
  next
    case False
    from ms(2) obtain more where "wire conv alloc m @ stream_of conv alloc ns = buf @ more"
      by (auto simp: m stream_of_def Sublist.prefix_def)
    then have "take (length buf) (wire conv alloc m @ stream_of conv alloc ns) = buf" by (metis append_eq_conv_conj)
    then show thesis using False ms(1) m by (intro part [of m]) auto
  qed
qed

lemma make_whole:
  assumes "sendable conv alloc m"
  shows "BackendConnection_make conv alloc own s (wire conv alloc m @ rest) = Inr (Framed Backend (int (length (wire conv alloc m))))"
  using sent_arrives [of conv alloc m own rest] assms by (auto simp: sendable_def BackendConnection_make_def)

lemma make_part:
  assumes "sendable conv alloc m" and "n < length (wire conv alloc m)"
  shows "BackendConnection_make conv alloc own s (take n (wire conv alloc m)) =
    Inr (Incomplete (if n < 4 then -1 else int (length (wire conv alloc m))))"
proof -
  obtain ty id1 id2 c where w: "wire conv alloc m = setup_header ty id1 id2 (length c) @ c"
    using assms(1) unfolding sendable_def by (meson sent_wire)
  show ?thesis
  proof (cases "n < 4")
    case True
    then show ?thesis using assms(2) by (simp add: BackendConnection_make_def BackendMessage_make_def)
  next
    case False
    then obtain more where more: "take n (wire conv alloc m) = bytes32 (of_nat (length c + 16)) @ more"
      by (simp add: w setup_header_def)
    have l: "length (wire conv alloc m) = length c + 16" "length c + 16 < 2 ^ 31"
      using assms(1) by (simp_all add: w sendable_def)
    have s: "sint (of_nat (length c + 16) :: u32) = int (length c + 16)" by (rule sint_small [OF l(2)])
    have r: "read32 (take n (wire conv alloc m)) 0 = Inr (of_nat (length c + 16))" unfolding more by simp
    have n: "length (take n (wire conv alloc m)) = n" using assms(2) by simp
    have "BackendMessage_make conv alloc own (take n (wire conv alloc m)) = Inr (Waiting (int (length c + 16)))"
      using False assms(2) l(1) unfolding BackendMessage_make_def r n s rbind_Inr Let_def by simp
    then show ?thesis using False l(1) by (simp add: BackendConnection_make_def)
  qed
qed

lemma make_empty: "BackendConnection_make conv alloc own s [] = Inr (Incomplete (-1))"
  by (simp add: BackendConnection_make_def BackendMessage_make_def)

lemma link_framer: "framer (BackendConnection_make conv alloc own s) (in_flight conv alloc)"
proof (rule framer.intro)
  fix buf more
  assume h: "in_flight conv alloc (buf @ more)" and d: "definite (BackendConnection_make conv alloc own s buf)"
  then have "buf \<noteq> []" by (auto simp: make_empty definite_def)
  with in_flight_prefix [OF h] show "BackendConnection_make conv alloc own s (buf @ more) = BackendConnection_make conv alloc own s buf"
  proof (cases rule: in_flight_cases)
    case (whole m rest)
    then show ?thesis
      using make_whole [OF whole(1), of own s rest] make_whole [OF whole(1), of own s "rest @ more"] by simp
  next
    case (part m)
    then show ?thesis using d make_part [OF part(1,2), of own s] by (simp add: definite_def)
  qed
next
  fix buf
  assume h: "in_flight conv alloc buf"
  show "BackendConnection_make conv alloc own s buf \<noteq> Inl Out_Of_Bounds"
  proof (cases "buf = []")
    case False
    from h this show ?thesis
    proof (cases rule: in_flight_cases)
      case (whole m rest)
      then show ?thesis using make_whole [OF whole(1), of own s rest] by simp
    next
      case (part m)
      then show ?thesis using make_part [OF part(1,2), of own s] by simp
    qed
  qed (simp add: make_empty)
next
  fix buf k n
  assume h: "in_flight conv alloc buf" and f: "BackendConnection_make conv alloc own s buf = Inr (Framed k n)"
  then have "buf \<noteq> []" by (auto simp: make_empty)
  with h show "n \<le> int (length buf)"
  proof (cases rule: in_flight_cases)
    case (whole m rest)
    then show ?thesis using f make_whole [OF whole(1), of own s rest] by simp
  next
    case (part m)
    then show ?thesis using f make_part [OF part(1,2), of own s] by simp
  qed
qed

lemma link_wants:
  assumes h: "in_flight conv alloc (buf @ tail)" and w: "BackendConnection_make conv alloc own s buf = Inr (Incomplete w)" "int BUFSIZE < w"
  shows "w < 2 ^ 31 \<and> int (length buf) < w \<and> (\<exists>k. BackendConnection_make conv alloc own s (buf @ tail) =
    (if int (length (buf @ tail)) < w then Inr (Incomplete w) else Inr (Framed k w)))"
proof -
  have ne: "buf \<noteq> []" using w by (auto simp: make_empty)
  then have "buf @ tail \<noteq> []" by simp
  with h show ?thesis
  proof (cases rule: in_flight_cases)
    case (whole m rest)
    have lt: "length buf < length (wire conv alloc m)"
    proof (rule ccontr)
      assume "\<not> ?thesis"
      moreover from whole(2) have "take (length (wire conv alloc m)) (buf @ tail) = wire conv alloc m" by simp
      ultimately obtain r where "buf = wire conv alloc m @ r" by (metis append_take_drop_id not_less take_append
        diff_is_0_eq take0 append_Nil2)
      then show False using w(1) make_whole [OF whole(1), of own s r] by simp
    qed
    then have "buf = take (length buf) (wire conv alloc m)" using whole(2) by (metis append_eq_conv_conj less_imp_le take_append take_all_iff append_Nil2 diff_is_0_eq take0)
    then have "w = int (length (wire conv alloc m))"
      using make_part [OF whole(1) lt, of own s] w by (auto split: if_splits)
    then show ?thesis using whole lt make_whole [OF whole(1), of own s rest] by (auto simp: sendable_def)
  next
    case (part m)
    have lt: "length buf < length (wire conv alloc m)" using part(2) by simp
    have "buf = take (length buf) (wire conv alloc m)" using arg_cong [OF part(3), of "take (length buf)"] by simp
    then have ww: "w = int (length (wire conv alloc m))"
      using make_part [OF part(1) lt, of own s] w by (auto split: if_splits)
    have "\<not> length buf < 4" using make_part [OF part(1) lt, of own s] w \<open>buf = _\<close> by (auto split: if_splits)
    then show ?thesis using ww part make_part [OF part(1,2), of own s] by (auto simp: sendable_def)
  qed
qed

lemma link_sized: "BackendConnection_make conv alloc own s buf = Inr (Incomplete w) \<Longrightarrow> int (length buf) < w \<or> length buf < 4"
  by (auto simp: BackendConnection_make_def BackendMessage_make_def made_by_def res_simps Let_def
      split: if_splits made.splits option.splits)

text \<open>So the messages are a stream the read loop can take apart.\<close>

interpretation backend_link: sized_class "\<lambda>_. False" "BackendConnection_make conv alloc own" "backend_read h"
  "\<lambda>_. in_flight conv alloc" "\<lambda>_. False" for conv alloc own and h :: "'s \<Rightarrow> byte list \<Rightarrow> 's \<times> reason_t"
proof (intro sized_class.intro client_class.intro sized_class_axioms.intro)
  fix s :: 's
  show "framer (BackendConnection_make conv alloc own s) (in_flight conv alloc)" by (rule link_framer)
  show "\<exists>w. BackendConnection_make conv alloc own s [] = Inr (Incomplete w)" by (simp add: make_empty)
  show "in_flight conv alloc []" by (auto simp: in_flight_def intro: exI [of _ "[]"])
qed (auto simp: backend_read_def dest: in_flight_prefix link_wants link_sized split: prod.splits)

section \<open>Reading\<close>

definition handle_all :: "('s \<Rightarrow> byte list \<Rightarrow> 's \<times> reason_t) \<Rightarrow> 's \<Rightarrow> byte list list \<Rightarrow> 's" where
  "handle_all h s bs = foldl (\<lambda>s b. fst (h s b)) s bs"

abbreviation link_parse where
  "link_parse conv alloc own h \<equiv> parse (\<lambda>_. False) (BackendConnection_make conv alloc own) (backend_read h) (\<lambda>_. in_flight conv alloc)"

lemma stream_simps [simp]: "stream_of conv alloc [] = []"
  "stream_of conv alloc (m # ms) = wire conv alloc m @ stream_of conv alloc ms"
  "stream_of conv alloc (ms @ ns) = stream_of conv alloc ms @ stream_of conv alloc ns"
  by (simp_all add: stream_of_def)

lemma wire_long: "sendable conv alloc m \<Longrightarrow> 16 \<le> length (wire conv alloc m)"
  unfolding sendable_def by (metis sent_wire length_append length_setup_header le_add1)

text \<open>Whole messages, and then a part of the next one.\<close>

lemma link_parses:
  assumes "list_all (sendable conv alloc) (ms @ ns)" and "\<And>s b. snd (h s b) = NO_SHUTDOWN"
    and part: "case ns of [] \<Rightarrow> part = [] | m # _ \<Rightarrow> length part < length (wire conv alloc m) \<and> part = take (length part) (wire conv alloc m)"
    and "stream_of conv alloc ms @ part \<noteq> []"
  shows "link_parse conv alloc own h s cr (stream_of conv alloc ms @ part) (map (\<lambda>m. (Backend, wire conv alloc m)) ms)
    (handle_all h s (map (wire conv alloc) ms)) cr part NO_SHUTDOWN"
  using assms(1,4)
proof (induction ms arbitrary: s)
  case Nil
  then obtain m ns' where ns: "ns = m # ns'" using part by (cases ns) auto
  have m: "sendable conv alloc m" "length part < length (wire conv alloc m)" "part = take (length part) (wire conv alloc m)"
    using Nil part ns by auto
  have "BackendConnection_make conv alloc own s part = Inr (Incomplete (if length part < 4 then -1 else int (length (wire conv alloc m))))"
    using make_part [OF m(1,2), of own s] m(3) by simp
  moreover have "in_flight conv alloc part"
    using m(1) take_is_prefix [of "length part" "wire conv alloc m"] m(3)
    by (auto simp: in_flight_def intro!: exI [of _ "[m]"])
  ultimately show ?case by (auto simp: handle_all_def open_crypt_def intro: parse.wait)
next
  case (Cons m ms)
  let ?w = "wire conv alloc m" and ?rest = "stream_of conv alloc ms @ part" and ?s1 = "fst (h s (wire conv alloc m))"
  have m: "sendable conv alloc m" and ms: "list_all (sendable conv alloc) (ms @ ns)" using Cons.prems by auto
  have l: "0 < length ?w" using wire_long [OF m] by linarith
  have f: "BackendConnection_make conv alloc own s (?w @ ?rest) = Inr (Framed Backend (int (length ?w)))" by (rule make_whole [OF m])
  have hd: "backend_read h s Backend ?w = (?s1, None, NO_SHUTDOWN)"
    using assms(2) [of s ?w] by (simp add: backend_read_def prod_eq_iff split: prod.splits)
  have fl: "in_flight conv alloc (?w @ ?rest)"
  proof -
    have "\<exists>x. stream_of conv alloc ns = part @ x"
      using part append_take_drop_id [of "length part" "wire conv alloc (hd ns)"]
      by (cases ns) (auto, metis append_assoc)
    then obtain x where "stream_of conv alloc (m # ms @ ns) = (?w @ ?rest) @ x" by auto
    then show ?thesis unfolding in_flight_def using Cons.prems(1) by (auto simp: Sublist.prefix_def intro!: exI [of _ "m # ms @ ns"])
  qed
  show ?case
  proof (cases "?rest = []")
    case True
    then have "ms = []" using ms wire_long by (cases ms) fastforce+
    with True l f hd fl show ?thesis
      by (auto simp: handle_all_def open_crypt_def apply_key_def
          intro!: parse.last [where n = "int (length ?w)" and key = None and cr' = cr])
  next
    case False
    from Cons.IH [OF ms False, of ?s1] l f hd fl False show ?thesis
      using parse.again [where n = "int (length ?w)" and key = None and cr' = cr and turn_on = "\<lambda>_. False" and s = s and cr = cr
          and buf = "?w @ ?rest" and buf' = "?w @ ?rest" and body = "BackendConnection_make conv alloc own" and handler = "backend_read h"
          and handled = "\<lambda>_. in_flight conv alloc" and k = Backend and ?s1.0 = ?s1 and ?cr1.0 = cr]
      by (simp add: handle_all_def open_crypt_def apply_key_def)
  qed
qed

section \<open>Writing\<close>

text \<open>The methods as the queue calls them; \<open>sub\<close> writes what is embedded in a message.\<close>

definition message_len :: "'a backend_message \<Rightarrow> nat" where
  "message_len m = (case read32 (m_header m) 0 of Inl _ \<Rightarrow> 0 | Inr w \<Rightarrow> unat w)"

definition BackendMessage_fill_iovecs ::
  "iconv \<Rightarrow> (nat \<Rightarrow> byte list) \<Rightarrow> iov_writer \<Rightarrow> backend_body backend_message \<Rightarrow> nat \<Rightarrow> nat \<Rightarrow> byte list list res" where
  "BackendMessage_fill_iovecs conv alloc sub m iov_ct start_at =
     bm_fill_iovecs (m_header m) (\<lambda>s ct. rbind (bm_fill conv alloc m) (\<lambda>cs. fill_iov sub cs s ct)) iov_ct start_at"

definition BackendMessage_written :: "backend_body backend_message \<Rightarrow> nat \<Rightarrow> nat \<Rightarrow> nat \<times> bool" where
  "BackendMessage_written m byte_ct start_at = bm_written (message_len m) byte_ct start_at"

definition BackendMessage_fill_buffer ::
  "iconv \<Rightarrow> (nat \<Rightarrow> byte list) \<Rightarrow> buf_writer \<Rightarrow> backend_body backend_message \<Rightarrow> nat \<Rightarrow> nat \<Rightarrow> (byte list \<times> bool) res" where
  "BackendMessage_fill_buffer conv alloc sub m len start_at =
     bm_fill_buffer (m_header m) (message_len m) (\<lambda>s room. rbind (bm_fill conv alloc m) (\<lambda>cs. fill_buf sub cs s room)) len start_at"

definition writable :: "iconv \<Rightarrow> (nat \<Rightarrow> byte list) \<Rightarrow> iov_writer \<Rightarrow> backend_body backend_message \<Rightarrow> bool" where
  "writable conv alloc sub m \<longleftrightarrow> sendable conv alloc m \<and>
     (case bm_fill conv alloc m of Inl _ \<Rightarrow> False | Inr cs \<Rightarrow> subs_ok (iov_writes sub) cs)"

lemma writable_wire:
  assumes "writable conv alloc sub m"
  obtains cs where "bm_fill conv alloc m = Inr cs" "wire conv alloc m = m_header m @ content cs" "length (m_header m) = 16"
    "message_len m = length (wire conv alloc m)" "length (wire conv alloc m) < 2 ^ 31" "subs_ok (iov_writes sub) cs"
proof -
  have s: "sent conv alloc m" "length (wire conv alloc m) < 2 ^ 31" using assms by (simp_all add: writable_def sendable_def)
  obtain cs where cs: "bm_fill conv alloc m = Inr cs" "subs_ok (iov_writes sub) cs"
    using assms by (auto simp: writable_def split: sum.splits)
  obtain ty id1 id2 c where w: "wire conv alloc m = setup_header ty id1 id2 (length c) @ c" "m_header m = setup_header ty id1 id2 (length c)"
    using s(1) by (rule sent_wire)
  have c: "wire conv alloc m = m_header m @ content cs" using cs(1) by (simp add: wire_def)
  moreover have "message_len m = length (wire conv alloc m)"
    using s(2) header_length [of ty id1 id2 "length c" "[]"] unat_of_nat_u32 [of "length c + 16"]
    by (simp add: message_len_def w del: of_nat_add)
  ultimately show thesis using that cs s(2) w(2) by simp
qed

interpretation bm: vector_class "wire conv alloc" "BackendMessage_fill_iovecs conv alloc sub" BackendMessage_written
  "writable conv alloc sub" for conv alloc sub
proof
  fix m
  assume "writable conv alloc sub m"
  then show "0 < length (wire conv alloc m) \<and> length (wire conv alloc m) < 2 ^ 31" by (rule writable_wire) auto
next
  fix m s ct
  assume m: "writable conv alloc sub m" and s: "s < length (wire conv alloc m)" "0 < (ct :: nat)"
  obtain cs where cs: "bm_fill conv alloc m = Inr cs" "wire conv alloc m = m_header m @ content cs" "length (m_header m) = 16"
    "message_len m = length (wire conv alloc m)" "length (wire conv alloc m) < 2 ^ 31" "subs_ok (iov_writes sub) cs"
    using writable_wire [OF m] .
  have "s < 16 + length (content cs)" using s(1) cs(2,3) by simp
  from bm_fill_iovecs_ok [OF cs(3) s(2) this cs(6)] show "\<exists>iov rest. BackendMessage_fill_iovecs conv alloc sub m ct s = Inr iov \<and> length iov \<le> ct \<and>
      drop s (wire conv alloc m) = concat iov @ rest \<and> (length iov < ct \<longrightarrow> rest = [])"
    unfolding BackendMessage_fill_iovecs_def cs(1,2) rbind_Inr by blast
next
  fix m s n
  assume m: "writable conv alloc sub m" and s: "s < length (wire conv alloc m)" "n < (2 :: nat) ^ 31"
  show "BackendMessage_written m n s = (if n + s < length (wire conv alloc m) then (0, False) else (n + s - length (wire conv alloc m), True))"
    using m
  proof (rule writable_wire)
    assume "message_len m = length (wire conv alloc m)" "length (wire conv alloc m) < 2 ^ 31"
    then show ?thesis unfolding BackendMessage_written_def using bm_written_ok [OF s(1) _ s(2)] by simp
  qed
qed

text \<open>
  The n-th time the socket is writable, \<open>writev\<close> takes at most the n-th of the numbers.  The result has the
  bytes that went out and the messages that were released.
\<close>

fun socket_writes ::
  "('m \<Rightarrow> nat \<Rightarrow> nat \<Rightarrow> (byte list \<times> bool) res) \<Rightarrow> ('m \<Rightarrow> nat \<Rightarrow> nat \<Rightarrow> byte list list res) \<Rightarrow>
   ('m \<Rightarrow> nat \<Rightarrow> nat \<Rightarrow> nat \<times> bool) \<Rightarrow> nat \<Rightarrow> connection \<Rightarrow> 'm entry list \<Rightarrow> nat list \<Rightarrow>
   (connection \<times> 'm entry list \<times> byte list \<times> 'm list) res" where
  "socket_writes fb fi wr iov_max c q [] = Inr (c, q, [], [])"
| "socket_writes fb fi wr iov_max c q (n # ns) =
     rbind (conn_write fb fi wr iov_max c q (\<lambda>offered. Wrote (min n (length offered)))) (\<lambda>(c, q, out, released, r).
     rbind (socket_writes fb fi wr iov_max c q ns) (\<lambda>(c, q, out', released').
     Inr (c, q, out @ out', released @ released')))"

context vector_class
begin

lemma conn_write_plain:
  assumes "queue_ok content ok q" and "fresh_tail q" and "\<not> m_is_encrypted (m_crypt c)" and "n < 2 ^ 31"
  shows "\<exists>q' out rel. conn_write fb fill_iovecs written iov_max c q (\<lambda>offered. Wrote (min n (length offered))) =
      Inr (c, q', out, rel, NO_SHUTDOWN) \<and> queue_ok content ok q' \<and> fresh_tail q' \<and>
    pending content q = out @ pending content q' \<and> map msg q = rel @ map msg q'"
proof -
  obtain vs rest where vs: "q_fill_iovecs fill_iovecs iov_max q [] = Inr vs" "pending content q = concat vs @ rest"
    using fill_iovecs_spec [OF assms(1), of "[]" iov_max] by auto
  let ?n = "min n (length (concat vs))"
  have "?n \<le> length (pending content q)" "?n < 2 ^ 31" using vs(2) assms(4) by auto
  from written_spec [OF assms(1) this] obtain q' rel where w: "q_iovecs_written_bytes written q ?n = (q', rel)"
    "queue_ok content ok q'" "pending content q' = drop ?n (pending content q)" "map msg q = rel @ map msg q'" by blast
  have "pending content q = take ?n (concat vs) @ pending content q'"
    using vs(2) w(3) append_take_drop_id [of ?n "pending content q"] by simp
  moreover have "fresh_tail q'" using fresh_tail_written [OF w(1) assms(2)] .
  moreover have "conn_write fb fill_iovecs written iov_max c q (\<lambda>offered. Wrote (min n (length offered))) =
      Inr (c, q', take ?n (concat vs), rel, NO_SHUTDOWN)"
  proof (cases "?n = 0")
    case True
    then have "q' = q" "rel = []" using w(1) by (cases q; simp)+
    with True vs(1) assms(3) show ?thesis by (simp add: conn_write_def)
  next
    case False
    then have "vs \<noteq> []" by auto
    with False show ?thesis
      unfolding conn_write_def if_not_P [OF assms(3)] vs(1) rbind_Inr if_P [OF \<open>vs \<noteq> []\<close>] write_result.case if_not_P [OF False] w(1)
      by simp
  qed
  ultimately show ?thesis using w(2,4) by blast
qed

lemma socket_writes_plain:
  assumes "queue_ok content ok q" and "fresh_tail q" and "\<not> m_is_encrypted (m_crypt c)" and "list_all (\<lambda>n. n < 2 ^ 31) ns"
  shows "\<exists>q' out rel. socket_writes fb fill_iovecs written iov_max c q ns = Inr (c, q', out, rel) \<and>
    queue_ok content ok q' \<and> fresh_tail q' \<and> pending content q = out @ pending content q' \<and> map msg q = rel @ map msg q'"
  using assms(1,2,4)
proof (induction ns arbitrary: q)
  case (Cons n ns)
  then have "n < 2 ^ 31" by simp
  from conn_write_plain [OF Cons.prems(1,2) assms(3) this, of fb iov_max] obtain q1 out rel where w:
    "conn_write fb fill_iovecs written iov_max c q (\<lambda>offered. Wrote (min n (length offered))) = Inr (c, q1, out, rel, NO_SHUTDOWN)"
    "queue_ok content ok q1" "fresh_tail q1" "pending content q = out @ pending content q1" "map msg q = rel @ map msg q1" by blast
  from Cons.IH [OF w(2,3)] Cons.prems(3) obtain q2 out2 rel2 where
    "socket_writes fb fill_iovecs written iov_max c q1 ns = Inr (c, q2, out2, rel2)" "queue_ok content ok q2" "fresh_tail q2"
    "pending content q1 = out2 @ pending content q2" "map msg q1 = rel2 @ map msg q2" by auto
  with w show ?case by simp
qed simp

end

section \<open>From one server to the other\<close>

lemma released_delivered:
  assumes "list_all (writable conv alloc sub) ms" and "list_all (\<lambda>n. n < 2 ^ 31) ns" and "alloc_ok mem"
    and "\<And>s b. snd (h s b) = NO_SHUTDOWN"
  shows "\<exists>c q out rel. socket_writes fb (BackendMessage_fill_iovecs conv alloc sub) BackendMessage_written iov_max
      (new_connection mem) (map Entry ms) ns = Inr (c, q, out, rel) \<and> ms = rel @ map msg q \<and>
    (q = [] \<longrightarrow> out = stream_of conv alloc ms) \<and>
    (\<exists>s' c' got left. socket_reads (\<lambda>_. False) (BackendConnection_make conv alloc own) (backend_read h) mem s (new_connection mem)
        out counts = Some (Inr (s', c', got, NO_SHUTDOWN, left)) \<and>
      Sublist.prefix got (map (\<lambda>m. (Backend, wire conv alloc m)) rel) \<and> suffix left out \<and>
      (left = [] \<longrightarrow> got = map (\<lambda>m. (Backend, wire conv alloc m)) rel \<and> s' = handle_all h s (map (wire conv alloc) rel)) \<and>
      (0 \<notin> set counts \<and> length out \<le> length counts \<longrightarrow> left = []))"
proof -
  note new = new_connection_ok [OF assms(3)]
  have q: "queue_ok (wire conv alloc) (writable conv alloc sub) (map Entry ms)"
    using assms(1) bm.queue_ok_Entry by (induction ms) (auto simp: queue_ok_def Entry_def)
  have fresh: "list_all (\<lambda>e. so_far e = 0) (map Entry ms)" by (simp add: list_all_iff Entry_def)
  have p: "pending (wire conv alloc) (map Entry ms) = stream_of conv alloc ms"
    using pending_fresh [OF fresh, of "wire conv alloc"] by (simp add: stream_of_def Entry_def comp_def)
  obtain q' out rel where w: "socket_writes fb (BackendMessage_fill_iovecs conv alloc sub) BackendMessage_written iov_max
      (new_connection mem) (map Entry ms) ns = Inr (new_connection mem, q', out, rel)"
    "queue_ok (wire conv alloc) (writable conv alloc sub) q'" "fresh_tail q'"
    "stream_of conv alloc ms = out @ pending (wire conv alloc) q'" "ms = rel @ map msg q'"
    using bm.socket_writes_plain [OF q fresh_tail_intro [OF fresh] _ assms(2), of "new_connection mem" fb iov_max] new(3,4) p
    by (auto simp: Entry_def comp_def)
  let ?part = "begun (wire conv alloc) q'"
  have "stream_of conv alloc ms = stream_of conv alloc rel @ ?part @ pending (wire conv alloc) q'"
    using begun_pending [OF w(3), of "wire conv alloc"] w(5) by (simp add: stream_of_def)
  then have out: "out = stream_of conv alloc rel @ ?part" using w(4) by simp
  have part: "case map msg q' of [] \<Rightarrow> ?part = [] | m # _ \<Rightarrow> length ?part < length (wire conv alloc m) \<and> ?part = take (length ?part) (wire conv alloc m)"
    using w(2) by (cases q') (auto simp: begun_def)
  have all: "list_all (sendable conv alloc) (rel @ map msg q')" using assms(1) w(5) by (auto simp: list_all_iff writable_def)
  have "backend_link.expects conv alloc own h s new_crypt [] out (map (\<lambda>m. (Backend, wire conv alloc m)) rel)
    (handle_all h s (map (wire conv alloc) rel)) new_crypt ?part"
  proof (cases "out = []")
    case True
    then have "rel = []" "?part = []" using out all wire_long by (cases rel; fastforce)+
    then show ?thesis using True by (simp add: backend_link.expects_def handle_all_def)
  next
    case False
    then show ?thesis
      using link_parses [where own = own and h = h and s = s and cr = new_crypt, OF all assms(4) part] out new(4)
      by (auto simp: backend_link.expects_def arrive_def)
  qed
  then have "backend_link.expects conv alloc own h s (m_crypt (new_connection mem)) (pend (new_connection mem)) out
    (map (\<lambda>m. (Backend, wire conv alloc m)) rel) (handle_all h s (map (wire conv alloc) rel)) new_crypt ?part"
    using new(2,3) by simp
  from backend_link.socket_reads_all [OF assms(3) new(1) _ this, of counts] new(3,4) w out show ?thesis by fastforce
qed

lemma fill_subs:
  "\<forall>bs. iov_writes sub bs \<Longrightarrow> bm_fill conv alloc m = Inr cs \<Longrightarrow> list_all (\<lambda>c. \<forall>bs. c \<noteq> Sub bs) cs \<Longrightarrow>
    sendable conv alloc m \<Longrightarrow> writable conv alloc sub m"
proof -
  have "subs_ok P cs" if "list_all (\<lambda>c. \<forall>bs. c \<noteq> Sub bs) cs" for P cs
    using that by (induction P cs rule: subs_ok.induct) auto
  then show "\<forall>bs. iov_writes sub bs \<Longrightarrow> bm_fill conv alloc m = Inr cs \<Longrightarrow> list_all (\<lambda>c. \<forall>bs. c \<noteq> Sub bs) cs \<Longrightarrow>
    sendable conv alloc m \<Longrightarrow> writable conv alloc sub m" by (simp add: writable_def)
qed


definition plain_sub :: iov_writer where
  "plain_sub bs s ct = Inr (if s < length bs then [drop s bs] else [])"

lemma plain_sub_writes: "iov_writes plain_sub bs"
  by (auto simp: iov_writes_def plain_sub_def intro!: exI [of _ "[]"])


end
