(* ===== verification/Spec2Isabelle.thy ===== *)
theory Spec2Isabelle
  imports Vault_Node Message_Queue Client_Framing Blue_Spiral Rc4 Pl_Key Wide_Name
    Var_Sync Timer_Queue Propagate_Buffer Client_Session Heek
    Backend_Class Backend_Link
begin

section \<open>MOSS: a server for Myst Online\<close>

text \<open>
  The program under \<open>src/\<close> is a set of servers for the game Uru.  Clients connect over TCP to four
  services: gatekeeper (where are the others?), file (downloads), auth (login, the vault, ages) and
  game (one per running instance of an age).  Every server is a \<open>Server\<close> whose thread runs
  \<open>serv_main\<close> (\<open>moss_serv.cc\<close>): a \<open>select\<close> loop that accepts sockets, reads bytes, has the connection
  make messages of them (\<open>make_if_enough\<close>), hands these to \<open>message_read\<close>, writes what is in each
  connection's queue, and lets timers expire.  The servers are clients of one backend with the
  database.

  \<^bold>\<open>Conventions.\<close>  Numbers have the width of the source's types; \<open>size_t\<close> and pointers are \<open>nat\<close>
  where no arithmetic can wrap.  A buffer is a list of bytes and is read and written with \<open>get8\<close>,
  \<open>slice\<close> and \<open>put\<close>, which give \<open>Inl Out_Of_Bounds\<close> for an access outside of it; the result type \<open>res\<close>
  is \<open>fault + 'a\<close> (\<open>Moss_Prelude\<close>), so exceptions of the source and its memory errors are values, and
  every theorem that says that a result is an \<open>Inr\<close> says that there is none.  Names are the
  source's.

  \<^bold>\<open>The theories, from the bottom.\<close>

  \<^item> \<open>Moss_Prelude\<close>, \<open>Wire\<close>: results, buffers, little-endian numbers (\<open>machine_arch.h\<close>).
  \<^item> \<open>Vault_Schema\<close>, \<open>Vault_Node\<close>: \<open>VaultNode.cc\<close>, the records of the vault: the tables of columns, the
    length check, the parser, the accessors and the writers that resume at an offset.  The theorems
    are the round trips, that the check protects the parser as long as lengths do not wrap, and
    what happens when they do.
  \<^item> \<open>Net_Message\<close>, \<open>Message_Queue\<close>: messages to clients (\<open>NetworkMessage.cc\<close> and its subclasses) and
    the queues of \<open>MessageQueue.cc\<close>.  \<open>message_class\<close> is the contract of the virtual functions of
    \<open>NetworkMessage\<close>, and \<open>vector_class\<close> its part for queues that are written through vectors; the queue's
    theorems use them only.  They show that the bytes on the wire are
    those of whole messages in a row.
  \<^item> \<open>Client_Framing\<close>: \<open>make_if_enough\<close> and \<open>check_useable\<close> of the messages from clients.  The
    contract \<open>framer\<close> says that more bytes do not change what was made of the first ones, and that
    nothing is read that has not arrived.
  \<^item> \<open>Rc4\<close>, \<open>Connection\<close>, \<open>Client_Session\<close>: the cipher (\<open>rc4.c\<close>), what the select loop does for a
    readable or writable socket, and the negotiation each session starts with.  \<open>parse\<close> is the
    specification of receiving: it has the bytes of the stream, but no buffers, offsets or reads;
    the locale \<open>client_class\<close> shows that the loop refines it.  \<open>encrypted_stream\<close> is about the other direction.
  \<^item> \<open>Uru_String\<close>, \<open>Wide_Name\<close>, \<open>Pl_Key\<close>: strings with their many representations (\<open>UruString.cc\<close>) and
    the keys that name objects (\<open>PlKey.cc\<close>).
  \<^item> \<open>Propagate_Buffer\<close>: the messages a game server passes on between clients (\<open>GameMessage.cc\<close>), how
    they are built, and the checks of their handlers (\<open>GameState.cc\<close>).
  \<^item> \<open>Game_Mgr\<close>, \<open>Blue_Spiral\<close>, \<open>Var_Sync\<close>: the managers of small games inside an age (\<open>GameState.cc\<close>).
    \<open>game_invariant\<close> and \<open>game_manager\<close> are what a manager promises to the game server; the
    theorems hold for any sequence of messages, departures and timeouts.
  \<^item> \<open>Timer_Queue\<close>: \<open>struct timeval\<close> (\<open>util.h\<close>) and \<open>TimerQueue\<close> (\<open>moss_serv.cc\<close>); \<open>std_heap\<close> is the
    contract of \<open>push_heap\<close> and \<open>pop_heap\<close>.
  \<^item> \<open>Heek\<close>: \<open>HeekGameMgr\<close> of \<open>GameState.cc\<close>, rock, paper, scissors for five: sitters in a memory with
    addresses, seats pointing to them, the states of a round, sudden death, the pool of points and the timers.
    A run is safe, conserves points, ends without messages, and decides rounds like a duel of each with each.
  \<^item> \<open>Text_Field\<close>, \<open>Backend_Writer\<close>: how the messages between the servers are written (\<open>BackendMessage.cc\<close>): the
    macros of \<open>fill_type\<close> as a list of chunks, strings in them, header, and the two ways to fill.
    \<open>arrives\<close> says that a message is made again of the bytes it was written as.
  \<^item> \<open>Backend_Auth\<close>, \<open>Backend_Track\<close>, \<open>Backend_Marker\<close>, \<open>Backend_Vault\<close>: the 57 classes, each with its
    constructors for sending and for receiving and its \<open>fill_type\<close>, the part of the factory for them, and
    the inductive set of the messages the servers send, all of which arrive.
  \<^item> \<open>Backend_Message\<close>, \<open>Backend_Class\<close>, \<open>Backend_Link\<close>: the factory; that no handler casts a message to a class
    it does not have; and a connection between two servers, from \<open>vector_class\<close> (the queue) to
    \<open>sized_class\<close> (the read loop for messages that tell their length): what has been released at one end has been
    delivered at the other.

  \<^bold>\<open>Parameters.\<close>  Code that is not under \<open>src/\<close> is an argument: \<open>iconv\<close> (it fills at most the room it
  is given), \<open>alloc\<close> (what fresh memory holds: so many bytes), zlib's \<open>compress\<close>, whether a
  \<open>std::vector\<close> moves when it grows, \<open>DH_compute_key\<close>, random numbers, what \<open>read\<close> and \<open>write\<close>
  return.  So are the virtual functions the receive loop calls and the normal processing of a
  session.  The configuration is the usual one: \<open>USING_DH\<close>, the \<open>rc4.c\<close> of the source instead of
  OpenSSL's, no \<open>DEBUG_ENABLE\<close>, no \<open>STANDALONE\<close>, a machine that may read at any address.

  \<^bold>\<open>Termination.\<close>  Loops are structural or have a measure, so there is no fuel; only the receive loop
  is a \<open>partial_function\<close>, because it need not end: \<open>zero_length_hangs\<close> shows how, and the theorems about
  received sessions that it ends whenever the specification has an answer.

  \<^bold>\<open>Not modelled.\<close>  The backend server (\<open>backend_all.cc\<close>, \<open>db_requests\<close>) is mostly SQL through
  libpqxx; its tables of servers and players are left out, too.  Threads, processes and signals (\<open>dispatcher.cc\<close>, \<open>moss_child.cc\<close>, \<open>ThreadManager.h\<close>), log output
  (\<open>Logger.cc\<close>), and the tools under \<open>support/\<close> and \<open>test/\<close> have no logic of the protocol.
  SDL, the marker, Climbing Wall and Tic-tac-toe games, object locks, file transfer, the
  configuration file and the table of accepted sockets are parts of their own that are left out; what is
  modelled does not depend on them, except through the parameters above.
\<close>

end
